(* ===== verification/Prelude.thy ===== *)
theory Prelude
  imports Main "HOL-Library.Word"
begin

text \<open>
  Shared vocabulary of the development: the machine integer types of the sources
  (\<open>unsigned int\<close>, \<open>uint8_t\<close>, \<open>uint64_t\<close>, \<open>ap_uint<N>\<close>), bit-range access as written
  \<open>x(hi,lo)\<close> in the HLS sources, rounding-up division, the cutting of a length into
  transfer-sized segments, and the lemma collections the component theories extend.
\<close>

unbundle bit_operations_syntax

type_synonym u8 = "8 word"
type_synonym u16 = "16 word"
type_synonym u32 = "32 word"
type_synonym u64 = "64 word"

named_theorems fw_run "equations that execute a firmware primitive on a state"
named_theorems range_simps "bit-range read and write"
named_theorems fsm_simps "one-step behaviour of the hardware state machines"

subsection \<open>Bit ranges\<close>

text \<open>\<open>get_range w hi lo\<close> reads \<open>w(hi,lo)\<close>; \<open>set_range w hi lo v\<close> is \<open>w(hi,lo) = v\<close>.\<close>

definition get_range :: "'a::len word \<Rightarrow> nat \<Rightarrow> nat \<Rightarrow> 'b::len word" where
  "get_range w hi lo = ucast (take_bit (Suc hi - lo) (drop_bit lo w))"

definition set_range :: "'a::len word \<Rightarrow> nat \<Rightarrow> nat \<Rightarrow> 'b::len word \<Rightarrow> 'a word" where
  "set_range w hi lo v =
     (w AND NOT (push_bit lo (mask (Suc hi - lo)))) OR push_bit lo (take_bit (Suc hi - lo) (ucast v))"

lemma bit_get_range:
  "bit (get_range w hi lo :: 'b::len word) n \<longleftrightarrow>
     n < LENGTH('b) \<and> n < Suc hi - lo \<and> bit (w :: 'a::len word) (lo + n)"
  by (auto simp: get_range_def bit_simps)

lemma bit_set_range:
  "bit (set_range (w :: 'a::len word) hi lo (v :: 'b::len word)) n \<longleftrightarrow>
     n < LENGTH('a) \<and>
     (if lo \<le> n \<and> n \<le> hi then bit v (n - lo) else bit w n)"
  by (auto simp: set_range_def bit_simps)

lemma get_set_range_same:
  fixes w :: "'a::len word" and v :: "'b::len word"
  assumes "hi < LENGTH('a)" and "Suc hi - lo = LENGTH('b)" and "lo \<le> hi"
  shows "get_range (set_range w hi lo v) hi lo = v"
proof (rule bit_word_eqI)
  fix n assume "n < LENGTH('b)"
  with assms show "bit (get_range (set_range w hi lo v) hi lo :: 'b word) n = bit v n"
    by (auto simp: bit_get_range bit_set_range)
qed

lemma get_set_range_other:
  fixes w :: "'a::len word" and v :: "'b::len word"
  assumes "hi < lo' \<or> hi' < lo"
  shows "(get_range (set_range w hi' lo' v) hi lo :: 'c::len word) = get_range w hi lo"
proof (rule bit_word_eqI)
  fix n assume "n < LENGTH('c)"
  with assms show "bit (get_range (set_range w hi' lo' v) hi lo :: 'c word) n
      = bit (get_range w hi lo :: 'c word) n"
    by (auto simp: bit_get_range bit_set_range dest: bit_imp_le_length)
qed

lemmas range_rw [range_simps] = get_set_range_same get_set_range_other

subsection \<open>Counting up to a bound\<close>

lemma unat_succ:
  fixes a b :: "'a::len word"
  assumes "a < b"
  shows "unat (a + 1) = Suc (unat a)"
proof -
  have "unat a < unat b" using assms by (simp add: word_less_nat_alt)
  moreover have "unat b < 2 ^ LENGTH('a)" by (rule unsigned_less)
  ultimately have "Suc (unat a) < 2 ^ LENGTH('a)" by linarith
  then show ?thesis by (simp add: unat_word_ariths)
qed

lemma unat_of_nat_le:
  fixes w :: "'a::len word"
  assumes "n \<le> unat w"
  shows "unat (of_nat n :: 'a word) = n"
proof -
  have "unat w < 2 ^ LENGTH('a)" by (rule unsigned_less)
  with assms have "n < 2 ^ LENGTH('a)" by linarith
  then show ?thesis by (simp add: unat_of_nat take_bit_nat_eq_self)
qed

lemma unat_of_nat_small: "n < 2 ^ 32 \<Longrightarrow> unat (of_nat n :: u32) = n"
  by (simp add: unat_of_nat take_bit_nat_eq_self)

subsection \<open>Segments of a transfer\<close>

text \<open>
  The firmware cuts \<open>len\<close> bytes into transactions of \<open>d\<close> bytes, the last one ragged:
  \<open>nsegs\<close> is their number and \<open>seg k\<close> the size of the \<open>k\<close>-th.
\<close>

definition nsegs :: "nat \<Rightarrow> nat \<Rightarrow> nat" where
  "nsegs d len = (len + d - 1) div d"

definition seg :: "nat \<Rightarrow> nat \<Rightarrow> nat \<Rightarrow> nat" where
  "seg d len k = min d (len - k * d)"

definition segs :: "nat \<Rightarrow> nat \<Rightarrow> nat list" where
  "segs d len = map (seg d len) [0..<nsegs d len]"

lemma length_segs [simp]: "length (segs d len) = nsegs d len"
  by (simp add: segs_def)

lemma nth_segs [simp]: "k < nsegs d len \<Longrightarrow> segs d len ! k = seg d len k"
  by (simp add: segs_def)

lemma nsegs_iff:
  assumes "0 < d"
  shows "k < nsegs d len \<longleftrightarrow> k * d < len"
proof -
  have "k < nsegs d len \<longleftrightarrow> Suc k \<le> (len + d - 1) div d"
    by (simp add: nsegs_def Suc_le_eq)
  also have "\<dots> \<longleftrightarrow> Suc k * d \<le> len + d - 1"
    using assms by (simp only: less_eq_div_iff_mult_less_eq)
  also have "\<dots> \<longleftrightarrow> k * d < len"
    using assms by auto
  finally show ?thesis .
qed

lemma seg_pos: "0 < d \<Longrightarrow> k < nsegs d len \<Longrightarrow> 0 < seg d len k"
  by (simp add: seg_def nsegs_iff)

lemma seg_le: "seg d len k \<le> d"
  by (simp add: seg_def)

lemma remaining_Suc: "len - k * d - seg d len k = len - Suc k * d"
  by (simp add: seg_def min_def) (simp add: algebra_simps)

lemma sum_seg: "(\<Sum>j<k. seg d len j) = min len (k * d)"
proof (induction k)
  case (Suc k)
  have "min len x + min d (len - x) = min len (d + x)" for x :: nat by arith
  with Suc show ?case by (simp add: seg_def)
qed simp

lemma sum_segs:
  assumes "0 < d"
  shows "sum_list (segs d len) = len"
proof -
  have "\<not> nsegs d len < nsegs d len" by simp
  then have "len \<le> nsegs d len * d" using assms by (simp only: nsegs_iff)
  then show ?thesis
    by (simp add: segs_def interv_sum_list_conv_sum_set_nat atLeast0LessThan sum_seg)
qed

lemma nsegs_0 [simp]: "0 < d \<Longrightarrow> nsegs d 0 = 0"
  using nsegs_iff [of d 0 0] by simp

end
