(* ===== verification/Fw_Monad.thy ===== *)
theory Fw_Monad
  imports Prelude
begin

text \<open>
  The execution model of the MicroBlaze firmware
  (\<open>kernel/fw/sw_apps/ccl_offload_control/src/ccl_offload_control.c\<close>): its static
  variables and the memory and streams it sees, the effect of the access macros of
  \<open>ccl_offload_control.h\<close>, and the control flow the C code uses (return, \<open>longjmp\<close> to the
  handler of \<open>main\<close>, undefined behaviour such as a division by zero, loops that never end).

  A computation maps a state to \<open>None\<close> when it never returns (a blocking \<open>getd\<close> on a stream
  that delivers nothing, an endless poll), and otherwise to an outcome and the new state.
  The hardware is not under \<open>src\<close>: what it delivers is part of the start state, namely for each
  input stream the words it will deliver, each with the number of test polls that still miss
  it, and for each peripheral register the values successive reads return (once they are used up,
  the value last written).  Every theorem quantifies over these.
\<close>

subsection \<open>State\<close>

datatype event =
    Put u32 u32       \<comment> \<open>\<open>putd(channel, value)\<close>\<close>
  | CPut u32 u32      \<comment> \<open>\<open>cputd(channel, value)\<close>, control bit set\<close>
  | Got u32 u32       \<comment> \<open>\<open>getd(channel)\<close> returned value\<close>
  | Wr u32 u32        \<comment> \<open>\<open>Xil_Out32(address, value)\<close>\<close>

record fw_state =
  mem :: "u32 \<Rightarrow> u32"
  reg_script :: "u32 \<Rightarrow> u32 list"
  stream_in :: "u32 \<Rightarrow> (nat \<times> u32) list"
  trace :: "event list"
  irqs :: "bool list"
  ie :: bool
  use_tcp :: u32
  dma_tag :: u32
  num_rx_enqueued :: u32
  timeout :: u32
  dma_tag_lookup :: "u32 list"
  dma_transaction_size :: u32
  max_dma_in_flight :: u32

datatype 'a outcome = Ret 'a | Longjmp u32 | Undef

type_synonym 'a fw = "fw_state \<Rightarrow> ('a outcome \<times> fw_state) option"

subsection \<open>Control flow\<close>

definition ret :: "'a \<Rightarrow> 'a fw" where
  "ret a s = Some (Ret a, s)"

definition longjmp :: "u32 \<Rightarrow> 'a fw" where
  "longjmp c s = Some (Longjmp c, s)"

definition undef :: "'a fw" where
  "undef s = Some (Undef, s)"

definition bnd :: "'a fw \<Rightarrow> ('a \<Rightarrow> 'b fw) \<Rightarrow> 'b fw" where
  "bnd m f s = (case m s of
      None \<Rightarrow> None
    | Some (r, s') \<Rightarrow>
        (case r of Ret a \<Rightarrow> f a s' | Longjmp c \<Rightarrow> Some (Longjmp c, s') | Undef \<Rightarrow> Some (Undef, s')))"

definition getf :: "(fw_state \<Rightarrow> 'a) \<Rightarrow> 'a fw" where
  "getf f s = Some (Ret (f s), s)"

definition modf :: "(fw_state \<Rightarrow> fw_state) \<Rightarrow> unit fw" where
  "modf f s = Some (Ret (), f s)"

primrec blk :: "unit fw list \<Rightarrow> unit fw" where
  "blk [] = ret ()"
| "blk (m # ms) = bnd m (\<lambda>_. blk ms)"

definition whenM :: "bool \<Rightarrow> unit fw \<Rightarrow> unit fw" where
  "whenM b m = (if b then m else ret ())"

text \<open>
  \<open>loop body x\<close> runs \<open>body\<close> on the loop variables: \<open>Inl y\<close> continues with \<open>y\<close>, \<open>Inr r\<close> leaves
  the loop (or returns from the function) with \<open>r\<close>.
\<close>

partial_function (option) loop ::
    "('x \<Rightarrow> fw_state \<Rightarrow> (('x + 'r) outcome \<times> fw_state) option) \<Rightarrow> 'x \<Rightarrow> fw_state
       \<Rightarrow> ('r outcome \<times> fw_state) option" where
  "loop body x s = (case body x s of
      None \<Rightarrow> None
    | Some (r, s') \<Rightarrow>
        (case r of
           Ret z \<Rightarrow> (case z of Inl y \<Rightarrow> loop body y s' | Inr v \<Rightarrow> Some (Ret v, s'))
         | Longjmp c \<Rightarrow> Some (Longjmp c, s')
         | Undef \<Rightarrow> Some (Undef, s')))"

subsection \<open>Access macros of the header\<close>

definition xil_out32 :: "u32 \<Rightarrow> u32 \<Rightarrow> unit fw" where
  "xil_out32 a v = modf (\<lambda>s. s\<lparr>mem := (mem s)(a := v), trace := trace s @ [Wr a v]\<rparr>)"

text \<open>
  Below \<open>END_OF_EXCHMEM\<close> (\<open>0x2000\<close>) lies the exchange memory, which is RAM; above it the
  peripherals, whose registers answer from the script.
\<close>

definition xil_in32 :: "u32 \<Rightarrow> u32 fw" where
  "xil_in32 a s =
     (if a < 0x2000 then Some (Ret (mem s a), s)
      else case reg_script s a of
             [] \<Rightarrow> Some (Ret (mem s a), s)
           | v # vs \<Rightarrow> Some (Ret v, s\<lparr>reg_script := (reg_script s)(a := vs)\<rparr>))"

definition set_bits :: "u32 \<Rightarrow> u32 \<Rightarrow> unit fw" where
  "set_bits a m = bnd (xil_in32 a) (\<lambda>v. xil_out32 a (v OR m))"

definition clr_bits :: "u32 \<Rightarrow> u32 \<Rightarrow> unit fw" where
  "clr_bits a m = bnd (xil_in32 a) (\<lambda>v. xil_out32 a (v AND NOT m))"

definition putd :: "u32 \<Rightarrow> u32 \<Rightarrow> unit fw" where
  "putd ch v = modf (\<lambda>s. s\<lparr>trace := trace s @ [Put ch v]\<rparr>)"

definition cputd :: "u32 \<Rightarrow> u32 \<Rightarrow> unit fw" where
  "cputd ch v = modf (\<lambda>s. s\<lparr>trace := trace s @ [CPut ch v]\<rparr>)"

text \<open>\<open>tngetd\<close> tests without taking: 1 when the stream has no word yet.\<close>

definition tngetd :: "u32 \<Rightarrow> u32 fw" where
  "tngetd ch s = (case stream_in s ch of
      [] \<Rightarrow> Some (Ret 1, s)
    | (n, v) # ws \<Rightarrow>
        (case n of 0 \<Rightarrow> Some (Ret 0, s)
         | Suc n' \<Rightarrow> Some (Ret 1, s\<lparr>stream_in := (stream_in s)(ch := (n', v) # ws)\<rparr>)))"

definition getd :: "u32 \<Rightarrow> u32 fw" where
  "getd ch s = (case stream_in s ch of
      [] \<Rightarrow> None
    | (n, v) # ws \<Rightarrow>
        Some (Ret v, s\<lparr>stream_in := (stream_in s)(ch := ws), trace := trace s @ [Got ch v]\<rparr>))"

text \<open>Loads and stores of C objects that live in the exchange memory (spare buffers, communicators).\<close>

definition load :: "u32 \<Rightarrow> u32 fw" where
  "load a = getf (\<lambda>s. mem s a)"

definition store :: "u32 \<Rightarrow> u32 \<Rightarrow> unit fw" where
  "store a v = modf (\<lambda>s. s\<lparr>mem := (mem s)(a := v)\<rparr>)"

text \<open>Unsigned division and remainder of C: undefined for a zero divisor.\<close>

definition c_mod :: "u32 \<Rightarrow> u32 \<Rightarrow> u32 fw" where
  "c_mod a b = (if b = 0 then undef else ret (a mod b))"

definition c_div :: "u32 \<Rightarrow> u32 \<Rightarrow> u32 fw" where
  "c_div a b = (if b = 0 then undef else ret (a div b))"

subsection \<open>Execution equations\<close>

lemma bnd_run [fw_run]:
  "m s = Some (Ret a, s') \<Longrightarrow> bnd m f s = f a s'"
  "m s = Some (Longjmp c, s') \<Longrightarrow> bnd m f s = Some (Longjmp c, s')"
  "m s = Some (Undef, s') \<Longrightarrow> bnd m f s = Some (Undef, s')"
  "m s = None \<Longrightarrow> bnd m f s = None"
  by (simp_all add: bnd_def)

lemma ret_bnd [simp]: "bnd (ret a) f = f a"
  by (rule ext) (simp add: bnd_def ret_def)

lemma bnd_ret_right: "bnd m ret = m"
  by (rule ext) (simp add: bnd_def ret_def split: option.split prod.split outcome.split)

lemma bnd_ret_unit: "bnd m (\<lambda>_. ret ()) = (m :: unit fw)"
  by (rule ext) (simp add: bnd_def ret_def split: option.split prod.split outcome.split)

lemma bnd_assoc: "bnd (bnd m f) g = bnd m (\<lambda>x. bnd (f x) g)"
  by (rule ext) (simp add: bnd_def split: option.split prod.split outcome.split)

lemma bnd_getf [simp]: "bnd (getf f) g s = g (f s) s"
  by (simp add: bnd_def getf_def)

lemma bnd_modf [simp]: "bnd (modf f) g s = g () (f s)"
  by (simp add: bnd_def modf_def)

lemma bnd_longjmp [simp]: "bnd (longjmp c) g s = Some (Longjmp c, s)"
  by (simp add: bnd_def longjmp_def)

lemma bnd_undef [simp]: "bnd undef g s = Some (Undef, s)"
  by (simp add: bnd_def undef_def)

lemma prim_run [fw_run]:
  "ret a s = Some (Ret a, s)"
  "longjmp c s = Some (Longjmp c, s)"
  "undef s = Some (Undef, s)"
  "getf h s = Some (Ret (h s), s)"
  "modf k s = Some (Ret (), k s)"
  by (simp_all add: ret_def longjmp_def undef_def getf_def modf_def)

lemma bnd_Ret_iff:
  "bnd m f s = Some (Ret b, s') \<longleftrightarrow> (\<exists>a s1. m s = Some (Ret a, s1) \<and> f a s1 = Some (Ret b, s'))"
  by (auto simp: bnd_def split: option.splits outcome.splits)

lemma bnd_RetE:
  assumes "bnd m f s = Some (Ret b, s')"
  obtains a s1 where "m s = Some (Ret a, s1)" and "f a s1 = Some (Ret b, s')"
  using assms by (auto simp: bnd_Ret_iff)

lemma bnd_SomeE:
  assumes "bnd m f s = Some (r, s')"
  obtains (ret) a s1 where "m s = Some (Ret a, s1)" and "f a s1 = Some (r, s')"
    | (jmp) c where "m s = Some (Longjmp c, s')" and "r = Longjmp c"
    | (undef) "m s = Some (Undef, s')" and "r = Undef"
  using assms by (auto simp: bnd_def split: option.splits outcome.splits)

subsection \<open>Outcomes that satisfy a specification\<close>

text \<open>\<open>sat Q E r s\<close>: returned with \<open>Q\<close>, or jumped with \<open>E\<close>; never undefined.\<close>

fun sat :: "('a \<Rightarrow> fw_state \<Rightarrow> bool) \<Rightarrow> (u32 \<Rightarrow> fw_state \<Rightarrow> bool) \<Rightarrow> 'a outcome \<Rightarrow> fw_state \<Rightarrow> bool" where
  "sat Q E (Ret a) s = Q a s"
| "sat Q E (Longjmp c) s = E c s"
| "sat Q E Undef s = False"

text \<open>Total correctness at a state: the computation ends, and its outcome satisfies the specification.\<close>

definition ends :: "'a fw \<Rightarrow> fw_state \<Rightarrow> ('a \<Rightarrow> fw_state \<Rightarrow> bool) \<Rightarrow> (u32 \<Rightarrow> fw_state \<Rightarrow> bool) \<Rightarrow> bool" where
  "ends m s Q E \<longleftrightarrow> (\<exists>r s'. m s = Some (r, s') \<and> sat Q E r s')"

text \<open>Partial correctness at a state, for runs that return.\<close>

definition returns :: "'a fw \<Rightarrow> fw_state \<Rightarrow> ('a \<Rightarrow> fw_state \<Rightarrow> bool) \<Rightarrow> bool" where
  "returns m s Q \<longleftrightarrow> (\<forall>a s'. m s = Some (Ret a, s') \<longrightarrow> Q a s')"

lemma ends_prim [simp]:
  "ends (ret a) s Q E = Q a s"
  "ends (longjmp c) s Q E = E c s"
  "ends undef s Q E = False"
  "ends (getf h) s Q E = Q (h s) s"
  "ends (modf k) s Q' E = Q' () (k s)"
  by (simp_all add: ends_def prim_run)

lemma ends_bnd_prim [simp]:
  "ends (bnd (getf h) f) s Q E = ends (f (h s)) s Q E"
  "ends (bnd (modf k) g) s Q E = ends (g ()) (k s) Q E"
  by (simp_all add: ends_def)

lemma ends_bnd: "ends m s (\<lambda>a s'. ends (f a) s' Q E) E \<Longrightarrow> ends (bnd m f) s Q E"
proof -
  assume "ends m s (\<lambda>a s'. ends (f a) s' Q E) E"
  then obtain r s' where m: "m s = Some (r, s')" and r: "sat (\<lambda>a s'. ends (f a) s' Q E) E r s'"
    by (auto simp: ends_def)
  show ?thesis
    using m r by (cases r) (auto simp: ends_def bnd_def)
qed

lemma ends_weaken:
  assumes "ends m s Q E" and "\<And>a s'. Q a s' \<Longrightarrow> Q' a s'" and "\<And>c s'. E c s' \<Longrightarrow> E' c s'"
  shows "ends m s Q' E'"
proof -
  from assms(1) obtain r s' where m: "m s = Some (r, s')" and r: "sat Q E r s'"
    by (auto simp: ends_def)
  have "sat Q' E' r s'"
    using r assms(2,3) by (cases r) auto
  with m show ?thesis by (auto simp: ends_def)
qed

lemma ends_bndI:
  assumes "ends m s Q' E" and "\<And>a s'. Q' a s' \<Longrightarrow> ends (f a) s' Q E"
  shows "ends (bnd m f) s Q E"
  by (rule ends_bnd, rule ends_weaken [OF assms(1)]) (use assms(2) in auto)

lemma ends_returns: "ends m s Q E \<Longrightarrow> m s = Some (Ret a, s') \<Longrightarrow> Q a s'"
  by (auto simp: ends_def)

lemma returns_bnd:
  assumes "returns m s (\<lambda>a s'. returns (f a) s' Q)"
  shows "returns (bnd m f) s Q"
  using assms by (auto simp: returns_def bnd_Ret_iff)

lemma returns_bndI:
  assumes "returns m s Q'" and "\<And>a s'. Q' a s' \<Longrightarrow> returns (f a) s' Q"
  shows "returns (bnd m f) s Q"
  using assms by (auto simp: returns_def bnd_Ret_iff)

lemma returns_prim [simp]:
  "returns (ret a) s Q = Q a s"
  "returns (longjmp c) s Q"
  "returns undef s Q"
  "returns (getf h) s Q = Q (h s) s"
  "returns (modf k) s Q' = Q' () (k s)"
  by (simp_all add: returns_def prim_run)

subsection \<open>Loop rules\<close>

text \<open>Total correctness: an invariant and a well-founded relation the body decreases.\<close>

lemma loop_ends:
  assumes "wf R" and "I x s"
    and step: "\<And>x s. I x s \<Longrightarrow>
      ends (body x) s
        (\<lambda>z s'. case z of Inl y \<Rightarrow> I y s' \<and> ((y, s'), (x, s)) \<in> R | Inr v \<Rightarrow> Q v s') E"
  shows "ends (loop body x) s Q E"
proof -
  have "\<forall>x s. p = (x, s) \<longrightarrow> I x s \<longrightarrow> ends (loop body x) s Q E" for p
    using assms(1)
  proof (induction p rule: wf_induct_rule)
    case (less p)
    show ?case
    proof (intro allI impI)
      fix x s assume p: "p = (x, s)" and I: "I x s"
      from step [OF I] obtain r s' where b: "body x s = Some (r, s')"
        and r: "sat (\<lambda>z s'. case z of Inl y \<Rightarrow> I y s' \<and> ((y, s'), (x, s)) \<in> R | Inr v \<Rightarrow> Q v s') E r s'"
        by (auto simp: ends_def)
      show "ends (loop body x) s Q E"
      proof (cases r)
        case (Ret z)
        show ?thesis
        proof (cases z)
          case (Inl y)
          with r Ret have "I y s'" and "((y, s'), p) \<in> R" by (auto simp: p)
          with less.IH have "ends (loop body y) s' Q E" by blast
          then show ?thesis using b Ret Inl by (simp add: ends_def loop.simps [of body x s])
        next
          case (Inr v)
          then show ?thesis using b Ret r by (simp add: ends_def loop.simps [of body x s])
        qed
      qed (use b r in \<open>simp_all add: ends_def loop.simps [of body x s]\<close>)
    qed
  qed
  with assms(2) show ?thesis by blast
qed

text \<open>Partial correctness: only the invariant.\<close>

lemma loop_rule:
  assumes "loop b x s = Some p"
    and "\<And>lp b x s p. (\<And>b x s p. lp b x s = Some p \<Longrightarrow> P b x s p) \<Longrightarrow>
      (case b x s of
         None \<Rightarrow> None
       | Some (r, s') \<Rightarrow>
           (case r of
              Ret z \<Rightarrow> (case z of Inl y \<Rightarrow> lp b y s' | Inr v \<Rightarrow> Some (Ret v, s'))
            | Longjmp c \<Rightarrow> Some (Longjmp c, s')
            | Undef \<Rightarrow> Some (Undef, s'))) = Some p \<Longrightarrow> P b x s p"
  shows "P b x s p"
proof (rule loop.raw_induct [of P "((b, x), s)" p, unfolded prod.case])
  show "loop b x s = Some p" by (rule assms(1))
qed (rule assms(2), assumption+)

lemma loop_any:
  assumes "loop body x s = Some (r, t)" and "I x s"
    and step: "\<And>x s z s'. I x s \<Longrightarrow> body x s = Some (z, s') \<Longrightarrow>
      (case z of Ret (Inl y) \<Rightarrow> I y s' | Ret (Inr v) \<Rightarrow> Q (Ret v) s'
       | Longjmp c \<Rightarrow> Q (Longjmp c) s' | Undef \<Rightarrow> Q Undef s')"
  shows "Q r t"
proof -
  have "body = body \<longrightarrow> I x s \<longrightarrow> Q (fst (r, t)) (snd (r, t))"
    using assms(1)
  proof (rule loop_rule [where P = "\<lambda>b x s p. b = body \<longrightarrow> I x s \<longrightarrow> Q (fst p) (snd p)"], intro impI)
    fix lp b x s p
    assume IH: "\<And>b x s p. lp b x s = Some p \<Longrightarrow> b = body \<longrightarrow> I x s \<longrightarrow> Q (fst p) (snd p)"
      and eq: "(case b x s of None \<Rightarrow> None
         | Some (r, s') \<Rightarrow> (case r of
              Ret z \<Rightarrow> (case z of Inl y \<Rightarrow> lp b y s' | Inr v \<Rightarrow> Some (Ret v, s'))
            | Longjmp c \<Rightarrow> Some (Longjmp c, s') | Undef \<Rightarrow> Some (Undef, s'))) = Some p"
      and b: "b = body" and I: "I x s"
    from eq obtain z s' where bz: "body x s = Some (z, s')"
      by (auto simp: b split: option.splits)
    note st = step [OF I bz]
    show "Q (fst p) (snd p)"
    proof (cases z)
      case (Ret w)
      then show ?thesis
      proof (cases w)
        case (Inl y)
        with st Ret have "I y s'" by simp
        moreover have "lp body y s' = Some p"
          using eq bz b Ret Inl by simp
        ultimately show ?thesis using IH by blast
      next
        case (Inr v)
        with st eq bz b Ret show ?thesis by auto
      qed
    qed (use st eq bz b in auto)
  qed
  with assms(2) show ?thesis by simp
qed

lemma loop_returns:
  assumes "I x s"
    and step: "\<And>x s. I x s \<Longrightarrow> returns (body x) s (\<lambda>z s'. case z of Inl y \<Rightarrow> I y s' | Inr v \<Rightarrow> Q v s')"
  shows "returns (loop body x) s Q"
  unfolding returns_def
proof (intro allI impI)
  fix a t assume run: "loop body x s = Some (Ret a, t)"
  have "case (Ret a) of Ret v \<Rightarrow> Q v t | _ \<Rightarrow> True"
    using run assms(1)
  proof (rule loop_any [where Q = "\<lambda>r t. case r of Ret v \<Rightarrow> Q v t | _ \<Rightarrow> True"])
    fix x s z s' assume "I x s" and b: "body x s = Some (z, s')"
    from step [OF this(1)] b
    show "case z of Ret (Inl y) \<Rightarrow> I y s' | Ret (Inr v) \<Rightarrow> (case Ret v of Ret v \<Rightarrow> Q v s' | _ \<Rightarrow> True)
       | Longjmp c \<Rightarrow> (case Longjmp c of Ret v \<Rightarrow> Q v s' | _ \<Rightarrow> True)
       | Undef \<Rightarrow> (case Undef of Ret v \<Rightarrow> Q v s' | _ \<Rightarrow> True)"
      by (auto simp: returns_def split: outcome.splits sum.splits)
  qed
  then show "Q a t" by simp
qed

text \<open>The polling loops of the firmware: a counter that goes up by one and is bounded by the time-out.\<close>

lemma counted_loop_ends:
  fixes tmo :: u32
  assumes "J s"
    and step: "\<And>count s. J s \<Longrightarrow>
      ends (body count) s
        (\<lambda>z s'. case z of Inl y \<Rightarrow> y = count + 1 \<and> count < tmo \<and> J s' | Inr v \<Rightarrow> Q v s') E"
  shows "ends (loop body (0 :: u32)) s Q E"
proof (rule loop_ends [where I = "\<lambda>_ s. J s" and R = "measure (\<lambda>(count, s). unat tmo - unat count)"])
  show "wf (measure (\<lambda>(count, s :: fw_state). unat tmo - unat (count :: u32)))" by simp
next
  fix count s assume "J s"
  show "ends (body count) s
      (\<lambda>z s'. case z of Inl y \<Rightarrow> J s' \<and> ((y, s'), (count, s)) \<in>
            measure (\<lambda>(count, s). unat tmo - unat count) | Inr v \<Rightarrow> Q v s') E"
  proof (rule ends_weaken [OF step [OF \<open>J s\<close>]])
    fix z s' assume z: "case z of Inl y \<Rightarrow> y = count + 1 \<and> count < tmo \<and> J s' | Inr v \<Rightarrow> Q v s'"
    show "case z of Inl y \<Rightarrow> J s' \<and> ((y, s'), (count, s)) \<in>
            measure (\<lambda>(count, s). unat tmo - unat count) | Inr v \<Rightarrow> Q v s'"
    proof (cases z)
      case (Inl y)
      with z have y: "y = count + 1" and lt: "count < tmo" and "J s'" by auto
      have "unat (count + 1) = Suc (unat count)"
        using lt by (rule unat_succ)
      with lt have "unat tmo - unat (count + 1) < unat tmo - unat count"
        by (simp add: word_less_nat_alt)
      with Inl y \<open>J s'\<close> show ?thesis by simp
    qed (use z in simp)
  qed
qed (use assms in auto)

end
