(* ===== verification/Fw_Constants.thy ===== *)
theory Fw_Constants
  imports Prelude
begin

text \<open>
  The constants of \<open>ccl_offload_control.h\<close>, under the names and in the order of the header.
  A shifted mask is written as its value (\<open>0x1 << 7\<close> as 128).  The GPIO registers are offsets
  from \<open>XPAR_GPIO_0_BASEADDR\<close>, which the board support package generates: it is an argument.
\<close>

subsection \<open>Stream channels of the MicroBlaze: commands out, status in\<close>

abbreviation (input) CMD_DMA0_TX :: u32 where "CMD_DMA0_TX \<equiv> 0"

abbreviation (input) CMD_DMA0_RX :: u32 where "CMD_DMA0_RX \<equiv> 1"

abbreviation (input) CMD_DMA1_TX :: u32 where "CMD_DMA1_TX \<equiv> 2"

abbreviation (input) CMD_DMA1_RX :: u32 where "CMD_DMA1_RX \<equiv> 3"

abbreviation (input) CMD_DMA2_TX :: u32 where "CMD_DMA2_TX \<equiv> 4"

abbreviation (input) CMD_DMA2_RX :: u32 where "CMD_DMA2_RX \<equiv> 5"

abbreviation (input) CMD_UDP_TX :: u32 where "CMD_UDP_TX \<equiv> 6"

abbreviation (input) CMD_TCP_PORT :: u32 where "CMD_TCP_PORT \<equiv> 7"

abbreviation (input) CMD_TCP_CON :: u32 where "CMD_TCP_CON \<equiv> 8"

abbreviation (input) CMD_TCP_TX :: u32 where "CMD_TCP_TX \<equiv> 9"

abbreviation (input) CMD_HOST :: u32 where "CMD_HOST \<equiv> 10"

abbreviation (input) STS_DMA0_RX :: u32 where "STS_DMA0_RX \<equiv> 0"

abbreviation (input) STS_DMA0_TX :: u32 where "STS_DMA0_TX \<equiv> 1"

abbreviation (input) STS_DMA1_RX :: u32 where "STS_DMA1_RX \<equiv> 2"

abbreviation (input) STS_DMA1_TX :: u32 where "STS_DMA1_TX \<equiv> 3"

abbreviation (input) STS_DMA2_RX :: u32 where "STS_DMA2_RX \<equiv> 4"

abbreviation (input) STS_DMA2_TX :: u32 where "STS_DMA2_TX \<equiv> 5"

abbreviation (input) STS_UDP_RX :: u32 where "STS_UDP_RX \<equiv> 6"

abbreviation (input) STS_TCP_PORT :: u32 where "STS_TCP_PORT \<equiv> 7"

abbreviation (input) STS_TCP_CON :: u32 where "STS_TCP_CON \<equiv> 8"

abbreviation (input) STS_TCP_RX :: u32 where "STS_TCP_RX \<equiv> 9"

abbreviation (input) STS_HOST :: u32 where "STS_HOST \<equiv> 10"

abbreviation (input) STS_TCP_PKT :: u32 where "STS_TCP_PKT \<equiv> 11"

abbreviation (input) STS_UDP_PKT :: u32 where "STS_UDP_PKT \<equiv> 12"

subsection \<open>Data paths and ports of the two AXI stream switches\<close>

abbreviation (input) DATAPATH_DMA_LOOPBACK :: u32 where "DATAPATH_DMA_LOOPBACK \<equiv> 1"

abbreviation (input) DATAPATH_DMA_REDUCTION :: u32 where "DATAPATH_DMA_REDUCTION \<equiv> 2"

abbreviation (input) DATAPATH_OFFCHIP_TX_UDP :: u32 where "DATAPATH_OFFCHIP_TX_UDP \<equiv> 3"

abbreviation (input) DATAPATH_OFFCHIP_TX_TCP :: u32 where "DATAPATH_OFFCHIP_TX_TCP \<equiv> 4"

abbreviation (input) DATAPATH_OFFCHIP_UDP_REDUCTION :: u32 where "DATAPATH_OFFCHIP_UDP_REDUCTION \<equiv> 5"

abbreviation (input) DATAPATH_OFFCHIP_TCP_REDUCTION :: u32 where "DATAPATH_OFFCHIP_TCP_REDUCTION \<equiv> 6"

abbreviation (input) DATAPATH_DMA_EXT_LOOPBACK :: u32 where "DATAPATH_DMA_EXT_LOOPBACK \<equiv> 7"

abbreviation (input) MAIN_SWITCH_M_UDP_TX :: u32 where "MAIN_SWITCH_M_UDP_TX \<equiv> 0"

abbreviation (input) MAIN_SWITCH_M_TCP_TX :: u32 where "MAIN_SWITCH_M_TCP_TX \<equiv> 1"

abbreviation (input) MAIN_SWITCH_M_DMA1_TX :: u32 where "MAIN_SWITCH_M_DMA1_TX \<equiv> 2"

abbreviation (input) MAIN_SWITCH_M_ARITH_OP0 :: u32 where "MAIN_SWITCH_M_ARITH_OP0 \<equiv> 3"

abbreviation (input) MAIN_SWITCH_M_ARITH_OP1 :: u32 where "MAIN_SWITCH_M_ARITH_OP1 \<equiv> 4"

abbreviation (input) MAIN_SWITCH_M_EXT_KRNL :: u32 where "MAIN_SWITCH_M_EXT_KRNL \<equiv> 5"

abbreviation (input) MAIN_SWITCH_S_DMA0_RX :: u32 where "MAIN_SWITCH_S_DMA0_RX \<equiv> 0"

abbreviation (input) MAIN_SWITCH_S_DMA1_RX :: u32 where "MAIN_SWITCH_S_DMA1_RX \<equiv> 1"

abbreviation (input) MAIN_SWITCH_S_DMA2_RX :: u32 where "MAIN_SWITCH_S_DMA2_RX \<equiv> 2"

abbreviation (input) MAIN_SWITCH_S_ARITH_RES :: u32 where "MAIN_SWITCH_S_ARITH_RES \<equiv> 3"

abbreviation (input) MAIN_SWITCH_S_EXT_KRNL :: u32 where "MAIN_SWITCH_S_EXT_KRNL \<equiv> 4"

abbreviation (input) ARITH_INTERNAL :: u32 where "ARITH_INTERNAL \<equiv> 0"

abbreviation (input) ARITH_EXTERNAL :: u32 where "ARITH_EXTERNAL \<equiv> 1"

abbreviation (input) ARITH_NONE :: u32 where "ARITH_NONE \<equiv> 2"

abbreviation (input) ARITH_SWITCH_M_INT_OP0 :: u32 where "ARITH_SWITCH_M_INT_OP0 \<equiv> 0"

abbreviation (input) ARITH_SWITCH_M_INT_OP1 :: u32 where "ARITH_SWITCH_M_INT_OP1 \<equiv> 1"

abbreviation (input) ARITH_SWITCH_M_EXT_OP0 :: u32 where "ARITH_SWITCH_M_EXT_OP0 \<equiv> 2"

abbreviation (input) ARITH_SWITCH_M_EXT_OP1 :: u32 where "ARITH_SWITCH_M_EXT_OP1 \<equiv> 3"

abbreviation (input) ARITH_SWITCH_M_RES :: u32 where "ARITH_SWITCH_M_RES \<equiv> 4"

abbreviation (input) ARITH_SWITCH_S_OP0 :: u32 where "ARITH_SWITCH_S_OP0 \<equiv> 0"

abbreviation (input) ARITH_SWITCH_S_OP1 :: u32 where "ARITH_SWITCH_S_OP1 \<equiv> 1"

abbreviation (input) ARITH_SWITCH_S_INT_RES :: u32 where "ARITH_SWITCH_S_INT_RES \<equiv> 2"

abbreviation (input) ARITH_SWITCH_S_EXT_RES :: u32 where "ARITH_SWITCH_S_EXT_RES \<equiv> 3"

subsection \<open>Packet and DMA limits\<close>

abbreviation (input) MAX_PACKETSIZE :: u32 where "MAX_PACKETSIZE \<equiv> 1536"

abbreviation (input) MAX_SEG_SIZE :: u32 where "MAX_SEG_SIZE \<equiv> 1048576"

abbreviation (input) DMA_MAX_BTT :: u32 where "DMA_MAX_BTT \<equiv> 0x7FFFFF"

abbreviation (input) DMA_MAX_TRANSACTIONS :: u32 where "DMA_MAX_TRANSACTIONS \<equiv> 20"

abbreviation (input) DMA_TRANSACTION_SIZE :: u32 where "DMA_TRANSACTION_SIZE \<equiv> 4194304"

subsection \<open>Host operations and configuration functions\<close>

abbreviation (input) XCCL_CONFIG :: u32 where "XCCL_CONFIG \<equiv> 0"

abbreviation (input) XCCL_SEND :: u32 where "XCCL_SEND \<equiv> 1"

abbreviation (input) XCCL_RECV :: u32 where "XCCL_RECV \<equiv> 2"

abbreviation (input) XCCL_BCAST :: u32 where "XCCL_BCAST \<equiv> 3"

abbreviation (input) XCCL_SCATTER :: u32 where "XCCL_SCATTER \<equiv> 4"

abbreviation (input) XCCL_GATHER :: u32 where "XCCL_GATHER \<equiv> 5"

abbreviation (input) XCCL_REDUCE :: u32 where "XCCL_REDUCE \<equiv> 6"

abbreviation (input) XCCL_ALLGATHER :: u32 where "XCCL_ALLGATHER \<equiv> 7"

abbreviation (input) XCCL_ALLREDUCE :: u32 where "XCCL_ALLREDUCE \<equiv> 8"

abbreviation (input) XCCL_ACC :: u32 where "XCCL_ACC \<equiv> 9"

abbreviation (input) XCCL_COPY :: u32 where "XCCL_COPY \<equiv> 10"

abbreviation (input) XCCL_EXT_STREAM_KRNL :: u32 where "XCCL_EXT_STREAM_KRNL \<equiv> 15"

abbreviation (input) XCCL_EXT_REDUCE :: u32 where "XCCL_EXT_REDUCE \<equiv> 16"

abbreviation (input) XCCL_REDUCE_SCATTER :: u32 where "XCCL_REDUCE_SCATTER \<equiv> 20"

abbreviation (input) HOUSEKEEP_IRQEN :: u32 where "HOUSEKEEP_IRQEN \<equiv> 0"

abbreviation (input) HOUSEKEEP_IRQDIS :: u32 where "HOUSEKEEP_IRQDIS \<equiv> 1"

abbreviation (input) HOUSEKEEP_SWRST :: u32 where "HOUSEKEEP_SWRST \<equiv> 2"

abbreviation (input) HOUSEKEEP_PKTEN :: u32 where "HOUSEKEEP_PKTEN \<equiv> 3"

abbreviation (input) HOUSEKEEP_TIMEOUT :: u32 where "HOUSEKEEP_TIMEOUT \<equiv> 4"

abbreviation (input) INIT_CONNECTION :: u32 where "INIT_CONNECTION \<equiv> 5"

abbreviation (input) OPEN_PORT :: u32 where "OPEN_PORT \<equiv> 6"

abbreviation (input) OPEN_CON :: u32 where "OPEN_CON \<equiv> 7"

abbreviation (input) USE_TCP_STACK :: u32 where "USE_TCP_STACK \<equiv> 8"

abbreviation (input) USE_UDP_STACK :: u32 where "USE_UDP_STACK \<equiv> 9"

abbreviation (input) START_PROFILING :: u32 where "START_PROFILING \<equiv> 10"

abbreviation (input) END_PROFILING :: u32 where "END_PROFILING \<equiv> 11"

abbreviation (input) SET_DMA_TRANSACTION_SIZE :: u32 where "SET_DMA_TRANSACTION_SIZE \<equiv> 12"

abbreviation (input) SET_MAX_DMA_TRANSACTIONS :: u32 where "SET_MAX_DMA_TRANSACTIONS \<equiv> 13"

subsection \<open>Address map and control masks\<close>

abbreviation (input) CONTROL_OFFSET :: u32 where "CONTROL_OFFSET \<equiv> 0"

abbreviation (input) ARG00_OFFSET :: u32 where "ARG00_OFFSET \<equiv> 0x10"

abbreviation (input) AXI00_PTR0_OFFSET :: u32 where "AXI00_PTR0_OFFSET \<equiv> 0x18"

abbreviation (input) AXI01_PTR0_OFFSET :: u32 where "AXI01_PTR0_OFFSET \<equiv> 0x24"

abbreviation (input) END_OF_REG_OFFSET :: u32 where "END_OF_REG_OFFSET \<equiv> 0x30"

abbreviation (input) TIME_TO_ACCESS_EXCH_MEM :: u32 where "TIME_TO_ACCESS_EXCH_MEM \<equiv> 0x1FF4"

abbreviation (input) HWID_OFFSET :: u32 where "HWID_OFFSET \<equiv> 0x1FF8"

abbreviation (input) RETVAL_OFFSET :: u32 where "RETVAL_OFFSET \<equiv> 0x1FFC"

abbreviation (input) END_OF_EXCHMEM :: u32 where "END_OF_EXCHMEM \<equiv> 0x2000"

abbreviation (input) HOSTCTRL_BASEADDR :: u32 where "HOSTCTRL_BASEADDR \<equiv> 0"

abbreviation (input) EXCHMEM_BASEADDR :: u32 where "EXCHMEM_BASEADDR \<equiv> 0x1000"

abbreviation (input) ARITH_BASEADDR :: u32 where "ARITH_BASEADDR \<equiv> 0x20000"

abbreviation (input) UDP_RXPKT_BASEADDR :: u32 where "UDP_RXPKT_BASEADDR \<equiv> 0x30000"

abbreviation (input) UDP_TXPKT_BASEADDR :: u32 where "UDP_TXPKT_BASEADDR \<equiv> 0x40000"

abbreviation (input) TCP_RXPKT_BASEADDR :: u32 where "TCP_RXPKT_BASEADDR \<equiv> 0x50000"

abbreviation (input) TCP_TXPKT_BASEADDR :: u32 where "TCP_TXPKT_BASEADDR \<equiv> 0x60000"

abbreviation (input) GPIO_BASEADDR :: u32 where "GPIO_BASEADDR \<equiv> 0x40000000"

abbreviation (input) MAIN_SWITCH_BASEADDR :: u32 where "MAIN_SWITCH_BASEADDR \<equiv> 0x44A00000"

abbreviation (input) IRQCTRL_BASEADDR :: u32 where "IRQCTRL_BASEADDR \<equiv> 0x44A10000"

abbreviation (input) TIMER_BASEADDR :: u32 where "TIMER_BASEADDR \<equiv> 0x44A20000"

abbreviation (input) ARITH_SWITCH_BASEADDR :: u32 where "ARITH_SWITCH_BASEADDR \<equiv> 0x44B00000"

abbreviation (input) CONTROL_START_MASK :: u32 where "CONTROL_START_MASK \<equiv> 1"

abbreviation (input) CONTROL_DONE_MASK :: u32 where "CONTROL_DONE_MASK \<equiv> 2"

abbreviation (input) CONTROL_IDLE_MASK :: u32 where "CONTROL_IDLE_MASK \<equiv> 4"

abbreviation (input) CONTROL_READY_MASK :: u32 where "CONTROL_READY_MASK \<equiv> 8"

abbreviation (input) CONTROL_REPEAT_MASK :: u32 where "CONTROL_REPEAT_MASK \<equiv> 128"

abbreviation (input) GPIO_DATA_REG :: "u32 \<Rightarrow> u32" where
  "GPIO_DATA_REG xpar_gpio_0_baseaddr \<equiv> xpar_gpio_0_baseaddr"

abbreviation (input) GPIO_READY_MASK :: u32 where "GPIO_READY_MASK \<equiv> 1"

abbreviation (input) GPIO_SWRST_MASK :: u32 where "GPIO_SWRST_MASK \<equiv> 0x2"

abbreviation (input) GPIO_TRI_REG :: "u32 \<Rightarrow> u32" where
  "GPIO_TRI_REG xpar_gpio_0_baseaddr \<equiv> xpar_gpio_0_baseaddr + 0x4"

abbreviation (input) GPIO2_DATA_REG :: "u32 \<Rightarrow> u32" where
  "GPIO2_DATA_REG xpar_gpio_0_baseaddr \<equiv> xpar_gpio_0_baseaddr + 0x8"

abbreviation (input) STREAM_INTR_MASK :: u32 where "STREAM_INTR_MASK \<equiv> 1"

abbreviation (input) GPIO2_TRI_REG :: "u32 \<Rightarrow> u32" where
  "GPIO2_TRI_REG xpar_gpio_0_baseaddr \<equiv> xpar_gpio_0_baseaddr + 0xC"

abbreviation (input) GPIO_GIER_REG :: "u32 \<Rightarrow> u32" where
  "GPIO_GIER_REG xpar_gpio_0_baseaddr \<equiv> xpar_gpio_0_baseaddr + 0x11C"

abbreviation (input) GIE_MASK :: u32 where "GIE_MASK \<equiv> 0x80000000"

abbreviation (input) GPIO_IPISR_REG :: "u32 \<Rightarrow> u32" where
  "GPIO_IPISR_REG xpar_gpio_0_baseaddr \<equiv> xpar_gpio_0_baseaddr + 0x120"

abbreviation (input) C1IS_MASK :: u32 where "C1IS_MASK \<equiv> 1"

abbreviation (input) C2IS_MASK :: u32 where "C2IS_MASK \<equiv> 0x2"

abbreviation (input) GPIO_IPIER_REG :: "u32 \<Rightarrow> u32" where
  "GPIO_IPIER_REG xpar_gpio_0_baseaddr \<equiv> xpar_gpio_0_baseaddr + 0x128"

abbreviation (input) C1IE_MASK :: u32 where "C1IE_MASK \<equiv> 1"

abbreviation (input) C2IE_MASK :: u32 where "C2IE_MASK \<equiv> 0x2"

subsection \<open>Interrupt controller\<close>

abbreviation (input) IRQCTRL_INTERRUPT_STATUS_REGISTER_OFFSET :: u32 where "IRQCTRL_INTERRUPT_STATUS_REGISTER_OFFSET \<equiv> 0"

abbreviation (input) IRQCTRL_INTERRUPT_PENDING_REGISTER_OFFSET :: u32 where "IRQCTRL_INTERRUPT_PENDING_REGISTER_OFFSET \<equiv> 0x4"

abbreviation (input) IRQCTRL_INTERRUPT_ENABLE_REGISTER_OFFSET :: u32 where "IRQCTRL_INTERRUPT_ENABLE_REGISTER_OFFSET \<equiv> 0x8"

abbreviation (input) IRQCTRL_INTERRUPT_ACKNOWLEDGE_REGISTER_OFFSET :: u32 where "IRQCTRL_INTERRUPT_ACKNOWLEDGE_REGISTER_OFFSET \<equiv> 0xC"

abbreviation (input) IRQCTRL_SET_INTERRUPT_ENABLES_OFFSET :: u32 where "IRQCTRL_SET_INTERRUPT_ENABLES_OFFSET \<equiv> 0x10"

abbreviation (input) IRQCTRL_CLEAR_INTERRUPT_ENABLES_OFFSET :: u32 where "IRQCTRL_CLEAR_INTERRUPT_ENABLES_OFFSET \<equiv> 0x14"

abbreviation (input) IRQCTRL_INTERRUPT_VECTOR_REGISTER_OFFSET :: u32 where "IRQCTRL_INTERRUPT_VECTOR_REGISTER_OFFSET \<equiv> 0x18"

abbreviation (input) IRQCTRL_MASTER_ENABLE_REGISTER_OFFSET :: u32 where "IRQCTRL_MASTER_ENABLE_REGISTER_OFFSET \<equiv> 0x1C"

abbreviation (input) IRQCTRL_INTERRUPT_MODE_REGISTER_OFFSET :: u32 where "IRQCTRL_INTERRUPT_MODE_REGISTER_OFFSET \<equiv> 0x20"

abbreviation (input) IRQCTRL_INTERRUPT_LEVEL_REGISTER_OFFSET :: u32 where "IRQCTRL_INTERRUPT_LEVEL_REGISTER_OFFSET \<equiv> 0x24"

abbreviation (input) IRQCTRL_INTERRUPT_VECTOR_ADDRESS_REGISTER_OFFSET :: u32 where "IRQCTRL_INTERRUPT_VECTOR_ADDRESS_REGISTER_OFFSET \<equiv> 0x100"

abbreviation (input) IRQCTRL_INTERRUPT_VECTOR_EXTENDED_ADDRESS_REGISTER_OFFSET :: u32 where "IRQCTRL_INTERRUPT_VECTOR_EXTENDED_ADDRESS_REGISTER_OFFSET \<equiv> 0x200"

abbreviation (input) IRQCTRL_SIZE :: u32 where "IRQCTRL_SIZE \<equiv> 0x300"

abbreviation (input) IRQCTRL_TIMER_ENABLE :: u32 where "IRQCTRL_TIMER_ENABLE \<equiv> 1"

abbreviation (input) IRQCTRL_DMA0_CMD_QUEUE_EMPTY :: u32 where "IRQCTRL_DMA0_CMD_QUEUE_EMPTY \<equiv> 0x2"

abbreviation (input) IRQCTRL_DMA0_STS_QUEUE_NON_EMPTY :: u32 where "IRQCTRL_DMA0_STS_QUEUE_NON_EMPTY \<equiv> 0x4"

abbreviation (input) IRQCTRL_DMA2_CMD_QUEUE_EMPTY :: u32 where "IRQCTRL_DMA2_CMD_QUEUE_EMPTY \<equiv> 0x8"

abbreviation (input) IRQCTRL_DMA2_STS_QUEUE_NON_EMPTY :: u32 where "IRQCTRL_DMA2_STS_QUEUE_NON_EMPTY \<equiv> 0x10"

abbreviation (input) IRQCTRL_MASTER_ENABLE_REGISTER_HARDWARE_INTERRUPT_ENABLE :: u32 where "IRQCTRL_MASTER_ENABLE_REGISTER_HARDWARE_INTERRUPT_ENABLE \<equiv> 0x2"

abbreviation (input) IRQCTRL_MASTER_ENABLE_REGISTER_MASTER_ENABLE :: u32 where "IRQCTRL_MASTER_ENABLE_REGISTER_MASTER_ENABLE \<equiv> 1"

subsection \<open>Timer\<close>

abbreviation (input) TIMER0_CONTROL_AND_STATUS_REGISTER_OFFSET :: u32 where "TIMER0_CONTROL_AND_STATUS_REGISTER_OFFSET \<equiv> 0"

abbreviation (input) TIMER0_LOAD_REGISTER_OFFSET :: u32 where "TIMER0_LOAD_REGISTER_OFFSET \<equiv> 0x4"

abbreviation (input) TIMER0_COUNTER_REGISTER_OFFSET :: u32 where "TIMER0_COUNTER_REGISTER_OFFSET \<equiv> 0x8"

abbreviation (input) TIMER1_CONTROL_AND_STATUS_REGISTER_OFFSET :: u32 where "TIMER1_CONTROL_AND_STATUS_REGISTER_OFFSET \<equiv> 0x10"

abbreviation (input) TIMER1_LOAD_REGISTER_OFFSET :: u32 where "TIMER1_LOAD_REGISTER_OFFSET \<equiv> 0x14"

abbreviation (input) TIMER1_COUNTER_REGISTER_OFFSET :: u32 where "TIMER1_COUNTER_REGISTER_OFFSET \<equiv> 0x18"

abbreviation (input) TIMER_SIZE :: u32 where "TIMER_SIZE \<equiv> 0x20"

abbreviation (input) CONTROL_AND_STATUS_REGISTER_CASC_MASK :: u32 where "CONTROL_AND_STATUS_REGISTER_CASC_MASK \<equiv> 2048"

abbreviation (input) CONTROL_AND_STATUS_REGISTER_ENABLE_ALL_MASK :: u32 where "CONTROL_AND_STATUS_REGISTER_ENABLE_ALL_MASK \<equiv> 1024"

abbreviation (input) CONTROL_AND_STATUS_REGISTER_PWMX_ENABLE_MASK :: u32 where "CONTROL_AND_STATUS_REGISTER_PWMX_ENABLE_MASK \<equiv> 512"

abbreviation (input) CONTROL_AND_STATUS_REGISTER_INTERRUPT_MASK :: u32 where "CONTROL_AND_STATUS_REGISTER_INTERRUPT_MASK \<equiv> 256"

abbreviation (input) CONTROL_AND_STATUS_REGISTER_ENABLE_MASK :: u32 where "CONTROL_AND_STATUS_REGISTER_ENABLE_MASK \<equiv> 128"

abbreviation (input) CONTROL_AND_STATUS_REGISTER_INTERRUPT_ENABLE_MASK :: u32 where "CONTROL_AND_STATUS_REGISTER_INTERRUPT_ENABLE_MASK \<equiv> 64"

abbreviation (input) CONTROL_AND_STATUS_REGISTER_LOAD_TIMER_MASK :: u32 where "CONTROL_AND_STATUS_REGISTER_LOAD_TIMER_MASK \<equiv> 32"

abbreviation (input) CONTROL_AND_STATUS_REGISTER_AUTO_RELOAD_TIMER_MASK :: u32 where "CONTROL_AND_STATUS_REGISTER_AUTO_RELOAD_TIMER_MASK \<equiv> 16"

abbreviation (input) CONTROL_AND_STATUS_REGISTER_CAPTURE_MASK :: u32 where "CONTROL_AND_STATUS_REGISTER_CAPTURE_MASK \<equiv> 8"

abbreviation (input) CONTROL_AND_STATUS_REGISTER_GENERATE_MASK :: u32 where "CONTROL_AND_STATUS_REGISTER_GENERATE_MASK \<equiv> 4"

abbreviation (input) CONTROL_AND_STATUS_REGISTER_UP_DOWN_MASK :: u32 where "CONTROL_AND_STATUS_REGISTER_UP_DOWN_MASK \<equiv> 2"

abbreviation (input) CONTROL_AND_STATUS_REGISTER_MODE_TIMER_MASK :: u32 where "CONTROL_AND_STATUS_REGISTER_MODE_TIMER_MASK \<equiv> 1"

subsection \<open>Error codes, arithmetic functions, DMA selection\<close>

abbreviation (input) COLLECTIVE_OP_SUCCESS :: u32 where "COLLECTIVE_OP_SUCCESS \<equiv> 0"

abbreviation (input) DMA_MISMATCH_ERROR :: u32 where "DMA_MISMATCH_ERROR \<equiv> 1"

abbreviation (input) DMA_INTERNAL_ERROR :: u32 where "DMA_INTERNAL_ERROR \<equiv> 2"

abbreviation (input) DMA_DECODE_ERROR :: u32 where "DMA_DECODE_ERROR \<equiv> 3"

abbreviation (input) DMA_SLAVE_ERROR :: u32 where "DMA_SLAVE_ERROR \<equiv> 4"

abbreviation (input) DMA_NOT_OKAY_ERROR :: u32 where "DMA_NOT_OKAY_ERROR \<equiv> 5"

abbreviation (input) DMA_NOT_END_OF_PACKET_ERROR :: u32 where "DMA_NOT_END_OF_PACKET_ERROR \<equiv> 6"

abbreviation (input) DMA_NOT_EXPECTED_BTT_ERROR :: u32 where "DMA_NOT_EXPECTED_BTT_ERROR \<equiv> 7"

abbreviation (input) DMA_TIMEOUT_ERROR :: u32 where "DMA_TIMEOUT_ERROR \<equiv> 8"

abbreviation (input) CONFIG_SWITCH_ERROR :: u32 where "CONFIG_SWITCH_ERROR \<equiv> 9"

abbreviation (input) DEQUEUE_BUFFER_TIMEOUT_ERROR :: u32 where "DEQUEUE_BUFFER_TIMEOUT_ERROR \<equiv> 10"

abbreviation (input) DEQUEUE_BUFFER_SPARE_BUFFER_STATUS_ERROR :: u32 where "DEQUEUE_BUFFER_SPARE_BUFFER_STATUS_ERROR \<equiv> 11"

abbreviation (input) RECEIVE_TIMEOUT_ERROR :: u32 where "RECEIVE_TIMEOUT_ERROR \<equiv> 12"

abbreviation (input) DEQUEUE_BUFFER_SPARE_BUFFER_DMATAG_MISMATCH :: u32 where "DEQUEUE_BUFFER_SPARE_BUFFER_DMATAG_MISMATCH \<equiv> 13"

abbreviation (input) DEQUEUE_BUFFER_SPARE_BUFFER_INDEX_ERROR :: u32 where "DEQUEUE_BUFFER_SPARE_BUFFER_INDEX_ERROR \<equiv> 14"

abbreviation (input) COLLECTIVE_NOT_IMPLEMENTED :: u32 where "COLLECTIVE_NOT_IMPLEMENTED \<equiv> 15"

abbreviation (input) RECEIVE_OFFCHIP_SPARE_BUFF_ID_NOT_VALID :: u32 where "RECEIVE_OFFCHIP_SPARE_BUFF_ID_NOT_VALID \<equiv> 16"

abbreviation (input) OPEN_PORT_NOT_SUCCEEDED :: u32 where "OPEN_PORT_NOT_SUCCEEDED \<equiv> 17"

abbreviation (input) OPEN_COM_NOT_SUCCEEDED :: u32 where "OPEN_COM_NOT_SUCCEEDED \<equiv> 18"

abbreviation (input) DMA_SIZE_ERROR :: u32 where "DMA_SIZE_ERROR \<equiv> 19"

abbreviation (input) ARITH_ERROR :: u32 where "ARITH_ERROR \<equiv> 20"

abbreviation (input) PACK_TIMEOUT_STS_ERROR :: u32 where "PACK_TIMEOUT_STS_ERROR \<equiv> 21"

abbreviation (input) PACK_SEQ_NUMBER_ERROR :: u32 where "PACK_SEQ_NUMBER_ERROR \<equiv> 22"

abbreviation (input) ARITH_fp :: u32 where "ARITH_fp \<equiv> 0"

abbreviation (input) ARITH_dp :: u32 where "ARITH_dp \<equiv> 1"

abbreviation (input) ARITH_i32 :: u32 where "ARITH_i32 \<equiv> 2"

abbreviation (input) ARITH_i64 :: u32 where "ARITH_i64 \<equiv> 3"

abbreviation (input) USE_DMA0_RX :: u32 where "USE_DMA0_RX \<equiv> 1"

abbreviation (input) USE_DMA1_RX :: u32 where "USE_DMA1_RX \<equiv> 2"

abbreviation (input) USE_DMA1_TX :: u32 where "USE_DMA1_TX \<equiv> 4"

abbreviation (input) USE_DMA2_RX :: u32 where "USE_DMA2_RX \<equiv> 8"

abbreviation (input) USE_DMA1_TX_WITHOUT_TLAST :: u32 where "USE_DMA1_TX_WITHOUT_TLAST \<equiv> 16"

subsection \<open>Spare buffer states and tags\<close>

abbreviation (input) STATUS_IDLE :: u32 where "STATUS_IDLE \<equiv> 0"

abbreviation (input) STATUS_ENQUEUED :: u32 where "STATUS_ENQUEUED \<equiv> 1"

abbreviation (input) STATUS_RESERVED :: u32 where "STATUS_RESERVED \<equiv> 0x2"

abbreviation (input) STATUS_ERROR :: u32 where "STATUS_ERROR \<equiv> 0x4"

abbreviation (input) RX_BUFFER_COUNT_OFFSET :: u32 where "RX_BUFFER_COUNT_OFFSET \<equiv> 0x1000"

abbreviation (input) TAG_ANY :: u32 where "TAG_ANY \<equiv> 0xFFFFFFFF"

end
