(* ===== verification/Fw_Periph.thy ===== *)
theory Fw_Periph
  imports Fw_Monad Fw_Constants "HOL-Library.Sublist"
begin

text \<open>
  The register-mapped peripherals the firmware drives: interrupt controller, AXI timer,
  arithmetic unit, the two AXI stream switches, and the start registers of the (de)packetizers.
  One definition per C function; the lemmas say what each leaves in the registers, that the
  polling loops end, and that every switch scenario sets up the documented routes.
\<close>

subsection \<open>Interrupt controller\<close>

definition enable_irq :: "unit fw" where
  "enable_irq = xil_out32 (IRQCTRL_BASEADDR + IRQCTRL_MASTER_ENABLE_REGISTER_OFFSET)
     (IRQCTRL_MASTER_ENABLE_REGISTER_HARDWARE_INTERRUPT_ENABLE
       OR IRQCTRL_MASTER_ENABLE_REGISTER_MASTER_ENABLE)"

definition disable_irq :: "unit fw" where
  "disable_irq = xil_out32 (IRQCTRL_BASEADDR + IRQCTRL_MASTER_ENABLE_REGISTER_OFFSET) 0"

definition set_irq :: "u32 \<Rightarrow> unit fw" where
  "set_irq mask' = xil_out32 (IRQCTRL_BASEADDR + IRQCTRL_INTERRUPT_ENABLE_REGISTER_OFFSET) mask'"

definition setup_irq :: "u32 \<Rightarrow> unit fw" where
  "setup_irq mask' = blk [disable_irq, set_irq mask', enable_irq]"

definition ack_irq :: "u32 \<Rightarrow> unit fw" where
  "ack_irq mask' = xil_out32 (IRQCTRL_BASEADDR + IRQCTRL_INTERRUPT_ACKNOWLEDGE_REGISTER_OFFSET) mask'"

definition get_irq :: "u32 fw" where
  "get_irq = xil_in32 (IRQCTRL_BASEADDR + IRQCTRL_INTERRUPT_PENDING_REGISTER_OFFSET)"

subsection \<open>Timer\<close>

definition start_timeout :: "u32 \<Rightarrow> unit fw" where
  "start_timeout time = blk [
     xil_out32 (TIMER_BASEADDR + TIMER0_LOAD_REGISTER_OFFSET) time,
     xil_out32 (TIMER_BASEADDR + TIMER0_CONTROL_AND_STATUS_REGISTER_OFFSET)
       CONTROL_AND_STATUS_REGISTER_LOAD_TIMER_MASK,
     xil_out32 (TIMER_BASEADDR + TIMER0_CONTROL_AND_STATUS_REGISTER_OFFSET)
       (CONTROL_AND_STATUS_REGISTER_ENABLE_MASK
         OR CONTROL_AND_STATUS_REGISTER_INTERRUPT_ENABLE_MASK
         OR CONTROL_AND_STATUS_REGISTER_UP_DOWN_MASK)]"

definition cancel_timeout :: "unit fw" where
  "cancel_timeout = xil_out32 (TIMER_BASEADDR + TIMER0_CONTROL_AND_STATUS_REGISTER_OFFSET)
     CONTROL_AND_STATUS_REGISTER_INTERRUPT_MASK"

definition clear_timer_interrupt :: "unit fw" where
  "clear_timer_interrupt = xil_out32 (TIMER_BASEADDR + TIMER0_CONTROL_AND_STATUS_REGISTER_OFFSET)
     CONTROL_AND_STATUS_REGISTER_INTERRUPT_MASK"

definition start_timer1 :: "unit fw" where
  "start_timer1 = (let init_time = 0 in blk [
     xil_out32 (TIMER_BASEADDR + TIMER1_LOAD_REGISTER_OFFSET) init_time,
     xil_out32 (TIMER_BASEADDR + TIMER1_CONTROL_AND_STATUS_REGISTER_OFFSET)
       CONTROL_AND_STATUS_REGISTER_LOAD_TIMER_MASK,
     xil_out32 (TIMER_BASEADDR + TIMER1_CONTROL_AND_STATUS_REGISTER_OFFSET)
       CONTROL_AND_STATUS_REGISTER_ENABLE_MASK])"

definition read_timer1 :: "u32 fw" where
  "read_timer1 = xil_in32 (TIMER_BASEADDR + TIMER1_COUNTER_REGISTER_OFFSET)"

subsection \<open>Arithmetic unit\<close>

text \<open>Division by \<open>dma_transaction_size\<close>, which the host may set to 0, is where \<open>start_arith\<close> is undefined.\<close>

definition start_arith :: "u32 \<Rightarrow> u32 \<Rightarrow> u32 \<Rightarrow> unit fw" where
  "start_arith byte_count func use_repeat =
     bnd (getf dma_transaction_size) (\<lambda>dts.
     bnd (c_div byte_count dts) (\<lambda>num_dma_transfers.
     bnd (c_mod byte_count dts) (\<lambda>bytes_tail.
     let quad_word_per_dma_transfer = (dts + 63) div 64;
         quad_word_per_tail = (bytes_tail + 63) div 64;
         quad_word_stream_transfers =
           num_dma_transfers * quad_word_per_dma_transfer + quad_word_per_tail
     in blk [
       xil_out32 (ARITH_BASEADDR + 0x10) quad_word_stream_transfers,
       xil_out32 (ARITH_BASEADDR + 0x18) func,
       set_bits ARITH_BASEADDR
         (CONTROL_START_MASK OR (if use_repeat = 1 then CONTROL_REPEAT_MASK else 0))])))"

definition stop_arith :: "unit fw" where
  "stop_arith = clr_bits ARITH_BASEADDR (CONTROL_START_MASK OR CONTROL_REPEAT_MASK)"

definition arith_is_idle :: "u32 fw" where
  "arith_is_idle = bnd (xil_in32 ARITH_BASEADDR) (\<lambda>v. ret (v AND CONTROL_IDLE_MASK))"

definition arith_is_ready :: "u32 fw" where
  "arith_is_ready = bnd (xil_in32 ARITH_BASEADDR) (\<lambda>v. ret (v AND CONTROL_START_MASK))"

definition arith_disable_auto_repeat :: "unit fw" where
  "arith_disable_auto_repeat = clr_bits ARITH_BASEADDR CONTROL_REPEAT_MASK"

definition wait_arith_step :: "u32 \<Rightarrow> (u32 + unit) fw" where
  "wait_arith_step count =
     bnd arith_is_idle (\<lambda>idle.
     if idle \<noteq> 0 then ret (Inr ())
     else bnd (getf timeout) (\<lambda>tmo.
       if tmo \<noteq> 0 \<and> tmo \<le> count then longjmp ARITH_ERROR
       else ret (Inl (count + 1))))"

definition wait_arith :: "unit fw" where
  "wait_arith = loop wait_arith_step 0"

definition arith_number_of_bytes_per :: "u32 \<Rightarrow> u32" where
  "arith_number_of_bytes_per func =
     (if func = ARITH_fp then 4
      else if func = ARITH_dp then 8
      else if func = ARITH_i32 then 4
      else if func = ARITH_i64 then 8
      else - 1)"

subsection \<open>AXI stream switches\<close>

definition set_switch_datapath :: "u32 \<Rightarrow> u32 \<Rightarrow> u32 \<Rightarrow> unit fw" where
  "set_switch_datapath base src dst = xil_out32 (base + 0x40 + 4 * dst) src"

definition disable_switch_datapath :: "u32 \<Rightarrow> u32 \<Rightarrow> unit fw" where
  "disable_switch_datapath base dst = xil_out32 (base + 0x40 + 4 * dst) 0x80000000"

definition apply_switch_step :: "u32 \<Rightarrow> u32 \<Rightarrow> (u32 + unit) fw" where
  "apply_switch_step base count =
     bnd (xil_in32 base) (\<lambda>v.
     if v = 0 then ret (Inr ())
     else bnd (getf timeout) (\<lambda>tmo.
       if tmo \<noteq> 0 \<and> tmo \<le> count then longjmp CONFIG_SWITCH_ERROR
       else ret (Inl (count + 1))))"

definition apply_switch_config :: "u32 \<Rightarrow> unit fw" where
  "apply_switch_config base = bnd (xil_out32 base 2) (\<lambda>_. loop (apply_switch_step base) 0)"

text \<open>The register writes of each scenario of \<open>cfg_switch\<close>; \<open>None\<close> for the \<open>default\<close> case, which returns.\<close>

definition cfg_main_switch :: "u32 \<Rightarrow> unit fw option" where
  "cfg_main_switch scenario =
    (let on = set_switch_datapath MAIN_SWITCH_BASEADDR;
         off = disable_switch_datapath MAIN_SWITCH_BASEADDR in
     if scenario = DATAPATH_DMA_LOOPBACK then Some (blk [
       on MAIN_SWITCH_S_DMA1_RX MAIN_SWITCH_M_DMA1_TX,
       off MAIN_SWITCH_M_ARITH_OP0, off MAIN_SWITCH_M_ARITH_OP1, off MAIN_SWITCH_M_UDP_TX,
       off MAIN_SWITCH_M_TCP_TX, off MAIN_SWITCH_M_EXT_KRNL])
     else if scenario = DATAPATH_DMA_REDUCTION then Some (blk [
       on MAIN_SWITCH_S_DMA0_RX MAIN_SWITCH_M_ARITH_OP0,
       on MAIN_SWITCH_S_DMA1_RX MAIN_SWITCH_M_ARITH_OP1,
       on MAIN_SWITCH_S_ARITH_RES MAIN_SWITCH_M_DMA1_TX,
       off MAIN_SWITCH_M_UDP_TX, off MAIN_SWITCH_M_TCP_TX, off MAIN_SWITCH_M_EXT_KRNL])
     else if scenario = DATAPATH_OFFCHIP_TX_UDP then Some (blk [
       on MAIN_SWITCH_S_DMA1_RX MAIN_SWITCH_M_UDP_TX,
       off MAIN_SWITCH_M_ARITH_OP0, off MAIN_SWITCH_M_ARITH_OP1, off MAIN_SWITCH_M_DMA1_TX,
       off MAIN_SWITCH_M_TCP_TX, off MAIN_SWITCH_M_EXT_KRNL])
     else if scenario = DATAPATH_OFFCHIP_TX_TCP then Some (blk [
       on MAIN_SWITCH_S_DMA1_RX MAIN_SWITCH_M_TCP_TX,
       off MAIN_SWITCH_M_ARITH_OP0, off MAIN_SWITCH_M_ARITH_OP1, off MAIN_SWITCH_M_DMA1_TX,
       off MAIN_SWITCH_M_UDP_TX, off MAIN_SWITCH_M_EXT_KRNL])
     else if scenario = DATAPATH_OFFCHIP_UDP_REDUCTION then Some (blk [
       on MAIN_SWITCH_S_DMA0_RX MAIN_SWITCH_M_ARITH_OP0,
       on MAIN_SWITCH_S_DMA1_RX MAIN_SWITCH_M_ARITH_OP1,
       on MAIN_SWITCH_S_ARITH_RES MAIN_SWITCH_M_UDP_TX,
       off MAIN_SWITCH_M_DMA1_TX, off MAIN_SWITCH_M_TCP_TX, off MAIN_SWITCH_M_EXT_KRNL])
     else if scenario = DATAPATH_OFFCHIP_TCP_REDUCTION then Some (blk [
       on MAIN_SWITCH_S_DMA0_RX MAIN_SWITCH_M_ARITH_OP0,
       on MAIN_SWITCH_S_DMA1_RX MAIN_SWITCH_M_ARITH_OP1,
       on MAIN_SWITCH_S_ARITH_RES MAIN_SWITCH_M_TCP_TX,
       off MAIN_SWITCH_M_DMA1_TX, off MAIN_SWITCH_M_UDP_TX, off MAIN_SWITCH_M_EXT_KRNL])
     else if scenario = DATAPATH_DMA_EXT_LOOPBACK then Some (blk [
       on MAIN_SWITCH_S_DMA1_RX MAIN_SWITCH_M_EXT_KRNL,
       on MAIN_SWITCH_S_EXT_KRNL MAIN_SWITCH_M_DMA1_TX,
       off MAIN_SWITCH_M_ARITH_OP0, off MAIN_SWITCH_M_ARITH_OP1,
       off MAIN_SWITCH_M_TCP_TX, off MAIN_SWITCH_M_UDP_TX])
     else None)"

definition cfg_arith_switch :: "u32 \<Rightarrow> unit fw" where
  "cfg_arith_switch arith =
    (let on = set_switch_datapath ARITH_SWITCH_BASEADDR;
         off = disable_switch_datapath ARITH_SWITCH_BASEADDR in
     if arith = ARITH_EXTERNAL then blk [
       on ARITH_SWITCH_S_OP0 ARITH_SWITCH_M_EXT_OP0,
       on ARITH_SWITCH_S_OP1 ARITH_SWITCH_M_EXT_OP1,
       on ARITH_SWITCH_S_EXT_RES ARITH_SWITCH_M_RES,
       off ARITH_SWITCH_M_INT_OP0, off ARITH_SWITCH_M_INT_OP1,
       apply_switch_config ARITH_SWITCH_BASEADDR]
     else if arith = ARITH_INTERNAL then blk [
       on ARITH_SWITCH_S_OP0 ARITH_SWITCH_M_INT_OP0,
       on ARITH_SWITCH_S_OP1 ARITH_SWITCH_M_INT_OP1,
       on ARITH_SWITCH_S_INT_RES ARITH_SWITCH_M_RES,
       off ARITH_SWITCH_M_EXT_OP0, off ARITH_SWITCH_M_EXT_OP1,
       apply_switch_config ARITH_SWITCH_BASEADDR]
     else if arith = ARITH_NONE then ret ()
     else apply_switch_config ARITH_SWITCH_BASEADDR)"

definition cfg_switch :: "u32 \<Rightarrow> u32 \<Rightarrow> unit fw" where
  "cfg_switch scenario arith =
    (case cfg_main_switch scenario of
       None \<Rightarrow> ret ()
     | Some writes \<Rightarrow> blk [
         writes,
         apply_switch_config MAIN_SWITCH_BASEADDR,
         cfg_arith_switch arith])"

subsection \<open>Start registers of the (de)packetizers\<close>

definition start_packetizer :: "u32 \<Rightarrow> u32 \<Rightarrow> unit fw" where
  "start_packetizer base_addr max_pktsize =
     (let max_pkt_transfers = (max_pktsize + 63) div 64 in blk [
       xil_out32 (base_addr + 0x10) max_pkt_transfers,
       set_bits base_addr (CONTROL_REPEAT_MASK OR CONTROL_START_MASK)])"

definition start_depacketizer :: "u32 \<Rightarrow> unit fw" where
  "start_depacketizer base_addr = set_bits base_addr (CONTROL_REPEAT_MASK OR CONTROL_START_MASK)"

subsection \<open>What a peripheral access may change\<close>

text \<open>
  \<open>reg_reads s s'\<close>: only register scripts were consumed.  \<open>periph_only s s'\<close>: besides, only
  peripheral registers (addresses from \<open>END_OF_EXCHMEM\<close> on) were written, and nothing was put on
  or taken from a stream.
\<close>

definition reg_reads :: "fw_state \<Rightarrow> fw_state \<Rightarrow> bool" where
  "reg_reads s s' \<longleftrightarrow> (\<exists>r. s' = s\<lparr>reg_script := r\<rparr>)"

definition is_Wr :: "event \<Rightarrow> bool" where
  "is_Wr e = (case e of Wr a v \<Rightarrow> True | _ \<Rightarrow> False)"

definition periph_only :: "fw_state \<Rightarrow> fw_state \<Rightarrow> bool" where
  "periph_only s s' \<longleftrightarrow>
     (\<exists>m r ws. s' = s\<lparr>mem := m, reg_script := r, trace := trace s @ ws\<rparr>
        \<and> list_all is_Wr ws \<and> (\<forall>a. a < 0x2000 \<longrightarrow> m a = mem s a))"

lemma reg_reads_refl [simp]: "reg_reads s s"
  unfolding reg_reads_def by (rule exI [where x = "reg_script s"]) simp

lemma reg_reads_upd [simp]: "reg_reads s (s\<lparr>reg_script := r\<rparr>)"
  unfolding reg_reads_def by (rule exI [where x = r]) (rule refl)

lemma reg_readsE:
  assumes "reg_reads s s'"
  obtains r where "s' = s\<lparr>reg_script := r\<rparr>"
  using assms unfolding reg_reads_def by blast

lemma reg_reads_trans:
  assumes "reg_reads s t" and "reg_reads t u"
  shows "reg_reads s u"
proof -
  from assms(1) obtain r where t: "t = s\<lparr>reg_script := r\<rparr>" by (rule reg_readsE)
  from assms(2) obtain r' where u: "u = t\<lparr>reg_script := r'\<rparr>" by (rule reg_readsE)
  show ?thesis by (simp add: t u)
qed

lemma xil_in32_ram [fw_run]: "a < 0x2000 \<Longrightarrow> xil_in32 a s = Some (Ret (mem s a), s)"
  by (simp add: xil_in32_def)

lemma xil_in32_idle: "reg_script s a = [] \<Longrightarrow> xil_in32 a s = Some (Ret (mem s a), s)"
  by (simp add: xil_in32_def)

lemma xil_in32_reg:
  "\<not> a < 0x2000 \<Longrightarrow> reg_script s a = v # vs \<Longrightarrow>
     xil_in32 a s = Some (Ret v, s\<lparr>reg_script := (reg_script s)(a := vs)\<rparr>)"
  by (simp add: xil_in32_def)

lemma xil_in32_ends: "ends (xil_in32 a) s (\<lambda>_ s'. reg_reads s s') (\<lambda>_ _. False)"
proof (cases "reg_script s a")
  case Nil
  then show ?thesis by (simp add: ends_def xil_in32_idle)
next
  case (Cons v vs)
  then show ?thesis
    by (cases "a < 0x2000") (simp_all add: ends_def xil_in32_ram xil_in32_reg)
qed

lemma xil_out32_bnd [simp]:
  "bnd (xil_out32 a v) f s = f () (s\<lparr>mem := (mem s)(a := v), trace := trace s @ [Wr a v]\<rparr>)"
  by (simp add: xil_out32_def)

lemma xil_out32_run [fw_run]:
  "xil_out32 a v s = Some (Ret (), s\<lparr>mem := (mem s)(a := v), trace := trace s @ [Wr a v]\<rparr>)"
  by (simp add: xil_out32_def prim_run)

lemma periph_onlyI:
  assumes "s' = s\<lparr>mem := m, reg_script := r, trace := trace s @ ws\<rparr>" and "list_all is_Wr ws"
    and "\<And>a. a < 0x2000 \<Longrightarrow> m a = mem s a"
  shows "periph_only s s'"
  unfolding periph_only_def using assms by blast

lemma periph_onlyE:
  assumes "periph_only s s'"
  obtains m r ws where "s' = s\<lparr>mem := m, reg_script := r, trace := trace s @ ws\<rparr>"
    and "list_all is_Wr ws" and "\<And>a. a < 0x2000 \<Longrightarrow> m a = mem s a"
  using assms unfolding periph_only_def by blast

lemma periph_only_fields:
  assumes "periph_only s s'"
  shows "timeout s' = timeout s"
    and "stream_in s' = stream_in s" and "dma_tag s' = dma_tag s"
    and "dma_transaction_size s' = dma_transaction_size s"
    and "max_dma_in_flight s' = max_dma_in_flight s" and "use_tcp s' = use_tcp s"
    and "irqs s' = irqs s" and "ie s' = ie s" and "num_rx_enqueued s' = num_rx_enqueued s"
    and "dma_tag_lookup s' = dma_tag_lookup s" and "a < 0x2000 \<Longrightarrow> mem s' a = mem s a"
  using assms by (auto elim!: periph_onlyE)

lemma periph_only_refl [simp]: "periph_only s s"
  by (rule periph_onlyI [where ws = "[]" and m = "mem s" and r = "reg_script s"]) simp_all

lemma periph_only_trans:
  assumes "periph_only s t" and "periph_only t u"
  shows "periph_only s u"
proof -
  from assms(1) obtain m r ws where t: "t = s\<lparr>mem := m, reg_script := r, trace := trace s @ ws\<rparr>"
    and ws: "list_all is_Wr ws" and m: "\<And>a. a < 0x2000 \<Longrightarrow> m a = mem s a" by (rule periph_onlyE) blast
  from assms(2) obtain m' r' ws' where
    u: "u = t\<lparr>mem := m', reg_script := r', trace := trace t @ ws'\<rparr>"
    and ws': "list_all is_Wr ws'" and m': "\<And>a. a < 0x2000 \<Longrightarrow> m' a = mem t a"
    by (rule periph_onlyE) blast
  show ?thesis
    by (rule periph_onlyI [where m = m' and r = r' and ws = "ws @ ws'"])
      (use t u ws ws' m m' in simp_all)
qed

lemma reg_reads_periph: "reg_reads s s' \<Longrightarrow> periph_only s s'"
  by (erule reg_readsE, rule periph_onlyI [where ws = "[]" and m = "mem s"]) simp_all

lemma periph_only_write:
  "\<not> a < 0x2000 \<Longrightarrow> periph_only s (s\<lparr>mem := (mem s)(a := v), trace := trace s @ [Wr a v]\<rparr>)"
  by (rule periph_onlyI [where ws = "[Wr a v]" and m = "(mem s)(a := v)" and r = "reg_script s"])
    (auto simp: is_Wr_def)

subsection \<open>The polling loops end\<close>

lemma wait_arith_ends:
  assumes "timeout s \<noteq> 0"
  shows "ends wait_arith s (\<lambda>_ s'. reg_reads s s') (\<lambda>c s'. c = ARITH_ERROR \<and> reg_reads s s')"
  unfolding wait_arith_def
proof (rule counted_loop_ends [where tmo = "timeout s" and J = "\<lambda>s'. reg_reads s s'"])
  fix count t assume t: "reg_reads s t"
  show "ends (wait_arith_step count) t
      (\<lambda>z s'. case z of Inl y \<Rightarrow> y = count + 1 \<and> count < timeout s \<and> reg_reads s s'
        | Inr v \<Rightarrow> reg_reads s s') (\<lambda>c s'. c = ARITH_ERROR \<and> reg_reads s s')"
    unfolding wait_arith_step_def arith_is_idle_def bnd_assoc
  proof (rule ends_bndI [OF ends_weaken [OF xil_in32_ends]])
    fix v u assume "reg_reads t u"
    with t have "reg_reads s u" by (rule reg_reads_trans)
    then show "reg_reads s u" .
  next
    fix v u assume u: "reg_reads s u"
    then have "timeout u = timeout s" by (auto elim: reg_readsE)
    with u assms show "ends (bnd (ret (v AND CONTROL_IDLE_MASK)) (\<lambda>idle. if idle \<noteq> 0 then ret (Inr ())
         else bnd (getf timeout) (\<lambda>tmo. if tmo \<noteq> 0 \<and> tmo \<le> count then longjmp ARITH_ERROR
              else ret (Inl (count + 1))))) u
      (\<lambda>z s'. case z of Inl y \<Rightarrow> y = count + 1 \<and> count < timeout s \<and> reg_reads s s'
        | Inr v \<Rightarrow> reg_reads s s') (\<lambda>c s'. c = ARITH_ERROR \<and> reg_reads s s')"
      by auto
  qed simp
qed simp

lemma apply_switch_loop_ends:
  assumes "timeout s \<noteq> 0"
  shows "ends (loop (apply_switch_step base) 0) s (\<lambda>_ s'. reg_reads s s')
           (\<lambda>c s'. c = CONFIG_SWITCH_ERROR \<and> reg_reads s s')"
proof (rule counted_loop_ends [where tmo = "timeout s" and J = "\<lambda>s'. reg_reads s s'"])
  fix count t assume t: "reg_reads s t"
  show "ends (apply_switch_step base count) t
      (\<lambda>z s'. case z of Inl y \<Rightarrow> y = count + 1 \<and> count < timeout s \<and> reg_reads s s'
        | Inr v \<Rightarrow> reg_reads s s') (\<lambda>c s'. c = CONFIG_SWITCH_ERROR \<and> reg_reads s s')"
    unfolding apply_switch_step_def
  proof (rule ends_bndI [OF ends_weaken [OF xil_in32_ends]])
    fix v u assume "reg_reads t u"
    with t have "reg_reads s u" by (rule reg_reads_trans)
    then show "reg_reads s u" .
  next
    fix v u assume u: "reg_reads s u"
    then have "timeout u = timeout s" by (auto elim: reg_readsE)
    with u assms show "ends (if v = 0 then ret (Inr ())
         else bnd (getf timeout) (\<lambda>tmo. if tmo \<noteq> 0 \<and> tmo \<le> count then longjmp CONFIG_SWITCH_ERROR
              else ret (Inl (count + 1)))) u
      (\<lambda>z s'. case z of Inl y \<Rightarrow> y = count + 1 \<and> count < timeout s \<and> reg_reads s s'
        | Inr v \<Rightarrow> reg_reads s s') (\<lambda>c s'. c = CONFIG_SWITCH_ERROR \<and> reg_reads s s')"
      by auto
  qed simp
qed simp

lemma ends_out32 [simp]:
  "ends (bnd (xil_out32 a v) f) s Q E
     = ends (f ()) (s\<lparr>mem := (mem s)(a := v), trace := trace s @ [Wr a v]\<rparr>) Q E"
  by (simp add: ends_def)

subsection \<open>Switch routes\<close>

text \<open>
  The route register of master port \<open>dst\<close> selects the slave port that feeds it; bit 31 set
  disables the port (PG085, as the comments of the C code cite it).
\<close>

definition switch_route :: "(u32 \<Rightarrow> u32) \<Rightarrow> u32 \<Rightarrow> u32 \<Rightarrow> u32 option" where
  "switch_route m base dst =
     (let v = m (base + 0x40 + 4 * dst) in if bit v 31 then None else Some v)"

text \<open>The table in the comment above \<open>cfg_switch\<close>, master port to slave port, for scenarios 1 to 7.\<close>

definition documented_routes :: "u32 \<Rightarrow> (u32 \<times> u32) list" where
  "documented_routes scenario =
    (if scenario = DATAPATH_DMA_LOOPBACK then [(MAIN_SWITCH_M_DMA1_TX, MAIN_SWITCH_S_DMA1_RX)]
     else if scenario = DATAPATH_DMA_REDUCTION then
       [(MAIN_SWITCH_M_ARITH_OP0, MAIN_SWITCH_S_DMA0_RX),
        (MAIN_SWITCH_M_ARITH_OP1, MAIN_SWITCH_S_DMA1_RX),
        (MAIN_SWITCH_M_DMA1_TX, MAIN_SWITCH_S_ARITH_RES)]
     else if scenario = DATAPATH_OFFCHIP_TX_UDP then [(MAIN_SWITCH_M_UDP_TX, MAIN_SWITCH_S_DMA1_RX)]
     else if scenario = DATAPATH_OFFCHIP_TX_TCP then [(MAIN_SWITCH_M_TCP_TX, MAIN_SWITCH_S_DMA1_RX)]
     else if scenario = DATAPATH_OFFCHIP_UDP_REDUCTION then
       [(MAIN_SWITCH_M_ARITH_OP0, MAIN_SWITCH_S_DMA0_RX),
        (MAIN_SWITCH_M_ARITH_OP1, MAIN_SWITCH_S_DMA1_RX),
        (MAIN_SWITCH_M_UDP_TX, MAIN_SWITCH_S_ARITH_RES)]
     else if scenario = DATAPATH_OFFCHIP_TCP_REDUCTION then
       [(MAIN_SWITCH_M_ARITH_OP0, MAIN_SWITCH_S_DMA0_RX),
        (MAIN_SWITCH_M_ARITH_OP1, MAIN_SWITCH_S_DMA1_RX),
        (MAIN_SWITCH_M_TCP_TX, MAIN_SWITCH_S_ARITH_RES)]
     else if scenario = DATAPATH_DMA_EXT_LOOPBACK then
       [(MAIN_SWITCH_M_EXT_KRNL, MAIN_SWITCH_S_DMA0_RX),
        (MAIN_SWITCH_M_DMA1_TX, MAIN_SWITCH_S_EXT_KRNL)]
     else [])"

definition main_ports :: "u32 list" where
  "main_ports = [MAIN_SWITCH_M_UDP_TX, MAIN_SWITCH_M_TCP_TX, MAIN_SWITCH_M_DMA1_TX,
     MAIN_SWITCH_M_ARITH_OP0, MAIN_SWITCH_M_ARITH_OP1, MAIN_SWITCH_M_EXT_KRNL]"

definition routes_as :: "(u32 \<times> u32) list \<Rightarrow> (u32 \<Rightarrow> u32) \<Rightarrow> bool" where
  "routes_as table m =
     list_all (\<lambda>dst. switch_route m MAIN_SWITCH_BASEADDR dst = map_of table dst) main_ports"

lemma blk_out32 [simp]: "bnd (blk []) f s = f () s"
  by simp

lemma apply_switch_config_ends:
  assumes "timeout s \<noteq> 0"
  shows "ends (apply_switch_config base) s
     (\<lambda>_ s'. reg_reads (s\<lparr>mem := (mem s)(base := 2), trace := trace s @ [Wr base 2]\<rparr>) s')
     (\<lambda>c s'. c = CONFIG_SWITCH_ERROR \<and>
        reg_reads (s\<lparr>mem := (mem s)(base := 2), trace := trace s @ [Wr base 2]\<rparr>) s')"
  unfolding apply_switch_config_def using assms
  by (simp add: apply_switch_loop_ends)

lemma reg_reads_after_writes:
  assumes "reg_reads (s\<lparr>mem := m, trace := trace s @ ws\<rparr>) s'" and "list_all is_Wr ws"
    and "\<And>a. a < 0x2000 \<Longrightarrow> m a = mem s a"
  shows "periph_only s s' \<and> mem s' = m"
proof -
  obtain r where "s' = s\<lparr>mem := m, trace := trace s @ ws\<rparr>\<lparr>reg_script := r\<rparr>"
    using assms(1) by (rule reg_readsE)
  then have s': "s' = s\<lparr>mem := m, reg_script := r, trace := trace s @ ws\<rparr>" by simp
  have "periph_only s s'" by (rule periph_onlyI [OF s' assms(2,3)])
  with s' show ?thesis by simp
qed

lemma apply_switch_after:
  assumes "timeout s \<noteq> 0" and "list_all is_Wr ws" and "\<And>a. a < 0x2000 \<Longrightarrow> m a = mem s a"
    and "\<not> base < 0x2000"
  shows "ends (apply_switch_config base) (s\<lparr>mem := m, trace := trace s @ ws\<rparr>)
     (\<lambda>_ s'. periph_only s s' \<and> mem s' = m(base := 2))
     (\<lambda>c s'. c = CONFIG_SWITCH_ERROR \<and> periph_only s s')"
proof -
  let ?s = "s\<lparr>mem := m, trace := trace s @ ws\<rparr>"
  have "reg_reads (?s\<lparr>mem := (mem ?s)(base := 2), trace := trace ?s @ [Wr base 2]\<rparr>) s'
      \<Longrightarrow> periph_only s s' \<and> mem s' = m(base := 2)" for s'
    using assms(2-4) by (intro reg_reads_after_writes [where ws = "ws @ [Wr base 2]"]) (auto simp: is_Wr_def)
  with assms(1) show ?thesis
    by (intro ends_weaken [OF apply_switch_config_ends]) auto
qed

lemma periph_neq:
  fixes a c :: u32
  assumes "a < b" and "b \<le> c"
  shows "a \<noteq> c"
  using assms by auto

text \<open>The arithmetic switch lies above the main switch: its configuration leaves the main routes alone.\<close>

lemma cfg_arith_switch_ends:
  assumes "timeout s \<noteq> 0"
  shows "ends (cfg_arith_switch arith) s
     (\<lambda>_ s'. periph_only s s' \<and> (\<forall>a < 0x44B00000. mem s' a = mem s a))
     (\<lambda>c s'. c = CONFIG_SWITCH_ERROR \<and> periph_only s s')"
proof -
  have other: "ends (apply_switch_config ARITH_SWITCH_BASEADDR) s
     (\<lambda>_ s'. periph_only s s' \<and> (\<forall>a < 0x44B00000. mem s' a = mem s a))
     (\<lambda>c s'. c = CONFIG_SWITCH_ERROR \<and> periph_only s s')"
    using apply_switch_after [where ws = "[]" and m = "mem s" and s = s, OF assms]
    by (intro ends_weaken [OF apply_switch_after [where ws = "[]" and m = "mem s" and s = s, OF assms, simplified]])
      (auto simp: periph_neq)
  show ?thesis
    unfolding cfg_arith_switch_def Let_def
    apply (simp add: set_switch_datapath_def disable_switch_datapath_def other)
    apply (intro conjI impI; rule ends_bndI [OF ends_weaken [OF apply_switch_after [OF assms]]])
    apply (auto simp: is_Wr_def periph_neq)
    done
qed

lemma cfg_switch_after:
  assumes "timeout s \<noteq> 0" and "cfg_main_switch sc = Some w"
    and "w s = Some (Ret (), s\<lparr>mem := m, trace := trace s @ ws\<rparr>)"
    and "list_all is_Wr ws" and "\<And>a. a < 0x2000 \<Longrightarrow> m a = mem s a"
  shows "ends (cfg_switch sc arith) s
     (\<lambda>_ s'. periph_only s s' \<and>
        (\<forall>a < 0x44B00000. mem s' a = (m(MAIN_SWITCH_BASEADDR := 2)) a))
     (\<lambda>c s'. c = CONFIG_SWITCH_ERROR \<and> periph_only s s')"
proof -
  have arith: "ends (cfg_arith_switch arith) t
     (\<lambda>_ s'. periph_only s s' \<and> (\<forall>a < 0x44B00000. mem s' a = (m(MAIN_SWITCH_BASEADDR := 2)) a))
     (\<lambda>c s'. c = CONFIG_SWITCH_ERROR \<and> periph_only s s')"
    if "periph_only s t" and "mem t = m(MAIN_SWITCH_BASEADDR := 2)" for t
  proof (rule ends_weaken [OF cfg_arith_switch_ends])
    show "timeout t \<noteq> 0" using assms(1) that(1) by (simp add: periph_only_fields)
  qed (use that in \<open>auto intro: periph_only_trans\<close>)
  have "ends (blk [apply_switch_config MAIN_SWITCH_BASEADDR, cfg_arith_switch arith])
     (s\<lparr>mem := m, trace := trace s @ ws\<rparr>)
     (\<lambda>_ s'. periph_only s s' \<and> (\<forall>a < 0x44B00000. mem s' a = (m(MAIN_SWITCH_BASEADDR := 2)) a))
     (\<lambda>c s'. c = CONFIG_SWITCH_ERROR \<and> periph_only s s')"
    unfolding blk.simps
    apply (rule ends_bndI [OF ends_weaken [OF apply_switch_after [OF assms(1,4,5)]]])
    apply (auto intro!: ends_bndI [OF arith])
    done
  then show ?thesis
    using assms(2,3) by (simp add: cfg_switch_def ends_def bnd_def)
qed

lemma cfg_switch_tableI:
  assumes "timeout s \<noteq> 0" and "cfg_main_switch sc = Some w"
    and "w s = Some (Ret (), s\<lparr>mem := m, trace := trace s @ ws\<rparr>)"
    and "list_all is_Wr ws" and "\<And>a. a < 0x2000 \<Longrightarrow> m a = mem s a"
    and "\<And>m'. (\<And>a. a < 0x44B00000 \<Longrightarrow> m' a = (m(MAIN_SWITCH_BASEADDR := 2)) a) \<Longrightarrow> routes_as table m'"
  shows "ends (cfg_switch sc arith) s (\<lambda>_ s'. routes_as table (mem s') \<and> periph_only s s')
     (\<lambda>c s'. c = CONFIG_SWITCH_ERROR \<and> periph_only s s')"
  by (rule ends_weaken [OF cfg_switch_after [OF assms(1-5)]]) (auto intro!: assms(6))

text \<open>
  The routes \<open>cfg_switch\<close> really sets up, for all seven scenarios.  The external loopback feeds the
  external kernel from DMA1 where the comment says DMA0; the others are the documented ones.
\<close>

definition actual_routes :: "u32 \<Rightarrow> (u32 \<times> u32) list" where
  "actual_routes scenario =
    (if scenario = DATAPATH_DMA_EXT_LOOPBACK then
       [(MAIN_SWITCH_M_EXT_KRNL, MAIN_SWITCH_S_DMA1_RX),
        (MAIN_SWITCH_M_DMA1_TX, MAIN_SWITCH_S_EXT_KRNL)]
     else documented_routes scenario)"

lemma cfg_switch_actual:
  assumes "timeout s \<noteq> 0" and "sc \<in> {1, 2, 3, 4, 5, 6, 7}"
  shows "ends (cfg_switch sc arith) s
     (\<lambda>_ s'. routes_as (actual_routes sc) (mem s') \<and> periph_only s s')
     (\<lambda>c s'. c = CONFIG_SWITCH_ERROR \<and> periph_only s s')"
  by (insert assms(2), elim insertE emptyE; hypsubst;
      (rule cfg_switch_tableI [OF assms(1)],
       (simp add: cfg_main_switch_def Let_def set_switch_datapath_def disable_switch_datapath_def
          prim_run is_Wr_def periph_neq routes_as_def actual_routes_def documented_routes_def
          main_ports_def switch_route_def)+))

lemma cfg_switch_ends:
  assumes "timeout s \<noteq> 0"
  shows "ends (cfg_switch sc arith) s (\<lambda>_ s'. periph_only s s')
     (\<lambda>c s'. c = CONFIG_SWITCH_ERROR \<and> periph_only s s')"
proof (cases "sc \<in> {1, 2, 3, 4, 5, 6, 7}")
  case True
  show ?thesis
    by (rule ends_weaken [OF cfg_switch_actual [OF assms True]]) auto
next
  case False
  then show ?thesis by (simp add: cfg_switch_def cfg_main_switch_def)
qed

subsection \<open>What a call may change\<close>

text \<open>
  \<open>frame A s s'\<close>: the settings of the firmware and its buffer bookkeeping are as before, events
  were only added to the trace, and memory differs at most at the addresses of \<open>A\<close>.
\<close>

definition same_settings :: "fw_state \<Rightarrow> fw_state \<Rightarrow> bool" where
  "same_settings s s' \<longleftrightarrow>
     irqs s' = irqs s \<and> ie s' = ie s \<and> use_tcp s' = use_tcp s \<and>
     num_rx_enqueued s' = num_rx_enqueued s \<and> timeout s' = timeout s \<and>
     dma_tag_lookup s' = dma_tag_lookup s \<and>
     dma_transaction_size s' = dma_transaction_size s \<and> max_dma_in_flight s' = max_dma_in_flight s"

definition frame :: "u32 set \<Rightarrow> fw_state \<Rightarrow> fw_state \<Rightarrow> bool" where
  "frame A s s' \<longleftrightarrow> same_settings s s' \<and> prefix (trace s) (trace s') \<and>
     (\<forall>a. a \<notin> A \<longrightarrow> mem s' a = mem s a)"

abbreviation (input) peripherals :: "u32 set" where
  "peripherals \<equiv> {a. \<not> a < 0x2000}"

lemma same_settings_refl [simp]: "same_settings s s"
  by (simp add: same_settings_def)

lemma same_settings_trans: "same_settings s t \<Longrightarrow> same_settings t u \<Longrightarrow> same_settings s u"
  by (simp add: same_settings_def)

lemma frame_refl [simp]: "frame A s s"
  by (simp add: frame_def)

lemma frame_trans: "frame A s t \<Longrightarrow> frame A t u \<Longrightarrow> frame A s u"
  unfolding frame_def by (blast intro: same_settings_trans prefix_order.trans dest: trans)

lemma frame_mono: "frame A s t \<Longrightarrow> A \<subseteq> B \<Longrightarrow> frame B s t"
  unfolding frame_def by blast

lemma frame_trans2: "frame A s t \<Longrightarrow> frame B t u \<Longrightarrow> frame (A \<union> B) s u"
  by (rule frame_trans [of _ s t]) (auto elim: frame_mono)

lemma frame_mem: "frame A s t \<Longrightarrow> a \<notin> A \<Longrightarrow> mem t a = mem s a"
  by (simp add: frame_def)

lemma frame_settings:
  assumes "frame A s t"
  shows "irqs t = irqs s" and "ie t = ie s" and "use_tcp t = use_tcp s"
    and "num_rx_enqueued t = num_rx_enqueued s" and "timeout t = timeout s"
    and "dma_tag_lookup t = dma_tag_lookup s"
    and "dma_transaction_size t = dma_transaction_size s"
    and "max_dma_in_flight t = max_dma_in_flight s"
  using assms by (simp_all add: frame_def same_settings_def)

lemma frame_trace: "frame A s t \<Longrightarrow> \<exists>es. trace t = trace s @ es"
  by (auto simp: frame_def prefix_def)

lemma frame_reg_reads: "reg_reads s s' \<Longrightarrow> frame A s s'"
  by (erule reg_readsE) (simp add: frame_def same_settings_def)

lemma frame_periph: "periph_only s s' \<Longrightarrow> frame peripherals s s'"
  by (erule periph_onlyE) (simp add: frame_def same_settings_def)

lemma frame_ends_periph:
  assumes "ends m s (\<lambda>_ s'. periph_only s s') (\<lambda>c s'. P c \<and> periph_only s s')"
  shows "ends m s (\<lambda>_ s'. frame peripherals s s') (\<lambda>c s'. P c \<and> frame peripherals s s')"
  by (rule ends_weaken [OF assms]) (auto dest: frame_periph)

subsection \<open>Start-up values\<close>

text \<open>The static initialisers of the C file, in front of any memory and hardware.\<close>

definition boot_state ::
    "(u32 \<Rightarrow> u32) \<Rightarrow> (u32 \<Rightarrow> u32 list) \<Rightarrow> (u32 \<Rightarrow> (nat \<times> u32) list) \<Rightarrow> bool list \<Rightarrow> fw_state" where
  "boot_state m g si q = \<lparr>mem = m, reg_script = g, stream_in = si, trace = [], irqs = q, ie = False,
     use_tcp = 0, dma_tag = 0, num_rx_enqueued = 0, timeout = push_bit 28 1,
     dma_tag_lookup = replicate 16 0, dma_transaction_size = DMA_MAX_BTT,
     max_dma_in_flight = DMA_MAX_TRANSACTIONS\<rparr>"

lemma boot_state_settings [simp]:
  "timeout (boot_state m g si q) = push_bit 28 1" "dma_transaction_size (boot_state m g si q) = DMA_MAX_BTT"
  "max_dma_in_flight (boot_state m g si q) = DMA_MAX_TRANSACTIONS" "use_tcp (boot_state m g si q) = 0"
  "mem (boot_state m g si q) = m" "stream_in (boot_state m g si q) = si" "reg_script (boot_state m g si q) = g"
  "trace (boot_state m g si q) = []" "irqs (boot_state m g si q) = q" "\<not> ie (boot_state m g si q)"
  "dma_tag (boot_state m g si q) = 0" "num_rx_enqueued (boot_state m g si q) = 0"
  "dma_tag_lookup (boot_state m g si q) = replicate 16 0"
  by (simp_all add: boot_state_def)

text \<open>A start-up state in front of quiet hardware, for the examples.\<close>

definition quiet :: fw_state where
  "quiet = boot_state (\<lambda>_. 0) (\<lambda>_. []) (\<lambda>_. []) []"

lemma quiet_settings [simp]:
  "timeout quiet = 0x10000000" "dma_transaction_size quiet = DMA_MAX_BTT"
  "max_dma_in_flight quiet = DMA_MAX_TRANSACTIONS" "use_tcp quiet = 0" "mem quiet = (\<lambda>_. 0)"
  "stream_in quiet = (\<lambda>_. [])" "trace quiet = []" "irqs quiet = []" "dma_tag quiet = 0"
  "num_rx_enqueued quiet = 0" "dma_tag_lookup quiet = replicate 16 0"
  by (simp_all add: quiet_def)

subsection \<open>Operand count of the arithmetic unit\<close>

text \<open>The unit works on 64-byte words; a segment of \<open>n\<close> bytes arrives as this many.\<close>

definition words64 :: "nat \<Rightarrow> nat" where
  "words64 n = (n + 63) div 64"

lemma words64_le: "words64 n \<le> n"
  by (cases n) (simp_all add: words64_def)

lemma segs_split:
  assumes "0 < d"
  shows "segs d len = replicate (len div d) d @ (if len mod d = 0 then [] else [len mod d])"
proof (rule nth_equalityI)
  let ?r = "replicate (len div d) d @ (if len mod d = 0 then [] else [len mod d])"
  have n: "nsegs d len = len div d + (if len mod d = 0 then 0 else 1)"
  proof -
    have "(q * d + r + d - 1) div d = q + (if r = 0 then 0 else 1)" if "r < d" for q r
    proof -
      have "q * d + r + d - 1 = (r + d - 1) + q * d" using assms by linarith
      moreover have "((r + d - 1) + q * d) div d = q + (r + d - 1) div d"
        by (rule div_mult_self1) (use assms in simp)
      ultimately have "(q * d + r + d - 1) div d = q + (r + d - 1) div d" by (simp only:)
      moreover have "(r + d - 1) div d = (if r = 0 then 0 else 1)"
        using that assms by (auto intro!: div_nat_eqI)
      ultimately show ?thesis by simp
    qed
    from this [of "len mod d" "len div d"] assms show ?thesis by (simp add: nsegs_def)
  qed
  then show "length (segs d len) = length ?r" by simp
  fix k assume k: "k < length (segs d len)"
  have "len - k * d = len mod d + (len div d - k) * d" if le: "k \<le> len div d"
  proof -
    have "k * d \<le> len div d * d" using le by simp
    moreover have "len div d * d + len mod d = len" by simp
    ultimately show ?thesis unfolding diff_mult_distrib by linarith
  qed
  note rest = this
  show "segs d len ! k = ?r ! k"
  proof (cases "k < len div d")
    case True
    then obtain x where "len div d - k = Suc x" by (metis Suc_diff_Suc)
    with rest True have "d \<le> len - k * d" by simp
    with True k show ?thesis by (simp add: nth_append seg_def)
  next
    case False
    with k n have "k = len div d" and "len mod d \<noteq> 0" by (auto split: if_splits)
    moreover have "len mod d < d" using assms by simp
    ultimately show ?thesis using rest k by (simp add: nth_append seg_def)
  qed
qed

lemma sum_words64_le: "sum_list (map words64 ns) \<le> sum_list ns"
  by (induction ns) (simp_all add: add_mono words64_le)

lemma sum_seg_words64:
  assumes "0 < d"
  shows "sum_list (map words64 (segs d len)) = len div d * words64 d + words64 (len mod d)"
  using assms by (auto simp: segs_split sum_list_replicate words64_def)

lemma set_bits_ends:
  "ends (set_bits a m) s (\<lambda>_ s'. \<exists>r v. s' = s\<lparr>reg_script := r, mem := (mem s)(a := v),
     trace := trace s @ [Wr a v]\<rparr>) E"
  unfolding set_bits_def
proof (rule ends_bndI [OF ends_weaken [OF xil_in32_ends]])
  fix v t assume "reg_reads s t"
  then obtain r where "t = s\<lparr>reg_script := r\<rparr>" by (rule reg_readsE)
  then show "ends (xil_out32 a (v OR m)) t (\<lambda>_ s'. \<exists>r v. s' = s\<lparr>reg_script := r, mem := (mem s)(a := v),
     trace := trace s @ [Wr a v]\<rparr>) E"
    by (simp add: ends_def xil_out32_run) blast
qed simp_all

lemma start_arith_count:
  assumes "0 < dts" and "dts \<le> DMA_MAX_BTT"
  shows "unat (len div dts * ((dts + 63) div 64) + (len mod dts + 63) div 64)
     = sum_list (map words64 (segs (unat dts) (unat len)))"
proof -
  let ?d = "unat dts" and ?l = "unat len"
  have d: "0 < ?d" "?d \<le> 0x7FFFFF" using assms by (simp_all add: word_less_nat_alt word_le_nat_alt)
  have w: "unat ((x + 63) div 64) = words64 (unat x)" if "unat x \<le> 0x7FFFFF" for x :: u32
    using that by (simp add: words64_def unat_div unat_word_ariths)
  have m: "unat (len mod dts) = ?l mod ?d" by (simp add: unat_mod)
  have md: "?l mod ?d < ?d" using d by simp
  have "sum_list (map words64 (segs ?d ?l)) \<le> ?l"
    using sum_words64_le [of "segs ?d ?l"] by (simp add: sum_segs d)
  then have s: "?l div ?d * words64 ?d + words64 (?l mod ?d) \<le> ?l"
    by (simp add: sum_seg_words64 d)
  moreover have "?l < 2 ^ LENGTH(32)" by (rule unsigned_less)
  ultimately have "?l div ?d * words64 ?d + words64 (?l mod ?d) < 2 ^ 32" by simp
  then show ?thesis
    using w [of dts] w [of "len mod dts"] d md m s
    by (simp add: sum_seg_words64 unat_word_ariths unat_div mod_simps)
qed

definition arith_started :: "u32 \<Rightarrow> u32 \<Rightarrow> fw_state \<Rightarrow> fw_state \<Rightarrow> bool" where
  "arith_started len func s s' \<longleftrightarrow>
     (let dts = dma_transaction_size s;
          n = len div dts * ((dts + 63) div 64) + (len mod dts + 63) div 64
      in \<exists>r v. s' = s\<lparr>reg_script := r,
           mem := (mem s)(ARITH_BASEADDR + 0x10 := n, ARITH_BASEADDR + 0x18 := func, ARITH_BASEADDR := v),
           trace := trace s @ [Wr (ARITH_BASEADDR + 0x10) n, Wr (ARITH_BASEADDR + 0x18) func, Wr ARITH_BASEADDR v]\<rparr>)"

lemma start_arith_ends:
  assumes "dma_transaction_size s \<noteq> 0"
  shows "ends (start_arith len func rep) s (\<lambda>_ s'. arith_started len func s s') E"
proof -
  let ?n = "len div dma_transaction_size s * ((dma_transaction_size s + 63) div 64) + (len mod dma_transaction_size s + 63) div 64"
  let ?t = "s\<lparr>mem := (mem s)(ARITH_BASEADDR + 0x10 := ?n, ARITH_BASEADDR + 0x18 := func),
     trace := trace s @ [Wr (ARITH_BASEADDR + 0x10) ?n, Wr (ARITH_BASEADDR + 0x18) func]\<rparr>"
  have "start_arith len func rep s = set_bits ARITH_BASEADDR
     (CONTROL_START_MASK OR (if rep = 1 then CONTROL_REPEAT_MASK else 0)) ?t"
    using assms by (simp add: start_arith_def c_div_def c_mod_def Let_def bnd_ret_right)
  moreover have "ends (set_bits ARITH_BASEADDR (CONTROL_START_MASK OR (if rep = 1 then CONTROL_REPEAT_MASK else 0))) ?t
     (\<lambda>_ s'. arith_started len func s s') E"
    by (rule ends_weaken [OF set_bits_ends]) (auto simp: arith_started_def Let_def)
  ultimately show ?thesis by (simp only: ends_def)
qed

lemma arith_started_periph:
  assumes "arith_started len func s s'"
  shows "periph_only s s'"
  by (rule periph_onlyI [where m = "mem s'" and r = "reg_script s'" and ws = "drop (length (trace s)) (trace s')"])
    (use assms in \<open>auto simp: arith_started_def Let_def is_Wr_def\<close>)

lemma arith_started_routes:
  assumes "arith_started len func s s'"
  shows "routes_as table (mem s') = routes_as table (mem s)"
proof -
  have "mem s' a = mem s a" if "0x30000 \<le> a" for a
  proof -
    have "a \<noteq> 0x20000" "a \<noteq> 0x20010" "a \<noteq> 0x20018" using that by auto
    then show ?thesis using assms by (auto simp: arith_started_def Let_def)
  qed
  then show ?thesis by (simp add: routes_as_def main_ports_def switch_route_def)
qed

subsection \<open>Properties\<close>

text \<open>C34: for scenarios 1 to 6 \<open>cfg_switch\<close> ends, and then the main switch has exactly the routes of the table in its
comment, every other master port being disabled; or it jumps with \<open>CONFIG_SWITCH_ERROR\<close>.  Only peripheral registers change.\<close>

theorem cfg_switch_documented:
  assumes "timeout s \<noteq> 0" and "sc \<in> {1, 2, 3, 4, 5, 6}"
  shows "ends (cfg_switch sc arith) s
     (\<lambda>_ s'. routes_as (documented_routes sc) (mem s') \<and> frame peripherals s s')
     (\<lambda>c s'. c = CONFIG_SWITCH_ERROR \<and> frame peripherals s s')"
proof -
  have sc: "sc \<in> {1, 2, 3, 4, 5, 6, 7}" and "sc \<noteq> 7" using assms(2) by auto
  then have "actual_routes sc = documented_routes sc" by (simp add: actual_routes_def)
  then show ?thesis
    by (intro ends_weaken [OF cfg_switch_actual [OF assms(1) sc]]) (auto dest: frame_periph)
qed

theorem cfg_switch_documented_witness:
  "timeout quiet \<noteq> 0 \<and> ends (cfg_switch DATAPATH_DMA_REDUCTION ARITH_INTERNAL) quiet
     (\<lambda>_ s'. routes_as (documented_routes DATAPATH_DMA_REDUCTION) (mem s') \<and> frame peripherals quiet s')
     (\<lambda>c s'. c = CONFIG_SWITCH_ERROR \<and> frame peripherals quiet s')"
  using cfg_switch_documented [of quiet DATAPATH_DMA_REDUCTION ARITH_INTERNAL] by simp

text \<open>Scenario 7, the external loopback, departs from the comment: the external kernel is fed by DMA1, not DMA0,
so the documented table is never set up.\<close>

lemma cfg_switch_ext_loopback:
  assumes "timeout s \<noteq> 0"
  shows "ends (cfg_switch DATAPATH_DMA_EXT_LOOPBACK arith) s
     (\<lambda>_ s'. switch_route (mem s') MAIN_SWITCH_BASEADDR MAIN_SWITCH_M_EXT_KRNL = Some MAIN_SWITCH_S_DMA1_RX \<and>
        switch_route (mem s') MAIN_SWITCH_BASEADDR MAIN_SWITCH_M_DMA1_TX = Some MAIN_SWITCH_S_EXT_KRNL \<and>
        \<not> routes_as (documented_routes DATAPATH_DMA_EXT_LOOPBACK) (mem s'))
     (\<lambda>c s'. c = CONFIG_SWITCH_ERROR)"
  by (rule ends_weaken [OF cfg_switch_actual [OF assms]])
    (simp_all add: routes_as_def actual_routes_def documented_routes_def main_ports_def)

text \<open>\<open>start_arith\<close> programs the unit with the function asked for and with the number of 64-byte words that the
segments of the transfer amount to, each segment rounded up on its own; the 32-bit arithmetic does not wrap.\<close>

lemma start_arith_programs_count:
  assumes "0 < dma_transaction_size s" and "dma_transaction_size s \<le> DMA_MAX_BTT"
  shows "ends (start_arith len func rep) s
     (\<lambda>_ s'. unat (mem s' (ARITH_BASEADDR + 0x10)) =
          sum_list (map words64 (segs (unat (dma_transaction_size s)) (unat len))) \<and>
        mem s' (ARITH_BASEADDR + 0x18) = func \<and> frame peripherals s s')
     (\<lambda>_ _. False)"
proof (rule ends_weaken [OF start_arith_ends])
  show "dma_transaction_size s \<noteq> 0" using assms(1) by auto
qed (use start_arith_count [OF assms, of len] in \<open>auto simp: arith_started_def Let_def frame_def same_settings_def\<close>)

end
