(* ===== verification/Fw_Dma.thy ===== *)
theory Fw_Dma
  imports Fw_Periph
begin

text \<open>
  The DMA engines: the four-word commands, the check of a status word, starting the selected
  engines for one segment and waiting for their statuses (\<open>dma_cmd\<close>, \<open>check_DMA_status\<close>,
  \<open>start_dma\<close>, \<open>ack_dma\<close>, \<open>dma_movement_single\<close> of the firmware).
\<close>

subsection \<open>Commands\<close>

definition dma_cmd_addrh_addrl :: "u32 \<Rightarrow> u32 \<Rightarrow> u32 \<Rightarrow> u32 \<Rightarrow> u32 \<Rightarrow> unit fw" where
  "dma_cmd_addrh_addrl channel btt addrh addrl tag = blk [
     putd channel (0xC0800000 OR btt),
     putd channel addrl,
     putd channel addrh,
     cputd channel (0x2000 OR tag)]"

definition dma_cmd :: "u32 \<Rightarrow> u32 \<Rightarrow> u64 \<Rightarrow> u32 \<Rightarrow> unit fw" where
  "dma_cmd channel btt addr tag =
     (let addrl = ucast (addr AND 0xFFFFFFFF); addrh = ucast (drop_bit 32 addr AND 0xFFFFFFFF)
      in dma_cmd_addrh_addrl channel btt addrh addrl tag)"

definition dma_cmd_without_EOF :: "u32 \<Rightarrow> u32 \<Rightarrow> u64 \<Rightarrow> u32 \<Rightarrow> unit fw" where
  "dma_cmd_without_EOF channel btt addr tag =
     (let addrl = ucast (addr AND 0xFFFFFFFF); addrh = ucast (drop_bit 32 addr AND 0xFFFFFFFF)
      in blk [
        putd channel (0x80800000 OR btt),
        putd channel addrl,
        putd channel addrh,
        cputd channel (0x2000 OR tag)])"

subsection \<open>Status words\<close>

definition check_DMA_status :: "u32 \<Rightarrow> u32 \<Rightarrow> u32 \<Rightarrow> u32 \<Rightarrow> unit fw" where
  "check_DMA_status status expected_btt tag indeterminate_btt_mode_active =
    (if status AND 0xF \<noteq> tag then longjmp DMA_MISMATCH_ERROR
     else if status AND 0x10 \<noteq> 0 then longjmp DMA_INTERNAL_ERROR
     else if status AND 0x20 \<noteq> 0 then longjmp DMA_DECODE_ERROR
     else if status AND 0x40 \<noteq> 0 then longjmp DMA_SLAVE_ERROR
     else if status AND 0x80 = 0 then longjmp DMA_NOT_OKAY_ERROR
     else if indeterminate_btt_mode_active = 1 then
       (if status AND 0x80000000 = 0 then longjmp DMA_NOT_END_OF_PACKET_ERROR
        else if drop_bit 8 (status AND 0x7FFFFF00) \<noteq> expected_btt then longjmp DMA_NOT_EXPECTED_BTT_ERROR
        else ret ())
     else ret ())"

subsection \<open>Starting and acknowledging one segment\<close>

definition uses :: "u32 \<Rightarrow> u32 \<Rightarrow> bool" where
  "uses what_DMAS flag \<longleftrightarrow> what_DMAS AND flag \<noteq> 0"

definition start_one :: "bool \<Rightarrow> (u32 \<Rightarrow> unit fw) \<Rightarrow> u32 \<Rightarrow> u32 fw" where
  "start_one used cmd dma_tag_tmp =
     (if used then
        (let dma_tag_tmp = (dma_tag_tmp + 1) AND 0xF in bnd (cmd dma_tag_tmp) (\<lambda>_. ret dma_tag_tmp))
      else ret dma_tag_tmp)"

definition start_dma :: "u32 \<Rightarrow> u64 \<Rightarrow> u64 \<Rightarrow> u64 \<Rightarrow> u64 \<Rightarrow> u32 \<Rightarrow> u32 \<Rightarrow> u32 fw" where
  "start_dma len DMA0_rx_addr DMA1_rx_addr DMA1_tx_addr DMA2_rx_addr what_DMAS dma_tag_tmp =
     bnd (start_one (uses what_DMAS USE_DMA0_RX) (dma_cmd CMD_DMA0_RX len DMA0_rx_addr) dma_tag_tmp)
       (\<lambda>dma_tag_tmp.
     bnd (start_one (uses what_DMAS USE_DMA1_RX) (dma_cmd CMD_DMA1_RX len DMA1_rx_addr) dma_tag_tmp)
       (\<lambda>dma_tag_tmp.
     bnd (start_one (uses what_DMAS USE_DMA1_TX) (dma_cmd CMD_DMA1_TX len DMA1_tx_addr) dma_tag_tmp)
       (\<lambda>dma_tag_tmp.
     bnd (start_one (uses what_DMAS USE_DMA1_TX_WITHOUT_TLAST)
            (dma_cmd_without_EOF CMD_DMA1_TX len DMA1_tx_addr) dma_tag_tmp)
       (\<lambda>dma_tag_tmp.
     start_one (uses what_DMAS USE_DMA2_RX) (dma_cmd CMD_DMA2_RX len DMA2_rx_addr) dma_tag_tmp))))"

definition probe :: "bool \<Rightarrow> u32 \<Rightarrow> u32 fw" where
  "probe used ch = (if used then tngetd ch else ret 0)"

definition ack_dma_poll :: "u32 \<Rightarrow> u32 \<Rightarrow> (u32 + unit) fw" where
  "ack_dma_poll what_DMAS count =
     bnd (getf timeout) (\<lambda>tmo.
     if tmo \<noteq> 0 \<and> tmo \<le> count then longjmp DMA_TIMEOUT_ERROR
     else
       bnd (probe (uses what_DMAS USE_DMA0_RX) STS_DMA0_RX) (\<lambda>i0.
       bnd (probe (uses what_DMAS USE_DMA1_RX) STS_DMA1_RX) (\<lambda>i1.
       bnd (probe (uses what_DMAS (USE_DMA1_TX OR USE_DMA1_TX_WITHOUT_TLAST)) STS_DMA1_TX) (\<lambda>i2.
       bnd (probe (uses what_DMAS USE_DMA2_RX) STS_DMA2_RX) (\<lambda>i3.
       if i0 + i1 + i2 + i3 \<noteq> 0 then ret (Inl (count + 1)) else ret (Inr ()))))))"

definition ack_one :: "bool \<Rightarrow> u32 \<Rightarrow> u32 \<Rightarrow> u32 \<Rightarrow> unit fw" where
  "ack_one used sts len indeterminate =
     whenM used
       (bnd (getd sts) (\<lambda>status.
        bnd (modf (\<lambda>s. s\<lparr>dma_tag := (dma_tag s + 1) AND 0xF\<rparr>)) (\<lambda>_.
        bnd (getf dma_tag) (\<lambda>tag. check_DMA_status status len tag indeterminate))))"

definition ack_dma :: "u32 \<Rightarrow> u32 \<Rightarrow> unit fw" where
  "ack_dma len what_DMAS = blk [
     loop (ack_dma_poll what_DMAS) 0,
     ack_one (uses what_DMAS USE_DMA0_RX) STS_DMA0_RX len 0,
     ack_one (uses what_DMAS USE_DMA1_RX) STS_DMA1_RX len 0,
     ack_one (uses what_DMAS USE_DMA1_TX) STS_DMA1_TX len 1,
     ack_one (uses what_DMAS USE_DMA1_TX_WITHOUT_TLAST) STS_DMA1_TX len 0,
     ack_one (uses what_DMAS USE_DMA2_RX) STS_DMA2_RX len 0]"

definition dma_movement_single :: "u32 \<Rightarrow> u64 \<Rightarrow> u64 \<Rightarrow> u64 \<Rightarrow> u64 \<Rightarrow> u32 \<Rightarrow> u32 fw" where
  "dma_movement_single len DMA0_rx_addr DMA1_rx_addr DMA1_tx_addr DMA2_rx_addr what_DMAS =
     (if DMA_MAX_BTT < len then ret DMA_TRANSACTION_SIZE
      else
        bnd (getf dma_tag) (\<lambda>tag.
        bnd (start_dma len DMA0_rx_addr DMA1_rx_addr DMA1_tx_addr DMA2_rx_addr what_DMAS tag) (\<lambda>_.
        bnd (ack_dma len what_DMAS) (\<lambda>_. ret COLLECTIVE_OP_SUCCESS))))"

subsection \<open>What the commands put on the stream\<close>

definition dma_words :: "u32 \<Rightarrow> u32 \<Rightarrow> u64 \<Rightarrow> u32 \<Rightarrow> event list" where
  "dma_words channel btt addr tag =
     [Put channel (0xC0800000 OR btt), Put channel (ucast addr),
      Put channel (ucast (drop_bit 32 addr)), CPut channel (0x2000 OR tag)]"

definition dma_words_without_EOF :: "u32 \<Rightarrow> u32 \<Rightarrow> u64 \<Rightarrow> u32 \<Rightarrow> event list" where
  "dma_words_without_EOF channel btt addr tag =
     [Put channel (0x80800000 OR btt), Put channel (ucast addr),
      Put channel (ucast (drop_bit 32 addr)), CPut channel (0x2000 OR tag)]"

text \<open>The fields of a command as the data mover reads them (PG022, and the comments in the C code).\<close>

fun dma_decode :: "event list \<Rightarrow> (u32 \<times> u64 \<times> u32 \<times> bool) option" where
  "dma_decode [Put c0 w0, Put c1 w1, Put c2 w2, CPut c3 w3] =
     (if c0 = c1 \<and> c1 = c2 \<and> c2 = c3
      then Some (w0 AND 0x7FFFFF, push_bit 32 (ucast w2) OR ucast w1, w3 AND 0xF, bit w0 30)
      else None)"
| "dma_decode _ = None"

lemma addr_words:
  fixes addr :: u64
  shows "ucast (addr AND 0xFFFFFFFF) = (ucast addr :: u32)"
    and "ucast (drop_bit 32 addr AND 0xFFFFFFFF) = (ucast (drop_bit 32 addr) :: u32)"
proof -
  have m: "(0xFFFFFFFF :: u64) = mask 32" by (simp add: mask_eq_exp_minus_1)
  show "ucast (addr AND 0xFFFFFFFF) = (ucast addr :: u32)"
    unfolding m by (rule bit_word_eqI) (simp add: bit_simps del: mask_numeral)
  show "ucast (drop_bit 32 addr AND 0xFFFFFFFF) = (ucast (drop_bit 32 addr) :: u32)"
    unfolding m by (rule bit_word_eqI) (simp add: bit_simps del: mask_numeral)
qed

lemma putd_run [fw_run]:
  "putd ch v s = Some (Ret (), s\<lparr>trace := trace s @ [Put ch v]\<rparr>)"
  "cputd ch v s = Some (Ret (), s\<lparr>trace := trace s @ [CPut ch v]\<rparr>)"
  by (simp_all add: putd_def cputd_def prim_run)

lemma putd_bnd [simp]:
  "bnd (putd ch v) f s = f () (s\<lparr>trace := trace s @ [Put ch v]\<rparr>)"
  "bnd (cputd ch v) f s = f () (s\<lparr>trace := trace s @ [CPut ch v]\<rparr>)"
  by (simp_all add: putd_def cputd_def)

lemma dma_cmd_run [fw_run]:
  "dma_cmd ch btt addr tag s = Some (Ret (), s\<lparr>trace := trace s @ dma_words ch btt addr tag\<rparr>)"
  "dma_cmd_without_EOF ch btt addr tag s =
     Some (Ret (), s\<lparr>trace := trace s @ dma_words_without_EOF ch btt addr tag\<rparr>)"
  by (simp_all add: dma_cmd_def dma_cmd_without_EOF_def dma_cmd_addrh_addrl_def dma_words_def
      dma_words_without_EOF_def addr_words prim_run)

definition tag_step :: "u32 \<Rightarrow> u32" where
  "tag_step t = (t + 1) AND 0xF"

text \<open>\<open>emit\<close>: the commands of a list of engines, each with the next tag.\<close>

fun emit :: "(u32 \<Rightarrow> event list) list \<Rightarrow> u32 \<Rightarrow> event list" where
  "emit [] t = []"
| "emit (c # cs) t = c (tag_step t) @ emit cs (tag_step t)"

definition engines :: "u32 \<Rightarrow> u64 \<Rightarrow> u64 \<Rightarrow> u64 \<Rightarrow> u64 \<Rightarrow> u32 \<Rightarrow> (u32 \<Rightarrow> event list) list" where
  "engines len a0 a1 t1 a2 what =
     (if uses what USE_DMA0_RX then [dma_words CMD_DMA0_RX len a0] else []) @
     (if uses what USE_DMA1_RX then [dma_words CMD_DMA1_RX len a1] else []) @
     (if uses what USE_DMA1_TX then [dma_words CMD_DMA1_TX len t1] else []) @
     (if uses what USE_DMA1_TX_WITHOUT_TLAST then [dma_words_without_EOF CMD_DMA1_TX len t1] else []) @
     (if uses what USE_DMA2_RX then [dma_words CMD_DMA2_RX len a2] else [])"

definition acks :: "u32 \<Rightarrow> (u32 \<times> u32) list" where
  "acks what =
     (if uses what USE_DMA0_RX then [(STS_DMA0_RX, 0)] else []) @
     (if uses what USE_DMA1_RX then [(STS_DMA1_RX, 0)] else []) @
     (if uses what USE_DMA1_TX then [(STS_DMA1_TX, 1)] else []) @
     (if uses what USE_DMA1_TX_WITHOUT_TLAST then [(STS_DMA1_TX, 0)] else []) @
     (if uses what USE_DMA2_RX then [(STS_DMA2_RX, 0)] else [])"

lemma length_engines: "length (engines len a0 a1 t1 a2 what) = length (acks what)"
  by (simp add: engines_def acks_def)

lemma start_one_run:
  assumes "\<And>tag s. cmd tag s = Some (Ret (), s\<lparr>trace := trace s @ c tag\<rparr>)"
  shows "start_one used cmd t s =
     Some (Ret (if used then tag_step t else t),
       s\<lparr>trace := trace s @ emit (if used then [c] else []) t\<rparr>)"
  using assms by (simp add: start_one_def tag_step_def bnd_def prim_run Let_def)

lemma emit_append: "emit (cs @ ds) t = emit cs t @ emit ds ((tag_step ^^ length cs) t)"
  by (induction cs arbitrary: t) (simp_all add: funpow_swap1)

lemma start_dma_run [fw_run]:
  "start_dma len a0 a1 t1 a2 what t s =
     Some (Ret ((tag_step ^^ length (acks what)) t),
       s\<lparr>trace := trace s @ emit (engines len a0 a1 t1 a2 what) t\<rparr>)"
  unfolding start_dma_def
  by (simp add: bnd_def start_one_run [where c = "dma_words CMD_DMA0_RX len a0"]
      start_one_run [where c = "dma_words CMD_DMA1_RX len a1"]
      start_one_run [where c = "dma_words CMD_DMA1_TX len t1"]
      start_one_run [where c = "dma_words_without_EOF CMD_DMA1_TX len t1"]
      start_one_run [where c = "dma_words CMD_DMA2_RX len a2"] dma_cmd_run
      engines_def acks_def emit_append funpow_swap1)

subsection \<open>Commands decode to what was asked\<close>

lemma low_bits_or:
  fixes c x :: u32
  assumes "c AND mask n = 0" and "x AND mask n = x"
  shows "(c OR x) AND mask n = x"
  using assms by (simp add: bit.conj_disj_distrib2)

lemma dma_decode_words:
  assumes "btt \<le> 0x7FFFFF" and "tag < 16"
  shows "dma_decode (dma_words ch btt addr tag) = Some (btt, addr, tag, True)"
    and "dma_decode (dma_words_without_EOF ch btt addr tag) = Some (btt, addr, tag, False)"
proof -
  have m: "(0x7FFFFF :: u32) = mask 23" "(0xF :: u32) = mask 4"
    by (simp_all add: mask_eq_exp_minus_1)
  have btt: "btt AND mask 23 = btt" and tag: "tag AND mask 4 = tag"
    using assms by (auto intro!: less_mask_eq simp: word_le_nat_alt word_less_nat_alt)
  have addr: "push_bit 32 (ucast (ucast (drop_bit 32 addr) :: u32)) OR ucast (ucast addr :: u32) = addr"
    by (rule bit_word_eqI) (auto simp: bit_simps)
  have hi: "\<not> bit btt n" if "23 \<le> n" for n
    using arg_cong [OF btt, of "\<lambda>w. bit w n"] that by (simp add: bit_simps)
  have "(0xC0800000 :: u32) AND mask 23 = 0" "(0x80800000 :: u32) AND mask 23 = 0"
    "(0x2000 :: u32) AND mask 4 = 0"
    by (simp_all add: mask_eq_exp_minus_1)
  then have lo: "(0xC0800000 OR btt) AND mask 23 = btt" "(0x80800000 OR btt) AND mask 23 = btt"
    "(0x2000 OR tag) AND mask 4 = tag"
    using btt tag by (simp_all only: low_bits_or)
  show "dma_decode (dma_words ch btt addr tag) = Some (btt, addr, tag, True)"
    and "dma_decode (dma_words_without_EOF ch btt addr tag) = Some (btt, addr, tag, False)"
    using lo hi [of 30] by (simp_all add: dma_words_def dma_words_without_EOF_def addr m bit_or_iff
        del: mask_numeral)
qed

subsection \<open>Status check\<close>

text \<open>The status word of the data mover (PG022, and the comment in the C code) reports success.\<close>

definition status_ok :: "u32 \<Rightarrow> u32 \<Rightarrow> u32 \<Rightarrow> bool \<Rightarrow> bool" where
  "status_ok status len tag indeterminate \<longleftrightarrow>
     status AND 0xF = tag \<and>
     \<not> bit status 4 \<and> \<not> bit status 5 \<and> \<not> bit status 6 \<and> bit status 7 \<and>
     (indeterminate \<longrightarrow> bit status 31 \<and> get_range status 30 8 = len)"

lemma and_bit_eq_0: "w AND push_bit n 1 = 0 \<longleftrightarrow> \<not> bit w n" if "n < LENGTH('a)" for w :: "'a::len word"
proof
  assume "w AND push_bit n 1 = 0"
  from arg_cong [OF this, of "\<lambda>x. bit x n"] that show "\<not> bit w n" by (simp add: bit_simps)
next
  assume "\<not> bit w n"
  then show "w AND push_bit n 1 = 0" by (intro bit_word_eqI) (auto simp: bit_simps)
qed

lemma status_bits:
  fixes w :: u32
  shows "w AND 0x10 = 0 \<longleftrightarrow> \<not> bit w 4" and "w AND 0x20 = 0 \<longleftrightarrow> \<not> bit w 5"
    and "w AND 0x40 = 0 \<longleftrightarrow> \<not> bit w 6" and "w AND 0x80 = 0 \<longleftrightarrow> \<not> bit w 7"
    and "w AND 0x80000000 = 0 \<longleftrightarrow> \<not> bit w 31"
  using and_bit_eq_0 [of 4 w] and_bit_eq_0 [of 5 w] and_bit_eq_0 [of 6 w] and_bit_eq_0 [of 7 w]
    and_bit_eq_0 [of 31 w]
  by (simp_all add: push_bit_eq_mult)

lemma status_len:
  fixes w :: u32
  shows "drop_bit 8 (w AND 0x7FFFFF00) = get_range w 30 8"
proof -
  have m: "(0x7FFFFF00 :: u32) = push_bit 8 (mask 23)"
    by (simp add: mask_eq_exp_minus_1 push_bit_eq_mult)
  show ?thesis
    unfolding m by (rule bit_word_eqI) (auto simp: bit_get_range bit_simps)
qed

lemma status_len':
  fixes w :: u32
  shows "drop_bit 8 w AND 0x7FFFFF = get_range w 30 8"
proof -
  have m: "(0x7FFFFF :: u32) = mask 23"
    by (simp add: mask_eq_exp_minus_1)
  show ?thesis
    unfolding m by (rule bit_word_eqI) (auto simp: bit_get_range bit_simps simp del: mask_numeral)
qed

lemma check_DMA_status_eq:
  "check_DMA_status st len tag ind s =
     (if st AND 0xF \<noteq> tag then Some (Longjmp 1, s)
      else if bit st 4 then Some (Longjmp 2, s)
      else if bit st 5 then Some (Longjmp 3, s)
      else if bit st 6 then Some (Longjmp 4, s)
      else if \<not> bit st 7 then Some (Longjmp 5, s)
      else if ind = 1 \<and> \<not> bit st 31 then Some (Longjmp 6, s)
      else if ind = 1 \<and> get_range st 30 8 \<noteq> len then Some (Longjmp 7, s)
      else Some (Ret (), s))"
  by (simp add: check_DMA_status_def prim_run status_bits status_len status_len')

definition dma_error :: "u32 \<Rightarrow> bool" where
  "dma_error c \<longleftrightarrow> c \<in> {DMA_MISMATCH_ERROR, DMA_INTERNAL_ERROR, DMA_DECODE_ERROR, DMA_SLAVE_ERROR,
     DMA_NOT_OKAY_ERROR, DMA_NOT_END_OF_PACKET_ERROR, DMA_NOT_EXPECTED_BTT_ERROR, DMA_TIMEOUT_ERROR}"

lemma check_DMA_status_ends:
  "ends (check_DMA_status st len tag ind) s
     (\<lambda>_ s'. s' = s \<and> status_ok st len tag (ind = 1)) (\<lambda>c s'. s' = s \<and> dma_error c)"
  by (auto simp: ends_def check_DMA_status_eq status_ok_def dma_error_def)

subsection \<open>Waiting for a status on every engine used\<close>

definition avail :: "fw_state \<Rightarrow> u32 \<Rightarrow> bool" where
  "avail s ch \<longleftrightarrow> (case stream_in s ch of (0, v) # ws \<Rightarrow> True | _ \<Rightarrow> False)"

lemma availE:
  assumes "avail s ch"
  obtains v ws where "stream_in s ch = (0, v) # ws"
  using assms unfolding avail_def by (auto split: list.splits prod.splits nat.splits)

text \<open>Polling consumes misses of the polled streams, and nothing else.\<close>

definition polled :: "fw_state \<Rightarrow> fw_state \<Rightarrow> bool" where
  "polled s s' \<longleftrightarrow> (\<exists>si. s' = s\<lparr>stream_in := si\<rparr>
     \<and> (\<forall>ch. map snd (si ch) = map snd (stream_in s ch)))"

lemma polledI:
  "s' = s\<lparr>stream_in := si\<rparr> \<Longrightarrow> (\<And>ch. map snd (si ch) = map snd (stream_in s ch)) \<Longrightarrow> polled s s'"
  unfolding polled_def by blast

lemma polledE:
  assumes "polled s s'"
  obtains si where "s' = s\<lparr>stream_in := si\<rparr>" and "\<And>ch. map snd (si ch) = map snd (stream_in s ch)"
  using assms unfolding polled_def by blast

lemma polled_refl [simp]: "polled s s"
  by (rule polledI [where si = "stream_in s"]) simp_all

lemma polled_trans:
  assumes "polled s t" and "polled t u"
  shows "polled s u"
proof -
  from assms(1) obtain a where t: "t = s\<lparr>stream_in := a\<rparr>"
    and a: "\<And>ch. map snd (a ch) = map snd (stream_in s ch)" by (rule polledE) blast
  from assms(2) obtain b where u: "u = t\<lparr>stream_in := b\<rparr>"
    and b: "\<And>ch. map snd (b ch) = map snd (stream_in t ch)" by (rule polledE) blast
  show ?thesis
    by (rule polledI [where si = b]) (use t u a b in simp_all)
qed

lemma tngetd_ends:
  "ends (tngetd ch) s
     (\<lambda>i s'. polled s s' \<and> (i = 0 \<and> avail s' ch \<or> i = 1) \<and>
        (\<forall>c. c \<noteq> ch \<longrightarrow> stream_in s' c = stream_in s c)) (\<lambda>_ _. False)"
proof (cases "stream_in s ch")
  case Nil
  then show ?thesis by (simp add: ends_def tngetd_def)
next
  case (Cons p ws)
  obtain n v where p: "p = (n, v)" by (cases p)
  show ?thesis
  proof (cases n)
    case 0
    with Cons p show ?thesis by (simp add: ends_def tngetd_def avail_def)
  next
    case (Suc k)
    have "polled s (s\<lparr>stream_in := (stream_in s)(ch := (k, v) # ws)\<rparr>)"
      by (rule polledI [where si = "(stream_in s)(ch := (k, v) # ws)"]) (use Cons p Suc in auto)
    with Cons p Suc show ?thesis by (simp add: ends_def tngetd_def)
  qed
qed

lemma probe_ends:
  assumes "polled s0 s" and "z \<Longrightarrow> \<forall>c \<in> C. avail s c" and "ch \<notin> C"
  shows "ends (probe used ch) s
     (\<lambda>i s'. polled s0 s' \<and> (i = 0 \<or> i = 1) \<and>
        (z \<and> i = 0 \<longrightarrow> (\<forall>c \<in> C \<union> (if used then {ch} else {}). avail s' c))) (\<lambda>_ _. False)"
proof (cases used)
  case True
  have av: "avail s' c" if "\<forall>c. c \<noteq> ch \<longrightarrow> stream_in s' c = stream_in s c" "avail s c" "c \<in> C" for s' c
  proof -
    have "c \<noteq> ch" using that(3) assms(3) by blast
    with that(1,2) show ?thesis by (simp add: avail_def)
  qed
  show ?thesis
    unfolding probe_def using True assms
    by (auto intro!: ends_weaken [OF tngetd_ends] intro: polled_trans av)
next
  case False
  with assms show ?thesis by (auto simp: probe_def)
qed

definition status_channels :: "u32 \<Rightarrow> u32 set" where
  "status_channels what =
     (if uses what USE_DMA0_RX then {STS_DMA0_RX} else {}) \<union>
     (if uses what USE_DMA1_RX then {STS_DMA1_RX} else {}) \<union>
     (if uses what (USE_DMA1_TX OR USE_DMA1_TX_WITHOUT_TLAST) then {STS_DMA1_TX} else {}) \<union>
     (if uses what USE_DMA2_RX then {STS_DMA2_RX} else {})"

lemma bits_sum_0:
  fixes i0 :: u32
  assumes "i0 = 0 \<or> i0 = 1" "i1 = 0 \<or> i1 = 1" "i2 = 0 \<or> i2 = 1" "i3 = 0 \<or> i3 = 1"
  shows "i0 + i1 + i2 + i3 = 0 \<longleftrightarrow> i0 = 0 \<and> i1 = 0 \<and> i2 = 0 \<and> i3 = 0"
  using assms by auto

lemma ack_dma_poll_ends:
  assumes "timeout s0 \<noteq> 0" and s: "polled s0 s"
  shows "ends (ack_dma_poll what count) s
     (\<lambda>z s'. polled s0 s' \<and> (case z of Inl y \<Rightarrow> y = count + 1 \<and> count < timeout s0
        | Inr v \<Rightarrow> \<forall>c \<in> status_channels what. avail s' c))
     (\<lambda>c s'. c = DMA_TIMEOUT_ERROR \<and> polled s0 s')"
proof -
  from s have t: "timeout s = timeout s0" by (auto elim: polledE)
  show ?thesis
  proof (cases "timeout s0 \<le> count")
    case True
    with assms t show ?thesis by (simp add: ack_dma_poll_def)
  next
    case False
    then have lt: "count < timeout s0" by simp
    let ?E = "\<lambda>c s'. c = DMA_TIMEOUT_ERROR \<and> polled s0 s'"
    let ?c0 = "if uses what USE_DMA0_RX then {STS_DMA0_RX} else {} :: u32 set"
    let ?c1 = "if uses what USE_DMA1_RX then {STS_DMA1_RX} else {} :: u32 set"
    let ?c2 = "if uses what (USE_DMA1_TX OR USE_DMA1_TX_WITHOUT_TLAST) then {STS_DMA1_TX} else {} :: u32 set"
    have p: "ends (probe used ch) s' (\<lambda>i s'. polled s0 s' \<and> (i = 0 \<or> i = 1) \<and>
        (z \<and> i = 0 \<longrightarrow> (\<forall>c \<in> C \<union> (if used then {ch} else {}). avail s' c))) ?E"
      if "polled s0 s'" "z \<Longrightarrow> \<forall>c \<in> C. avail s' c" "ch \<notin> C" for used ch s' C z
      by (rule ends_weaken [OF probe_ends [OF that]]) auto
    show ?thesis
      using assms False t
      apply (simp add: ack_dma_poll_def)
      apply (rule ends_bndI [OF p [where C = "{}" and z = True]])
        apply (rule s)
        apply simp
       apply simp
      subgoal for i0 s1
        apply (rule ends_bndI [OF p [where C = ?c0 and z = "i0 = 0"]])
           apply simp
          apply (simp split: if_splits)
         apply simp
        subgoal for i1 s2
          apply (rule ends_bndI [OF p [where C = "?c0 \<union> ?c1" and z = "i0 = 0 \<and> i1 = 0"]])
             apply simp
            apply (simp split: if_splits)
           apply simp
          subgoal for i2 s3
            apply (rule ends_bndI [OF p [where C = "?c0 \<union> ?c1 \<union> ?c2" and z = "i0 = 0 \<and> i1 = 0 \<and> i2 = 0"]])
               apply simp
              apply (simp split: if_splits)
             apply simp
            apply (simp add: bits_sum_0 status_channels_def lt split: if_splits)
            done
          done
        done
      done
  qed
qed

lemma ack_poll_loop_ends:
  assumes "timeout s \<noteq> 0"
  shows "ends (loop (ack_dma_poll what) 0) s
     (\<lambda>_ s'. polled s s' \<and> (\<forall>c \<in> status_channels what. avail s' c))
     (\<lambda>c s'. c = DMA_TIMEOUT_ERROR \<and> polled s s')"
proof (rule counted_loop_ends [where tmo = "timeout s" and J = "polled s"])
  fix count t assume "polled s t"
  then show "ends (ack_dma_poll what count) t
      (\<lambda>z s'. case z of Inl y \<Rightarrow> y = count + 1 \<and> count < timeout s \<and> polled s s'
        | Inr v \<Rightarrow> polled s s' \<and> (\<forall>c \<in> status_channels what. avail s' c))
      (\<lambda>c s'. c = DMA_TIMEOUT_ERROR \<and> polled s s')"
    by (auto intro!: ends_weaken [OF ack_dma_poll_ends [OF assms]] split: sum.splits)
qed simp

subsection \<open>Acknowledging the engines used\<close>

text \<open>
  \<open>good_acks len as t es\<close>: the events \<open>es\<close> are one status word from each channel of \<open>as\<close>, in
  order, each reporting success for \<open>len\<close> bytes under the tag after the previous one.
\<close>

fun good_acks :: "u32 \<Rightarrow> (u32 \<times> u32) list \<Rightarrow> u32 \<Rightarrow> event list \<Rightarrow> bool" where
  "good_acks len [] t es = (es = [])"
| "good_acks len ((ch, ind) # as) t es =
     (case es of
        Got c st # es' \<Rightarrow>
          c = ch \<and> status_ok st len (tag_step t) (ind = 1) \<and> good_acks len as (tag_step t) es'
      | _ \<Rightarrow> False)"

text \<open>Inputs outside the channels of \<open>C\<close> still hold the words they held.\<close>

definition inputs_kept :: "u32 set \<Rightarrow> fw_state \<Rightarrow> fw_state \<Rightarrow> bool" where
  "inputs_kept C s s' \<longleftrightarrow> (\<forall>c. c \<notin> C \<longrightarrow> map snd (stream_in s' c) = map snd (stream_in s c))"

lemma inputs_kept_refl [simp]: "inputs_kept C s s"
  by (simp add: inputs_kept_def)

lemma inputs_kept_trans: "inputs_kept C s t \<Longrightarrow> inputs_kept C t u \<Longrightarrow> inputs_kept C s u"
  by (simp add: inputs_kept_def)

lemma inputs_kept_mono: "inputs_kept C s t \<Longrightarrow> C \<subseteq> D \<Longrightarrow> inputs_kept D s t"
  unfolding inputs_kept_def by blast

lemma polled_frame:
  assumes "polled s s'"
  shows "frame A s s'" and "inputs_kept C s s'" and "trace s' = trace s" and "dma_tag s' = dma_tag s"
    and "mem s' = mem s"
  using assms by (auto elim!: polledE simp: frame_def same_settings_def inputs_kept_def)

definition acked :: "u32 \<Rightarrow> (u32 \<times> u32) list \<Rightarrow> fw_state \<Rightarrow> fw_state \<Rightarrow> bool" where
  "acked len as s s' \<longleftrightarrow> frame {} s s' \<and> inputs_kept (fst ` set as) s s' \<and>
     dma_tag s' = (tag_step ^^ length as) (dma_tag s) \<and>
     good_acks len as (dma_tag s) (drop (length (trace s)) (trace s'))"

lemma ack_one_ends:
  assumes "avail s ch"
  shows "ends (ack_one True ch len ind) s
     (\<lambda>_ s'. acked len [(ch, ind)] s s' \<and> (\<forall>c. c \<noteq> ch \<longrightarrow> stream_in s' c = stream_in s c))
     (\<lambda>c s'. dma_error c \<and> frame {} s s')"
proof -
  obtain v ws where v: "stream_in s ch = (0, v) # ws" using assms by (rule availE)
  let ?s1 = "s\<lparr>stream_in := (stream_in s)(ch := ws), trace := trace s @ [Got ch v]\<rparr>"
  let ?s2 = "?s1\<lparr>dma_tag := tag_step (dma_tag s)\<rparr>"
  have g: "getd ch s = Some (Ret v, ?s1)"
    using v by (simp add: getd_def)
  have fr: "frame {} s ?s2"
    by (simp add: frame_def same_settings_def)
  have eq: "ack_one True ch len ind s = check_DMA_status v len (tag_step (dma_tag s)) ind ?s2"
    by (simp add: ack_one_def whenM_def bnd_def g modf_def getf_def tag_step_def)
  show ?thesis
    unfolding ends_def eq unfolding ends_def [symmetric]
    by (rule ends_weaken [OF check_DMA_status_ends])
      (use fr in \<open>auto simp: acked_def inputs_kept_def\<close>)
qed

lemma good_acks_Cons:
  "good_acks len [a] t es \<Longrightarrow> good_acks len as (tag_step t) es' \<Longrightarrow> good_acks len (a # as) t (es @ es')"
  by (cases a) (auto split: list.splits event.splits)

lemma acked_Cons:
  assumes "acked len [a] s t" and "acked len as t u"
  shows "acked len (a # as) s u"
proof -
  have "\<exists>es. trace t = trace s @ es" and "\<exists>es. trace u = trace t @ es"
    using assms by (auto simp: acked_def intro: frame_trace)
  then obtain es es' where es: "trace t = trace s @ es" and es': "trace u = trace t @ es'" by blast
  have "frame {} s u"
    using assms by (auto simp: acked_def intro: frame_trans)
  moreover have "inputs_kept (fst ` set (a # as)) s u"
    using assms by (simp add: acked_def inputs_kept_def)
  moreover have "good_acks len (a # as) (dma_tag s) (es @ es')"
    by (rule good_acks_Cons) (use assms es es' in \<open>auto simp: acked_def\<close>)
  ultimately show ?thesis
    using assms es es' by (simp add: acked_def funpow_swap1)
qed

lemma acked_refl: "acked len [] s s"
  by (simp add: acked_def)

lemma ack_list_ends:
  assumes "distinct (map fst as)" and "\<forall>a \<in> set as. avail s (fst a)"
  shows "ends (blk (map (\<lambda>(ch, ind). ack_one True ch len ind) as)) s (\<lambda>_ s'. acked len as s s')
     (\<lambda>c s'. dma_error c \<and> frame {} s s')"
  using assms
proof (induction as arbitrary: s)
  case Nil
  then show ?case by (simp add: acked_refl)
next
  case (Cons a as)
  obtain ch ind where a: "a = (ch, ind)" by (cases a)
  have "avail s ch" using Cons.prems a by simp
  show ?case
    unfolding a
  proof (simp, rule ends_bndI [OF ack_one_ends [OF \<open>avail s ch\<close>]])
    fix x t
    assume t: "acked len [(ch, ind)] s t \<and> (\<forall>c. c \<noteq> ch \<longrightarrow> stream_in t c = stream_in s c)"
    have "stream_in t (fst b) = stream_in s (fst b)" if "b \<in> set as" for b
      using t Cons.prems a that by (metis distinct.simps(2) fst_conv image_eqI list.map(2) list.set_map)
    then have "\<forall>a \<in> set as. avail t (fst a)"
      using Cons.prems(2) by (simp add: avail_def)
    then have "ends (blk (map (\<lambda>(ch, ind). ack_one True ch len ind) as)) t (\<lambda>_ s'. acked len as t s')
     (\<lambda>c s'. dma_error c \<and> frame {} t s')"
      using Cons.prems by (intro Cons.IH) auto
    then show "ends (blk (map (\<lambda>(ch, ind). ack_one True ch len ind) as)) t
        (\<lambda>_ s'. acked len ((ch, ind) # as) s s') (\<lambda>c s'. dma_error c \<and> frame {} s s')"
      by (rule ends_weaken)
        (use t in \<open>auto intro: acked_Cons frame_trans simp: acked_def [of _ "[_]"]\<close>)
  qed
qed

lemma ack_one_False: "ack_one False ch len ind = ret ()"
  by (simp add: ack_one_def whenM_def)

lemma ack_dma_eq:
  "ack_dma len what = bnd (loop (ack_dma_poll what) 0)
     (\<lambda>_. blk (map (\<lambda>(ch, ind). ack_one True ch len ind) (acks what)))"
  by (simp add: ack_dma_def acks_def ack_one_False)

definition dmas_ok :: "u32 \<Rightarrow> bool" where
  "dmas_ok what \<longleftrightarrow> \<not> (uses what USE_DMA1_TX \<and> uses what USE_DMA1_TX_WITHOUT_TLAST)"

lemma uses_or: "uses what (a OR b) \<longleftrightarrow> uses what a \<or> uses what b"
proof -
  have "what AND (a OR b) = 0 \<longleftrightarrow> what AND a = 0 \<and> what AND b = 0"
    by (simp add: bit.conj_disj_distrib bit_eq_iff bit_simps) blast
  then show ?thesis by (auto simp: uses_def)
qed

lemma ack_dma_ends:
  assumes "timeout s \<noteq> 0" and "dmas_ok what"
  shows "ends (ack_dma len what) s (\<lambda>_ s'. acked len (acks what) s s')
     (\<lambda>c s'. dma_error c \<and> frame {} s s')"
  unfolding ack_dma_eq
proof (rule ends_bndI [OF ends_weaken [OF ack_poll_loop_ends [OF assms(1)]]])
  fix a t assume t: "polled s t \<and> (\<forall>c \<in> status_channels what. avail t c)"
  have "status_channels what = fst ` set (acks what)"
    using uses_or [of what USE_DMA1_TX USE_DMA1_TX_WITHOUT_TLAST]
    by (auto simp: status_channels_def acks_def split: if_splits)
  moreover have "distinct (map fst (acks what))"
    using assms(2) by (simp add: acks_def dmas_ok_def)
  ultimately have "ends (blk (map (\<lambda>(ch, ind). ack_one True ch len ind) (acks what))) t
     (\<lambda>_ s'. acked len (acks what) t s') (\<lambda>c s'. dma_error c \<and> frame {} t s')"
    using t by (intro ack_list_ends) auto
  then show "ends (blk (map (\<lambda>(ch, ind). ack_one True ch len ind) (acks what))) t
     (\<lambda>_ s'. acked len (acks what) s s') (\<lambda>c s'. dma_error c \<and> frame {} s s')"
    by (rule ends_weaken)
      (use t in \<open>auto simp: acked_def polled_frame intro: frame_trans inputs_kept_trans polled_frame(1)
         polled_frame(2)\<close>)
qed (auto simp: dma_error_def intro: polled_frame)

text \<open>The words put on one output channel, in order.\<close>

definition words_on :: "u32 \<Rightarrow> event list \<Rightarrow> u32 list" where
  "words_on ch es = concat (map (\<lambda>e. case e of Put c v \<Rightarrow> if c = ch then [v] else []
     | CPut c v \<Rightarrow> if c = ch then [v] else [] | _ \<Rightarrow> []) es)"

lemma words_on_append [simp]: "words_on ch (xs @ ys) = words_on ch xs @ words_on ch ys"
  by (simp add: words_on_def)

lemma words_on_simps [simp]:
  "words_on ch [] = []"
  "words_on ch (Put c v # es) = (if c = ch then [v] else []) @ words_on ch es"
  "words_on ch (CPut c v # es) = (if c = ch then [v] else []) @ words_on ch es"
  "words_on ch (Got c v # es) = words_on ch es"
  "words_on ch (Wr a v # es) = words_on ch es"
  by (simp_all add: words_on_def)

lemma words_on_writes: "list_all is_Wr ws \<Longrightarrow> words_on ch ws = []"
  by (induction ws) (auto simp: is_Wr_def split: event.splits)

subsection \<open>Properties\<close>

text \<open>A command put on a data mover's stream is read back by it as exactly the byte count, the 64-bit address and
the tag it was built from, with end-of-frame set by \<open>dma_cmd\<close> and clear by \<open>dma_cmd_without_EOF\<close>; nothing else
of the state changes.\<close>

lemma dma_cmd_round_trip:
  assumes "btt \<le> DMA_MAX_BTT" and "tag < 16"
  shows "\<exists>es es'. dma_cmd ch btt addr tag s = Some (Ret (), s\<lparr>trace := trace s @ es\<rparr>) \<and>
     dma_decode es = Some (btt, addr, tag, True) \<and>
     dma_cmd_without_EOF ch btt addr tag s = Some (Ret (), s\<lparr>trace := trace s @ es'\<rparr>) \<and>
     dma_decode es' = Some (btt, addr, tag, False)"
proof (intro exI conjI)
  show "dma_cmd ch btt addr tag s = Some (Ret (), s\<lparr>trace := trace s @ dma_words ch btt addr tag\<rparr>)"
    and "dma_cmd_without_EOF ch btt addr tag s =
      Some (Ret (), s\<lparr>trace := trace s @ dma_words_without_EOF ch btt addr tag\<rparr>)"
    by (rule dma_cmd_run)+
qed (use dma_decode_words [OF assms] in simp_all)

text \<open>\<open>check_DMA_status\<close> returns, with the state unchanged, exactly when the status word reports success for the tag
(and, for an indeterminate transfer, end of packet after the expected byte count); otherwise it jumps with the code of the
first test that fails, in the order tag, internal, decode, slave, okay, end of packet, byte count.\<close>

lemma check_DMA_status_classifies:
  "check_DMA_status st len tag ind s =
     (if status_ok st len tag (ind = 1) then Some (Ret (), s)
      else Some (Longjmp
       (if st AND 0xF \<noteq> tag then DMA_MISMATCH_ERROR
        else if bit st 4 then DMA_INTERNAL_ERROR
        else if bit st 5 then DMA_DECODE_ERROR
        else if bit st 6 then DMA_SLAVE_ERROR
        else if \<not> bit st 7 then DMA_NOT_OKAY_ERROR
        else if \<not> bit st 31 then DMA_NOT_END_OF_PACKET_ERROR
        else DMA_NOT_EXPECTED_BTT_ERROR), s))"
  by (auto simp: check_DMA_status_eq status_ok_def)



end
