(* ===== verification/Fw_Comm.thy ===== *)
theory Fw_Comm
  imports Fw_Dma
begin

text \<open>
  Communicators in exchange memory, the message headers handed to the packetizers and their
  acknowledgement by sequence number, and the set-up of TCP ports and connections
  (\<open>find_comm\<close>, \<open>start_packetizer_message\<close>, \<open>ack_packetizer\<close>, \<open>openCon\<close>, \<open>openPort\<close>,
  \<open>init_connection\<close>).
\<close>

subsection \<open>Communicators\<close>

text \<open>
  \<open>ranks\<close> is the address of the rank array, 0 for \<open>NULL\<close>.  A \<open>comm_rank\<close> is five words: ip, port,
  inbound_seq, outbound_seq, session.
\<close>

record communicator =
  size' :: u32
  local_rank :: u32
  ranks :: u32

definition find_comm :: "u32 \<Rightarrow> communicator fw" where
  "find_comm adr =
     bnd (xil_in32 adr) (\<lambda>size.
     bnd (xil_in32 (adr + 4)) (\<lambda>lr.
     if size \<noteq> 0 \<and> lr < size then ret \<lparr>size' = size, local_rank = lr, ranks = adr + 8\<rparr>
     else ret \<lparr>size' = 0, local_rank = 0, ranks = 0\<rparr>))"

datatype rank_field = ip | port | inbound_seq | outbound_seq | session

definition field_offset :: "rank_field \<Rightarrow> u32" where
  "field_offset f = (case f of ip \<Rightarrow> 0 | port \<Rightarrow> 4 | inbound_seq \<Rightarrow> 8 | outbound_seq \<Rightarrow> 12 | session \<Rightarrow> 16)"

definition rank_addr :: "communicator \<Rightarrow> u32 \<Rightarrow> rank_field \<Rightarrow> u32" where
  "rank_addr world k f = ranks world + 20 * k + field_offset f"

definition rank_get :: "communicator \<Rightarrow> u32 \<Rightarrow> rank_field \<Rightarrow> u32 fw" where
  "rank_get world k f = (if ranks world = 0 then undef else load (rank_addr world k f))"

definition rank_set :: "communicator \<Rightarrow> u32 \<Rightarrow> rank_field \<Rightarrow> u32 \<Rightarrow> unit fw" where
  "rank_set world k f v = (if ranks world = 0 then undef else store (rank_addr world k f) v)"

subsection \<open>Packetizer messages\<close>

definition packetizer_step :: "u32 \<Rightarrow> u32 \<Rightarrow> u32 \<Rightarrow> u32 \<Rightarrow> u32 \<times> u32 \<times> u32 \<Rightarrow> (u32 \<times> u32 \<times> u32 + u32) fw" where
  "packetizer_step net_tx dst tag src_rank = (\<lambda>(i, len, sequence_number).
     bnd (getf max_dma_in_flight) (\<lambda>m.
     bnd (getf dma_transaction_size) (\<lambda>dts.
     if 0 < len \<and> i < m then
       (let sequence_number = sequence_number + 1;
            curr_len = (if dts < len then dts else len)
        in bnd (blk [putd net_tx dst, putd net_tx curr_len, putd net_tx tag, putd net_tx src_rank,
                     cputd net_tx sequence_number])
             (\<lambda>_. ret (Inl (i + 1, len - curr_len, sequence_number))))
     else ret (Inr i))))"

definition start_packetizer_message :: "communicator \<Rightarrow> u32 \<Rightarrow> u32 \<Rightarrow> u32 \<Rightarrow> u32 \<Rightarrow> u32 fw" where
  "start_packetizer_message world dst_rank len tag sequence_number_offset =
     bnd (rank_get world dst_rank outbound_seq) (\<lambda>seq.
     bnd (getf use_tcp) (\<lambda>tcp.
     bnd (rank_get world dst_rank (if tcp \<noteq> 0 then session else port)) (\<lambda>dst.
     let net_tx = (if tcp \<noteq> 0 then CMD_TCP_TX else CMD_UDP_TX) in
     loop (packetizer_step net_tx dst tag (local_rank world)) (0, len, seq + sequence_number_offset))))"

definition packetizer_poll :: "u32 \<Rightarrow> u32 \<Rightarrow> (u32 + unit) fw" where
  "packetizer_poll sts count =
     bnd (tngetd sts) (\<lambda>invalid.
     if invalid \<noteq> 0 then
       bnd (getf timeout) (\<lambda>tmo.
       if tmo \<noteq> 0 \<and> tmo \<le> count then longjmp PACK_TIMEOUT_STS_ERROR else ret (Inl (count + 1)))
     else ret (Inr ()))"

definition ack_packetizer_step :: "communicator \<Rightarrow> u32 \<Rightarrow> u32 \<Rightarrow> u32 \<Rightarrow> (u32 + unit) fw" where
  "ack_packetizer_step world dst_rank sts num_msg =
     (if 0 < num_msg then
        bnd (loop (packetizer_poll sts) 0) (\<lambda>_.
        bnd (getd sts) (\<lambda>ack_seq_num.
        bnd (rank_get world dst_rank outbound_seq) (\<lambda>seq.
        if seq + 1 = ack_seq_num then
          bnd (rank_set world dst_rank outbound_seq (seq + 1)) (\<lambda>_. ret (Inl (num_msg - 1)))
        else longjmp PACK_SEQ_NUMBER_ERROR)))
      else ret (Inr ()))"

definition ack_packetizer :: "communicator \<Rightarrow> u32 \<Rightarrow> u32 \<Rightarrow> unit fw" where
  "ack_packetizer world dst_rank num_msg =
     bnd (getf use_tcp) (\<lambda>tcp.
     loop (ack_packetizer_step world dst_rank (if tcp \<noteq> 0 then STS_TCP_PKT else STS_UDP_PKT)) num_msg)"

subsection \<open>TCP connections\<close>

definition openCon_request :: "communicator \<Rightarrow> u32 \<Rightarrow> (u32 + unit) fw" where
  "openCon_request world i =
     (if i < size' world then
        bnd (whenM (i \<noteq> local_rank world)
               (bnd (rank_get world i ip) (\<lambda>cur_rank_ip.
                bnd (rank_get world i port) (\<lambda>cur_rank_port.
                blk [putd CMD_TCP_CON cur_rank_ip, putd CMD_TCP_CON cur_rank_port]))))
          (\<lambda>_. ret (Inl (i + 1)))
      else ret (Inr ()))"

definition openCon_store :: "communicator \<Rightarrow> u32 \<Rightarrow> u32 \<Rightarrow> u32 \<Rightarrow> u32 \<Rightarrow> (u32 + unit) fw" where
  "openCon_store world sess dst_ip dst_port j =
     (if j < size' world then
        bnd (rank_get world j ip) (\<lambda>cur_rank_ip.
        bnd (rank_get world j port) (\<lambda>cur_rank_port.
        if dst_ip = cur_rank_ip \<and> dst_port = cur_rank_port then
          bnd (rank_set world j session sess) (\<lambda>_. ret (Inr ()))
        else ret (Inl (j + 1))))
      else ret (Inr ()))"

definition openCon_response :: "communicator \<Rightarrow> u32 \<times> u32 \<Rightarrow> (u32 \<times> u32 + u32) fw" where
  "openCon_response world = (\<lambda>(i, result).
     if i < size' world - 1 then
       bnd (getd STS_TCP_CON) (\<lambda>sess.
       bnd (getd STS_TCP_CON) (\<lambda>dst_ip.
       bnd (getd STS_TCP_CON) (\<lambda>dst_port.
       bnd (getd STS_TCP_CON) (\<lambda>success.
       if success \<noteq> 0 then
         bnd (loop (openCon_store world sess dst_ip dst_port) 0) (\<lambda>_. ret (Inl (i + 1, result)))
       else ret (Inl (i + 1, OPEN_COM_NOT_SUCCEEDED))))))
     else ret (Inr result))"

definition openCon :: "u32 \<Rightarrow> u32 fw" where
  "openCon comm =
     bnd (find_comm comm) (\<lambda>world.
     bnd (loop (openCon_request world) 0) (\<lambda>_.
     loop (openCon_response world) (0, COLLECTIVE_OP_SUCCESS)))"

definition openPort :: "u32 \<Rightarrow> u32 fw" where
  "openPort comm =
     bnd (find_comm comm) (\<lambda>world.
     bnd (rank_get world (local_rank world) port) (\<lambda>prt.
     bnd (putd CMD_TCP_PORT prt) (\<lambda>_.
     bnd (getd STS_TCP_PORT) (\<lambda>success.
     ret (if success \<noteq> 0 then COLLECTIVE_OP_SUCCESS else OPEN_PORT_NOT_SUCCEEDED)))))"

definition init_connection :: "u32 \<Rightarrow> u32 fw" where
  "init_connection comm =
     bnd (openPort comm) (\<lambda>ret_openPort.
     bnd (openCon comm) (\<lambda>ret_openCon.
     ret (ret_openPort OR ret_openCon)))"

subsection \<open>What \<open>start_packetizer_message\<close> puts on the stream\<close>

definition pkt_words :: "u32 \<Rightarrow> u32 \<Rightarrow> u32 \<Rightarrow> u32 \<Rightarrow> u32 \<Rightarrow> u32 \<Rightarrow> event list" where
  "pkt_words net dst len tag src seq = [Put net dst, Put net len, Put net tag, Put net src, CPut net seq]"

text \<open>The headers of \<open>n\<close> messages that carry the first \<open>n\<close> segments of \<open>len\<close>, numbered from \<open>seq + 1\<close>.\<close>

definition pkt_msgs :: "u32 \<Rightarrow> u32 \<Rightarrow> u32 \<Rightarrow> u32 \<Rightarrow> u32 \<Rightarrow> nat \<Rightarrow> nat \<Rightarrow> nat \<Rightarrow> event list" where
  "pkt_msgs net dst tag src seq d len n =
     concat (map (\<lambda>k. pkt_words net dst (of_nat (seg d len k)) tag src (seq + of_nat k + 1)) [0..<n])"

lemma packetizer_step_run:
  "packetizer_step net dst tag src (i, len, seq) s =
     (if 0 < len \<and> i < max_dma_in_flight s then
        (let curr_len = (if dma_transaction_size s < len then dma_transaction_size s else len)
         in Some (Ret (Inl (i + 1, len - curr_len, seq + 1)),
              s\<lparr>trace := trace s @ pkt_words net dst curr_len tag src (seq + 1)\<rparr>))
      else Some (Ret (Inr i), s))"
  by (simp add: packetizer_step_def Let_def bnd_def prim_run putd_run pkt_words_def)

lemma packetizer_step_go:
  assumes "0 < len \<and> i < max_dma_in_flight s"
    and "(if dma_transaction_size s < len then dma_transaction_size s else len) = cl"
    and "len - cl = rest"
  shows "packetizer_step net dst tag src (i, len, seq) s =
     Some (Ret (Inl (i + 1, rest, seq + 1)), s\<lparr>trace := trace s @ pkt_words net dst cl tag src (seq + 1)\<rparr>)"
  unfolding packetizer_step_run if_P [OF assms(1)] Let_def assms(2,3) by (rule refl)

lemma packetizer_loop_run:
  assumes "0 < dma_transaction_size s" and "n = min (unat (max_dma_in_flight s)) (nsegs (unat (dma_transaction_size s)) (unat len))"
  shows "loop (packetizer_step net dst tag src) (0, len, seq) s =
     Some (Ret (of_nat n), s\<lparr>trace := trace s @ pkt_msgs net dst tag src seq (unat (dma_transaction_size s)) (unat len) n\<rparr>)"
proof -
  let ?dw = "dma_transaction_size s" and ?mw = "max_dma_in_flight s"
  let ?d = "unat ?dw" and ?m = "unat ?mw" and ?len = "unat len"
  let ?st = "\<lambda>k. s\<lparr>trace := trace s @ pkt_msgs net dst tag src seq ?d ?len k\<rparr>"
  have d: "0 < ?d" using assms(1) by (simp add: word_less_nat_alt)
  have main: "loop (packetizer_step net dst tag src) (of_nat k, of_nat (?len - k * ?d), seq + of_nat k) (?st k)
      = Some (Ret (of_nat n), ?st n)" if "k \<le> n" for k
    using that
  proof (induction "n - k" arbitrary: k)
    case 0
    then have k: "k = n" by simp
    have "\<not> (0 < (of_nat (?len - n * ?d) :: u32) \<and> (of_nat n :: u32) < ?mw)"
    proof (cases "n = ?m")
      case True
      then show ?thesis by simp
    next
      case False
      then have "n = nsegs ?d ?len" using assms(2) by (simp add: min_def split: if_splits)
      then have "\<not> n * ?d < ?len" using nsegs_iff [OF d, of n ?len] by simp
      then show ?thesis by simp
    qed
    then have "packetizer_step net dst tag src (of_nat n, of_nat (?len - n * ?d), seq + of_nat n) (?st n)
        = Some (Ret (Inr (of_nat n)), ?st n)"
      unfolding packetizer_step_run by (subst if_not_P) simp_all
    then show ?case
      unfolding k by (subst loop.simps) simp
  next
    case (Suc j)
    then have k: "k < n" by simp
    then have km: "k < ?m" and kn: "k * ?d < ?len"
      using assms(2) nsegs_iff [OF d, of k ?len] by simp_all
    have r: "unat (of_nat (?len - k * ?d) :: u32) = ?len - k * ?d"
      by (rule unat_of_nat_le [of _ len]) simp
    have ik: "unat (of_nat k :: u32) = k"
      by (rule unat_of_nat_le [of _ ?mw]) (use km in simp)
    have cond: "0 < (of_nat (?len - k * ?d) :: u32) \<and> (of_nat k :: u32) < ?mw"
      using r ik km kn by (simp add: word_less_nat_alt)
    have curr: "(if ?dw < of_nat (?len - k * ?d) then ?dw else of_nat (?len - k * ?d)) = of_nat (seg ?d ?len k)"
      using r by (simp add: word_less_nat_alt seg_def min_def)
    have rem: "of_nat (?len - k * ?d) - of_nat (seg ?d ?len k) = (of_nat (?len - Suc k * ?d) :: u32)"
      using remaining_Suc [of ?len k ?d] seg_def [of ?d ?len k]
      by (metis min.cobounded2 of_nat_diff)
    have t: "dma_transaction_size (?st k) = ?dw" "max_dma_in_flight (?st k) = ?mw"
      by simp_all
    have step: "packetizer_step net dst tag src (of_nat k, of_nat (?len - k * ?d), seq + of_nat k) (?st k)
        = Some (Ret (Inl (of_nat (Suc k), of_nat (?len - Suc k * ?d), seq + of_nat (Suc k))), ?st (Suc k))"
      by (rule trans [OF packetizer_step_go [of "of_nat (?len - k * ?d)" "of_nat k" "?st k", unfolded t,
            OF cond curr rem]])
        (simp add: pkt_msgs_def add.commute add.left_commute)
    have "loop (packetizer_step net dst tag src) (of_nat (Suc k), of_nat (?len - Suc k * ?d), seq + of_nat (Suc k)) (?st (Suc k))
      = Some (Ret (of_nat n), ?st n)"
      by (rule Suc.hyps(1)) (use Suc.hyps(2) k in simp_all)
    with step show ?case by (subst loop.simps) (simp only: option.case prod.case outcome.case sum.case)
  qed
  show ?thesis using main [of 0] by (simp add: pkt_msgs_def)
qed

definition pkt_net :: "fw_state \<Rightarrow> u32" where
  "pkt_net s = (if use_tcp s \<noteq> 0 then CMD_TCP_TX else CMD_UDP_TX)"

definition pkt_sts :: "fw_state \<Rightarrow> u32" where
  "pkt_sts s = (if use_tcp s \<noteq> 0 then STS_TCP_PKT else STS_UDP_PKT)"

definition pkt_dst :: "communicator \<Rightarrow> u32 \<Rightarrow> fw_state \<Rightarrow> u32" where
  "pkt_dst world dst s = mem s (rank_addr world dst (if use_tcp s \<noteq> 0 then session else port))"

definition out_seq :: "communicator \<Rightarrow> u32 \<Rightarrow> fw_state \<Rightarrow> u32" where
  "out_seq world dst s = mem s (rank_addr world dst outbound_seq)"

lemma start_packetizer_message_run:
  assumes "ranks world \<noteq> 0" and "0 < dma_transaction_size s"
    and "n = min (unat (max_dma_in_flight s)) (nsegs (unat (dma_transaction_size s)) (unat len))"
  shows "start_packetizer_message world dst len tag off s =
     Some (Ret (of_nat n), s\<lparr>trace := trace s @
       pkt_msgs (pkt_net s) (pkt_dst world dst s) tag (local_rank world) (out_seq world dst s + off)
         (unat (dma_transaction_size s)) (unat len) n\<rparr>)"
  using packetizer_loop_run [OF assms(2,3)] assms(1)
  by (simp add: start_packetizer_message_def rank_get_def load_def pkt_net_def pkt_dst_def out_seq_def)

subsection \<open>Acknowledgements of the packetizer\<close>

lemma packetizer_poll_ends:
  assumes "timeout s \<noteq> 0"
  shows "ends (loop (packetizer_poll sts) 0) s
     (\<lambda>_ s'. polled s s' \<and> avail s' sts \<and> (\<forall>c. c \<noteq> sts \<longrightarrow> stream_in s' c = stream_in s c))
     (\<lambda>c s'. c = PACK_TIMEOUT_STS_ERROR \<and> polled s s')"
proof (rule counted_loop_ends [where tmo = "timeout s"
      and J = "\<lambda>s'. polled s s' \<and> (\<forall>c. c \<noteq> sts \<longrightarrow> stream_in s' c = stream_in s c)"])
  fix count t assume t: "polled s t \<and> (\<forall>c. c \<noteq> sts \<longrightarrow> stream_in t c = stream_in s c)"
  have tmo: "timeout u = timeout s" if "polled s u" for u using that by (auto elim: polledE)
  show "ends (packetizer_poll sts count) t
      (\<lambda>z s'. case z of
         Inl y \<Rightarrow> y = count + 1 \<and> count < timeout s \<and>
           polled s s' \<and> (\<forall>c. c \<noteq> sts \<longrightarrow> stream_in s' c = stream_in s c)
       | Inr v \<Rightarrow> polled s s' \<and> avail s' sts \<and> (\<forall>c. c \<noteq> sts \<longrightarrow> stream_in s' c = stream_in s c))
      (\<lambda>c s'. c = PACK_TIMEOUT_STS_ERROR \<and> polled s s')"
    unfolding packetizer_poll_def
  proof (rule ends_bndI [OF ends_weaken [OF tngetd_ends]])
    fix i :: u32 and u
    assume "polled t u \<and> (i = 0 \<and> avail u sts \<or> i = 1) \<and> (\<forall>c. c \<noteq> sts \<longrightarrow> stream_in u c = stream_in t c)"
    with t have u: "polled s u" and i: "i = 0 \<and> avail u sts \<or> i = 1"
      and k: "\<forall>c. c \<noteq> sts \<longrightarrow> stream_in u c = stream_in s c"
      by (auto intro: polled_trans)
    show "ends (if i \<noteq> 0 then bnd (getf timeout) (\<lambda>tmo. if tmo \<noteq> 0 \<and> tmo \<le> count
           then longjmp PACK_TIMEOUT_STS_ERROR else ret (Inl (count + 1))) else ret (Inr ())) u
      (\<lambda>z s'. case z of
         Inl y \<Rightarrow> y = count + 1 \<and> count < timeout s \<and>
           polled s s' \<and> (\<forall>c. c \<noteq> sts \<longrightarrow> stream_in s' c = stream_in s c)
       | Inr v \<Rightarrow> polled s s' \<and> avail s' sts \<and> (\<forall>c. c \<noteq> sts \<longrightarrow> stream_in s' c = stream_in s c))
      (\<lambda>c s'. c = PACK_TIMEOUT_STS_ERROR \<and> polled s s')"
      using u i k assms by (auto simp: tmo [OF u])
  qed simp
qed simp

definition pkt_error :: "u32 \<Rightarrow> bool" where
  "pkt_error c \<longleftrightarrow> c = PACK_TIMEOUT_STS_ERROR \<or> c = PACK_SEQ_NUMBER_ERROR"

definition pkt_acked :: "communicator \<Rightarrow> u32 \<Rightarrow> nat \<Rightarrow> fw_state \<Rightarrow> fw_state \<Rightarrow> bool" where
  "pkt_acked world dst n s s' \<longleftrightarrow>
     frame {rank_addr world dst outbound_seq} s s' \<and> inputs_kept {pkt_sts s} s s' \<and>
     dma_tag s' = dma_tag s \<and> out_seq world dst s' = out_seq world dst s + of_nat n \<and>
     trace s' = trace s @ map (\<lambda>k. Got (pkt_sts s) (out_seq world dst s + of_nat k + 1)) [0..<n]"

lemma ack_packetizer_step_ends:
  assumes "timeout s \<noteq> 0" and "ranks world \<noteq> 0" and "pkt_acked world dst k s t"
  shows "ends (ack_packetizer_step world dst (pkt_sts s) n) t
     (\<lambda>z s'. case z of Inl y \<Rightarrow> 0 < n \<and> y = n - 1 \<and> pkt_acked world dst (Suc k) s s'
        | Inr v \<Rightarrow> n = 0 \<and> s' = t)
     (\<lambda>c s'. pkt_error c \<and> frame {rank_addr world dst outbound_seq} s s')"
proof (cases "0 < n")
  case False
  then show ?thesis by (simp add: ack_packetizer_step_def word_neq_0_conv [symmetric])
next
  case True
  let ?A = "rank_addr world dst outbound_seq" and ?sts = "pkt_sts s"
  let ?E = "\<lambda>c s'. pkt_error c \<and> frame {?A} s s'"
  have fr: "frame {?A} s t" and tmo: "timeout t \<noteq> 0"
    using assms(1,3) frame_settings(5) by (auto simp: pkt_acked_def)
  have "ends (bnd (loop (packetizer_poll ?sts) 0) (\<lambda>_.
        bnd (getd ?sts) (\<lambda>ack_seq_num.
        bnd (rank_get world dst outbound_seq) (\<lambda>seq.
        if seq + 1 = ack_seq_num then
          bnd (rank_set world dst outbound_seq (seq + 1)) (\<lambda>_. ret (Inl (n - 1)))
        else longjmp PACK_SEQ_NUMBER_ERROR)))) t
     (\<lambda>z s'. case z of Inl y \<Rightarrow> 0 < n \<and> y = n - 1 \<and> pkt_acked world dst (Suc k) s s'
        | Inr v \<Rightarrow> n = 0 \<and> s' = t) ?E"
  proof (rule ends_bndI [OF ends_weaken [OF packetizer_poll_ends [OF tmo]]])
    fix x u
    assume u: "polled t u \<and> avail u ?sts \<and> (\<forall>c. c \<noteq> ?sts \<longrightarrow> stream_in u c = stream_in t c)"
    obtain v ws where v: "stream_in u ?sts = (0, v) # ws" using u by (auto elim: availE)
    let ?u = "u\<lparr>stream_in := (stream_in u)(?sts := ws), trace := trace u @ [Got ?sts v]\<rparr>"
    have g: "getd ?sts u = Some (Ret v, ?u)" using v by (simp add: getd_def)
    have fu: "frame {?A} s ?u"
    proof (rule frame_trans [OF fr])
      show "frame {?A} t ?u"
        by (rule frame_trans [OF polled_frame(1) [of t u]]) (use u in \<open>auto simp: frame_def same_settings_def\<close>)
    qed
    have eqs: "mem u = mem t" "trace u = trace t" "dma_tag u = dma_tag t"
      using u polled_frame(3-5) by auto
    show "ends (bnd (getd ?sts) (\<lambda>ack_seq_num.
        bnd (rank_get world dst outbound_seq) (\<lambda>seq.
        if seq + 1 = ack_seq_num then
          bnd (rank_set world dst outbound_seq (seq + 1)) (\<lambda>_. ret (Inl (n - 1)))
        else longjmp PACK_SEQ_NUMBER_ERROR))) u
     (\<lambda>z s'. case z of Inl y \<Rightarrow> 0 < n \<and> y = n - 1 \<and> pkt_acked world dst (Suc k) s s'
        | Inr v \<Rightarrow> n = 0 \<and> s' = t) ?E"
    proof (cases "mem u ?A + 1 = v")
      case False
      with fu assms(2) show ?thesis
        by (simp add: ends_def bnd_def g rank_get_def load_def getf_def longjmp_def pkt_error_def)
    next
      case eq: True
      let ?w = "?u\<lparr>mem := (mem ?u)(?A := v)\<rparr>"
      have "frame {?A} s ?w"
        by (rule frame_trans [OF fu]) (simp add: frame_def same_settings_def)
      moreover have "inputs_kept {?sts} s ?w"
      proof (rule inputs_kept_trans)
        show "inputs_kept {?sts} s t" using assms(3) by (simp add: pkt_acked_def)
        show "inputs_kept {?sts} t ?w" using u by (simp add: inputs_kept_def)
      qed
      ultimately have "pkt_acked world dst (Suc k) s ?w"
        using assms(3) eq by (auto simp: pkt_acked_def out_seq_def eqs algebra_simps)
      with True eq assms(2) show ?thesis
        by (simp add: ends_def bnd_def g rank_get_def rank_set_def load_def store_def getf_def
            modf_def ret_def)
    qed
  qed (auto simp: pkt_error_def intro: frame_trans [OF fr] polled_frame)
  then show ?thesis using True by (simp add: ack_packetizer_step_def)
qed

lemma ack_packetizer_ends:
  assumes "timeout s \<noteq> 0" and "ranks world \<noteq> 0"
  shows "ends (ack_packetizer world dst num) s (\<lambda>_ s'. pkt_acked world dst (unat num) s s')
     (\<lambda>c s'. pkt_error c \<and> frame {rank_addr world dst outbound_seq} s s')"
proof -
  have "ends (loop (ack_packetizer_step world dst (pkt_sts s)) num) s
     (\<lambda>_ s'. pkt_acked world dst (unat num) s s')
     (\<lambda>c s'. pkt_error c \<and> frame {rank_addr world dst outbound_seq} s s')"
  proof (rule loop_ends [where R = "measure (\<lambda>(n, s). unat n)"
        and I = "\<lambda>n t. n \<le> num \<and> pkt_acked world dst (unat num - unat n) s t"])
    fix n t assume I: "n \<le> num \<and> pkt_acked world dst (unat num - unat n) s t"
    have dec: "unat (n - 1) = unat n - 1" if "0 < n"
      using that by (simp add: unat_minus_one word_neq_0_conv)
    show "ends (ack_packetizer_step world dst (pkt_sts s) n) t
      (\<lambda>z s'. case z of
          Inl y \<Rightarrow> (y \<le> num \<and> pkt_acked world dst (unat num - unat y) s s') \<and>
            ((y, s'), (n, t)) \<in> measure (\<lambda>(n, s). unat n)
        | Inr v \<Rightarrow> pkt_acked world dst (unat num) s s')
      (\<lambda>c s'. pkt_error c \<and> frame {rank_addr world dst outbound_seq} s s')"
    proof (rule ends_weaken [OF ack_packetizer_step_ends [OF assms conjunct2 [OF I]]])
      fix z s'
      assume z: "case z of Inl y \<Rightarrow> 0 < n \<and> y = n - 1 \<and> pkt_acked world dst (Suc (unat num - unat n)) s s'
        | Inr v \<Rightarrow> n = 0 \<and> s' = t"
      show "case z of
          Inl y \<Rightarrow> (y \<le> num \<and> pkt_acked world dst (unat num - unat y) s s') \<and>
            ((y, s'), (n, t)) \<in> measure (\<lambda>(n, s). unat n)
        | Inr v \<Rightarrow> pkt_acked world dst (unat num) s s'"
      proof (cases z)
        case (Inl y)
        with z have n: "0 < n" "y = n - 1" and a: "pkt_acked world dst (Suc (unat num - unat n)) s s'"
          by auto
        have "0 < unat n" "unat n \<le> unat num"
          using n(1) I by (auto simp: word_less_nat_alt word_le_nat_alt)
        then have "unat y < unat n" "Suc (unat num - unat n) = unat num - unat y" "unat y \<le> unat num"
          using n dec by auto
        then show ?thesis using Inl a by (simp add: word_le_nat_alt)
      next
        case (Inr v)
        with z I show ?thesis by simp
      qed
    qed
  qed (simp_all add: pkt_acked_def out_seq_def)
  then show ?thesis
    by (simp add: ack_packetizer_def pkt_sts_def)
qed

subsection \<open>Properties\<close>

text \<open>A communicator of two ranks, for the examples.\<close>

definition two_ranks :: communicator where
  "two_ranks = \<lparr>size' = 2, local_rank = 0, ranks = 0x1100\<rparr>"

lemma two_ranks_fields [simp]: "size' two_ranks = 2" "local_rank two_ranks = 0" "ranks two_ranks = 0x1100"
  by (simp_all add: two_ranks_def)

text \<open>\<open>find_comm\<close> gives a communicator whose own rank is below its size and whose rank array follows the two
words it read, or the null communicator with size 0; it changes nothing but the scripts of the registers read.\<close>

lemma find_comm_valid_or_null:
  "ends (find_comm adr) s
     (\<lambda>world s'. (local_rank world < size' world \<and> ranks world = adr + 8 \<or> world = \<lparr>size' = 0, local_rank = 0, ranks = 0\<rparr>) \<and>
        frame {} s s')
     (\<lambda>_ _. False)"
  unfolding find_comm_def
proof (rule ends_bndI [OF ends_weaken [OF xil_in32_ends]])
  fix sz t assume t: "reg_reads s t"
  show "ends (bnd (xil_in32 (adr + 4)) (\<lambda>lr.
     if sz \<noteq> 0 \<and> lr < sz then ret \<lparr>size' = sz, local_rank = lr, ranks = adr + 8\<rparr>
     else ret \<lparr>size' = 0, local_rank = 0, ranks = 0\<rparr>)) t
     (\<lambda>world s'. (local_rank world < size' world \<and> ranks world = adr + 8 \<or> world = \<lparr>size' = 0, local_rank = 0, ranks = 0\<rparr>) \<and>
        frame {} s s')
     (\<lambda>_ _. False)"
    by (rule ends_bndI [OF ends_weaken [OF xil_in32_ends]])
      (auto dest: reg_reads_trans [OF t] intro: frame_reg_reads)
qed simp_all

text \<open>\<open>start_packetizer_message\<close> puts on the packetizer's stream one five-word header per segment, for the first
\<open>max_dma_in_flight\<close> segments of the message: the destination's session (TCP) or port (UDP), the length of that very
segment, the tag, the sender, and consecutive sequence numbers after the destination's outbound one; it returns how many.\<close>

lemma start_packetizer_message_headers:
  assumes "ranks world \<noteq> 0" and "0 < dma_transaction_size s"
  shows "\<exists>n. n = min (unat (max_dma_in_flight s)) (nsegs (unat (dma_transaction_size s)) (unat len)) \<and>
     start_packetizer_message world dst len tag off s =
       Some (Ret (of_nat n), s\<lparr>trace := trace s @ concat (map (\<lambda>k.
          let net = (if use_tcp s \<noteq> 0 then CMD_TCP_TX else CMD_UDP_TX) in
          [Put net (mem s (rank_addr world dst (if use_tcp s \<noteq> 0 then session else port))),
           Put net (of_nat (seg (unat (dma_transaction_size s)) (unat len) k)),
           Put net tag, Put net (local_rank world),
           CPut net (mem s (rank_addr world dst outbound_seq) + off + of_nat k + 1)]) [0..<n])\<rparr>)"
  using start_packetizer_message_run [OF assms refl, of dst len tag off]
  by (simp add: pkt_msgs_def pkt_words_def pkt_net_def pkt_dst_def out_seq_def Let_def)



end
