(* ===== verification/Fw_Pipeline.thy ===== *)
theory Fw_Pipeline
  imports Fw_Comm
begin

text \<open>
  The three loops that every segmented transfer of the firmware has: issue transactions of
  \<open>dma_transaction_size\<close> bytes until \<open>max_dma_in_flight\<close> are in flight, then acknowledge one and
  issue one, then acknowledge the rest.  The six functions that contain them differ in what they do
  to issue a segment (in the first and in the second loop) and to acknowledge one; these are the
  arguments here, together with the local variables \<open>l\<close> they update.  The locale
  \<open>pipelined_transfer\<close> proves once that the loops issue and acknowledge every segment exactly once.
\<close>

subsection \<open>The loops\<close>

definition fill_step :: "(u32 \<Rightarrow> 'l \<Rightarrow> 'l fw) \<Rightarrow> u32 \<times> u32 \<times> u32 \<times> 'l
    \<Rightarrow> (u32 \<times> u32 \<times> u32 \<times> 'l + u32 \<times> u32 \<times> 'l) fw" where
  "fill_step issue = (\<lambda>(i, remaining_to_move, curr_len_move, l).
     bnd (getf max_dma_in_flight) (\<lambda>m.
     bnd (getf dma_transaction_size) (\<lambda>dts.
     if 0 < remaining_to_move \<and> i < m then
       (let curr_len_move = (if remaining_to_move < dts then remaining_to_move else curr_len_move) in
        bnd (issue curr_len_move l) (\<lambda>l.
        ret (Inl (i + 1, remaining_to_move - curr_len_move, curr_len_move, l))))
     else ret (Inr (remaining_to_move, curr_len_move, l)))))"

definition steady_step :: "(u32 \<Rightarrow> 'l \<Rightarrow> 'l fw) \<Rightarrow> (u32 \<Rightarrow> 'l \<Rightarrow> 'l fw) \<Rightarrow> u32 \<times> u32 \<times> u32 \<times> u32 \<times> 'l
    \<Rightarrow> (u32 \<times> u32 \<times> u32 \<times> u32 \<times> 'l + u32 \<times> u32 \<times> 'l) fw" where
  "steady_step ack issue = (\<lambda>(remaining_to_move, curr_len_move, remaining_to_ack, curr_len_ack, l).
     if 0 < remaining_to_move then
       bnd (getf dma_transaction_size) (\<lambda>dts.
       let curr_len_ack = (if remaining_to_ack < dts then remaining_to_ack else curr_len_ack) in
       bnd (ack curr_len_ack l) (\<lambda>l.
       bnd (getf dma_transaction_size) (\<lambda>dts.
       let curr_len_move = (if remaining_to_move < dts then remaining_to_move else curr_len_move) in
       bnd (issue curr_len_move l) (\<lambda>l.
       ret (Inl (remaining_to_move - curr_len_move, curr_len_move,
                 remaining_to_ack - curr_len_ack, curr_len_ack, l))))))
     else ret (Inr (remaining_to_ack, curr_len_ack, l)))"

definition drain_step :: "(u32 \<Rightarrow> 'l \<Rightarrow> 'l fw) \<Rightarrow> u32 \<times> u32 \<times> 'l \<Rightarrow> (u32 \<times> u32 \<times> 'l + 'l) fw" where
  "drain_step ack = (\<lambda>(remaining_to_ack, curr_len_ack, l).
     if 0 < remaining_to_ack then
       bnd (getf dma_transaction_size) (\<lambda>dts.
       let curr_len_ack = (if remaining_to_ack < dts then remaining_to_ack else curr_len_ack) in
       bnd (ack curr_len_ack l) (\<lambda>l. ret (Inl (remaining_to_ack - curr_len_ack, curr_len_ack, l))))
     else ret (Inr l))"

definition pipelined :: "(u32 \<Rightarrow> 'l \<Rightarrow> 'l fw) \<Rightarrow> (u32 \<Rightarrow> 'l \<Rightarrow> 'l fw) \<Rightarrow> (u32 \<Rightarrow> 'l \<Rightarrow> 'l fw)
    \<Rightarrow> u32 \<Rightarrow> 'l \<Rightarrow> 'l fw" where
  "pipelined issue1 issue2 ack len l =
     bnd (getf dma_transaction_size) (\<lambda>dts.
     bnd (loop (fill_step issue1) (0, len, dts, l)) (\<lambda>(remaining_to_move, curr_len_move, l).
     bnd (loop (steady_step ack issue2) (remaining_to_move, curr_len_move, len, dts, l))
       (\<lambda>(remaining_to_ack, curr_len_ack, l).
     loop (drain_step ack) (remaining_to_ack, curr_len_ack, l))))"

subsection \<open>Remaining bytes and segments\<close>

text \<open>After \<open>k\<close> segments: what remains, and the current transaction size while something remains.\<close>

definition after_segs :: "u32 \<Rightarrow> u32 \<Rightarrow> nat \<Rightarrow> u32 \<Rightarrow> u32 \<Rightarrow> bool" where
  "after_segs d len k remaining cl \<longleftrightarrow>
     unat remaining = unat len - k * unat d \<and> (0 < remaining \<longrightarrow> cl = d)"

lemma after_segs_0: "after_segs d len 0 len d"
  by (simp add: after_segs_def)

lemma after_segs_pos:
  assumes "after_segs d len k r cl" and "0 < d"
  shows "0 < r \<longleftrightarrow> k < nsegs (unat d) (unat len)"
proof -
  have "0 < unat d" using assms(2) by (simp add: word_less_nat_alt)
  then show ?thesis
    using assms(1) by (auto simp: after_segs_def nsegs_iff word_less_nat_alt)
qed

lemma after_segs_step:
  assumes "after_segs d len k r cl" and "0 < r"
  defines "cl' \<equiv> if r < d then r else cl"
  shows "cl' = of_nat (seg (unat d) (unat len) k)" and "after_segs d len (Suc k) (r - cl') cl'"
    and "unat (r - cl') < unat r \<or> d = 0"
proof -
  have r: "unat r = unat len - k * unat d" and cl: "cl = d"
    using assms(1,2) by (auto simp: after_segs_def)
  have u: "unat cl' = seg (unat d) (unat len) k"
    using r by (simp add: cl'_def cl seg_def word_less_nat_alt min_def)
  have "of_nat (unat cl') = cl'" by simp
  with u show "cl' = of_nat (seg (unat d) (unat len) k)" by simp
  have le: "cl' \<le> r"
    by (auto simp: cl'_def cl)
  then have sub: "unat (r - cl') = unat r - unat cl'"
    by (rule unat_sub)
  then have "unat (r - cl') = unat len - Suc k * unat d"
    using u r remaining_Suc [of "unat len" k "unat d"] by simp
  moreover have "0 < r - cl' \<longrightarrow> cl' = d"
    by (auto simp: cl'_def cl)
  ultimately show "after_segs d len (Suc k) (r - cl') cl'"
    by (simp add: after_segs_def)
  show "unat (r - cl') < unat r \<or> d = 0"
  proof (cases "d = 0")
    case False
    then have "0 < unat cl'"
      using assms(2) by (auto simp: cl'_def cl word_less_nat_alt unat_gt_0)
    with sub assms(2) show ?thesis by (simp add: word_less_nat_alt)
  qed simp
qed

subsection \<open>The interface\<close>

text \<open>
  A job \<open>j\<close> fixes the start state and the length.  \<open>inv j n a l s\<close> describes the state when \<open>n\<close>
  segments have been issued and \<open>a\<close> acknowledged; the provider shows that its \<open>issue\<close> and \<open>ack\<close>
  operations take it forward and leave the transaction size and the in-flight bound alone.
\<close>

locale pipelined_transfer =
  fixes issue1 :: "'j \<Rightarrow> u32 \<Rightarrow> 'l \<Rightarrow> 'l fw"
    and issue2 :: "'j \<Rightarrow> u32 \<Rightarrow> 'l \<Rightarrow> 'l fw"
    and ack :: "'j \<Rightarrow> u32 \<Rightarrow> 'l \<Rightarrow> 'l fw"
    and inv :: "'j \<Rightarrow> nat \<Rightarrow> nat \<Rightarrow> 'l \<Rightarrow> fw_state \<Rightarrow> bool"
    and err :: "'j \<Rightarrow> u32 \<Rightarrow> fw_state \<Rightarrow> bool"
    and start :: "'j \<Rightarrow> fw_state"
    and len :: "'j \<Rightarrow> u32"
  assumes params: "inv j n a l s \<Longrightarrow>
      dma_transaction_size s = dma_transaction_size (start j) \<and>
      max_dma_in_flight s = max_dma_in_flight (start j) \<and>
      0 < dma_transaction_size (start j) \<and> 0 < max_dma_in_flight (start j)"
    and issue1: "inv j n 0 l s \<Longrightarrow>
      n < nsegs (unat (dma_transaction_size (start j))) (unat (len j)) \<Longrightarrow>
      n < unat (max_dma_in_flight (start j)) \<Longrightarrow>
      ends (issue1 j (of_nat (seg (unat (dma_transaction_size (start j))) (unat (len j)) n)) l) s
        (\<lambda>l' s'. inv j (Suc n) 0 l' s') (err j)"
    and issue2: "inv j n a l s \<Longrightarrow>
      n < nsegs (unat (dma_transaction_size (start j))) (unat (len j)) \<Longrightarrow>
      Suc n = a + unat (max_dma_in_flight (start j)) \<Longrightarrow> 0 < a \<Longrightarrow>
      ends (issue2 j (of_nat (seg (unat (dma_transaction_size (start j))) (unat (len j)) n)) l) s
        (\<lambda>l' s'. inv j (Suc n) a l' s') (err j)"
    and ack: "inv j n a l s \<Longrightarrow> a < n \<Longrightarrow>
      n \<le> nsegs (unat (dma_transaction_size (start j))) (unat (len j)) \<Longrightarrow>
      ends (ack j (of_nat (seg (unat (dma_transaction_size (start j))) (unat (len j)) a)) l) s
        (\<lambda>l' s'. inv j n (Suc a) l' s') (err j)"
begin

lemma fill_ends:
  fixes j
  defines "d \<equiv> dma_transaction_size (start j)" and "m \<equiv> max_dma_in_flight (start j)"
  defines "N \<equiv> nsegs (unat d) (unat (len j))"
  assumes "inv j 0 0 l s"
  shows "ends (loop (fill_step (issue1 j)) (0, len j, d, l)) s
     (\<lambda>(r, cl, l') s'. inv j (min N (unat m)) 0 l' s' \<and> after_segs d (len j) (min N (unat m)) r cl)
     (err j)"
proof -
  have pos: "0 < d" "0 < m" using params [OF assms(4)] by (simp_all add: d_def m_def)
  let ?I = "\<lambda>(i :: u32, r, cl, l) s. \<exists>n. i = of_nat n \<and> n \<le> unat m \<and> n \<le> N \<and>
                 inv j n 0 l s \<and> after_segs d (len j) n r cl"
  let ?R = "measure (\<lambda>((i :: u32, r, cl :: u32, l), s). unat r)"
  let ?Q = "\<lambda>(r, cl, l') s'. inv j (min N (unat m)) 0 l' s' \<and> after_segs d (len j) (min N (unat m)) r cl"
  show ?thesis
  proof (rule loop_ends [where R = ?R and I = ?I])
    show "?I (0, len j, d, l) s"
      using assms(4) by (auto intro!: exI [of _ 0] simp: after_segs_0)
  next
    fix x t
    assume I: "?I x t"
    obtain i r cl l where x: "x = (i, r, cl, l)" by (cases x)
    with I obtain n where i: "i = of_nat n" and nm: "n \<le> unat m" and nN: "n \<le> N"
      and iv: "inv j n 0 l t" and af: "after_segs d (len j) n r cl" by auto
    have un: "unat i = n" using unat_of_nat_le [OF nm] i by simp
    have p: "dma_transaction_size t = d" "max_dma_in_flight t = m"
      using params [OF iv] by (simp_all add: d_def m_def)
    let ?P = "\<lambda>z s'. case z of Inl y \<Rightarrow> ?I y s' \<and> ((y, s'), (x, t)) \<in> ?R | Inr v \<Rightarrow> ?Q v s'"
    show "ends (fill_step (issue1 j) x) t ?P (err j)"
    proof (cases "0 < r \<and> i < m")
      case True
      let ?cl = "if r < d then r else cl"
      note st = after_segs_step [OF af conjunct1 [OF True]]
      have n: "n < N" "n < unat m"
        using True after_segs_pos [OF af pos(1)] un by (auto simp: N_def word_less_nat_alt)
      have "ends (issue1 j ?cl l) t (\<lambda>l' s'. inv j (Suc n) 0 l' s') (err j)"
        unfolding st(1) using issue1 [OF iv] n by (simp add: d_def m_def N_def)
      then have "ends (bnd (issue1 j ?cl l) (\<lambda>l. ret (Inl (i + 1, r - ?cl, ?cl, l)))) t
         ?P
         (err j)"
      proof (rule ends_bndI)
        fix l' s' assume iv': "inv j (Suc n) 0 l' s'"
        have "\<exists>n'. i + 1 = of_nat n' \<and> n' \<le> unat m \<and> n' \<le> N \<and> inv j n' 0 l' s' \<and>
           after_segs d (len j) n' (r - ?cl) ?cl"
          by (rule exI [of _ "Suc n"]) (use iv' n i st(2) in \<open>simp add: add.commute\<close>)
        moreover have "unat (r - ?cl) < unat r" using st(3) pos(1) by auto
        ultimately show "ends (ret (Inl (i + 1, r - ?cl, ?cl, l'))) s'
           ?P
           (err j)"
          by (simp only: ends_prim sum.case prod.case x in_measure HOL.simp_thms)
      qed
      then show ?thesis
        unfolding x fill_step_def prod.case ends_bnd_prim p if_P [OF True] Let_def .
    next
      case False
      have "n = min N (unat m)"
      proof (cases "0 < r")
        case True
        with False un nm have "n = unat m" by (auto simp: word_less_nat_alt)
        with nN show ?thesis by simp
      next
        case False
        with after_segs_pos [OF af pos(1)] nN nm show ?thesis by (simp add: N_def)
      qed
      with False iv af show ?thesis
        unfolding x fill_step_def prod.case ends_bnd_prim p if_not_P [OF False] by simp
    qed
  qed simp
qed

lemma drain_ends:
  fixes j
  defines "d \<equiv> dma_transaction_size (start j)"
  defines "N \<equiv> nsegs (unat d) (unat (len j))"
  assumes "inv j N a l s" and "after_segs d (len j) a r cl" and "a \<le> N"
  shows "ends (loop (drain_step (ack j)) (r, cl, l)) s (\<lambda>l' s'. inv j N N l' s') (err j)"
proof -
  have pos: "0 < d" using params [OF assms(3)] by (simp add: d_def)
  let ?I = "\<lambda>(r, cl, l) s. \<exists>a. a \<le> N \<and> inv j N a l s \<and> after_segs d (len j) a r cl"
  let ?R = "measure (\<lambda>((r, cl :: u32, l), s). unat r)"
  show ?thesis
  proof (rule loop_ends [where R = ?R and I = ?I])
    show "?I (r, cl, l) s"
      using assms(3-5) by auto
  next
    fix x t
    assume I: "?I x t"
    obtain r cl l where x: "x = (r, cl, l)" by (cases x)
    with I obtain a where aN: "a \<le> N" and iv: "inv j N a l t" and af: "after_segs d (len j) a r cl"
      by auto
    have p: "dma_transaction_size t = d"
      using params [OF iv] by (simp add: d_def)
    let ?P = "\<lambda>z s'. case z of Inl y \<Rightarrow> ?I y s' \<and> ((y, s'), (x, t)) \<in> ?R | Inr v \<Rightarrow> inv j N N v s'"
    show "ends (drain_step (ack j) x) t ?P (err j)"
    proof (cases "0 < r")
      case True
      let ?cl = "if r < d then r else cl"
      note st = after_segs_step [OF af True]
      have a: "a < N" using True after_segs_pos [OF af pos] by (simp add: N_def)
      have "ends (ack j ?cl l) t (\<lambda>l' s'. inv j N (Suc a) l' s') (err j)"
        unfolding st(1) using ack [OF iv a] by (simp add: d_def N_def)
      then have "ends (bnd (ack j ?cl l) (\<lambda>l. ret (Inl (r - ?cl, ?cl, l)))) t
         ?P (err j)"
      proof (rule ends_bndI)
        fix l' s' assume iv': "inv j N (Suc a) l' s'"
        have "\<exists>a. a \<le> N \<and> inv j N a l' s' \<and> after_segs d (len j) a (r - ?cl) ?cl"
          using iv' a st(2) by (auto intro!: exI [of _ "Suc a"])
        moreover have "unat (r - ?cl) < unat r" using st(3) pos by auto
        ultimately show "ends (ret (Inl (r - ?cl, ?cl, l'))) s'
           ?P (err j)"
          by (simp only: ends_prim sum.case prod.case x in_measure HOL.simp_thms)
      qed
      then show ?thesis
        unfolding x drain_step_def prod.case ends_bnd_prim p if_P [OF True] Let_def .
    next
      case False
      with after_segs_pos [OF af pos] aN have "a = N" by (simp add: N_def)
      with False iv show ?thesis
        unfolding x drain_step_def prod.case if_not_P [OF False] by simp
    qed
  qed simp
qed

lemma steady_ends:
  fixes j
  defines "d \<equiv> dma_transaction_size (start j)" and "m \<equiv> unat (max_dma_in_flight (start j))"
  defines "N \<equiv> nsegs (unat d) (unat (len j))"
  assumes "inv j (min N m) 0 l s" and "after_segs d (len j) (min N m) r cl"
  shows "ends (loop (steady_step (ack j) (issue2 j)) (r, cl, len j, d, l)) s
     (\<lambda>(ra, ca, l') s'. inv j N (N - m) l' s' \<and> after_segs d (len j) (N - m) ra ca) (err j)"
proof -
  have pos: "0 < d" "0 < m" using params [OF assms(4)] by (simp_all add: d_def m_def word_less_nat_alt)
  let ?Q = "\<lambda>(ra, ca, l') s'. inv j N (N - m) l' s' \<and> after_segs d (len j) (N - m) ra ca"
  let ?I = "\<lambda>(r, cl, ra, ca, l) s. \<exists>a. a \<le> N - m \<and> inv j (min N (a + m)) a l s \<and>
       after_segs d (len j) (min N (a + m)) r cl \<and> after_segs d (len j) a ra ca"
  let ?R = "measure (\<lambda>((r, cl, ra, ca, l), s). unat r)"
  show ?thesis
  proof (rule loop_ends [where R = ?R and I = ?I])
    show "?I (r, cl, len j, d, l) s"
      using assms(4,5) by (auto intro!: exI [of _ 0] simp: after_segs_0)
  next
    fix x t
    assume I: "?I x t"
    obtain r cl ra ca l where x: "x = (r, cl, ra, ca, l)" by (cases x)
    with I obtain a where aN: "a \<le> N - m" and iv: "inv j (min N (a + m)) a l t"
      and af: "after_segs d (len j) (min N (a + m)) r cl" and ag: "after_segs d (len j) a ra ca"
      by auto
    let ?P = "\<lambda>z s'. case z of Inl y \<Rightarrow> ?I y s' \<and> ((y, s'), (x, t)) \<in> ?R | Inr v \<Rightarrow> ?Q v s'"
    have p: "dma_transaction_size u = d" if "inv j n a' l' u" for n a' l' u
      using params [OF that] by (simp add: d_def)
    show "ends (steady_step (ack j) (issue2 j) x) t ?P (err j)"
    proof (cases "0 < r")
      case True
      let ?cl = "if r < d then r else cl" and ?ca = "if ra < d then ra else ca"
      have "min N (a + m) < N" using True after_segs_pos [OF af pos(1)] by (simp add: N_def)
      then have n: "min N (a + m) = a + m" and nN: "a + m < N" by auto
      have iv: "inv j (a + m) a l t" and af: "after_segs d (len j) (a + m) r cl"
        using iv af n by simp_all
      have "0 < ra" using after_segs_pos [OF ag pos(1)] nN by (simp add: N_def)
      note st = after_segs_step [OF af True] and sg = after_segs_step [OF ag this]
      have "ends (bnd (ack j ?ca l) (\<lambda>l. bnd (getf dma_transaction_size) (\<lambda>dts.
          bnd (issue2 j (if r < dts then r else cl) l) (\<lambda>l.
          ret (Inl (r - (if r < dts then r else cl), (if r < dts then r else cl), ra - ?ca, ?ca, l)))))) t
          ?P (err j)"
      proof (rule ends_bndI [where Q' = "\<lambda>l' s'. inv j (a + m) (Suc a) l' s'"])
        show "ends (ack j ?ca l) t (\<lambda>l' s'. inv j (a + m) (Suc a) l' s') (err j)"
          unfolding sg(1) using ack [OF iv] pos nN by (simp add: d_def N_def)
      next
        fix l1 s1 assume i1: "inv j (a + m) (Suc a) l1 s1"
        show "ends (bnd (getf dma_transaction_size) (\<lambda>dts.
          bnd (issue2 j (if r < dts then r else cl) l1) (\<lambda>l.
          ret (Inl (r - (if r < dts then r else cl), (if r < dts then r else cl), ra - ?ca, ?ca, l))))) s1
          ?P (err j)"
          unfolding ends_bnd_prim p [OF i1]
        proof (rule ends_bndI [where Q' = "\<lambda>l' s'. inv j (Suc (a + m)) (Suc a) l' s'"])
          show "ends (issue2 j ?cl l1) s1 (\<lambda>l' s'. inv j (Suc (a + m)) (Suc a) l' s') (err j)"
            unfolding st(1) using issue2 [OF i1] nN by (simp add: d_def m_def N_def)
        next
          fix l2 s2 assume i2: "inv j (Suc (a + m)) (Suc a) l2 s2"
          have "min N (Suc a + m) = Suc (a + m)" using nN by simp
          then have "?I (r - ?cl, ?cl, ra - ?ca, ?ca, l2) s2"
            using i2 st(2) sg(2) nN by (auto intro!: exI [of _ "Suc a"])
          moreover have "unat (r - ?cl) < unat r" using st(3) pos by auto
          ultimately show "ends (ret (Inl (r - ?cl, ?cl, ra - ?ca, ?ca, l2))) s2 ?P (err j)"
            by (simp only: ends_prim sum.case prod.case x in_measure HOL.simp_thms)
        qed
      qed
      then show ?thesis
        unfolding x steady_step_def prod.case if_P [OF True] ends_bnd_prim p [OF iv] Let_def .
    next
      case False
      with after_segs_pos [OF af pos(1)] have "min N (a + m) = N" by (auto simp: N_def)
      with aN have a: "a = N - m" and n: "min N (a + m) = N" by auto
      show ?thesis
        unfolding x steady_step_def prod.case if_not_P [OF False]
        using iv ag n a by simp
    qed
  qed simp
qed

theorem pipelined_ends:
  assumes "inv j 0 0 l s"
  shows "ends (pipelined (issue1 j) (issue2 j) (ack j) (len j) l) s
     (\<lambda>l' s'. let N = nsegs (unat (dma_transaction_size (start j))) (unat (len j)) in inv j N N l' s') (err j)"
proof -
  let ?d = "dma_transaction_size (start j)" and ?m = "unat (max_dma_in_flight (start j))"
  let ?N = "nsegs (unat ?d) (unat (len j))"
  have "ends (bnd (loop (fill_step (issue1 j)) (0, len j, ?d, l)) (\<lambda>(r, cl, l).
     bnd (loop (steady_step (ack j) (issue2 j)) (r, cl, len j, ?d, l)) (\<lambda>(ra, ca, l).
     loop (drain_step (ack j)) (ra, ca, l)))) s (\<lambda>l' s'. inv j ?N ?N l' s') (err j)"
    by (rule ends_bndI [OF fill_ends [OF assms(1)]], clarsimp,
        rule ends_bndI [OF steady_ends], assumption, assumption, clarsimp,
        rule drain_ends, assumption, assumption, simp)
  then show ?thesis
    using params [OF assms(1)] by (simp add: pipelined_def Let_def)
qed

end

end
