(* ===== verification/Fw_Movement.thy ===== *)
theory Fw_Movement
  imports Fw_Pipeline
begin

text \<open>
  Segmented DMA transfers: \<open>dma_movement\<close>, and \<open>dma_movement_and_packetizer\<close> which also hands the
  packetizer one message header per segment and collects its acknowledgements.  Both are instances
  of the loops of \<open>Fw_Pipeline\<close>; the theorems say which commands, headers and acknowledgements
  pass, in which order, and that at most \<open>max_dma_in_flight\<close> segments are ever in flight.
\<close>

subsection \<open>The transfers\<close>

record move_locals =
  DMA0_rx_addr :: u64
  DMA1_rx_addr :: u64
  DMA1_tx_addr :: u64
  DMA2_rx_addr :: u64
  dma_tag_tmp :: u32

definition advance :: "u32 \<Rightarrow> u32 \<Rightarrow> move_locals \<Rightarrow> move_locals" where
  "advance curr_len tag l =
     \<lparr>DMA0_rx_addr = DMA0_rx_addr l + ucast curr_len, DMA1_rx_addr = DMA1_rx_addr l + ucast curr_len,
      DMA1_tx_addr = DMA1_tx_addr l + ucast curr_len, DMA2_rx_addr = DMA2_rx_addr l + ucast curr_len,
      dma_tag_tmp = tag\<rparr>"

definition move_issue :: "u32 \<Rightarrow> u32 \<Rightarrow> move_locals \<Rightarrow> move_locals fw" where
  "move_issue what_DMAS curr_len l =
     bnd (start_dma curr_len (DMA0_rx_addr l) (DMA1_rx_addr l) (DMA1_tx_addr l) (DMA2_rx_addr l)
            what_DMAS (dma_tag_tmp l))
       (\<lambda>tag. ret (advance curr_len tag l))"

definition move_ack :: "u32 \<Rightarrow> u32 \<Rightarrow> move_locals \<Rightarrow> move_locals fw" where
  "move_ack what_DMAS curr_len l = bnd (ack_dma curr_len what_DMAS) (\<lambda>_. ret l)"

definition dma_movement :: "u32 \<Rightarrow> u64 \<Rightarrow> u64 \<Rightarrow> u64 \<Rightarrow> u64 \<Rightarrow> u32 \<Rightarrow> u32 fw" where
  "dma_movement len DMA0_rx DMA1_rx DMA1_tx DMA2_rx what_DMAS =
     bnd (getf dma_tag) (\<lambda>tag.
     bnd (pipelined (move_issue what_DMAS) (move_issue what_DMAS) (move_ack what_DMAS) len
            \<lparr>DMA0_rx_addr = DMA0_rx, DMA1_rx_addr = DMA1_rx, DMA1_tx_addr = DMA1_tx,
             DMA2_rx_addr = DMA2_rx, dma_tag_tmp = tag\<rparr>)
       (\<lambda>_. ret COLLECTIVE_OP_SUCCESS))"

definition pkt_issue :: "communicator \<Rightarrow> u32 \<Rightarrow> u32 \<Rightarrow> u32 \<Rightarrow> u32 \<Rightarrow> move_locals \<Rightarrow> move_locals fw" where
  "pkt_issue world dst_rank mpi_tag what_DMAS curr_len l =
     bnd (getf max_dma_in_flight) (\<lambda>m.
     bnd (start_packetizer_message world dst_rank curr_len mpi_tag (m - 1)) (\<lambda>_.
     move_issue what_DMAS curr_len l))"

definition pkt_ack :: "communicator \<Rightarrow> u32 \<Rightarrow> u32 \<Rightarrow> u32 \<Rightarrow> move_locals \<Rightarrow> move_locals fw" where
  "pkt_ack world dst_rank what_DMAS curr_len l =
     bnd (ack_dma curr_len what_DMAS) (\<lambda>_.
     bnd (ack_packetizer world dst_rank 1) (\<lambda>_. ret l))"

definition dma_movement_and_packetizer ::
    "communicator \<Rightarrow> u32 \<Rightarrow> u64 \<Rightarrow> u64 \<Rightarrow> u64 \<Rightarrow> u64 \<Rightarrow> u32 \<Rightarrow> u32 \<Rightarrow> u32 \<Rightarrow> u32 fw" where
  "dma_movement_and_packetizer world len DMA0_rx DMA1_rx DMA1_tx DMA2_rx what_DMAS dst_rank mpi_tag =
     bnd (getf dma_tag) (\<lambda>tag.
     bnd (start_packetizer_message world dst_rank len mpi_tag 0) (\<lambda>_.
     bnd (pipelined (move_issue what_DMAS) (pkt_issue world dst_rank mpi_tag what_DMAS)
            (pkt_ack world dst_rank what_DMAS) len
            \<lparr>DMA0_rx_addr = DMA0_rx, DMA1_rx_addr = DMA1_rx, DMA1_tx_addr = DMA1_tx,
             DMA2_rx_addr = DMA2_rx, dma_tag_tmp = tag\<rparr>)
       (\<lambda>_. ret COLLECTIVE_OP_SUCCESS)))"

subsection \<open>Specification: a bounded pipeline of segments\<close>

datatype move_op = Issue nat | Ack nat

text \<open>
  The abstract machine counts segments issued and acknowledged.  It issues them in order while
  fewer than \<open>m\<close> are in flight, and acknowledges them in order.
\<close>

fun pipe :: "nat \<Rightarrow> nat \<times> nat \<Rightarrow> move_op list \<Rightarrow> (nat \<times> nat) option" where
  "pipe m (n, a) [] = Some (n, a)"
| "pipe m (n, a) (Issue k # ops) = (if k = n \<and> n < a + m then pipe m (Suc n, a) ops else None)"
| "pipe m (n, a) (Ack k # ops) = (if k = a \<and> a < n then pipe m (n, Suc a) ops else None)"

lemma pipe_append:
  "pipe m p (ops @ ops') = (case pipe m p ops of None \<Rightarrow> None | Some q \<Rightarrow> pipe m q ops')"
  by (induction m p ops rule: pipe.induct) auto

record move_job =
  j_start :: fw_state
  j_len :: u32
  j_rx0 :: u64
  j_rx1 :: u64
  j_tx1 :: u64
  j_rx2 :: u64
  j_what :: u32

definition j_d :: "move_job \<Rightarrow> nat" where
  "j_d j = unat (dma_transaction_size (j_start j))"

definition j_m :: "move_job \<Rightarrow> nat" where
  "j_m j = unat (max_dma_in_flight (j_start j))"

definition j_segs :: "move_job \<Rightarrow> nat" where
  "j_segs j = nsegs (j_d j) (unat (j_len j))"

definition j_seg :: "move_job \<Rightarrow> nat \<Rightarrow> u32" where
  "j_seg j k = of_nat (seg (j_d j) (unat (j_len j)) k)"

definition j_tag :: "move_job \<Rightarrow> nat \<Rightarrow> u32" where
  "j_tag j k = (tag_step ^^ (k * length (acks (j_what j)))) (dma_tag (j_start j))"

text \<open>The commands of the \<open>k\<close>-th segment: its length, the addresses \<open>k\<close> transactions on, the next tags.\<close>

definition seg_commands :: "move_job \<Rightarrow> nat \<Rightarrow> event list" where
  "seg_commands j k =
     (let off = of_nat (k * j_d j) in
      emit (engines (j_seg j k) (j_rx0 j + off) (j_rx1 j + off) (j_tx1 j + off) (j_rx2 j + off) (j_what j))
        (j_tag j k))"

text \<open>
  \<open>block_ok j pre post op b\<close>: the events \<open>b\<close> of one step of the pipeline.  Issuing a segment emits its
  commands, preceded by \<open>pre\<close>; acknowledging it takes a good status from every engine, followed by
  \<open>post\<close>.
\<close>

fun block_ok :: "move_job \<Rightarrow> (nat \<Rightarrow> event list) \<Rightarrow> (nat \<Rightarrow> event list) \<Rightarrow> move_op \<Rightarrow> event list \<Rightarrow> bool" where
  "block_ok j pre post (Issue k) b \<longleftrightarrow> b = pre k @ seg_commands j k"
| "block_ok j pre post (Ack k) b \<longleftrightarrow> (\<exists>b1. b = b1 @ post k \<and> good_acks (j_seg j k) (acks (j_what j)) (j_tag j k) b1)"

definition pipe_trace :: "move_job \<Rightarrow> (nat \<Rightarrow> event list) \<Rightarrow> (nat \<Rightarrow> event list) \<Rightarrow> nat \<Rightarrow> nat \<Rightarrow> event list \<Rightarrow> bool" where
  "pipe_trace j pre post n a es \<longleftrightarrow>
     (\<exists>ops bs. pipe (j_m j) (0, 0) ops = Some (n, a) \<and> list_all2 (block_ok j pre post) ops bs \<and> es = concat bs)"

lemma pipe_trace_0: "pipe_trace j pre post 0 0 []"
  unfolding pipe_trace_def by (intro exI [of _ "[]"]) simp

lemma pipe_trace_step:
  assumes "pipe_trace j pre post n a es" and "pipe (j_m j) (n, a) [op] = Some (n', a')"
    and "block_ok j pre post op b"
  shows "pipe_trace j pre post n' a' (es @ b)"
proof -
  from assms(1) obtain ops bs where "pipe (j_m j) (0, 0) ops = Some (n, a)"
    and "list_all2 (block_ok j pre post) ops bs" and "es = concat bs"
    unfolding pipe_trace_def by blast
  with assms(2,3) show ?thesis
    unfolding pipe_trace_def
    by (intro exI [of _ "ops @ [op]"] exI [of _ "bs @ [b]"])
      (simp add: pipe_append list_all2_appendI)
qed

lemma pipe_trace_issue:
  assumes "pipe_trace j pre post n a es" and "n < a + j_m j"
  shows "pipe_trace j pre post (Suc n) a (es @ pre n @ seg_commands j n)"
  by (rule pipe_trace_step [OF assms(1), of "Issue n"]) (use assms(2) in simp_all)

lemma pipe_trace_ack:
  assumes "pipe_trace j pre post n a es" and "a < n"
    and "good_acks (j_seg j a) (acks (j_what j)) (j_tag j a) b"
  shows "pipe_trace j pre post n (Suc a) (es @ b @ post a)"
  by (rule pipe_trace_step [OF assms(1), of "Ack a"]) (use assms(2,3) in auto)

subsection \<open>The local variables after some segments\<close>

definition j_locals :: "move_job \<Rightarrow> nat \<Rightarrow> move_locals" where
  "j_locals j n =
     (let off = of_nat (min (unat (j_len j)) (n * j_d j)) in
      \<lparr>DMA0_rx_addr = j_rx0 j + off, DMA1_rx_addr = j_rx1 j + off,
       DMA1_tx_addr = j_tx1 j + off, DMA2_rx_addr = j_rx2 j + off, dma_tag_tmp = j_tag j n\<rparr>)"

lemma ucast_of_nat_seg: "ucast (j_seg j k) = (of_nat (seg (j_d j) (unat (j_len j)) k) :: u64)"
proof -
  have "unat (j_seg j k) = seg (j_d j) (unat (j_len j)) k"
    unfolding j_seg_def
    by (rule unat_of_nat_le [of _ "dma_transaction_size (j_start j)"]) (simp add: seg_def j_d_def)
  from this [symmetric] show ?thesis by (simp only: of_nat_unat)
qed

lemma segment_offset_lt: "n < j_segs j \<Longrightarrow> 0 < j_d j \<Longrightarrow> n * j_d j < unat (j_len j)"
  by (simp add: j_segs_def nsegs_iff)

lemma segment_offset_Suc:
  assumes "n < j_segs j" and "0 < j_d j"
  shows "x + of_nat (min (unat (j_len j)) (n * j_d j)) + ucast (j_seg j n) =
     (x + of_nat (min (unat (j_len j)) (Suc n * j_d j)) :: u64)"
proof -
  let ?len = "unat (j_len j)"
  have "min l x + min d (l - x) = min l (d + x)" if "x < l" for l x d :: nat
    using that by arith
  from this [OF segment_offset_lt [OF assms]]
  have off: "min ?len (n * j_d j) + seg (j_d j) ?len n = min ?len (Suc n * j_d j)" by (simp add: seg_def)
  have "(of_nat (min ?len (n * j_d j)) :: u64) + ucast (j_seg j n) = of_nat (min ?len (Suc n * j_d j))"
    unfolding ucast_of_nat_seg off [symmetric] by simp
  then show ?thesis by (simp add: add.assoc)
qed

lemma j_tag_Suc: "j_tag j (Suc k) = (tag_step ^^ length (acks (j_what j))) (j_tag j k)"
  by (simp add: j_tag_def funpow_add)

lemma move_issue_run:
  assumes "n < j_segs j" and "0 < j_d j"
  shows "move_issue (j_what j) (j_seg j n) (j_locals j n) s =
     Some (Ret (j_locals j (Suc n)), s\<lparr>trace := trace s @ seg_commands j n\<rparr>)"
proof -
  note adv = segment_offset_Suc [OF assms]
  have cmds: "emit (engines (j_seg j n) (DMA0_rx_addr (j_locals j n)) (DMA1_rx_addr (j_locals j n))
       (DMA1_tx_addr (j_locals j n)) (DMA2_rx_addr (j_locals j n)) (j_what j)) (j_tag j n) = seg_commands j n"
    using segment_offset_lt [OF assms] by (simp add: j_locals_def seg_commands_def Let_def min_def)
  have "advance (j_seg j n) (j_tag j (Suc n)) (j_locals j n) = j_locals j (Suc n)"
    unfolding advance_def j_locals_def Let_def move_locals.select_convs adv ..
  moreover have "dma_tag_tmp (j_locals j n) = j_tag j n" by (simp add: j_locals_def Let_def)
  ultimately show ?thesis
    by (simp add: move_issue_def bnd_def start_dma_run prim_run cmds j_tag_Suc [symmetric])
qed

lemma acked_events:
  assumes "acked len as s s'"
  obtains es where "trace s' = trace s @ es" and "good_acks len as (dma_tag s) es"
  using assms frame_trace [of "{}" s s'] by (auto simp: acked_def)

definition j_ready :: "move_job \<Rightarrow> bool" where
  "j_ready j \<longleftrightarrow> 0 < dma_transaction_size (j_start j) \<and> 0 < max_dma_in_flight (j_start j) \<and>
     timeout (j_start j) \<noteq> 0 \<and> dmas_ok (j_what j)"

definition j_channels :: "move_job \<Rightarrow> u32 set" where
  "j_channels j = fst ` set (acks (j_what j))"

lemma j_ready_d: "j_ready j \<Longrightarrow> 0 < j_d j" and j_ready_m: "j_ready j \<Longrightarrow> 0 < j_m j"
  by (simp_all add: j_ready_def j_d_def j_m_def word_less_nat_alt)

text \<open>
  \<open>moving j A C ld pre post n a l s\<close>: the transfer \<open>j\<close> has issued \<open>n\<close> segments and acknowledged \<open>a\<close>,
  memory has changed at most in \<open>A\<close>, and input words were taken from the channels of \<open>C\<close> only.
\<close>

definition moving :: "move_job \<Rightarrow> u32 set \<Rightarrow> u32 set \<Rightarrow> event list \<Rightarrow> (nat \<Rightarrow> event list) \<Rightarrow> (nat \<Rightarrow> event list)
    \<Rightarrow> nat \<Rightarrow> nat \<Rightarrow> move_locals \<Rightarrow> fw_state \<Rightarrow> bool" where
  "moving j A C ld pre post n a l s \<longleftrightarrow>
     l = j_locals j n \<and> a \<le> n \<and> frame A (j_start j) s \<and> inputs_kept C (j_start j) s \<and>
     dma_tag s = j_tag j a \<and>
     (\<exists>es. trace s = trace (j_start j) @ ld @ es \<and> pipe_trace j pre post n a es)"

lemma moving_0:
  assumes "t = (j_start j)\<lparr>trace := trace (j_start j) @ ld\<rparr>"
  shows "moving j A C ld pre post 0 0 (j_locals j 0) t"
  using assms by (simp add: moving_def j_tag_def pipe_trace_0 frame_def same_settings_def inputs_kept_def)

lemma moving_issue:
  assumes "moving j A C ld pre post n a l s" and "n < a + j_m j"
    and "t = s\<lparr>trace := trace s @ pre n @ seg_commands j n\<rparr>"
  shows "moving j A C ld pre post (Suc n) a (j_locals j (Suc n)) t"
proof -
  from assms(1) obtain es where es: "trace s = trace (j_start j) @ ld @ es" and p: "pipe_trace j pre post n a es"
    by (auto simp: moving_def)
  have "frame A (j_start j) t"
    by (rule frame_trans [of _ _ s])
      (use assms(1,3) in \<open>auto simp: moving_def frame_def same_settings_def\<close>)
  with pipe_trace_issue [OF p assms(2)] es assms(1,3) show ?thesis
    by (auto simp: moving_def inputs_kept_def)
qed

lemma moving_ack:
  assumes "moving j A C ld pre post n a l s" and "a < n"
    and "acked (j_seg j a) (acks (j_what j)) s t" and "j_channels j \<subseteq> C"
    and "frame A t u" and "inputs_kept C t u" and "dma_tag u = dma_tag t"
    and "trace u = trace t @ post a"
  shows "moving j A C ld pre post n (Suc a) l u"
proof -
  from assms(1) obtain es where es: "trace s = trace (j_start j) @ ld @ es" and p: "pipe_trace j pre post n a es"
    and tag: "dma_tag s = j_tag j a"
    by (auto simp: moving_def)
  from assms(3) obtain b where b: "trace t = trace s @ b"
    and good: "good_acks (j_seg j a) (acks (j_what j)) (j_tag j a) b"
    using tag by (auto elim: acked_events)
  have "frame A (j_start j) u"
  proof (rule frame_trans [of _ _ s])
    show "frame A (j_start j) s" using assms(1) by (simp add: moving_def)
    show "frame A s u"
      by (rule frame_trans [OF frame_mono [of "{}" s t] assms(5)]) (use assms(3) in \<open>auto simp: acked_def\<close>)
  qed
  moreover have "inputs_kept C (j_start j) u"
  proof (rule inputs_kept_trans [of _ _ s])
    show "inputs_kept C (j_start j) s" using assms(1) by (simp add: moving_def)
    show "inputs_kept C s u"
      by (rule inputs_kept_trans [OF inputs_kept_mono [of "j_channels j" s t] assms(6)])
        (use assms(3,4) in \<open>auto simp: acked_def j_channels_def\<close>)
  qed
  moreover have "dma_tag u = j_tag j (Suc a)"
    using assms(3,7) tag by (simp add: acked_def j_tag_Suc)
  ultimately show ?thesis
    using pipe_trace_ack [OF p assms(2) good] es b assms(1,2,8) by (auto simp: moving_def)
qed

subsection \<open>Transfers of a job\<close>

text \<open>The loops of \<open>Fw_Pipeline\<close> for operations stated over the segments of a job.\<close>

locale job_transfer =
  fixes issue1 :: "'j \<Rightarrow> u32 \<Rightarrow> 'l \<Rightarrow> 'l fw"
    and issue2 :: "'j \<Rightarrow> u32 \<Rightarrow> 'l \<Rightarrow> 'l fw"
    and ack :: "'j \<Rightarrow> u32 \<Rightarrow> 'l \<Rightarrow> 'l fw"
    and inv :: "'j \<Rightarrow> nat \<Rightarrow> nat \<Rightarrow> 'l \<Rightarrow> fw_state \<Rightarrow> bool"
    and err :: "'j \<Rightarrow> u32 \<Rightarrow> fw_state \<Rightarrow> bool"
    and move :: "'j \<Rightarrow> move_job"
  assumes job_params: "inv j n a l s \<Longrightarrow>
      dma_transaction_size s = dma_transaction_size (j_start (move j)) \<and>
      max_dma_in_flight s = max_dma_in_flight (j_start (move j)) \<and>
      0 < dma_transaction_size (j_start (move j)) \<and> 0 < max_dma_in_flight (j_start (move j))"
    and job_issue1: "inv j n 0 l s \<Longrightarrow> n < j_segs (move j) \<Longrightarrow> n < j_m (move j) \<Longrightarrow>
      ends (issue1 j (j_seg (move j) n) l) s (\<lambda>l' s'. inv j (Suc n) 0 l' s') (err j)"
    and job_issue2: "inv j n a l s \<Longrightarrow> n < j_segs (move j) \<Longrightarrow> Suc n = a + j_m (move j) \<Longrightarrow> 0 < a \<Longrightarrow>
      ends (issue2 j (j_seg (move j) n) l) s (\<lambda>l' s'. inv j (Suc n) a l' s') (err j)"
    and job_ack: "inv j n a l s \<Longrightarrow> a < n \<Longrightarrow> n \<le> j_segs (move j) \<Longrightarrow>
      ends (ack j (j_seg (move j) a) l) s (\<lambda>l' s'. inv j n (Suc a) l' s') (err j)"

sublocale job_transfer \<subseteq> pipelined_transfer issue1 issue2 ack inv err "\<lambda>j. j_start (move j)" "\<lambda>j. j_len (move j)"
proof
  fix j n a l s assume "inv j n a l s"
  then show "dma_transaction_size s = dma_transaction_size (j_start (move j)) \<and>
      max_dma_in_flight s = max_dma_in_flight (j_start (move j)) \<and>
      0 < dma_transaction_size (j_start (move j)) \<and> 0 < max_dma_in_flight (j_start (move j))"
    by (rule job_params)
qed (use job_issue1 job_issue2 job_ack in \<open>simp_all only: j_segs_def j_d_def j_m_def j_seg_def\<close>)

context job_transfer begin

lemma job_ends:
  assumes "inv j 0 0 l s"
  shows "ends (pipelined (issue1 j) (issue2 j) (ack j) (j_len (move j)) l) s
     (\<lambda>l' s'. inv j (j_segs (move j)) (j_segs (move j)) l' s') (err j)"
  using pipelined_ends [OF assms] by (simp add: j_segs_def j_d_def Let_def)

end

subsection \<open>The plain transfer\<close>

definition mv_inv :: "move_job \<Rightarrow> nat \<Rightarrow> nat \<Rightarrow> move_locals \<Rightarrow> fw_state \<Rightarrow> bool" where
  "mv_inv j n a l s \<longleftrightarrow> j_ready j \<and> moving j {} (j_channels j) [] (\<lambda>_. []) (\<lambda>_. []) n a l s"

definition mv_err :: "move_job \<Rightarrow> u32 \<Rightarrow> fw_state \<Rightarrow> bool" where
  "mv_err j c s \<longleftrightarrow> dma_error c \<and> frame {} (j_start j) s"

lemma mv_issue:
  assumes "mv_inv j n a l s" and "n < j_segs j" and "n < a + j_m j"
  shows "ends (move_issue (j_what j) (j_seg j n) l) s (\<lambda>l' s'. mv_inv j (Suc n) a l' s') (mv_err j)"
proof -
  have l: "l = j_locals j n" and r: "j_ready j"
    using assms(1) by (simp_all add: mv_inv_def moving_def)
  have "mv_inv j (Suc n) a (j_locals j (Suc n)) (s\<lparr>trace := trace s @ seg_commands j n\<rparr>)"
    unfolding mv_inv_def
    by (rule conjI [OF r], rule moving_issue) (use assms in \<open>auto simp: mv_inv_def\<close>)
  then show ?thesis
    unfolding l ends_def move_issue_run [OF assms(2) j_ready_d [OF r]] by simp
qed

lemma mv_ack:
  assumes "mv_inv j n a l s" and "a < n"
  shows "ends (move_ack (j_what j) (j_seg j a) l) s (\<lambda>l' s'. mv_inv j n (Suc a) l' s') (mv_err j)"
proof -
  have r: "j_ready j" and m: "moving j {} (j_channels j) [] (\<lambda>_. []) (\<lambda>_. []) n a l s"
    and fr: "frame {} (j_start j) s"
    using assms(1) by (simp_all add: mv_inv_def moving_def)
  have "timeout s \<noteq> 0" "dmas_ok (j_what j)"
    using r frame_settings(5) [OF fr] by (simp_all add: j_ready_def)
  then show ?thesis
    unfolding move_ack_def
    by (intro ends_bndI [OF ends_weaken [OF ack_dma_ends]])
      (use r in \<open>auto simp: mv_inv_def mv_err_def intro: frame_trans [OF fr] moving_ack [OF m assms(2)]\<close>)
qed

lemma mv_params:
  assumes "mv_inv j n a l s"
  shows "dma_transaction_size s = dma_transaction_size (j_start j) \<and>
      max_dma_in_flight s = max_dma_in_flight (j_start j) \<and>
      0 < dma_transaction_size (j_start j) \<and> 0 < max_dma_in_flight (j_start j)"
  using assms by (auto simp: mv_inv_def moving_def j_ready_def frame_settings)

interpretation mv: job_transfer
  "\<lambda>j. move_issue (j_what j)" "\<lambda>j. move_issue (j_what j)" "\<lambda>j. move_ack (j_what j)" mv_inv mv_err "\<lambda>j. j"
  by (unfold_locales; (rule mv_params mv_issue mv_ack)?; simp)

text \<open>What a finished transfer has done.\<close>

definition moved :: "move_job \<Rightarrow> fw_state \<Rightarrow> bool" where
  "moved j s \<longleftrightarrow>
     frame {} (j_start j) s \<and> inputs_kept (j_channels j) (j_start j) s \<and>
     dma_tag s = j_tag j (j_segs j) \<and>
     (\<exists>es. trace s = trace (j_start j) @ es \<and>
        pipe_trace j (\<lambda>_. []) (\<lambda>_. []) (j_segs j) (j_segs j) es)"

lemma mv_inv_final: "mv_inv j (j_segs j) (j_segs j) l s \<Longrightarrow> moved j s"
  by (simp add: mv_inv_def moving_def moved_def)

lemma dma_movement_ends:
  assumes "0 < dma_transaction_size s" and "0 < max_dma_in_flight s" and "timeout s \<noteq> 0"
    and "dmas_ok what"
  shows "ends (dma_movement len a0 a1 t1 a2 what) s
     (\<lambda>r s'. r = COLLECTIVE_OP_SUCCESS \<and> moved \<lparr>j_start = s, j_len = len, j_rx0 = a0, j_rx1 = a1,
        j_tx1 = t1, j_rx2 = a2, j_what = what\<rparr> s')
     (\<lambda>c s'. dma_error c \<and> frame {} s s')"
proof -
  let ?j = "\<lparr>j_start = s, j_len = len, j_rx0 = a0, j_rx1 = a1, j_tx1 = t1, j_rx2 = a2, j_what = what\<rparr>"
  let ?l = "\<lparr>DMA0_rx_addr = a0, DMA1_rx_addr = a1, DMA1_tx_addr = t1, DMA2_rx_addr = a2,
             dma_tag_tmp = dma_tag s\<rparr>"
  have l: "?l = j_locals ?j 0" by (simp add: j_locals_def j_tag_def)
  have "j_ready ?j" using assms by (simp add: j_ready_def)
  then have "mv_inv ?j 0 0 ?l s"
    using moving_0 [of s ?j "[]"] unfolding l by (simp add: mv_inv_def)
  from mv.job_ends [OF this]
  have e: "ends (pipelined (move_issue what) (move_issue what) (move_ack what) len ?l) s
     (\<lambda>l s'. mv_inv ?j (j_segs ?j) (j_segs ?j) l s') (mv_err ?j)" by simp
  show ?thesis
    unfolding dma_movement_def ends_bnd_prim
  proof (rule ends_bndI [OF ends_weaken [OF e]])
    fix l s' assume "mv_inv ?j (j_segs ?j) (j_segs ?j) l s'"
    from mv_inv_final [OF this]
    show "ends (ret COLLECTIVE_OP_SUCCESS) s' (\<lambda>r s'. r = COLLECTIVE_OP_SUCCESS \<and> moved ?j s')
       (\<lambda>c s'. dma_error c \<and> frame {} s s')"
      by simp
  qed (simp_all add: mv_err_def)
qed

subsection \<open>The transfer with packetizer messages\<close>

record pkt_job =
  p_move :: move_job
  p_world :: communicator
  p_dst :: u32
  p_tag :: u32

abbreviation (input) p_start :: "pkt_job \<Rightarrow> fw_state" where
  "p_start p \<equiv> j_start (p_move p)"

definition p_addr :: "pkt_job \<Rightarrow> u32" where
  "p_addr p = rank_addr (p_world p) (p_dst p) outbound_seq"

text \<open>Header of the \<open>k\<close>-th segment, and the sequence number its acknowledgement carries.\<close>

definition p_seq :: "pkt_job \<Rightarrow> nat \<Rightarrow> u32" where
  "p_seq p k = out_seq (p_world p) (p_dst p) (p_start p) + of_nat k + 1"

definition p_header :: "pkt_job \<Rightarrow> nat \<Rightarrow> event list" where
  "p_header p k = pkt_words (pkt_net (p_start p)) (pkt_dst (p_world p) (p_dst p) (p_start p))
     (j_seg (p_move p) k) (p_tag p) (local_rank (p_world p)) (p_seq p k)"

definition p_pre :: "pkt_job \<Rightarrow> nat \<Rightarrow> event list" where
  "p_pre p k = (if k < j_m (p_move p) then [] else p_header p k)"

definition p_post :: "pkt_job \<Rightarrow> nat \<Rightarrow> event list" where
  "p_post p k = [Got (pkt_sts (p_start p)) (p_seq p k)]"

text \<open>All headers of the first \<open>max_dma_in_flight\<close> segments come before their commands.\<close>

definition p_lead :: "pkt_job \<Rightarrow> event list" where
  "p_lead p = concat (map (p_header p) [0..<min (j_m (p_move p)) (j_segs (p_move p))])"

definition p_channels :: "pkt_job \<Rightarrow> u32 set" where
  "p_channels p = j_channels (p_move p) \<union> {pkt_sts (p_start p)}"

definition pk_inv :: "pkt_job \<Rightarrow> nat \<Rightarrow> nat \<Rightarrow> move_locals \<Rightarrow> fw_state \<Rightarrow> bool" where
  "pk_inv p n a l s \<longleftrightarrow> j_ready (p_move p) \<and> ranks (p_world p) \<noteq> 0 \<and>
     moving (p_move p) {p_addr p} (p_channels p) (p_lead p) (p_pre p) (p_post p) n a l s \<and>
     out_seq (p_world p) (p_dst p) s = out_seq (p_world p) (p_dst p) (p_start p) + of_nat a"

definition pk_err :: "pkt_job \<Rightarrow> u32 \<Rightarrow> fw_state \<Rightarrow> bool" where
  "pk_err p c s \<longleftrightarrow> (dma_error c \<or> pkt_error c) \<and> frame {p_addr p} (p_start p) s"

lemma field_offset_inj: "field_offset f = field_offset g \<longleftrightarrow> f = g"
  by (cases f; cases g) (simp_all add: field_offset_def)

lemma rank_addr_field [simp]: "rank_addr w k f = rank_addr w k g \<longleftrightarrow> f = g"
  by (simp add: rank_addr_def field_offset_inj)

lemma pk_frame:
  assumes "pk_inv p n a l s"
  shows "pkt_net s = pkt_net (p_start p)" and "pkt_sts s = pkt_sts (p_start p)"
    and "pkt_dst (p_world p) (p_dst p) s = pkt_dst (p_world p) (p_dst p) (p_start p)"
    and "frame {p_addr p} (p_start p) s" and "timeout s \<noteq> 0" and "dmas_ok (j_what (p_move p))"
    and "dma_transaction_size s = dma_transaction_size (p_start p)"
    and "max_dma_in_flight s = max_dma_in_flight (p_start p)"
proof -
  show fr: "frame {p_addr p} (p_start p) s" using assms by (simp add: pk_inv_def moving_def)
  note st = frame_settings [OF fr]
  show "pkt_net s = pkt_net (p_start p)" and "pkt_sts s = pkt_sts (p_start p)"
    and "dma_transaction_size s = dma_transaction_size (p_start p)"
    and "max_dma_in_flight s = max_dma_in_flight (p_start p)"
    by (simp_all add: st pkt_net_def pkt_sts_def)
  show "pkt_dst (p_world p) (p_dst p) s = pkt_dst (p_world p) (p_dst p) (p_start p)"
    unfolding pkt_dst_def st
    by (rule frame_mem [OF fr]) (simp add: p_addr_def)
  show "timeout s \<noteq> 0" and "dmas_ok (j_what (p_move p))"
    using assms by (simp_all add: pk_inv_def j_ready_def st)
qed

lemma pk_inv_issue:
  assumes "pk_inv p n a l s" and "n < j_segs (p_move p)" and "n < a + j_m (p_move p)"
    and "t = s\<lparr>trace := trace s @ p_pre p n\<rparr>"
  shows "ends (move_issue (j_what (p_move p)) (j_seg (p_move p) n) l) t
     (\<lambda>l' s'. pk_inv p (Suc n) a l' s') (pk_err p)"
proof -
  let ?j = "p_move p"
  have l: "l = j_locals ?j n" and r: "j_ready ?j"
    and m: "moving ?j {p_addr p} (p_channels p) (p_lead p) (p_pre p) (p_post p) n a l s"
    using assms(1) by (simp_all add: pk_inv_def moving_def)
  let ?u = "t\<lparr>trace := trace t @ seg_commands ?j n\<rparr>"
  have "moving ?j {p_addr p} (p_channels p) (p_lead p) (p_pre p) (p_post p) (Suc n) a (j_locals ?j (Suc n)) ?u"
    by (rule moving_issue [OF m assms(3)]) (simp add: assms(4))
  then have "pk_inv p (Suc n) a (j_locals ?j (Suc n)) ?u"
    using assms(1,4) by (simp add: pk_inv_def out_seq_def)
  then show ?thesis
    unfolding l ends_def move_issue_run [OF assms(2) j_ready_d [OF r]] by simp
qed

text \<open>In the second loop a header has a length of one segment and comes \<open>max_dma_in_flight\<close> ahead of the acknowledgements.\<close>

lemma again_header_run:
  assumes r: "j_ready (p_move p)" and rk: "ranks (p_world p) \<noteq> 0"
    and os: "out_seq (p_world p) (p_dst p) s = out_seq (p_world p) (p_dst p) (p_start p) + of_nat a"
    and n: "n < j_segs (p_move p)" "Suc n = a + j_m (p_move p)" "0 < a"
    and same: "pkt_net s = pkt_net (p_start p)"
      "pkt_dst (p_world p) (p_dst p) s = pkt_dst (p_world p) (p_dst p) (p_start p)"
      "dma_transaction_size s = dma_transaction_size (p_start p)" "max_dma_in_flight s = max_dma_in_flight (p_start p)"
  shows "start_packetizer_message (p_world p) (p_dst p) (j_seg (p_move p) n) (p_tag p) (max_dma_in_flight s - 1) s =
      Some (Ret 1, s\<lparr>trace := trace s @ p_pre p n\<rparr>)"
proof -
  let ?j = "p_move p" and ?w = "p_world p" and ?d = "p_dst p"
  have d: "0 < j_d ?j" and m: "0 < j_m ?j" by (rule j_ready_d [OF r], rule j_ready_m [OF r])
  have late: "\<not> n < j_m ?j" using n(2,3) by simp
  have seg: "unat (j_seg ?j n) = seg (j_d ?j) (unat (j_len ?j)) n"
    unfolding j_seg_def
    by (rule unat_of_nat_le [of _ "dma_transaction_size (p_start p)"]) (simp add: seg_def j_d_def)
  have "0 < seg (j_d ?j) (unat (j_len ?j)) n"
    using seg_pos [OF d] n(1) by (simp add: j_segs_def)
  then have n1: "min (j_m ?j) (nsegs (j_d ?j) (unat (j_seg ?j n))) = 1"
    using m seg_le [of "j_d ?j" "unat (j_len ?j)" n] nsegs_iff [OF d, of 0 "unat (j_seg ?j n)"]
      nsegs_iff [OF d, of 1 "unat (j_seg ?j n)"]
    unfolding seg by linarith
  have one: "seg (j_d ?j) (unat (j_seg ?j n)) 0 = unat (j_seg ?j n)"
    using seg_le [of "j_d ?j" "unat (j_len ?j)" n] unfolding seg by (simp add: seg_def [where k = 0])
  have "(of_nat (Suc n) :: u32) = of_nat a + max_dma_in_flight (p_start p)"
    unfolding n(2) by (simp add: j_m_def)
  then have sq: "out_seq ?w ?d s + (max_dma_in_flight s - 1) + 1 = p_seq p n"
    unfolding os same p_seq_def by (simp add: algebra_simps)
  have "start_packetizer_message ?w ?d (j_seg ?j n) (p_tag p) (max_dma_in_flight s - 1) s =
    Some (Ret (of_nat 1), s\<lparr>trace := trace s @ pkt_msgs (pkt_net s) (pkt_dst ?w ?d s) (p_tag p) (local_rank ?w)
       (out_seq ?w ?d s + (max_dma_in_flight s - 1)) (j_d ?j) (unat (j_seg ?j n)) 1\<rparr>)"
    unfolding n1 [symmetric] j_d_def j_m_def same(3,4) [symmetric]
    by (rule start_packetizer_message_run [OF rk])
      (use r in \<open>simp_all add: same(3) j_ready_def\<close>)
  also have "pkt_msgs (pkt_net s) (pkt_dst ?w ?d s) (p_tag p) (local_rank ?w)
       (out_seq ?w ?d s + (max_dma_in_flight s - 1)) (j_d ?j) (unat (j_seg ?j n)) 1 = p_pre p n"
    using late sq by (simp add: pkt_msgs_def p_pre_def p_header_def one same)
  finally show ?thesis by simp
qed

lemma pk_issue2:
  assumes "pk_inv p n a l s" and "n < j_segs (p_move p)" and "Suc n = a + j_m (p_move p)" and "0 < a"
  shows "ends (pkt_issue (p_world p) (p_dst p) (p_tag p) (j_what (p_move p)) (j_seg (p_move p) n) l) s
     (\<lambda>l' s'. pk_inv p (Suc n) a l' s') (pk_err p)"
proof -
  note fr = pk_frame [OF assms(1)]
  have run: "start_packetizer_message (p_world p) (p_dst p) (j_seg (p_move p) n) (p_tag p) (max_dma_in_flight s - 1) s =
      Some (Ret 1, s\<lparr>trace := trace s @ p_pre p n\<rparr>)"
    by (rule again_header_run) (use assms fr in \<open>simp_all add: pk_inv_def\<close>)
  have "ends (move_issue (j_what (p_move p)) (j_seg (p_move p) n) l) (s\<lparr>trace := trace s @ p_pre p n\<rparr>)
     (\<lambda>l' s'. pk_inv p (Suc n) a l' s') (pk_err p)"
    by (rule pk_inv_issue [OF assms(1,2)]) (use assms(3) in simp_all)
  then show ?thesis
    by (simp add: pkt_issue_def ends_def bnd_def getf_def run)
qed

lemma pk_ack:
  assumes "pk_inv p n a l s" and "a < n"
  shows "ends (pkt_ack (p_world p) (p_dst p) (j_what (p_move p)) (j_seg (p_move p) a) l) s
     (\<lambda>l' s'. pk_inv p n (Suc a) l' s') (pk_err p)"
  unfolding pkt_ack_def
proof (rule ends_bndI [OF ends_weaken [OF ack_dma_ends]])
  note fr = pk_frame [OF assms(1)]
  show "timeout s \<noteq> 0" "dmas_ok (j_what (p_move p))" by (rule fr)+
  let ?j = "p_move p" and ?w = "p_world p" and ?d = "p_dst p"
  fix x t assume t: "acked (j_seg ?j a) (acks (j_what ?j)) s t"
  then have ft: "frame {} s t" by (simp add: acked_def)
  have fts: "frame {p_addr p} (p_start p) t"
    by (rule frame_trans [OF fr(4) frame_mono [OF ft]]) simp
  have os: "out_seq ?w ?d t = out_seq ?w ?d (p_start p) + of_nat a"
    using assms(1) frame_mem [OF ft] by (simp add: pk_inv_def out_seq_def)
  have sts: "pkt_sts t = pkt_sts (p_start p)"
    using frame_settings(3) [OF fts] by (simp add: pkt_sts_def)
  have m: "moving ?j {p_addr p} (p_channels p) (p_lead p) (p_pre p) (p_post p) n a l s"
    using assms(1) by (simp add: pk_inv_def)
  show "ends (bnd (ack_packetizer ?w ?d 1) (\<lambda>_. ret l)) t (\<lambda>l' s'. pk_inv p n (Suc a) l' s') (pk_err p)"
  proof (rule ends_bndI [OF ends_weaken [OF ack_packetizer_ends]])
    show "timeout t \<noteq> 0" using fr(5) frame_settings(5) [OF ft] by simp
    show "ranks ?w \<noteq> 0" using assms(1) by (simp add: pk_inv_def)
  next
    fix c u assume "pkt_error c \<and> frame {rank_addr ?w ?d outbound_seq} t u"
    then show "pk_err p c u" using frame_trans [OF fts] by (auto simp: pk_err_def p_addr_def)
  next
    fix y u assume u: "pkt_acked ?w ?d (unat (1 :: u32)) t u"
    have "moving ?j {p_addr p} (p_channels p) (p_lead p) (p_pre p) (p_post p) n (Suc a) l u"
    proof (rule moving_ack [OF m assms(2) t])
      show "j_channels ?j \<subseteq> p_channels p" by (auto simp: p_channels_def)
      show "frame {p_addr p} t u" using u by (simp add: pkt_acked_def p_addr_def)
      show "inputs_kept (p_channels p) t u"
        by (rule inputs_kept_mono [of "{pkt_sts t}"]) (use u sts in \<open>auto simp: pkt_acked_def p_channels_def\<close>)
      show "dma_tag u = dma_tag t" using u by (simp add: pkt_acked_def)
      show "trace u = trace t @ p_post p a"
        using u sts os by (simp add: pkt_acked_def p_post_def p_seq_def)
    qed
    then show "ends (ret l) u (\<lambda>l' s'. pk_inv p n (Suc a) l' s') (pk_err p)"
      using assms(1) u os by (simp add: pk_inv_def pkt_acked_def algebra_simps)
  qed
next
  fix c t assume "dma_error c \<and> frame {} s t"
  then show "pk_err p c t"
    using frame_trans [OF pk_frame(4) [OF assms(1)] frame_mono [of "{}" s t]] by (simp add: pk_err_def)
qed

lemma pk_params:
  assumes "pk_inv p n a l s"
  shows "dma_transaction_size s = dma_transaction_size (p_start p) \<and>
      max_dma_in_flight s = max_dma_in_flight (p_start p) \<and>
      0 < dma_transaction_size (p_start p) \<and> 0 < max_dma_in_flight (p_start p)"
  using pk_frame [OF assms] assms by (simp add: pk_inv_def j_ready_def)

lemma pk_issue1:
  assumes "pk_inv p n 0 l s" and "n < j_segs (p_move p)" and "n < j_m (p_move p)"
  shows "ends (move_issue (j_what (p_move p)) (j_seg (p_move p) n) l) s (\<lambda>l' s'. pk_inv p (Suc n) 0 l' s') (pk_err p)"
  using pk_inv_issue [OF assms(1,2), of s] assms(3) by (simp add: p_pre_def)

interpretation pk: job_transfer
  "\<lambda>p. move_issue (j_what (p_move p))"
  "\<lambda>p. pkt_issue (p_world p) (p_dst p) (p_tag p) (j_what (p_move p))"
  "\<lambda>p. pkt_ack (p_world p) (p_dst p) (j_what (p_move p))"
  pk_inv pk_err p_move
  by (unfold_locales; (rule pk_params pk_issue1 pk_issue2 pk_ack)?; simp)

text \<open>
  What a finished transfer to a rank has done: the first \<open>max_dma_in_flight\<close> headers at once, then
  the pipeline, and the outbound sequence number of the destination has advanced by the number of
  segments.
\<close>

definition sent :: "pkt_job \<Rightarrow> fw_state \<Rightarrow> bool" where
  "sent p s \<longleftrightarrow>
     frame {p_addr p} (p_start p) s \<and> inputs_kept (p_channels p) (p_start p) s \<and>
     dma_tag s = j_tag (p_move p) (j_segs (p_move p)) \<and>
     out_seq (p_world p) (p_dst p) s =
       out_seq (p_world p) (p_dst p) (p_start p) + of_nat (j_segs (p_move p)) \<and>
     (\<exists>es. trace s = trace (p_start p) @ p_lead p @ es \<and>
        pipe_trace (p_move p) (p_pre p) (p_post p) (j_segs (p_move p)) (j_segs (p_move p)) es)"

lemma pk_inv_final: "pk_inv p (j_segs (p_move p)) (j_segs (p_move p)) l s \<Longrightarrow> sent p s"
  by (simp add: pk_inv_def moving_def sent_def)

lemma p_lead_run:
  assumes "0 < dma_transaction_size (p_start p)" and "ranks (p_world p) \<noteq> 0"
  shows "start_packetizer_message (p_world p) (p_dst p) (j_len (p_move p)) (p_tag p) 0 (p_start p)
     = Some (Ret (of_nat (min (j_m (p_move p)) (j_segs (p_move p)))),
         (p_start p)\<lparr>trace := trace (p_start p) @ p_lead p\<rparr>)"
  using start_packetizer_message_run [OF assms(2,1) refl, of "p_dst p" "j_len (p_move p)" "p_tag p" 0]
  by (simp add: pkt_msgs_def p_lead_def p_header_def [abs_def] p_seq_def j_seg_def j_m_def j_segs_def j_d_def)

lemma dma_movement_and_packetizer_ends:
  assumes "0 < dma_transaction_size s" and "0 < max_dma_in_flight s" and "timeout s \<noteq> 0"
    and "dmas_ok what" and "ranks world \<noteq> 0"
  shows "ends (dma_movement_and_packetizer world len a0 a1 t1 a2 what dst mpi_tag) s
     (\<lambda>r s'. r = COLLECTIVE_OP_SUCCESS \<and> sent \<lparr>p_move = \<lparr>j_start = s, j_len = len, j_rx0 = a0, j_rx1 = a1,
        j_tx1 = t1, j_rx2 = a2, j_what = what\<rparr>, p_world = world, p_dst = dst, p_tag = mpi_tag\<rparr> s')
     (\<lambda>c s'. (dma_error c \<or> pkt_error c) \<and> frame {rank_addr world dst outbound_seq} s s')"
proof -
  let ?j = "\<lparr>j_start = s, j_len = len, j_rx0 = a0, j_rx1 = a1, j_tx1 = t1, j_rx2 = a2, j_what = what\<rparr>"
  let ?p = "\<lparr>p_move = ?j, p_world = world, p_dst = dst, p_tag = mpi_tag\<rparr>"
  let ?l = "\<lparr>DMA0_rx_addr = a0, DMA1_rx_addr = a1, DMA1_tx_addr = t1, DMA2_rx_addr = a2,
             dma_tag_tmp = dma_tag s\<rparr>"
  let ?t = "s\<lparr>trace := trace s @ p_lead ?p\<rparr>"
  have l: "?l = j_locals ?j 0" by (simp add: j_locals_def j_tag_def)
  have ready: "j_ready ?j" using assms by (simp add: j_ready_def)
  have run: "start_packetizer_message world dst len mpi_tag 0 s
      = Some (Ret (of_nat (min (j_m ?j) (j_segs ?j))), ?t)"
    using p_lead_run [of ?p] assms(1,5) by simp
  have "pk_inv ?p 0 0 ?l ?t"
    using ready assms(5) moving_0 [of ?t ?j "p_lead ?p"] unfolding l
    by (simp add: pk_inv_def out_seq_def)
  from pk.job_ends [OF this]
  have e: "ends (pipelined (move_issue what) (pkt_issue world dst mpi_tag what) (pkt_ack world dst what) len ?l) ?t
     (\<lambda>l s'. pk_inv ?p (j_segs ?j) (j_segs ?j) l s') (pk_err ?p)" by simp
  have "ends (bnd (pipelined (move_issue what) (pkt_issue world dst mpi_tag what) (pkt_ack world dst what) len ?l)
      (\<lambda>_. ret COLLECTIVE_OP_SUCCESS)) ?t
     (\<lambda>r s'. r = COLLECTIVE_OP_SUCCESS \<and> sent ?p s')
     (\<lambda>c s'. (dma_error c \<or> pkt_error c) \<and> frame {rank_addr world dst outbound_seq} s s')"
  proof (rule ends_bndI [OF ends_weaken [OF e]])
    fix l s' assume "pk_inv ?p (j_segs ?j) (j_segs ?j) l s'"
    then have "sent ?p s'" using pk_inv_final [of ?p] by simp
    then show "ends (ret COLLECTIVE_OP_SUCCESS) s' (\<lambda>r s'. r = COLLECTIVE_OP_SUCCESS \<and> sent ?p s')
       (\<lambda>c s'. (dma_error c \<or> pkt_error c) \<and> frame {rank_addr world dst outbound_seq} s s')"
      by simp
  qed (simp_all add: pk_err_def p_addr_def)
  then show ?thesis
    by (simp add: dma_movement_and_packetizer_def ends_def bnd_def [of "start_packetizer_message _ _ _ _ _"] run)
qed

subsection \<open>The bytes a transfer touches\<close>

text \<open>The words of one command channel as the data mover reads them: byte count and address of each command.\<close>

fun dma_commands :: "u32 list \<Rightarrow> (u32 \<times> u64) list" where
  "dma_commands (w0 # w1 # w2 # w3 # ws) =
     (w0 AND 0x7FFFFF, push_bit 32 (ucast w2) OR ucast w1) # dma_commands ws"
| "dma_commands _ = []"

definition bytes_of :: "u32 \<times> u64 \<Rightarrow> u64 list" where
  "bytes_of c = map (\<lambda>i. snd c + of_nat i) [0..<unat (fst c)]"

text \<open>The addresses a channel was told to access, in order.\<close>

definition accessed :: "u32 \<Rightarrow> event list \<Rightarrow> u64 list" where
  "accessed ch es = concat (map bytes_of (dma_commands (words_on ch es)))"

definition buffer :: "u64 \<Rightarrow> u32 \<Rightarrow> u64 list" where
  "buffer a len = map (\<lambda>i. a + of_nat i) [0..<unat len]"

lemma words_on_concat: "words_on ch (concat bs) = concat (map (words_on ch) bs)"
  by (induction bs) simp_all

lemma words_on_acks: "good_acks len as t es \<Longrightarrow> words_on ch es = []"
  by (induction len as t es rule: good_acks.induct) (auto split: list.splits event.splits)

text \<open>What one channel carries of a pipeline: the parts that issuing puts on it, segment by segment.\<close>

lemma words_on_pipe:
  assumes "pipe m (n0, a0) ops = Some (n, a)" and "list_all2 (block_ok j pre post) ops bs"
    and "\<And>k. words_on ch (post k) = []"
  shows "n0 \<le> n \<and> words_on ch (concat bs) = concat (map (\<lambda>k. words_on ch (pre k @ seg_commands j k)) [n0..<n])"
  using assms(1,2)
proof (induction ops arbitrary: n0 a0 bs)
  case (Cons op ops)
  then obtain b bs' where bs: "bs = b # bs'" and b: "block_ok j pre post op b"
    and rest: "list_all2 (block_ok j pre post) ops bs'" by (auto simp: list_all2_Cons1)
  show ?case
  proof (cases op)
    case (Issue k)
    with Cons.prems(1) have k: "k = n0" and run: "pipe m (Suc n0, a0) ops = Some (n, a)"
      by (auto split: if_splits)
    from Cons.IH [OF run rest] show ?thesis
      using b Issue k by (auto simp: bs upt_conv_Cons)
  next
    case (Ack k)
    with Cons.prems(1) have run: "pipe m (n0, Suc a0) ops = Some (n, a)"
      by (auto split: if_splits)
    from Cons.IH [OF run rest] show ?thesis
      using b Ack assms(3) by (auto simp: bs words_on_acks)
  qed
qed simp

definition one_command :: "u32 \<Rightarrow> u64 \<Rightarrow> u32 list \<Rightarrow> bool" where
  "one_command len a ws \<longleftrightarrow> (\<exists>c tg. (c = 0xC0800000 \<or> c = 0x80800000) \<and>
     ws = [c OR len, ucast a, ucast (drop_bit 32 a), tg])"

lemma words_on_emit:
  assumes "dmas_ok what"
  shows "if uses what USE_DMA0_RX then one_command len a0 (words_on CMD_DMA0_RX (emit (engines len a0 a1 t1 a2 what) t))
         else words_on CMD_DMA0_RX (emit (engines len a0 a1 t1 a2 what) t) = []"
    and "if uses what USE_DMA1_RX then one_command len a1 (words_on CMD_DMA1_RX (emit (engines len a0 a1 t1 a2 what) t))
         else words_on CMD_DMA1_RX (emit (engines len a0 a1 t1 a2 what) t) = []"
    and "if uses what USE_DMA1_TX \<or> uses what USE_DMA1_TX_WITHOUT_TLAST
         then one_command len t1 (words_on CMD_DMA1_TX (emit (engines len a0 a1 t1 a2 what) t))
         else words_on CMD_DMA1_TX (emit (engines len a0 a1 t1 a2 what) t) = []"
    and "if uses what USE_DMA2_RX then one_command len a2 (words_on CMD_DMA2_RX (emit (engines len a0 a1 t1 a2 what) t))
         else words_on CMD_DMA2_RX (emit (engines len a0 a1 t1 a2 what) t) = []"
  using assms
  by (auto simp: engines_def one_command_def dma_words_def dma_words_without_EOF_def dmas_ok_def)

lemma dma_commands_one:
  assumes "one_command len a ws" and "len \<le> DMA_MAX_BTT"
  shows "dma_commands (ws @ ws') = (len, a) # dma_commands ws'"
proof -
  have "(0xC0800000 OR len) AND 0x7FFFFF = len" "(0x80800000 OR len) AND 0x7FFFFF = len"
    "push_bit 32 (ucast (ucast (drop_bit 32 a) :: u32)) OR ucast (ucast a :: u32) = a"
    using dma_decode_words [OF assms(2), of 0 0 a]
    by (simp_all add: dma_words_def dma_words_without_EOF_def)
  with assms(1) show ?thesis by (auto simp: one_command_def)
qed

lemma dma_commands_segs:
  assumes "\<And>k. k < n \<Longrightarrow> one_command (len k) (addr k) (ws k)" and "\<And>k. k < n \<Longrightarrow> len k \<le> DMA_MAX_BTT"
  shows "dma_commands (concat (map ws [0..<n])) = map (\<lambda>k. (len k, addr k)) [0..<n]"
proof -
  have "dma_commands (concat (map ws [i..<n])) = map (\<lambda>k. (len k, addr k)) [i..<n]" if "i \<le> n" for i
    using that
  proof (induction rule: inc_induct)
    case (step i)
    then show ?case
      using dma_commands_one [OF assms(1) [OF step.hyps(2)] assms(2) [OF step.hyps(2)]] by (simp add: upt_conv_Cons)
  qed simp
  from this [of 0] show ?thesis by simp
qed

text \<open>The segments cover the buffer exactly once, in order.\<close>

lemma segs_cover:
  assumes "0 < j_d j" and "n \<le> j_segs j"
  shows "concat (map (\<lambda>k. bytes_of (j_seg j k, a + of_nat (k * j_d j))) [0..<n])
     = map (\<lambda>i. a + of_nat i) [0..<min (unat (j_len j)) (n * j_d j)]"
  using assms(2)
proof (induction n)
  case (Suc n)
  let ?len = "unat (j_len j)" and ?d = "j_d j"
  have lt: "n * ?d < ?len" using Suc.prems nsegs_iff [OF assms(1), of n ?len] by (simp add: j_segs_def)
  have seg: "unat (j_seg j n) = seg ?d ?len n"
    unfolding j_seg_def
    by (rule unat_of_nat_le [of _ "dma_transaction_size (j_start j)"]) (simp add: seg_def j_d_def)
  have e: "min ?len (Suc n * ?d) = n * ?d + seg ?d ?len n"
  proof -
    have "min l (d + x) = x + min d (l - x)" if "x < l" for l x d :: nat
      using that by arith
    from this [OF lt] show ?thesis by (simp add: seg_def)
  qed
  have "map (\<lambda>i. a + of_nat i) [n * ?d..<n * ?d + seg ?d ?len n]
     = map (\<lambda>i. a + of_nat (n * ?d) + of_nat i) [0..<seg ?d ?len n]"
    by (rule nth_equalityI) (simp_all add: add.assoc)
  note shift = this
  have "concat (map (\<lambda>k. bytes_of (j_seg j k, a + of_nat (k * ?d))) [0..<n])
      = map (\<lambda>i. a + of_nat i) [0..<n * ?d]"
    using Suc lt by (simp only: min_absorb2 [OF less_imp_le [OF lt]] Suc_leD)
  then have "concat (map (\<lambda>k. bytes_of (j_seg j k, a + of_nat (k * ?d))) [0..<Suc n])
      = map (\<lambda>i. a + of_nat i) [0..<n * ?d] @ map (\<lambda>i. a + of_nat (n * ?d) + of_nat i) [0..<seg ?d ?len n]"
    by (simp only: upt_Suc_append le0 map_append concat_append list.map concat.simps append_Nil2 bytes_of_def fst_conv snd_conv seg)
  also have "\<dots> = map (\<lambda>i. a + of_nat i) [0..<n * ?d + seg ?d ?len n]"
    unfolding shift [symmetric] by (simp only: upt_add_eq_append [OF le0, of "n * ?d"] map_append)
  finally show ?case unfolding e .
qed simp

lemma segs_cover_all:
  assumes "0 < j_d j"
  shows "concat (map (\<lambda>k. bytes_of (j_seg j k, a + of_nat (k * j_d j))) [0..<j_segs j]) = buffer a (j_len j)"
proof -
  have "\<not> j_segs j < j_segs j" by simp
  then have "unat (j_len j) \<le> j_segs j * j_d j"
    using nsegs_iff [OF assms, of "j_segs j" "unat (j_len j)"] by (simp add: j_segs_def)
  with segs_cover [OF assms order_refl, of a] show ?thesis by (simp add: buffer_def min_def)
qed

text \<open>Every command is whole: the words on each command channel come in fours.\<close>

abbreviation (input) dma_channels :: "u32 set" where
  "dma_channels \<equiv> {CMD_DMA0_RX, CMD_DMA1_RX, CMD_DMA1_TX, CMD_DMA2_RX}"

definition whole_commands :: "event list \<Rightarrow> bool" where
  "whole_commands es \<longleftrightarrow> (\<forall>ch \<in> dma_channels. 4 dvd length (words_on ch es))"

lemma whole_segments: "(\<And>k. 4 dvd length (w k)) \<Longrightarrow> 4 dvd length (concat (map w ks))"
  by (induction ks) simp_all

lemma dvd4_Suc [simp]: "(4 :: nat) dvd Suc (Suc (Suc (Suc n))) \<longleftrightarrow> 4 dvd n"
  by presburger

lemma whole_emit:
  assumes "dmas_ok what" and "ch \<in> dma_channels"
  shows "4 dvd length (words_on ch (emit (engines len a0 a1 t1 a2 what) t))"
  using assms by (auto simp: engines_def dma_words_def dma_words_without_EOF_def dmas_ok_def)

lemma dma_commands_append: "4 dvd length xs \<Longrightarrow> dma_commands (xs @ ys) = dma_commands xs @ dma_commands ys"
proof (induction xs rule: dma_commands.induct)
  case (1 w0 w1 w2 w3 ws)
  then show ?case by simp
qed (simp_all, presburger+)

lemma accessed_append:
  assumes "whole_commands es" and "ch \<in> dma_channels"
  shows "accessed ch (es @ fs) = accessed ch es @ accessed ch fs"
proof -
  have "4 dvd length (words_on ch es)" using assms by (simp only: whole_commands_def) 
  then show ?thesis by (simp add: accessed_def dma_commands_append)
qed

lemma whole_append: "whole_commands es \<Longrightarrow> whole_commands fs \<Longrightarrow> whole_commands (es @ fs)"
  by (simp add: whole_commands_def)

text \<open>What each engine was told to access: its whole buffer when it takes part, nothing otherwise.\<close>

definition touches :: "move_job \<Rightarrow> event list \<Rightarrow> bool" where
  "touches j es \<longleftrightarrow>
     accessed CMD_DMA0_RX es = (if uses (j_what j) USE_DMA0_RX then buffer (j_rx0 j) (j_len j) else []) \<and>
     accessed CMD_DMA1_RX es = (if uses (j_what j) USE_DMA1_RX then buffer (j_rx1 j) (j_len j) else []) \<and>
     accessed CMD_DMA1_TX es =
       (if uses (j_what j) USE_DMA1_TX \<or> uses (j_what j) USE_DMA1_TX_WITHOUT_TLAST
        then buffer (j_tx1 j) (j_len j) else []) \<and>
     accessed CMD_DMA2_RX es = (if uses (j_what j) USE_DMA2_RX then buffer (j_rx2 j) (j_len j) else []) \<and>
     whole_commands es"

lemma j_seg_le: "j_seg j k \<le> dma_transaction_size (j_start j)"
proof -
  have "unat (j_seg j k) = seg (j_d j) (unat (j_len j)) k"
    unfolding j_seg_def
    by (rule unat_of_nat_le [of _ "dma_transaction_size (j_start j)"]) (simp add: seg_def j_d_def)
  then show ?thesis
    using seg_le [of "j_d j" "unat (j_len j)" k] by (simp add: word_le_nat_alt j_d_def)
qed

lemma pipe_words:
  assumes "pipe_trace j pre post n a es" and "\<And>k. words_on ch (post k) = []"
  shows "words_on ch es = concat (map (\<lambda>k. words_on ch (pre k @ seg_commands j k)) [0..<n])"
proof -
  from assms(1) obtain ops bs where "pipe (j_m j) (0, 0) ops = Some (n, a)"
    and "list_all2 (block_ok j pre post) ops bs" and "es = concat bs"
    by (auto simp: pipe_trace_def)
  with words_on_pipe [OF this(1,2) assms(2)] show ?thesis by simp
qed

lemma pipe_accessed:
  assumes "pipe_trace j pre post (j_segs j) (j_segs j) es" and "0 < j_d j"
    and "dma_transaction_size (j_start j) \<le> DMA_MAX_BTT"
    and "\<And>k. words_on ch (pre k) = []" and "\<And>k. words_on ch (post k) = []"
    and "\<And>k. if u then one_command (j_seg j k) (a + of_nat (k * j_d j)) (words_on ch (seg_commands j k))
              else words_on ch (seg_commands j k) = []"
  shows "accessed ch es = (if u then buffer a (j_len j) else [])"
proof -
  have w: "words_on ch es = concat (map (\<lambda>k. words_on ch (seg_commands j k)) [0..<j_segs j])"
    using pipe_words [OF assms(1,5)] by (simp add: assms(4))
  show ?thesis
  proof (cases u)
    case True
    have "dma_commands (words_on ch es) = map (\<lambda>k. (j_seg j k, a + of_nat (k * j_d j))) [0..<j_segs j]"
      unfolding w
      by (rule dma_commands_segs) (use assms(6) True order_trans [OF j_seg_le assms(3)] in auto)
    with True segs_cover_all [OF assms(2), of a] show ?thesis
      by (simp add: accessed_def o_def)
  next
    case False
    with assms(6) w have "words_on ch es = []" by simp
    with False show ?thesis by (simp add: accessed_def)
  qed
qed

lemma pipe_touches:
  assumes p: "pipe_trace j pre post (j_segs j) (j_segs j) es" "0 < j_d j"
    "dma_transaction_size (j_start j) \<le> DMA_MAX_BTT" and ok: "dmas_ok (j_what j)"
    and q: "\<And>ch k. ch \<in> {CMD_DMA0_RX, CMD_DMA1_RX, CMD_DMA1_TX, CMD_DMA2_RX} \<Longrightarrow>
      words_on ch (pre k) = [] \<and> words_on ch (post k) = []"
  shows "touches j es"
proof -
  have "4 dvd length (words_on ch es)" if "ch \<in> dma_channels" for ch
    unfolding pipe_words [OF p(1) q [OF that, THEN conjunct2]]
    by (rule whole_segments) (use q [OF that] whole_emit [OF ok that] in \<open>simp add: seg_commands_def Let_def\<close>)
  then have w: "whole_commands es" unfolding whole_commands_def by blast
  show ?thesis
    unfolding touches_def
    by (intro conjI w; rule pipe_accessed [OF p])
      (use words_on_emit [OF ok] q in \<open>simp_all add: seg_commands_def Let_def\<close>)
qed

lemma moved_touches:
  assumes "moved j s'" and "0 < j_d j" and "dma_transaction_size (j_start j) \<le> DMA_MAX_BTT"
    and "dmas_ok (j_what j)"
  shows "\<exists>es. trace s' = trace (j_start j) @ es \<and> touches j es"
proof -
  from assms(1) obtain es where es: "trace s' = trace (j_start j) @ es"
    and p: "pipe_trace j (\<lambda>_. []) (\<lambda>_. []) (j_segs j) (j_segs j) es" by (auto simp: moved_def)
  have "touches j es" by (rule pipe_touches [OF p assms(2-4)]) simp_all
  with es show ?thesis by blast
qed

lemma sent_touches:
  assumes "sent p s'" and "0 < j_d (p_move p)" and "dma_transaction_size (p_start p) \<le> DMA_MAX_BTT"
    and "dmas_ok (j_what (p_move p))"
  shows "\<exists>es. trace s' = trace (p_start p) @ es \<and> touches (p_move p) es"
proof -
  let ?j = "p_move p"
  from assms(1) obtain es where es: "trace s' = trace (p_start p) @ p_lead p @ es"
    and p: "pipe_trace ?j (p_pre p) (p_post p) (j_segs ?j) (j_segs ?j) es" by (auto simp: sent_def)
  have h: "words_on ch (p_header p k) = []"
    if "ch \<in> {CMD_DMA0_RX, CMD_DMA1_RX, CMD_DMA1_TX, CMD_DMA2_RX}" for ch k
    using that by (auto simp: p_header_def pkt_words_def pkt_net_def)
  have "touches ?j es"
    by (rule pipe_touches [OF p assms(2-4)]) (use h in \<open>simp_all add: p_pre_def p_post_def\<close>)
  moreover have "words_on ch (p_lead p) = []"
    if "ch \<in> {CMD_DMA0_RX, CMD_DMA1_RX, CMD_DMA1_TX, CMD_DMA2_RX}" for ch
    using h [OF that] by (simp add: p_lead_def words_on_concat)
  ultimately have "touches ?j (p_lead p @ es)"
    by (simp add: touches_def accessed_def whole_commands_def)
  with es show ?thesis by blast
qed

text \<open>The words a message of \<open>n\<close> segments puts on the packetizer's stream: the five-word header of every segment in order.\<close>

definition message_headers :: "fw_state \<Rightarrow> communicator \<Rightarrow> u32 \<Rightarrow> u32 \<Rightarrow> u32 \<Rightarrow> u32 list" where
  "message_headers s world dst tag len =
     (let d = unat (dma_transaction_size s) in
      concat (map (\<lambda>k. [pkt_dst world dst s, of_nat (seg d (unat len) k), tag, local_rank world,
         out_seq world dst s + of_nat k + 1]) [0..<nsegs d (unat len)]))"

abbreviation (input) p_headers :: "pkt_job \<Rightarrow> u32 list" where
  "p_headers p \<equiv> message_headers (p_start p) (p_world p) (p_dst p) (p_tag p) (j_len (p_move p))"

lemma words_on_net_emit: "words_on (pkt_net s) (emit (engines len a0 a1 t1 a2 what) t) = []"
  by (simp add: engines_def pkt_net_def dma_words_def dma_words_without_EOF_def)

lemma lead_then_pre:
  fixes h :: "nat \<Rightarrow> 'a list"
  shows "concat (map h [0..<min m n]) @ concat (map (\<lambda>k. if k < m then [] else h k) [0..<n]) = concat (map h [0..<n])"
proof -
  have "concat (map (\<lambda>k. if k < m then [] else h k) [0..<n]) = concat (map h [min m n..<n])"
  proof (induction n)
    case (Suc n)
    then show ?case by (cases "n < m") (simp_all add: min_def not_le le_Suc_eq)
  qed simp
  then show ?thesis
    by (simp only: concat_append [symmetric] map_append [symmetric] upt_add_eq_append [of 0 "min m n" "n - min m n", symmetric, simplified])
qed

lemma headers_in_order:
  "words_on (pkt_net (p_start p)) (p_lead p) @ concat (map (\<lambda>k. words_on (pkt_net (p_start p)) (p_pre p k)) [0..<j_segs (p_move p)])
     = p_headers p"
proof -
  let ?h = "\<lambda>k. words_on (pkt_net (p_start p)) (p_header p k)"
  have "(\<lambda>k. words_on (pkt_net (p_start p)) (p_pre p k)) = (\<lambda>k. if k < j_m (p_move p) then [] else ?h k)"
    by (simp add: fun_eq_iff p_pre_def)
  moreover have "words_on (pkt_net (p_start p)) (p_lead p) = concat (map ?h [0..<min (j_m (p_move p)) (j_segs (p_move p))])"
    by (simp add: p_lead_def words_on_concat o_def)
  moreover have "concat (map ?h [0..<j_segs (p_move p)]) = p_headers p"
    by (simp add: message_headers_def p_header_def pkt_words_def p_seq_def j_seg_def j_segs_def j_d_def Let_def)
  ultimately show ?thesis by (simp only: lead_then_pre)
qed

lemma sent_headers:
  assumes "sent p s'"
  shows "words_on (pkt_net (p_start p)) (trace s') = words_on (pkt_net (p_start p)) (trace (p_start p)) @ p_headers p"
proof -
  let ?j = "p_move p" and ?net = "pkt_net (p_start p)"
  from assms obtain es where es: "trace s' = trace (p_start p) @ p_lead p @ es"
    and p: "pipe_trace ?j (p_pre p) (p_post p) (j_segs ?j) (j_segs ?j) es" by (auto simp: sent_def)
  have "words_on ?net es = concat (map (\<lambda>k. words_on ?net (p_pre p k)) [0..<j_segs ?j])"
    using pipe_words [OF p, of ?net] by (simp add: p_post_def seg_commands_def Let_def words_on_net_emit)
  with headers_in_order [of p] show ?thesis by (simp add: es)
qed

subsection \<open>Properties\<close>



text \<open>C12: the segments of a finished \<open>dma_movement\<close> cover each buffer exactly: the byte addresses an engine was told to
access, in the order of its commands, are the buffer's from first to last, and an engine not asked for was told nothing.\<close>

theorem dma_movement_covers_buffers:
  assumes "0 < dma_transaction_size s" and "0 < max_dma_in_flight s" and "timeout s \<noteq> 0" and "dmas_ok what"
    and "dma_transaction_size s \<le> DMA_MAX_BTT"
  shows "ends (dma_movement len a0 a1 t1 a2 what) s
     (\<lambda>r s'. \<exists>es. trace s' = trace s @ es \<and>
        accessed CMD_DMA0_RX es = (if uses what USE_DMA0_RX then buffer a0 len else []) \<and>
        accessed CMD_DMA1_RX es = (if uses what USE_DMA1_RX then buffer a1 len else []) \<and>
        accessed CMD_DMA1_TX es =
          (if uses what USE_DMA1_TX \<or> uses what USE_DMA1_TX_WITHOUT_TLAST then buffer t1 len else []) \<and>
        accessed CMD_DMA2_RX es = (if uses what USE_DMA2_RX then buffer a2 len else []))
     (\<lambda>c s'. dma_error c)"
proof (rule ends_weaken [OF dma_movement_ends [OF assms(1-4)]])
  let ?j = "\<lparr>j_start = s, j_len = len, j_rx0 = a0, j_rx1 = a1, j_tx1 = t1, j_rx2 = a2, j_what = what\<rparr>"
  fix r s' assume "r = COLLECTIVE_OP_SUCCESS \<and> moved ?j s'"
  then have "\<exists>es. trace s' = trace (j_start ?j) @ es \<and> touches ?j es"
    by (intro moved_touches) (use assms in \<open>simp_all add: j_d_def word_less_nat_alt\<close>)
  then show "\<exists>es. trace s' = trace s @ es \<and>
        accessed CMD_DMA0_RX es = (if uses what USE_DMA0_RX then buffer a0 len else []) \<and>
        accessed CMD_DMA1_RX es = (if uses what USE_DMA1_RX then buffer a1 len else []) \<and>
        accessed CMD_DMA1_TX es =
          (if uses what USE_DMA1_TX \<or> uses what USE_DMA1_TX_WITHOUT_TLAST then buffer t1 len else []) \<and>
        accessed CMD_DMA2_RX es = (if uses what USE_DMA2_RX then buffer a2 len else [])"
    unfolding touches_def move_job.simps by blast
qed simp

theorem dma_movement_covers_buffers_witness:
  "ends (dma_movement 20000000 0 0x100000000 0x200000000 0 USE_DMA1_RX) quiet
     (\<lambda>r s'. \<exists>es. trace s' = trace quiet @ es \<and>
        accessed CMD_DMA0_RX es = (if uses USE_DMA1_RX USE_DMA0_RX then buffer 0 20000000 else []) \<and>
        accessed CMD_DMA1_RX es = (if uses USE_DMA1_RX USE_DMA1_RX then buffer 0x100000000 20000000 else []) \<and>
        accessed CMD_DMA1_TX es = (if uses USE_DMA1_RX USE_DMA1_TX \<or> uses USE_DMA1_RX USE_DMA1_TX_WITHOUT_TLAST
          then buffer 0x200000000 20000000 else []) \<and>
        accessed CMD_DMA2_RX es = (if uses USE_DMA1_RX USE_DMA2_RX then buffer 0 20000000 else []))
     (\<lambda>c s'. dma_error c)"
  by (rule dma_movement_covers_buffers) (simp_all add: dmas_ok_def uses_def)

text \<open>C13: \<open>dma_movement_and_packetizer\<close> refines the same pipeline with one packetizer header per segment.  It ends whatever the
hardware answers; when it returns, the headers of the first \<open>max_dma_in_flight\<close> segments came first, every later segment's
header came right before its commands, every segment was acknowledged in order by its engines and then by the packetizer with the
sequence number of its header, and the destination's outbound sequence number has advanced by the number of segments.\<close>

theorem dma_movement_and_packetizer_correct:
  assumes "0 < dma_transaction_size s" and "0 < max_dma_in_flight s" and "timeout s \<noteq> 0" and "dmas_ok what"
    and "ranks world \<noteq> 0"
  shows "ends (dma_movement_and_packetizer world len a0 a1 t1 a2 what dst mpi_tag) s
     (\<lambda>r s'. r = COLLECTIVE_OP_SUCCESS \<and>
        sent \<lparr>p_move = \<lparr>j_start = s, j_len = len, j_rx0 = a0, j_rx1 = a1, j_tx1 = t1, j_rx2 = a2, j_what = what\<rparr>,
          p_world = world, p_dst = dst, p_tag = mpi_tag\<rparr> s')
     (\<lambda>c s'. (dma_error c \<or> pkt_error c) \<and> frame {rank_addr world dst outbound_seq} s s')"
  by (rule dma_movement_and_packetizer_ends [OF assms])

theorem dma_movement_and_packetizer_correct_witness:
  "ends (dma_movement_and_packetizer two_ranks 20000000 0 0x100000000 0 0 USE_DMA1_RX 1 5) quiet
     (\<lambda>r s'. r = COLLECTIVE_OP_SUCCESS \<and>
        sent \<lparr>p_move = \<lparr>j_start = quiet, j_len = 20000000, j_rx0 = 0, j_rx1 = 0x100000000, j_tx1 = 0, j_rx2 = 0,
          j_what = USE_DMA1_RX\<rparr>, p_world = two_ranks, p_dst = 1, p_tag = 5\<rparr> s')
     (\<lambda>c s'. (dma_error c \<or> pkt_error c) \<and> frame {rank_addr two_ranks 1 outbound_seq} quiet s')"
  by (rule dma_movement_and_packetizer_correct) (simp_all add: dmas_ok_def uses_def)

text \<open>The same coverage for a transfer to another rank: the engines in use are told to access their whole buffers, byte by
byte in order, however the message was cut into segments.\<close>

lemma dma_movement_and_packetizer_covers_buffers:
  assumes "0 < dma_transaction_size s" and "0 < max_dma_in_flight s" and "timeout s \<noteq> 0" and "dmas_ok what"
    and "ranks world \<noteq> 0" and "dma_transaction_size s \<le> DMA_MAX_BTT"
  shows "ends (dma_movement_and_packetizer world len a0 a1 t1 a2 what dst mpi_tag) s
     (\<lambda>r s'. \<exists>es. trace s' = trace s @ es \<and>
        touches \<lparr>j_start = s, j_len = len, j_rx0 = a0, j_rx1 = a1, j_tx1 = t1, j_rx2 = a2, j_what = what\<rparr> es)
     (\<lambda>c s'. dma_error c \<or> pkt_error c)"
proof (rule ends_weaken [OF dma_movement_and_packetizer_ends [OF assms(1-5)]])
  let ?p = "\<lparr>p_move = \<lparr>j_start = s, j_len = len, j_rx0 = a0, j_rx1 = a1, j_tx1 = t1, j_rx2 = a2, j_what = what\<rparr>, p_world = world, p_dst = dst, p_tag = mpi_tag\<rparr>"
  fix r s' assume "r = COLLECTIVE_OP_SUCCESS \<and> sent ?p s'"
  then have "\<exists>es. trace s' = trace (j_start (p_move ?p)) @ es \<and> touches (p_move ?p) es"
    by (intro sent_touches) (use assms in \<open>simp_all add: j_d_def word_less_nat_alt\<close>)
  then show "\<exists>es. trace s' = trace s @ es \<and> touches \<lparr>j_start = s, j_len = len, j_rx0 = a0, j_rx1 = a1, j_tx1 = t1, j_rx2 = a2, j_what = what\<rparr> es"
    by simp
qed simp

end
