(* ===== verification/Fw_Rx_Buffers.thy ===== *)
theory Fw_Rx_Buffers
  imports Fw_Dma
begin

text \<open>
  The spare receive buffers in exchange memory and the interrupt handler that manages them:
  \<open>enqueue_rx_buffers\<close> hands idle buffers to the receiving DMA under a free tag,
  \<open>dequeue_rx_buffers\<close> takes finished ones back and records the message header,
  \<open>stream_isr\<close> calls both.  The invariant ties the tag table, the count and the buffer states
  together; every outcome of every operation keeps it, whatever the hardware delivers.
\<close>

subsection \<open>The buffer array\<close>

datatype rx_field = Addrl | Addrh | Max_len | Dma_tag | Status | Rx_tag | Rx_len | Rx_src | Sequence_number

definition rx_offset :: "rx_field \<Rightarrow> u32" where
  "rx_offset f = (case f of Addrl \<Rightarrow> 0 | Addrh \<Rightarrow> 4 | Max_len \<Rightarrow> 8 | Dma_tag \<Rightarrow> 12 | Status \<Rightarrow> 16
     | Rx_tag \<Rightarrow> 20 | Rx_len \<Rightarrow> 24 | Rx_src \<Rightarrow> 28 | Sequence_number \<Rightarrow> 32)"

definition buf_addr :: "u32 \<Rightarrow> rx_field \<Rightarrow> u32" where
  "buf_addr i f = RX_BUFFER_COUNT_OFFSET + 4 + 36 * i + rx_offset f"

definition buf_get :: "u32 \<Rightarrow> rx_field \<Rightarrow> u32 fw" where
  "buf_get i f = load (buf_addr i f)"

definition buf_set :: "u32 \<Rightarrow> rx_field \<Rightarrow> u32 \<Rightarrow> unit fw" where
  "buf_set i f v = store (buf_addr i f) v"

text \<open>\<open>dma_tag_lookup\<close> has \<open>MAX_DMA_TAGS\<close> entries; an access outside is undefined.\<close>

abbreviation (input) MAX_DMA_TAGS :: u32 where "MAX_DMA_TAGS \<equiv> 16"

definition lookup_get :: "u32 \<Rightarrow> u32 fw" where
  "lookup_get t = bnd (getf dma_tag_lookup) (\<lambda>l. if unat t < length l then ret (l ! unat t) else undef)"

definition lookup_set :: "u32 \<Rightarrow> u32 \<Rightarrow> unit fw" where
  "lookup_set t v = bnd (getf dma_tag_lookup) (\<lambda>l.
     if unat t < length l then modf (\<lambda>s. s\<lparr>dma_tag_lookup := l[unat t := v]\<rparr>) else undef)"

subsection \<open>Enqueue\<close>

definition find_tag_step :: "u32 \<Rightarrow> (u32 + u32) fw" where
  "find_tag_step new_dma_tag =
     (if new_dma_tag < MAX_DMA_TAGS then
        bnd (lookup_get new_dma_tag) (\<lambda>v. ret (if v \<noteq> - 1 then Inl (new_dma_tag + 1) else Inr new_dma_tag))
      else ret (Inr new_dma_tag))"

definition enqueue_one :: "u32 \<Rightarrow> u32 \<Rightarrow> u32 \<Rightarrow> unit fw" where
  "enqueue_one cmd_queue i new_dma_tag =
     bnd (buf_get i Addrh) (\<lambda>addrh.
     bnd (buf_get i Addrl) (\<lambda>addrl. blk [
       dma_cmd_addrh_addrl cmd_queue DMA_MAX_BTT addrh addrl new_dma_tag,
       buf_set i Status STATUS_ENQUEUED,
       buf_set i Dma_tag new_dma_tag,
       lookup_set new_dma_tag i,
       modf (\<lambda>s. s\<lparr>num_rx_enqueued := num_rx_enqueued s + 1\<rparr>)]))"

definition enqueue_step :: "u32 \<Rightarrow> u32 \<Rightarrow> u32 \<times> u32 \<Rightarrow> (u32 \<times> u32 + u32) fw" where
  "enqueue_step cmd_queue nbufs = (\<lambda>(i, r).
     if i < nbufs then
       bnd (getf num_rx_enqueued) (\<lambda>n.
       if 16 \<le> n then ret (Inr r)
       else bnd (buf_get i Status) (\<lambda>st.
         if st \<noteq> STATUS_IDLE then ret (Inl (i + 1, r))
         else bnd (loop find_tag_step 0) (\<lambda>new_dma_tag.
           if MAX_DMA_TAGS \<le> new_dma_tag then ret (Inr r)
           else bnd (enqueue_one cmd_queue i new_dma_tag) (\<lambda>_. ret (Inl (i + 1, r + 1))))))
     else ret (Inr r))"

definition enqueue_rx_buffers :: "u32 fw" where
  "enqueue_rx_buffers =
     bnd (xil_in32 RX_BUFFER_COUNT_OFFSET) (\<lambda>nbufs.
     bnd (getf use_tcp) (\<lambda>tcp.
     loop (enqueue_step (if tcp \<noteq> 0 then CMD_DMA2_TX else CMD_DMA0_TX) nbufs) (0, 0)))"

subsection \<open>Dequeue\<close>

definition dequeue_record :: "u32 \<Rightarrow> u32 \<Rightarrow> u32 \<Rightarrow> u32 \<Rightarrow> unit fw" where
  "dequeue_record net_rx_id sts tag idx = blk [
     bnd (getd net_rx_id) (buf_set idx Rx_len),
     bnd (getd net_rx_id) (buf_set idx Rx_tag),
     bnd (getd net_rx_id) (buf_set idx Rx_src),
     bnd (getd net_rx_id) (buf_set idx Sequence_number),
     buf_set idx Status STATUS_ERROR,
     modf (\<lambda>s. s\<lparr>num_rx_enqueued := num_rx_enqueued s - 1\<rparr>),
     lookup_set tag (- 1),
     bnd (buf_get idx Rx_len) (\<lambda>len. bnd (buf_get idx Dma_tag) (\<lambda>t. check_DMA_status sts len t 1)),
     buf_set idx Status STATUS_RESERVED]"

definition dequeue_one :: "u32 \<Rightarrow> u32 \<Rightarrow> u32 \<Rightarrow> unit fw" where
  "dequeue_one dma_tx_id net_rx_id nbufs =
     bnd (getd dma_tx_id) (\<lambda>sts.
     let tag = sts AND 0xF in
     bnd (lookup_get tag) (\<lambda>idx.
     bnd (buf_get idx Status) (\<lambda>st.
     if st \<noteq> STATUS_ENQUEUED then longjmp DEQUEUE_BUFFER_SPARE_BUFFER_STATUS_ERROR
     else bnd (buf_get idx Dma_tag) (\<lambda>t.
     if t \<noteq> tag then longjmp DEQUEUE_BUFFER_SPARE_BUFFER_DMATAG_MISMATCH
     else if nbufs \<le> idx then longjmp DEQUEUE_BUFFER_SPARE_BUFFER_INDEX_ERROR
     else dequeue_record net_rx_id sts tag idx))))"

definition dequeue_step :: "u32 \<Rightarrow> u32 \<Rightarrow> u32 \<Rightarrow> u32 \<Rightarrow> (u32 + u32) fw" where
  "dequeue_step dma_tx_id net_rx_id nbufs count =
     bnd (getf timeout) (\<lambda>tmo.
     if tmo \<noteq> 0 \<and> tmo \<le> count then longjmp DEQUEUE_BUFFER_TIMEOUT_ERROR
     else bnd (tngetd dma_tx_id) (\<lambda>invalid.
       if invalid = 0 then bnd (dequeue_one dma_tx_id net_rx_id nbufs) (\<lambda>_. ret (Inl 0))
       else ret (Inr 0)))"

definition dequeue_rx_buffers :: "u32 fw" where
  "dequeue_rx_buffers =
     bnd (xil_in32 RX_BUFFER_COUNT_OFFSET) (\<lambda>nbufs.
     bnd (getf use_tcp) (\<lambda>tcp.
     loop (dequeue_step (if tcp \<noteq> 0 then STS_DMA2_TX else STS_DMA0_TX)
             (if tcp \<noteq> 0 then STS_TCP_RX else STS_UDP_RX) nbufs) 0))"

subsection \<open>Interrupt handler and interrupt windows\<close>

definition stream_isr :: "unit fw" where
  "stream_isr =
     bnd get_irq (\<lambda>irq.
     bnd (getf use_tcp) (\<lambda>tcp.
     let sts_non_empty = (if tcp \<noteq> 0 then IRQCTRL_DMA2_STS_QUEUE_NON_EMPTY else IRQCTRL_DMA0_STS_QUEUE_NON_EMPTY);
         cmd_empty = (if tcp \<noteq> 0 then IRQCTRL_DMA2_CMD_QUEUE_EMPTY else IRQCTRL_DMA0_CMD_QUEUE_EMPTY) in
     bnd (whenM (irq AND IRQCTRL_TIMER_ENABLE \<noteq> 0) clear_timer_interrupt) (\<lambda>_.
     bnd (whenM (irq AND sts_non_empty \<noteq> 0) (bnd dequeue_rx_buffers (\<lambda>_. ret ()))) (\<lambda>_.
     bnd start_timer1 (\<lambda>_.
     bnd enqueue_rx_buffers (\<lambda>n_enqueued.
     bnd (bnd read_timer1 (xil_out32 TIME_TO_ACCESS_EXCH_MEM)) (\<lambda>_.
     bnd (if n_enqueued = 0 \<and> (irq AND cmd_empty \<noteq> 0 \<or> irq AND IRQCTRL_TIMER_ENABLE \<noteq> 0) then
            blk [setup_irq (sts_non_empty OR IRQCTRL_TIMER_ENABLE), start_timeout 100000]
          else
            blk [setup_irq (sts_non_empty OR cmd_empty), cancel_timeout]) (\<lambda>_.
     ack_irq irq))))))))"

text \<open>
  Interrupts are taken where the firmware enables them and while it waits for a call; \<open>irqs\<close> says
  whether one is pending at each such window.  Between windows the handler and the main program touch
  disjoint streams, registers and buffers, or the main program has interrupts disabled.  Entry to
  the handler disables interrupts and its return enables them; a \<open>longjmp\<close> out of it does not.
\<close>

definition interrupt_window :: "unit fw" where
  "interrupt_window =
     bnd (getf ie) (\<lambda>enabled.
     bnd (getf irqs) (\<lambda>q.
       case q of [] \<Rightarrow> ret ()
       | pending # q' \<Rightarrow>
           bnd (modf (\<lambda>s. s\<lparr>irqs := q'\<rparr>)) (\<lambda>_.
           whenM (pending \<and> enabled)
             (blk [modf (\<lambda>s. s\<lparr>ie := False\<rparr>), stream_isr, modf (\<lambda>s. s\<lparr>ie := True\<rparr>)]))))"

definition microblaze_enable_interrupts :: "unit fw" where
  "microblaze_enable_interrupts = blk [modf (\<lambda>s. s\<lparr>ie := True\<rparr>), interrupt_window]"

definition microblaze_disable_interrupts :: "unit fw" where
  "microblaze_disable_interrupts = modf (\<lambda>s. s\<lparr>ie := False\<rparr>)"

subsection \<open>Addresses of the buffers\<close>

text \<open>The buffers and their count lie below \<open>TIME_TO_ACCESS_EXCH_MEM\<close>, which bounds their number by 113.\<close>

lemma unat_buf_addr:
  assumes "unat i \<le> 113"
  shows "unat (buf_addr i f) = 0x1004 + 36 * unat i + unat (rx_offset f)"
proof -
  have "unat (36 * i) = 36 * unat i"
    using assms by (subst unat_mult_lem [THEN iffD1]) simp_all
  then show ?thesis
    using assms by (cases f) (simp_all add: buf_addr_def rx_offset_def unat_add_lem [THEN iffD1])
qed

lemma rx_offset_inj [simp]: "rx_offset f = rx_offset g \<longleftrightarrow> f = g"
  by (cases f; cases g) (simp_all add: rx_offset_def)

lemma unat_rx_offset: "unat (rx_offset f) \<le> 32" "4 dvd unat (rx_offset f)"
  by (cases f; simp add: rx_offset_def)+

lemma buf_addr_field [simp]: "buf_addr i f = buf_addr i g \<longleftrightarrow> f = g"
  by (simp add: buf_addr_def)

lemma buf_addr_eq:
  assumes "unat i \<le> 113" and "unat j \<le> 113"
  shows "buf_addr i f = buf_addr j g \<longleftrightarrow> i = j \<and> f = g"
proof
  assume eq: "buf_addr i f = buf_addr j g"
  then have "36 * unat i + unat (rx_offset f) = 36 * unat j + unat (rx_offset g)"
    using unat_buf_addr [OF assms(1), of f] unat_buf_addr [OF assms(2), of g] by simp
  then have "unat i = unat j"
    using unat_rx_offset(1) [of f] unat_rx_offset(1) [of g] by presburger
  then have "i = j" by (rule unsigned_word_eqI)
  with eq show "i = j \<and> f = g" by simp
qed simp

subsection \<open>Invariant of the buffer bookkeeping\<close>

definition bufv :: "fw_state \<Rightarrow> u32 \<Rightarrow> rx_field \<Rightarrow> u32" where
  "bufv s i f = mem s (buf_addr i f)"

definition nbufs :: "fw_state \<Rightarrow> nat" where
  "nbufs s = unat (mem s RX_BUFFER_COUNT_OFFSET)"

definition used_tags :: "u32 list \<Rightarrow> nat" where
  "used_tags l = sum_list (map (\<lambda>v. if v = - 1 then 0 else 1) l)"

text \<open>
  At most 113 buffers, so that the array ends below the reserved words.  Every tag in use names an
  enqueued buffer that carries it, every enqueued buffer has its tag in the table, and
  \<open>num_rx_enqueued\<close> counts the tags in use.
\<close>

definition tag_ok :: "fw_state \<Rightarrow> nat \<Rightarrow> bool" where
  "tag_ok s t \<longleftrightarrow> (let i = dma_tag_lookup s ! t in
     i \<noteq> - 1 \<longrightarrow> unat i < nbufs s \<and> bufv s i Status = STATUS_ENQUEUED \<and> bufv s i Dma_tag = of_nat t)"

definition buf_ok :: "fw_state \<Rightarrow> nat \<Rightarrow> bool" where
  "buf_ok s i \<longleftrightarrow> bufv s (of_nat i) Status = STATUS_ENQUEUED \<longrightarrow> of_nat i \<in> set (dma_tag_lookup s)"

definition rx_inv :: "fw_state \<Rightarrow> bool" where
  "rx_inv s \<longleftrightarrow> nbufs s \<le> 113 \<and> length (dma_tag_lookup s) = 16 \<and>
     (\<forall>t<16. tag_ok s t) \<and> (\<forall>i<nbufs s. buf_ok s i) \<and>
     unat (num_rx_enqueued s) = used_tags (dma_tag_lookup s)"

definition rx_area :: "nat \<Rightarrow> u32 set" where
  "rx_area n = {a. \<exists>i f. unat i < n \<and> a = buf_addr i f}"

text \<open>The registers of the interrupt controller and of the timer.\<close>

abbreviation (input) isr_registers :: "u32 set" where
  "isr_registers \<equiv> {a. IRQCTRL_BASEADDR \<le> a \<and> a < TIMER_BASEADDR + 0x10000}"

lemma isr_register_high: "a \<in> isr_registers \<Longrightarrow> \<not> a < 0x2000"
  by (simp add: word_less_nat_alt word_le_nat_alt)

text \<open>The words the handler writes.\<close>

definition isr_words :: "nat \<Rightarrow> u32 set" where
  "isr_words n = rx_area n \<union> {TIME_TO_ACCESS_EXCH_MEM} \<union> isr_registers"

text \<open>
  What the handler may change: buffers that are idle or enqueued, the timing word, its registers, the
  tag table and its count.  Buffers that hold a message, and the address of every buffer, stay.
\<close>

definition isr_frame :: "fw_state \<Rightarrow> fw_state \<Rightarrow> bool" where
  "isr_frame s s' \<longleftrightarrow>
     use_tcp s' = use_tcp s \<and> timeout s' = timeout s \<and> dma_tag s' = dma_tag s \<and>
     dma_transaction_size s' = dma_transaction_size s \<and> max_dma_in_flight s' = max_dma_in_flight s \<and>
     prefix (trace s) (trace s') \<and>
     inputs_kept {STS_DMA0_TX, STS_DMA2_TX, STS_TCP_RX, STS_UDP_RX} s s' \<and>
     (\<forall>a. a \<notin> isr_words (nbufs s) \<longrightarrow> mem s' a = mem s a) \<and>
     (\<forall>i f. unat i < nbufs s \<longrightarrow>
        bufv s i Status \<notin> {STATUS_IDLE, STATUS_ENQUEUED} \<or> f \<in> {Addrl, Addrh, Max_len} \<longrightarrow>
        bufv s' i f = bufv s i f)"

definition rx_dma :: "fw_state \<Rightarrow> u32" where
  "rx_dma s = (if use_tcp s \<noteq> 0 then STS_DMA2_TX else STS_DMA0_TX)"

definition rx_net :: "fw_state \<Rightarrow> u32" where
  "rx_net s = (if use_tcp s \<noteq> 0 then STS_TCP_RX else STS_UDP_RX)"

text \<open>
  What the handler leaves in the trace: commands for the receiving data mover only.  A buffer that holds a
  message afterwards held one before, or its header is in the trace: the words read from the network side
  after a status word of the data mover that reports success for the header's length.
\<close>

definition header_of :: "fw_state \<Rightarrow> u32 \<Rightarrow> u32 list" where
  "header_of s i = map (bufv s i) [Rx_len, Rx_tag, Rx_src, Sequence_number]"

definition arrives :: "fw_state \<Rightarrow> u32 list \<Rightarrow> event list \<Rightarrow> bool" where
  "arrives s h es \<longleftrightarrow> (\<exists>sts. sublist (Got (rx_dma s) sts # map (Got (rx_net s)) h) es \<and>
     status_ok sts (hd h) (sts AND 0xF) True)"

definition isr_events :: "fw_state \<Rightarrow> fw_state \<Rightarrow> bool" where
  "isr_events s s' \<longleftrightarrow> (\<exists>es. trace s' = trace s @ es \<and>
     (\<forall>ch. ch \<notin> {CMD_DMA0_TX, CMD_DMA2_TX} \<longrightarrow> words_on ch es = []) \<and>
     (\<forall>i. unat i < nbufs s \<longrightarrow> bufv s' i Status = STATUS_RESERVED \<longrightarrow>
        bufv s i Status = STATUS_RESERVED \<or> arrives s (header_of s' i) es))"

lemma isr_events_same:
  assumes "trace t = trace s" and "\<And>i. unat i < nbufs s \<Longrightarrow> bufv t i Status = bufv s i Status"
  shows "isr_events s t"
  using assms by (auto simp: isr_events_def)

lemma isr_events_refl [simp]: "isr_events s s"
  by (rule isr_events_same) simp_all

lemma arrives_append: "arrives s h es \<Longrightarrow> arrives s h (xs @ es @ ys)"
  unfolding arrives_def by (meson sublist_appendI sublist_order.order.trans)

lemma isr_frame_rx: "isr_frame s t \<Longrightarrow> rx_dma t = rx_dma s \<and> rx_net t = rx_net s"
  by (simp add: isr_frame_def rx_dma_def rx_net_def)

lemma buf_addr_low:
  assumes "unat i \<le> 112"
  shows "buf_addr i f < 0x1FF4" and "buf_addr i f \<noteq> 0x1000" and "buf_addr i f < 0x2000"
proof -
  have "unat (buf_addr i f) < 0x1FF4" "0x1004 \<le> unat (buf_addr i f)"
    using unat_buf_addr [of i f] assms unat_rx_offset(1) [of f] by simp_all
  then show "buf_addr i f < 0x1FF4" and "buf_addr i f \<noteq> 0x1000" and "buf_addr i f < 0x2000"
    by (auto simp: word_less_nat_alt)
qed

lemma count_not_in_area: "n \<le> 113 \<Longrightarrow> 0x1000 \<notin> rx_area n"
  using buf_addr_low(2) by (force simp: rx_area_def)

lemma isr_frame_refl [simp]: "isr_frame s s"
  by (simp add: isr_frame_def)

lemma count_not_in_words: "n \<le> 113 \<Longrightarrow> 0x1000 \<notin> isr_words n"
  using count_not_in_area [of n] by (simp add: isr_words_def)

lemma isr_frame_nbufs: "isr_frame s s' \<Longrightarrow> nbufs s \<le> 113 \<Longrightarrow> nbufs s' = nbufs s"
  using count_not_in_words [of "nbufs s"] by (simp add: isr_frame_def nbufs_def)

lemma isr_frame_trans:
  assumes "isr_frame s t" and "isr_frame t u" and "nbufs s \<le> 113"
  shows "isr_frame s u"
proof -
  note n = isr_frame_nbufs [OF assms(1,3)]
  have "bufv u i f = bufv s i f"
    if "unat i < nbufs s" "bufv s i Status \<notin> {STATUS_IDLE, STATUS_ENQUEUED} \<or> f \<in> {Addrl, Addrh, Max_len}" for i f
  proof -
    have "bufv t i f = bufv s i f" and "bufv t i Status = bufv s i Status \<or> f \<in> {Addrl, Addrh, Max_len}"
      using assms(1) that unfolding isr_frame_def by blast+
    moreover have "bufv u i f = bufv t i f"
      using assms(2) that calculation n unfolding isr_frame_def by metis
    ultimately show ?thesis by simp
  qed
  moreover have "\<forall>a. a \<notin> isr_words (nbufs s) \<longrightarrow> mem u a = mem s a"
    using assms(1,2) n unfolding isr_frame_def by metis
  ultimately show ?thesis
    using assms(1,2) unfolding isr_frame_def
    by (auto intro: prefix_order.trans inputs_kept_trans)
qed

lemma isr_frame_header:
  assumes "isr_frame s t" and "unat i < nbufs s" and "bufv s i Status = STATUS_RESERVED"
  shows "bufv t i Status = STATUS_RESERVED" and "header_of t i = header_of s i"
  using assms unfolding isr_frame_def header_of_def by auto

lemma isr_events_trans:
  assumes "isr_frame s t" and "isr_frame t u" and "isr_events s t" and "isr_events t u" and "nbufs s \<le> 113"
  shows "isr_events s u"
proof -
  from assms(3) obtain es where t: "trace t = trace s @ es"
    and q: "\<And>ch. ch \<notin> {CMD_DMA0_TX, CMD_DMA2_TX} \<Longrightarrow> words_on ch es = []"
    and p: "\<And>i. unat i < nbufs s \<Longrightarrow> bufv t i Status = STATUS_RESERVED \<Longrightarrow>
        bufv s i Status = STATUS_RESERVED \<or> arrives s (header_of t i) es"
    unfolding isr_events_def by blast
  from assms(4) obtain fs where u: "trace u = trace t @ fs"
    and q': "\<And>ch. ch \<notin> {CMD_DMA0_TX, CMD_DMA2_TX} \<Longrightarrow> words_on ch fs = []"
    and p': "\<And>i. unat i < nbufs t \<Longrightarrow> bufv u i Status = STATUS_RESERVED \<Longrightarrow>
        bufv t i Status = STATUS_RESERVED \<or> arrives t (header_of u i) fs"
    unfolding isr_events_def by blast
  have n: "nbufs t = nbufs s" by (rule isr_frame_nbufs [OF assms(1,5)])
  have "bufv s i Status = STATUS_RESERVED \<or> arrives s (header_of u i) (es @ fs)"
    if i: "unat i < nbufs s" "bufv u i Status = STATUS_RESERVED" for i
  proof (cases "bufv t i Status = STATUS_RESERVED")
    case True
    have "header_of u i = header_of t i"
      by (rule isr_frame_header [OF assms(2) _ True]) (use i n in simp)
    with p [OF i(1) True] arrives_append [of s _ es "[]" fs] show ?thesis by auto
  next
    case False
    with p' [of i] i n have "arrives t (header_of u i) fs" by simp
    then have "arrives s (header_of u i) fs"
      using isr_frame_rx [OF assms(1)] by (simp add: arrives_def)
    from arrives_append [OF this, of es "[]"] show ?thesis by simp
  qed
  with t u q q' show ?thesis
    unfolding isr_events_def by (intro exI [of _ "es @ fs"]) simp
qed

lemma used_tags_upd:
  assumes "k < length l"
  shows "used_tags (l[k := v]) + (if l ! k = - 1 then 0 else 1) = used_tags l + (if v = - 1 then 0 else 1)"
  using assms
proof (induction l arbitrary: k)
  case (Cons x l)
  then show ?case by (cases k) (auto simp: used_tags_def)
qed simp

lemma used_tags_le: "used_tags l \<le> length l"
  by (induction l) (auto simp: used_tags_def)

subsection \<open>Enqueueing keeps the invariant\<close>

lemma lookup_run [fw_run]:
  "unat t < length (dma_tag_lookup s) \<Longrightarrow> lookup_get t s = Some (Ret (dma_tag_lookup s ! unat t), s)"
  "unat t < length (dma_tag_lookup s) \<Longrightarrow>
     lookup_set t v s = Some (Ret (), s\<lparr>dma_tag_lookup := (dma_tag_lookup s)[unat t := v]\<rparr>)"
  by (simp_all add: lookup_get_def lookup_set_def prim_run)

lemma buf_run [fw_run]:
  "buf_get i f s = Some (Ret (bufv s i f), s)"
  "buf_set i f v s = Some (Ret (), s\<lparr>mem := (mem s)(buf_addr i f := v)\<rparr>)"
  by (simp_all add: buf_get_def buf_set_def load_def store_def prim_run bufv_def)

lemma find_tag_ends:
  assumes "length (dma_tag_lookup s) = 16"
  shows "ends (loop find_tag_step 0) s
     (\<lambda>t s'. s' = s \<and> (t < 16 \<and> dma_tag_lookup s ! unat t = - 1 \<or>
        t = 16 \<and> (\<forall>k<16. dma_tag_lookup s ! k \<noteq> - 1))) E"
proof (rule loop_ends [where R = "measure (\<lambda>(t, s). 16 - unat t)"
      and I = "\<lambda>t s'. s' = s \<and> unat t \<le> 16 \<and> (\<forall>k<unat t. dma_tag_lookup s ! k \<noteq> - 1)"])
  fix t :: u32 and u assume I: "u = s \<and> unat t \<le> 16 \<and> (\<forall>k<unat t. dma_tag_lookup s ! k \<noteq> - 1)"
  show "ends (find_tag_step t) u
     (\<lambda>z s'. case z of
        Inl y \<Rightarrow> (s' = s \<and> unat y \<le> 16 \<and> (\<forall>k<unat y. dma_tag_lookup s ! k \<noteq> - 1)) \<and>
          ((y, s'), (t, u)) \<in> measure (\<lambda>(t, s). 16 - unat t)
      | Inr t \<Rightarrow> s' = s \<and> (t < 16 \<and> dma_tag_lookup s ! unat t = - 1 \<or>
        t = 16 \<and> (\<forall>k<16. dma_tag_lookup s ! k \<noteq> - 1))) E"
  proof (cases "t < 16")
    case True
    then have t: "unat t < 16" by (simp add: word_less_nat_alt)
    have u: "unat (t + 1) = Suc (unat t)" using True by (rule unat_succ)
    show ?thesis
    proof (cases "dma_tag_lookup s ! unat t = - 1")
      case used: False
      have "\<forall>k<Suc (unat t). dma_tag_lookup s ! k \<noteq> - 1"
        using I used by (auto simp: less_Suc_eq)
      with True used t I assms show ?thesis
        by (simp add: ends_def find_tag_step_def bnd_def lookup_run ret_def u diff_less_mono2)
    qed (use True t I assms in \<open>simp add: ends_def find_tag_step_def bnd_def lookup_run ret_def\<close>)
  next
    case False
    then have "unat t = 16" using I by (simp add: word_less_nat_alt)
    then have "t = 16" by (simp add: word_unat_eq_iff)
    with I show ?thesis by (simp add: find_tag_step_def)
  qed
qed (use assms in auto)

lemma small_not_minus_one: "unat (i :: u32) \<le> 113 \<Longrightarrow> i \<noteq> - 1"
  by (rule notI) (simp add: unsigned_minus_1_eq_mask mask_eq_exp_minus_1)

lemma bufv_write:
  assumes "unat i \<le> 113" and "unat j \<le> 113"
  shows "((mem s)(buf_addr i f := v)) (buf_addr j g) = (if j = i \<and> g = f then v else bufv s j g)"
  using buf_addr_eq [OF assms(2,1), of g f] by (auto simp: bufv_def)

definition enqueued :: "u32 \<Rightarrow> u32 \<Rightarrow> u32 \<Rightarrow> fw_state \<Rightarrow> fw_state" where
  "enqueued q i t s = s\<lparr>
     trace := trace s @ [Put q (0xC0800000 OR DMA_MAX_BTT), Put q (bufv s i Addrl), Put q (bufv s i Addrh),
        CPut q (0x2000 OR t)],
     mem := (mem s)(buf_addr i Status := STATUS_ENQUEUED, buf_addr i Dma_tag := t),
     dma_tag_lookup := (dma_tag_lookup s)[unat t := i],
     num_rx_enqueued := num_rx_enqueued s + 1\<rparr>"

lemma enqueue_one_run:
  assumes "unat t < length (dma_tag_lookup s)"
  shows "enqueue_one q i t s = Some (Ret (), enqueued q i t s)"
  using assms
  by (simp add: enqueue_one_def dma_cmd_addrh_addrl_def bnd_def buf_run lookup_run putd_run prim_run enqueued_def)

lemma enqueued_bufv:
  assumes "unat i \<le> 113" and "unat j \<le> 113"
  shows "bufv (enqueued q i t s) j f =
     (if j = i \<and> f = Status then STATUS_ENQUEUED else if j = i \<and> f = Dma_tag then t else bufv s j f)"
  using buf_addr_eq [OF assms(2,1)] by (auto simp: bufv_def enqueued_def)

lemma enqueued_inv:
  assumes inv: "rx_inv s" and i: "unat i < nbufs s" and idle: "bufv s i Status = STATUS_IDLE"
    and t: "unat t < 16" and free: "dma_tag_lookup s ! unat t = - 1"
  shows "rx_inv (enqueued q i t s)"
proof -
  let ?s = "enqueued q i t s"
  let ?l = "dma_tag_lookup s"
  from inv have n: "nbufs s \<le> 113" and len: "length ?l = 16"
    and tags: "\<And>k. k < 16 \<Longrightarrow> tag_ok s k" and bufs: "\<And>k. k < nbufs s \<Longrightarrow> buf_ok s k"
    and cnt: "unat (num_rx_enqueued s) = used_tags ?l"
    by (auto simp: rx_inv_def)
  have i112: "unat i \<le> 112" "unat i \<le> 113" using i n by simp_all
  have i1: "i \<noteq> - 1" using i112(2) by (rule small_not_minus_one)
  have nb: "nbufs ?s = nbufs s"
    using buf_addr_low(2) [OF i112(1), THEN not_sym] by (simp add: nbufs_def enqueued_def)
  have ltag: "dma_tag_lookup ?s = ?l[unat t := i]" by (simp add: enqueued_def)
  have notin: "i \<notin> set ?l"
  proof
    assume "i \<in> set ?l"
    then obtain k where "k < 16" "?l ! k = i" by (auto simp: in_set_conv_nth len)
    with tags [of k] i1 idle show False by (simp add: tag_ok_def Let_def)
  qed
  have "tag_ok ?s k" if k: "k < 16" for k
  proof (cases "k = unat t")
    case True
    then show ?thesis
      using len t i i112 by (simp add: tag_ok_def Let_def ltag nb enqueued_bufv)
  next
    case False
    show ?thesis
    proof (cases "?l ! k = - 1")
      case True
      with False k len show ?thesis by (simp add: tag_ok_def ltag)
    next
      case used: False
      with tags [OF k] have v: "unat (?l ! k) < nbufs s" "bufv s (?l ! k) Status = STATUS_ENQUEUED"
        "bufv s (?l ! k) Dma_tag = of_nat k" by (auto simp: tag_ok_def Let_def)
      moreover have "?l ! k \<noteq> i" using notin k len by (metis nth_mem)
      moreover have "unat (?l ! k) \<le> 113" using v(1) n by simp
      ultimately show ?thesis
        using False k len i112 by (simp add: tag_ok_def Let_def ltag nb enqueued_bufv)
    qed
  qed
  moreover have "buf_ok ?s k" if k: "k < nbufs s" for k
  proof -
    have u: "unat (of_nat k :: u32) = k" "k \<le> 113"
      using unat_of_nat_le [of k "mem s 0x1000"] k n by (simp_all add: nbufs_def)
    have keep: "x \<in> set (?l[unat t := i])" if x: "x \<in> set ?l" "x \<noteq> - 1" for x
    proof -
      obtain m where "m < 16" "?l ! m = x" using x(1) len by (auto simp: in_set_conv_nth)
      moreover have "m \<noteq> unat t" using calculation free x(2) by auto
      ultimately show ?thesis using len by (metis length_list_update nth_list_update_neq nth_mem)
    qed
    show ?thesis
    proof (cases "of_nat k = i")
      case True
      then show ?thesis using t len by (simp add: buf_ok_def ltag set_update_memI)
    next
      case False
      have "(of_nat k :: u32) \<noteq> - 1"
        using u by (intro small_not_minus_one) simp
      with False show ?thesis
        using bufs [OF k] u i112 keep by (auto simp: buf_ok_def ltag enqueued_bufv)
    qed
  qed
  moreover have "unat (num_rx_enqueued ?s) = used_tags (dma_tag_lookup ?s)"
  proof -
    have up: "used_tags (?l[unat t := i]) = Suc (used_tags ?l)"
      using used_tags_upd [of "unat t" ?l i] free i1 t len by simp
    then have "used_tags ?l < 16"
      using used_tags_le [of "?l[unat t := i]"] len by simp
    then have "num_rx_enqueued s < 16" using cnt by (simp add: word_less_nat_alt)
    from unat_succ [OF this] up cnt show ?thesis by (simp add: enqueued_def)
  qed
  ultimately show ?thesis
    using n nb len by (simp add: rx_inv_def ltag)
qed

lemma enqueued_frame:
  assumes inv: "rx_inv s" and i: "unat i < nbufs s" and idle: "bufv s i Status = STATUS_IDLE"
  shows "isr_frame s (enqueued q i t s)"
proof -
  have n: "nbufs s \<le> 113" using inv by (simp add: rx_inv_def)
  have "bufv (enqueued q i t s) j f = bufv s j f"
    if "unat j < nbufs s" "bufv s j Status \<notin> {STATUS_IDLE, STATUS_ENQUEUED} \<or> f \<in> {Addrl, Addrh, Max_len}" for j f
    using that n i idle by (auto simp: enqueued_bufv)
  moreover have "mem (enqueued q i t s) a = mem s a" if "a \<notin> isr_words (nbufs s)" for a
    using that i by (auto simp: enqueued_def isr_words_def rx_area_def)
  ultimately show ?thesis
    by (simp add: isr_frame_def enqueued_def inputs_kept_def)
qed

lemma enqueued_events:
  assumes inv: "rx_inv s" and i: "unat i < nbufs s" and q: "q \<in> {CMD_DMA0_TX, CMD_DMA2_TX}"
  shows "isr_events s (enqueued q i t s)"
proof -
  have n: "nbufs s \<le> 113" using inv by (simp add: rx_inv_def)
  have "bufv s j Status = STATUS_RESERVED"
    if "unat j < nbufs s" "bufv (enqueued q i t s) j Status = STATUS_RESERVED" for j
    using that n i by (simp add: enqueued_bufv split: if_splits)
  then show ?thesis
    using q by (auto simp: isr_events_def enqueued_def)
qed

text \<open>Enqueueing always ends; it leaves the input streams and the interrupt state alone.\<close>

definition enq_frame :: "fw_state \<Rightarrow> fw_state \<Rightarrow> bool" where
  "enq_frame s s' \<longleftrightarrow> isr_frame s s' \<and> isr_events s s' \<and> stream_in s' = stream_in s \<and> ie s' = ie s \<and> irqs s' = irqs s"

lemma enq_frame_refl [simp]: "enq_frame s s"
  by (simp add: enq_frame_def)

lemma enq_frame_step:
  assumes "rx_inv s" and "enq_frame s t" and "rx_inv t" and "unat i < nbufs t"
    and "bufv t i Status = STATUS_IDLE" and "q \<in> {CMD_DMA0_TX, CMD_DMA2_TX}"
  shows "enq_frame s (enqueued q i k t)"
proof -
  have "isr_frame s (enqueued q i k t)"
    by (rule isr_frame_trans [OF _ enqueued_frame [OF assms(3-5)]])
      (use assms(1,2) in \<open>auto simp: enq_frame_def rx_inv_def\<close>)
  moreover have "isr_events s (enqueued q i k t)"
    by (rule isr_events_trans [OF _ enqueued_frame [OF assms(3-5)] _ enqueued_events [OF assms(3,4,6)]])
      (use assms(1,2) in \<open>auto simp: enq_frame_def rx_inv_def\<close>)
  ultimately show ?thesis using assms(2) by (simp add: enq_frame_def enqueued_def)
qed

lemma enqueue_step_ends:
  assumes s: "rx_inv s" and t: "rx_inv t" and fr: "enq_frame s t" and nb: "nb = mem s RX_BUFFER_COUNT_OFFSET"
    and q: "q \<in> {CMD_DMA0_TX, CMD_DMA2_TX}"
  shows "ends (enqueue_step q nb (i, r)) t
     (\<lambda>z s'. rx_inv s' \<and> enq_frame s s' \<and> (case z of Inl (i', r') \<Rightarrow> i < nb \<and> i' = i + 1 | Inr r \<Rightarrow> True))
     (\<lambda>_ _. False)"
proof (cases "i < nb")
  case False
  with t fr show ?thesis by (simp add: enqueue_step_def)
next
  case i: True
  have len: "length (dma_tag_lookup t) = 16" using t by (simp add: rx_inv_def)
  have "nbufs t = nbufs s" using fr s by (auto simp: enq_frame_def rx_inv_def intro: isr_frame_nbufs)
  then have in_t: "unat i < nbufs t" using i by (simp add: nb nbufs_def word_less_nat_alt)
  show ?thesis
  proof (cases "16 \<le> num_rx_enqueued t \<or> bufv t i Status \<noteq> STATUS_IDLE")
    case True
    with i t fr show ?thesis
      by (auto simp: ends_def enqueue_step_def bnd_def prim_run buf_run)
  next
    case False
    have "ends (bnd (loop find_tag_step 0) (\<lambda>new_dma_tag.
           if MAX_DMA_TAGS \<le> new_dma_tag then ret (Inr r)
           else bnd (enqueue_one q i new_dma_tag) (\<lambda>_. ret (Inl (i + 1, r + 1))))) t
     (\<lambda>z s'. rx_inv s' \<and> enq_frame s s' \<and> (case z of Inl (i', r') \<Rightarrow> i < nb \<and> i' = i + 1 | Inr r \<Rightarrow> True))
     (\<lambda>_ _. False)"
    proof (rule ends_bndI [OF find_tag_ends [OF len]])
      fix k :: u32 and u assume k: "u = t \<and> (k < 16 \<and> dma_tag_lookup t ! unat k = - 1 \<or>
          k = 16 \<and> (\<forall>k<16. dma_tag_lookup t ! k \<noteq> - 1))"
      show "ends (if MAX_DMA_TAGS \<le> k then ret (Inr r)
           else bnd (enqueue_one q i k) (\<lambda>_. ret (Inl (i + 1, r + 1)))) u
     (\<lambda>z s'. rx_inv s' \<and> enq_frame s s' \<and> (case z of Inl (i', r') \<Rightarrow> i < nb \<and> i' = i + 1 | Inr r \<Rightarrow> True))
     (\<lambda>_ _. False)"
      proof (cases "k < 16")
        case True
        then have k16: "unat k < 16" by (simp add: word_less_nat_alt)
        have "rx_inv (enqueued q i k t)"
          by (rule enqueued_inv) (use t in_t False k True k16 in auto)
        moreover have "enq_frame s (enqueued q i k t)"
          by (rule enq_frame_step) (use s fr t in_t False q in auto)
        moreover have "\<not> 16 \<le> k" using True by simp
        ultimately show ?thesis
          using True k k16 len i by (simp add: ends_def bnd_def enqueue_one_run prim_run)
      next
        case False
        with k t fr show ?thesis by auto
      qed
    qed
    with i False show ?thesis
      by (simp add: enqueue_step_def ends_def bnd_def [of "buf_get _ _"] buf_run)
  qed
qed

lemma enqueue_loop_ends:
  assumes s: "rx_inv s" and q: "q \<in> {CMD_DMA0_TX, CMD_DMA2_TX}"
  shows "ends (loop (enqueue_step q (mem s RX_BUFFER_COUNT_OFFSET)) (0, 0)) s
     (\<lambda>r s'. rx_inv s' \<and> enq_frame s s') (\<lambda>_ _. False)"
proof -
  let ?nb = "mem s RX_BUFFER_COUNT_OFFSET"
  let ?I = "\<lambda>x :: u32 \<times> u32. \<lambda>t. rx_inv t \<and> enq_frame s t"
  let ?R = "measure (\<lambda>((i :: u32, r :: u32), s :: fw_state). unat ?nb - unat i)"
  show ?thesis
  proof (rule loop_ends [where R = ?R and I = ?I])
    fix x :: "u32 \<times> u32" and t assume I: "?I x t"
    obtain i r where x: "x = (i, r)" by (cases x)
    show "ends (enqueue_step q ?nb x) t
     (\<lambda>z s'. case z of Inl y \<Rightarrow> ?I y s' \<and> ((y, s'), (x, t)) \<in> ?R | Inr r \<Rightarrow> rx_inv s' \<and> enq_frame s s')
     (\<lambda>_ _. False)"
      unfolding x
    proof (rule ends_weaken [OF enqueue_step_ends [OF s _ _ refl q]])
      fix z :: "u32 \<times> u32 + u32" and s' assume z: "rx_inv s' \<and> enq_frame s s' \<and>
        (case z of Inl (i', r') \<Rightarrow> i < ?nb \<and> i' = i + 1 | Inr r \<Rightarrow> True)"
      show "case z of Inl y \<Rightarrow> ?I y s' \<and> ((y, s'), ((i, r), t)) \<in> ?R | Inr r \<Rightarrow> rx_inv s' \<and> enq_frame s s'"
      proof (cases z)
        case (Inl y)
        obtain i' r' where y: "y = (i', r')" by (cases y)
        with z Inl have "i < ?nb" "i' = i + 1" by auto
        then have "unat ?nb - unat i' < unat ?nb - unat i"
          using unat_succ [of i ?nb] by (simp add: word_less_nat_alt diff_less_mono2)
        with z Inl y show ?thesis by simp
      qed (use z in simp)
    qed (use I in simp_all)
  qed (use s in simp_all)
qed

lemma enqueue_rx_buffers_ends:
  assumes "rx_inv s"
  shows "ends enqueue_rx_buffers s (\<lambda>r s'. rx_inv s' \<and> enq_frame s s') (\<lambda>_ _. False)"
  using enqueue_loop_ends [OF assms, of "if use_tcp s \<noteq> 0 then CMD_DMA2_TX else CMD_DMA0_TX"]
  by (simp add: enqueue_rx_buffers_def ends_def bnd_def xil_in32_ram prim_run)

subsection \<open>Dequeueing keeps the invariant\<close>

lemma rx_inv_release:
  assumes inv: "rx_inv s" and k: "k < 16" and idx: "dma_tag_lookup s ! k = idx" and i: "unat idx < nbufs s"
    and nb: "nbufs s' = nbufs s" and lk: "dma_tag_lookup s' = (dma_tag_lookup s)[k := - 1]"
    and num: "num_rx_enqueued s' = num_rx_enqueued s - 1"
    and keep: "\<And>j f. unat j < nbufs s \<Longrightarrow> j \<noteq> idx \<Longrightarrow> bufv s' j f = bufv s j f"
    and st: "bufv s' idx Status \<noteq> STATUS_ENQUEUED"
  shows "rx_inv s'"
proof -
  let ?l = "dma_tag_lookup s"
  from inv have n: "nbufs s \<le> 113" and len: "length ?l = 16"
    and tags: "\<And>t. t < 16 \<Longrightarrow> tag_ok s t" and bufs: "\<And>t. t < nbufs s \<Longrightarrow> buf_ok s t"
    and cnt: "unat (num_rx_enqueued s) = used_tags ?l"
    by (auto simp: rx_inv_def)
  have i1: "idx \<noteq> - 1" using i n by (intro small_not_minus_one) simp
  have ik: "bufv s idx Dma_tag = of_nat k"
    using tags [OF k] idx i1 by (simp add: tag_ok_def Let_def)
  have "tag_ok s' t" if t: "t < 16" for t
  proof (cases "t = k")
    case False
    show ?thesis
    proof (cases "?l ! t = - 1")
      case used: False
      with tags [OF t] have v: "unat (?l ! t) < nbufs s" "bufv s (?l ! t) Status = STATUS_ENQUEUED"
        "bufv s (?l ! t) Dma_tag = of_nat t" by (auto simp: tag_ok_def Let_def)
      have "?l ! t \<noteq> idx"
      proof
        assume "?l ! t = idx"
        then have "(of_nat t :: u32) = of_nat k" using v(3) ik by simp
        moreover have "unat (of_nat t :: u32) = t" by (rule unat_of_nat_le [of _ 16]) (use t in simp)
        moreover have "unat (of_nat k :: u32) = k" by (rule unat_of_nat_le [of _ 16]) (use k in simp)
        ultimately have "t = k" by metis
        with False show False ..
      qed
      with v False show ?thesis by (simp add: tag_ok_def Let_def lk nb keep)
    next
      case True
      then show ?thesis using False by (simp add: tag_ok_def lk Let_def)
    qed
  next
    case True
    then show ?thesis using k len by (simp add: tag_ok_def lk Let_def)
  qed
  moreover have "buf_ok s' j" if j: "j < nbufs s" for j
  proof (cases "of_nat j = idx")
    case True
    with st show ?thesis by (simp add: buf_ok_def)
  next
    case False
    have u: "unat (of_nat j :: u32) < nbufs s"
      using unat_of_nat_le [of j "mem s 0x1000"] j by (simp add: nbufs_def)
    have "of_nat j \<in> set (?l[k := - 1])" if m: "of_nat j \<in> set ?l"
    proof -
      obtain t where "t < 16" "?l ! t = of_nat j" using m len by (auto simp: in_set_conv_nth)
      moreover have "t \<noteq> k" using calculation idx False by auto
      ultimately show ?thesis using len by (metis length_list_update nth_list_update_neq nth_mem)
    qed
    with bufs [OF j] False show ?thesis by (auto simp: buf_ok_def lk keep [OF u False])
  qed
  moreover have "unat (num_rx_enqueued s') = used_tags (dma_tag_lookup s')"
  proof -
    have up: "Suc (used_tags (?l[k := - 1])) = used_tags ?l"
      using used_tags_upd [of k ?l "- 1"] idx i1 k len by simp
    then have "num_rx_enqueued s \<noteq> 0" using cnt by auto
    then have "unat (num_rx_enqueued s - 1) = unat (num_rx_enqueued s) - 1"
      by (rule unat_minus_one)
    then show ?thesis using up cnt by (simp add: num lk)
  qed
  ultimately show ?thesis
    using n nb len by (simp add: rx_inv_def lk)
qed

text \<open>
  The depacketizer delivers four header words for every status of the receiving DMA: under this
  hypothesis on the hardware the blocking reads of the handler end.
\<close>

definition fed :: "fw_state \<Rightarrow> bool" where
  "fed s \<longleftrightarrow> 4 * length (stream_in s (rx_dma s)) \<le> length (stream_in s (rx_net s))"

definition isr_ok :: "fw_state \<Rightarrow> fw_state \<Rightarrow> bool" where
  "isr_ok s s' \<longleftrightarrow> rx_inv s' \<and> fed s' \<and> isr_frame s s' \<and> isr_events s s' \<and> ie s' = ie s \<and> irqs s' = irqs s"

definition recorded :: "u32 \<Rightarrow> u32 \<Rightarrow> u32 \<Rightarrow> u32 list \<Rightarrow> (nat \<times> u32) list \<Rightarrow> fw_state \<Rightarrow> fw_state" where
  "recorded net tag idx hw ws s = s\<lparr>
     stream_in := (stream_in s)(net := ws),
     trace := trace s @ map (Got net) hw,
     mem := (mem s)(buf_addr idx Rx_len := hw ! 0, buf_addr idx Rx_tag := hw ! 1,
       buf_addr idx Rx_src := hw ! 2, buf_addr idx Sequence_number := hw ! 3,
       buf_addr idx Status := STATUS_ERROR),
     num_rx_enqueued := num_rx_enqueued s - 1,
     dma_tag_lookup := (dma_tag_lookup s)[unat tag := - 1]\<rparr>"

lemma dequeue_record_run:
  assumes "map snd (stream_in s net) = len # rt # src # sq # map snd ws"
    and "stream_in s net = a # b # c # d # ws"
    and "unat tag < length (dma_tag_lookup s)" and "bufv s idx Dma_tag = tag"
  shows "dequeue_record net sts tag idx s =
     bnd (check_DMA_status sts len tag 1) (\<lambda>_. buf_set idx Status STATUS_RESERVED)
       (recorded net tag idx [len, rt, src, sq] ws s)"
  using assms
  by (cases a; cases b; cases c; cases d)
    (simp add: dequeue_record_def bnd_def getd_def buf_set_def buf_get_def load_def store_def prim_run
      lookup_set_def recorded_def bufv_def fun_upd_twist bnd_ret_right)

lemma recorded_bufv:
  assumes "unat idx \<le> 113" and "unat j \<le> 113"
  shows "bufv (recorded net tag idx [len, rt, src, sq] ws s) j f =
     (if j = idx then
        (if f = Status then STATUS_ERROR else if f = Rx_len then len else if f = Rx_tag then rt
         else if f = Rx_src then src else if f = Sequence_number then sq else bufv s j f)
      else bufv s j f)"
  using buf_addr_eq [OF assms(2,1)] by (auto simp: bufv_def recorded_def)

definition deq_error :: "u32 \<Rightarrow> bool" where
  "deq_error c \<longleftrightarrow> c \<in> {DEQUEUE_BUFFER_SPARE_BUFFER_STATUS_ERROR, DEQUEUE_BUFFER_SPARE_BUFFER_DMATAG_MISMATCH,
     DEQUEUE_BUFFER_SPARE_BUFFER_INDEX_ERROR} \<or> dma_error c"

lemma recorded_ok:
  assumes inv: "rx_inv s" and k: "unat tag < 16" and idx: "dma_tag_lookup s ! unat tag = idx"
    and i: "unat idx < nbufs s" and net: "net \<in> {STS_TCP_RX, STS_UDP_RX}" and st: "st \<noteq> STATUS_ENQUEUED"
    and t: "t = (let u = recorded net tag idx [len, rt, src, sq] ws s in u\<lparr>mem := (mem u)(buf_addr idx Status := st)\<rparr>)"
  shows "rx_inv t" and "isr_frame s t" and "nbufs t = nbufs s"
proof -
  let ?u = "recorded net tag idx [len, rt, src, sq] ws s"
  have n: "nbufs s \<le> 113" using inv by (simp add: rx_inv_def)
  then have i112: "unat idx \<le> 112" "unat idx \<le> 113" using i by simp_all
  have bt: "bufv t j f = (if j = idx \<and> f = Status then st else bufv ?u j f)" if "unat j \<le> 113" for j f
    using bufv_write [OF i112(2) that, of ?u Status st f] by (simp add: t Let_def bufv_def)
  show nb: "nbufs t = nbufs s"
    using buf_addr_low(2) [OF i112(1), THEN not_sym] by (simp add: nbufs_def t Let_def recorded_def)
  have other: "bufv t j f = bufv s j f" if "unat j < nbufs s" "j \<noteq> idx" for j f
  proof -
    have "unat j \<le> 113" using that(1) n by simp
    with that(2) bt [OF this] recorded_bufv [OF i112(2) this] show ?thesis by simp
  qed
  have enq: "bufv s idx Status = STATUS_ENQUEUED"
    using inv k idx small_not_minus_one [OF i112(2)] by (auto simp: rx_inv_def tag_ok_def Let_def)
  show "rx_inv t"
    by (rule rx_inv_release [OF inv k idx i nb])
      (use other st bt [OF i112(2), of Status] in \<open>simp_all add: t Let_def recorded_def\<close>)
  have "bufv t j f = bufv s j f"
    if "unat j < nbufs s" "bufv s j Status \<notin> {STATUS_IDLE, STATUS_ENQUEUED} \<or> f \<in> {Addrl, Addrh, Max_len}" for j f
  proof (cases "j = idx")
    case True
    then show ?thesis using that(2) enq bt [OF i112(2)] recorded_bufv [OF i112(2,2)] by auto
  next
    case False
    show ?thesis by (rule other [OF that(1) False])
  qed
  moreover have "mem t a = mem s a" if "a \<notin> isr_words (nbufs s)" for a
    using that i by (auto simp: t Let_def recorded_def isr_words_def rx_area_def)
  moreover have "use_tcp t = use_tcp s" "timeout t = timeout s" "dma_tag t = dma_tag s"
    "dma_transaction_size t = dma_transaction_size s" "max_dma_in_flight t = max_dma_in_flight s"
    "prefix (trace s) (trace t)" "inputs_kept {STS_DMA0_TX, STS_DMA2_TX, STS_TCP_RX, STS_UDP_RX} s t"
    using net by (auto simp: t Let_def recorded_def inputs_kept_def)
  ultimately show "isr_frame s t"
    by (simp add: isr_frame_def)
qed

lemma recorded_other:
  assumes inv: "rx_inv s" and i: "unat idx < nbufs s" and j: "unat j < nbufs s" "j \<noteq> idx"
    and t: "t = (let u = recorded net tag idx [len, rt, src, sq] ws s in u\<lparr>mem := (mem u)(buf_addr idx Status := st)\<rparr>)"
  shows "bufv t j f = bufv s j f"
proof -
  have n: "unat idx \<le> 113" "unat j \<le> 113" using inv i j(1) by (simp_all add: rx_inv_def)
  have "bufv t j f = bufv (recorded net tag idx [len, rt, src, sq] ws s) j f"
    using bufv_write [OF n, of _ Status st f] j(2) by (simp add: t Let_def bufv_def)
  with recorded_bufv [OF n] j(2) show ?thesis by simp
qed

lemma recorded_status:
  "recorded net tag idx hw ws s = (let u = recorded net tag idx hw ws s in u\<lparr>mem := (mem u)(buf_addr idx Status := STATUS_ERROR)\<rparr>)"
  by (simp add: recorded_def Let_def)

lemma dequeue_one_ends:
  assumes inv: "rx_inv s" and av: "avail s (rx_dma s)" and fed: "fed s"
    and nb: "nb = mem s RX_BUFFER_COUNT_OFFSET"
  shows "ends (dequeue_one (rx_dma s) (rx_net s) nb) s
     (\<lambda>_ s'. isr_ok s s' \<and> length (stream_in s' (rx_dma s)) < length (stream_in s (rx_dma s)))
     (\<lambda>c s'. deq_error c \<and> isr_ok s s')"
proof -
  let ?dma = "rx_dma s" and ?net = "rx_net s"
  obtain sts ws where sts: "stream_in s ?dma = (0, sts) # ws" using av by (rule availE)
  let ?s1 = "s\<lparr>stream_in := (stream_in s)(?dma := ws), trace := trace s @ [Got ?dma sts]\<rparr>"
  have g: "getd ?dma s = Some (Ret sts, ?s1)" by (simp add: getd_def sts)
  have ch: "?dma \<noteq> ?net" "?dma \<in> {STS_DMA0_TX, STS_DMA2_TX}" "?net \<in> {STS_TCP_RX, STS_UDP_RX}"
    by (auto simp: rx_dma_def rx_net_def)
  have same: "rx_dma ?s1 = ?dma" "rx_net ?s1 = ?net" "nbufs ?s1 = nbufs s" "\<And>i f. bufv ?s1 i f = bufv s i f"
    by (simp_all add: rx_dma_def rx_net_def nbufs_def bufv_def)
  have inv1: "rx_inv ?s1"
    using inv by (simp add: rx_inv_def tag_ok_def buf_ok_def nbufs_def bufv_def Let_def)
  have fr1: "isr_frame s ?s1"
    using ch(2) by (auto simp: isr_frame_def inputs_kept_def bufv_def)
  have "4 * length (stream_in ?s1 ?dma) + 4 \<le> length (stream_in ?s1 ?net)"
    using fed ch(1) by (simp add: fed_def sts)
  then have four: "4 \<le> length (stream_in ?s1 ?net)" and fed1: "fed ?s1"
    and fed2: "4 * length ws \<le> length (stream_in ?s1 ?net) - 4"
    using same by (simp_all add: fed_def)
  have ok1: "isr_ok s ?s1"
    using inv1 fr1 fed1 ch(2) by (simp add: isr_ok_def isr_events_def same)
  let ?tag = "sts AND 0xF"
  have "?tag \<le> 0xF" by (rule word_and_le1)
  then have tag: "unat ?tag < 16" by (simp add: word_le_nat_alt)
  have len: "length (dma_tag_lookup s) = 16" using inv by (simp add: rx_inv_def)
  let ?idx = "dma_tag_lookup s ! unat ?tag"
  let ?go = "dequeue_record ?net sts ?tag ?idx"
  have eq: "dequeue_one ?dma ?net nb s =
    (if bufv s ?idx Status \<noteq> STATUS_ENQUEUED then Some (Longjmp DEQUEUE_BUFFER_SPARE_BUFFER_STATUS_ERROR, ?s1)
     else if bufv s ?idx Dma_tag \<noteq> ?tag then Some (Longjmp DEQUEUE_BUFFER_SPARE_BUFFER_DMATAG_MISMATCH, ?s1)
     else if nb \<le> ?idx then Some (Longjmp DEQUEUE_BUFFER_SPARE_BUFFER_INDEX_ERROR, ?s1)
     else ?go ?s1)"
    using tag len
    by (simp add: dequeue_one_def Let_def bnd_def g lookup_run buf_run prim_run same)
  show ?thesis
  proof (cases "bufv s ?idx Status \<noteq> STATUS_ENQUEUED \<or> bufv s ?idx Dma_tag \<noteq> ?tag \<or> nb \<le> ?idx")
    case True
    then have "\<exists>c. dequeue_one ?dma ?net nb s = Some (Longjmp c, ?s1) \<and> deq_error c"
      unfolding eq by (auto simp: deq_error_def)
    with ok1 show ?thesis by (auto simp: ends_def)
  next
    case False
    then have idx: "unat ?idx < nbufs s" by (simp add: nb nbufs_def word_le_nat_alt)
    obtain a b c d ws' where w: "stream_in ?s1 ?net = a # b # c # d # ws'"
      using four by (auto simp: Suc_le_length_iff numeral_eq_Suc)
    let ?r = "recorded ?net ?tag ?idx [snd a, snd b, snd c, snd d] ws' ?s1"
    have run: "dequeue_one ?dma ?net nb s
       = bnd (check_DMA_status sts (snd a) ?tag 1) (\<lambda>_. buf_set ?idx Status STATUS_RESERVED) ?r"
    proof -
      have wm: "map snd (stream_in ?s1 ?net) = snd a # snd b # snd c # snd d # map snd ws'"
        unfolding w by simp
      have "?go ?s1 = bnd (check_DMA_status sts (snd a) ?tag 1) (\<lambda>_. buf_set ?idx Status STATUS_RESERVED) ?r"
        by (rule dequeue_record_run [OF wm w]) (use False tag len in \<open>simp_all add: bufv_def\<close>)
      then show ?thesis using False unfolding eq by simp
    qed
    have fedr: "fed t" and lt: "length (stream_in t ?dma) < length (stream_in s ?dma)"
      if "stream_in t = stream_in ?r" "use_tcp t = use_tcp s" for t
    proof -
      show "length (stream_in t ?dma) < length (stream_in s ?dma)"
        using that(1) ch(1) by (simp add: recorded_def sts)
      have "rx_dma t = ?dma" "rx_net t = ?net" using that(2) by (simp_all add: rx_dma_def rx_net_def)
      then show "fed t" using that(1) ch(1) fed2 w by (simp add: fed_def recorded_def)
    qed
    let ?h = "[snd a, snd b, snd c, snd d]"
    have ok: "isr_ok s t"
      if "t = (let u = ?r in u\<lparr>mem := (mem u)(buf_addr ?idx Status := st)\<rparr>)" "st \<noteq> STATUS_ENQUEUED"
        "st = STATUS_RESERVED \<longrightarrow> status_ok sts (snd a) ?tag True" for t st
    proof -
      have "bufv s i Status = STATUS_RESERVED \<or> arrives s (header_of t i) (Got ?dma sts # map (Got ?net) ?h)"
        if i: "unat i < nbufs s" "bufv t i Status = STATUS_RESERVED" for i
      proof (cases "i = ?idx")
        case True
        have n: "unat ?idx \<le> 113" using idx inv by (simp add: rx_inv_def)
        have bt: "bufv t ?idx f = (if f = Status then st else bufv ?r ?idx f)" for f
          using bufv_write [OF n n, of ?r Status st f] \<open>t = _\<close> by (simp add: Let_def bufv_def)
        have "header_of t ?idx = ?h"
          by (simp add: header_of_def bt recorded_bufv [OF n n])
        moreover have "status_ok sts (snd a) ?tag True"
          using \<open>st = _ \<longrightarrow> _\<close> i(2) bt [of Status] True by simp
        ultimately show ?thesis using True by (auto simp: arrives_def)
      next
        case False
        then show ?thesis using i recorded_other [OF inv1 _ _ False \<open>t = _\<close>, of Status] idx same by simp
      qed
      then have "isr_events s t"
        using ch \<open>t = _\<close> by (auto simp: isr_events_def Let_def recorded_def)
      moreover
      have "rx_inv t" "isr_frame ?s1 t"
        using recorded_ok [OF inv1 tag _ _ ch(3) that(2,1)] idx same(3) by simp_all
      moreover have "fed t" by (rule fedr) (simp_all add: that(1) Let_def recorded_def)
      ultimately show ?thesis
        using fr1 inv that(1) by (auto simp: isr_ok_def rx_inv_def Let_def recorded_def intro: isr_frame_trans)
    qed
    let ?t = "let u = ?r in u\<lparr>mem := (mem u)(buf_addr ?idx Status := STATUS_RESERVED)\<rparr>"
    have okR: "status_ok sts (snd a) ?tag True \<Longrightarrow> isr_ok s ?t" and okE: "isr_ok s ?r"
      using ok [OF refl, of STATUS_RESERVED] ok [OF recorded_status] by simp_all
    have "ends (bnd (check_DMA_status sts (snd a) ?tag 1) (\<lambda>_. buf_set ?idx Status STATUS_RESERVED)) ?r
      (\<lambda>_ s'. isr_ok s s' \<and> length (stream_in s' ?dma) < length (stream_in s ?dma))
      (\<lambda>c s'. deq_error c \<and> isr_ok s s')"
    proof (rule ends_bndI [OF ends_weaken [OF check_DMA_status_ends]])
      fix x u assume "u = ?r \<and> status_ok sts (snd a) ?tag (1 = (1 :: u32))"
      then show "ends (buf_set ?idx Status STATUS_RESERVED) u
        (\<lambda>_ s'. isr_ok s s' \<and> length (stream_in s' ?dma) < length (stream_in s ?dma))
        (\<lambda>c s'. deq_error c \<and> isr_ok s s')"
        using okR lt [of ?t] by (simp add: ends_def buf_run Let_def recorded_def)
    qed (use okE in \<open>auto simp: deq_error_def\<close>)
    then show ?thesis unfolding ends_def run .
  qed
qed

lemma isr_ok_trans:
  assumes "rx_inv s" and "isr_ok s t" and "isr_ok t u"
  shows "isr_ok s u"
  using assms by (auto simp: isr_ok_def rx_inv_def intro: isr_frame_trans isr_events_trans)

lemma polled_isr_ok:
  assumes "rx_inv s" and "fed s" and "polled s t" and "\<forall>c. c \<noteq> rx_dma s \<longrightarrow> stream_in t c = stream_in s c"
  shows "isr_ok s t" and "length (stream_in t c) = length (stream_in s c)"
proof -
  from assms(3) obtain si where t: "t = s\<lparr>stream_in := si\<rparr>"
    and si: "\<And>ch. map snd (si ch) = map snd (stream_in s ch)" by (rule polledE) blast
  have len: "length (si ch) = length (stream_in s ch)" for ch
    using arg_cong [OF si, of length] by simp
  then show "length (stream_in t c) = length (stream_in s c)" by (simp add: t)
  show "isr_ok s t"
    using assms(1,2) si len
    by (simp add: t isr_ok_def rx_inv_def tag_ok_def buf_ok_def nbufs_def bufv_def Let_def fed_def rx_dma_def
        rx_net_def isr_frame_def inputs_kept_def isr_events_def)
qed

lemma isr_ok_settings:
  assumes "isr_ok s t" and "rx_inv s"
  shows "rx_dma t = rx_dma s" and "rx_net t = rx_net s" and "rx_inv t" and "fed t"
    and "mem t RX_BUFFER_COUNT_OFFSET = mem s RX_BUFFER_COUNT_OFFSET" and "timeout t = timeout s"
  using assms isr_frame_nbufs [of s t]
  by (simp_all add: isr_ok_def rx_dma_def rx_net_def isr_frame_def rx_inv_def nbufs_def word_unat_eq_iff)

lemma dequeue_rx_buffers_ends:
  assumes inv: "rx_inv s" and fed: "fed s"
  shows "ends dequeue_rx_buffers s (\<lambda>_ s'. isr_ok s s') (\<lambda>c s'. deq_error c \<and> isr_ok s s')"
proof -
  let ?nb = "mem s RX_BUFFER_COUNT_OFFSET"
  let ?I = "\<lambda>count :: u32. \<lambda>t. count = 0 \<and> isr_ok s t"
  let ?R = "measure (\<lambda>(count :: u32, t). length (stream_in t (rx_dma s)))"
  have s0: "isr_ok s s" using assms by (simp add: isr_ok_def)
  have "ends (loop (dequeue_step (rx_dma s) (rx_net s) ?nb) 0) s (\<lambda>_ s'. isr_ok s s')
     (\<lambda>c s'. deq_error c \<and> isr_ok s s')"
  proof (rule loop_ends [where I = ?I and R = ?R])
    fix count :: u32 and t assume I: "?I count t"
    then have t: "isr_ok s t" and c: "count = 0" by auto
    note st = isr_ok_settings [OF t inv]
    let ?P = "\<lambda>z s'. case z of Inl y \<Rightarrow> ?I y s' \<and> ((y, s'), (count, t)) \<in> ?R | Inr v \<Rightarrow> isr_ok s s'"
    let ?E = "\<lambda>c s'. deq_error c \<and> isr_ok s s'"
    have "ends (bnd (tngetd (rx_dma s)) (\<lambda>invalid.
       if invalid = 0 then bnd (dequeue_one (rx_dma s) (rx_net s) ?nb) (\<lambda>_. ret (Inl 0))
       else ret (Inr 0))) t ?P ?E"
    proof (rule ends_bndI [OF ends_weaken [OF tngetd_ends]])
      fix i :: u32 and u
      assume "polled t u \<and> (i = 0 \<and> avail u (rx_dma s) \<or> i = 1) \<and>
         (\<forall>c. c \<noteq> rx_dma s \<longrightarrow> stream_in u c = stream_in t c)"
      then have p: "polled t u" and i: "i = 0 \<and> avail u (rx_dma s) \<or> i = 1"
        and k: "\<forall>c. c \<noteq> rx_dma t \<longrightarrow> stream_in u c = stream_in t c"
        by (auto simp: st)
      note tu = polled_isr_ok [OF st(3,4) p k]
      have su: "isr_ok s u" by (rule isr_ok_trans [OF inv t tu(1)])
      note su' = isr_ok_settings [OF su inv]
      show "ends (if i = 0 then bnd (dequeue_one (rx_dma s) (rx_net s) ?nb) (\<lambda>_. ret (Inl 0))
         else ret (Inr 0)) u ?P ?E"
      proof (cases "i = 0")
        case True
        with i have "avail u (rx_dma u)" by (simp add: su')
        note one = dequeue_one_ends [OF su'(3) this su'(4) su'(5) [symmetric], unfolded su'(1,2)]
        have "ends (bnd (dequeue_one (rx_dma s) (rx_net s) ?nb) (\<lambda>_. ret (Inl 0))) u ?P ?E"
          by (rule ends_bndI [OF ends_weaken [OF one]])
            (auto simp: tu(2) intro: isr_ok_trans [OF inv su])
        with True show ?thesis by simp
      next
        case False
        with su show ?thesis by simp
      qed
    qed simp
    then show "ends (dequeue_step (rx_dma s) (rx_net s) ?nb count) t ?P ?E"
      by (simp add: dequeue_step_def c)
  qed (use s0 in simp_all)
  then show ?thesis
    by (simp add: dequeue_rx_buffers_def ends_def bnd_def xil_in32_ram prim_run rx_dma_def rx_net_def)
qed

subsection \<open>The interrupt handler keeps the invariant\<close>

lemma isr_frame_periph:
  assumes "rx_inv s" and "fed s" and "periph_only s t"
    and regs: "\<And>a. a \<notin> isr_registers \<Longrightarrow> mem t a = mem s a"
  shows "isr_ok s t"
proof -
  from assms(3) obtain m r ws where t: "t = s\<lparr>mem := m, reg_script := r, trace := trace s @ ws\<rparr>"
    and m: "\<And>a. a < 0x2000 \<Longrightarrow> m a = mem s a" and ws: "list_all is_Wr ws" by (rule periph_onlyE) blast
  have n: "nbufs s \<le> 113" using assms(1) by (simp add: rx_inv_def)
  have nb: "nbufs t = nbufs s" by (simp add: t nbufs_def m)
  have b: "bufv t i f = bufv s i f" if "unat i < nbufs s" for i f
    using buf_addr_low(3) [of i f] that n by (simp add: t bufv_def m)
  have "rx_inv t"
    using assms(1) n nb b
    by (auto simp: rx_inv_def tag_ok_def buf_ok_def Let_def t unat_of_nat_le [of _ "mem s 0x1000"] nbufs_def)
  then show ?thesis
    using assms(2) b regs
    by (simp add: isr_ok_def isr_frame_def isr_words_def isr_events_def words_on_writes [OF ws] fed_def rx_dma_def rx_net_def t inputs_kept_def)
qed

text \<open>
  \<open>isr_keeps m\<close>: from any state that satisfies the invariant and is fed, \<open>m\<close> ends, and leaves the
  invariant, the frame and the feeding of the streams, on return and on a jump.
\<close>

definition isr_keeps :: "'a fw \<Rightarrow> bool" where
  "isr_keeps m \<longleftrightarrow> (\<forall>s. rx_inv s \<longrightarrow> fed s \<longrightarrow>
     ends m s (\<lambda>_ s'. isr_ok s s') (\<lambda>c s'. deq_error c \<and> isr_ok s s'))"

lemma isr_keeps_bnd:
  assumes "isr_keeps m" and "\<And>a. isr_keeps (f a)"
  shows "isr_keeps (bnd m f)"
  unfolding isr_keeps_def
proof (intro allI impI)
  fix s assume s: "rx_inv s" "fed s"
  show "ends (bnd m f) s (\<lambda>_ s'. isr_ok s s') (\<lambda>c s'. deq_error c \<and> isr_ok s s')"
  proof (rule ends_bndI [where Q' = "\<lambda>_ s'. isr_ok s s'"])
    show "ends m s (\<lambda>_ s'. isr_ok s s') (\<lambda>c s'. deq_error c \<and> isr_ok s s')"
      using assms(1) s by (simp add: isr_keeps_def)
    fix a t assume t: "isr_ok s t"
    then have "rx_inv t" "fed t" by (simp_all add: isr_ok_def)
    then have "ends (f a) t (\<lambda>_ s'. isr_ok t s') (\<lambda>c s'. deq_error c \<and> isr_ok t s')"
      using assms(2) by (simp add: isr_keeps_def)
    then show "ends (f a) t (\<lambda>_ s'. isr_ok s s') (\<lambda>c s'. deq_error c \<and> isr_ok s s')"
      by (rule ends_weaken) (auto intro: isr_ok_trans [OF s(1) t])
  qed
qed

lemma isr_ok_refl: "rx_inv s \<Longrightarrow> fed s \<Longrightarrow> isr_ok s s"
  by (simp add: isr_ok_def)

lemma isr_keeps_ret: "isr_keeps (ret a)"
  by (simp add: isr_keeps_def isr_ok_refl)

lemma isr_keeps_getf: "isr_keeps (getf h)"
  by (simp add: isr_keeps_def isr_ok_refl)

lemmas isr_keeps_prim = isr_keeps_ret isr_keeps_getf

lemma isr_keeps_whenM: "isr_keeps m \<Longrightarrow> isr_keeps (whenM b m)"
  by (simp add: whenM_def isr_keeps_prim)

lemma isr_keeps_if: "isr_keeps m \<Longrightarrow> isr_keeps m' \<Longrightarrow> isr_keeps (if b then m else m')"
  by simp

lemma isr_keeps_blk: "list_all isr_keeps ms \<Longrightarrow> isr_keeps (blk ms)"
  by (induction ms) (auto intro: isr_keeps_bnd isr_keeps_prim)

lemma isr_keeps_out:
  assumes "a \<in> isr_registers"
  shows "isr_keeps (xil_out32 a v)"
proof -
  have "isr_ok s (s\<lparr>mem := (mem s)(a := v), trace := trace s @ [Wr a v]\<rparr>)" if "rx_inv s" "fed s" for s
    by (rule isr_frame_periph [OF that periph_only_write [OF isr_register_high [OF assms]]]) (use assms in auto)
  then show ?thesis by (simp add: isr_keeps_def ends_def xil_out32_run)
qed

lemma isr_keeps_in: "isr_keeps (xil_in32 a)"
  unfolding isr_keeps_def
  by (intro allI impI, rule ends_weaken [OF xil_in32_ends])
    (auto intro!: isr_frame_periph reg_reads_periph elim: reg_readsE)

lemma isr_keeps_timing: "isr_keeps (xil_out32 TIME_TO_ACCESS_EXCH_MEM v)"
proof -
  have "isr_ok s t" if inv: "rx_inv s" and fed: "fed s"
    and t: "t = s\<lparr>mem := (mem s)(0x1FF4 := v), trace := trace s @ [Wr 0x1FF4 v]\<rparr>" for s t
  proof -
    have n: "nbufs s \<le> 113" using inv by (simp add: rx_inv_def)
    have nb: "nbufs t = nbufs s" by (simp add: t nbufs_def)
    have b: "bufv t i f = bufv s i f" if "unat i < nbufs s" for i f
      using buf_addr_low(1) [of i f] that n by (auto simp: t bufv_def)
    have "rx_inv t"
      using inv n nb b
      by (auto simp: rx_inv_def tag_ok_def buf_ok_def Let_def t unat_of_nat_le [of _ "mem s 0x1000"] nbufs_def)
    then show ?thesis
      using fed b by (simp add: isr_ok_def isr_frame_def isr_words_def isr_events_def fed_def rx_dma_def rx_net_def t inputs_kept_def)
  qed
  then show ?thesis by (simp add: isr_keeps_def ends_def xil_out32_run)
qed

lemma isr_keeps_enqueue: "isr_keeps enqueue_rx_buffers"
  unfolding isr_keeps_def
proof (intro allI impI)
  fix s assume s: "rx_inv s" "fed s"
  have "isr_ok s t" if "rx_inv t \<and> enq_frame s t" for t
    using s that by (simp add: isr_ok_def enq_frame_def fed_def rx_dma_def rx_net_def isr_frame_def)
  then show "ends enqueue_rx_buffers s (\<lambda>_ s'. isr_ok s s') (\<lambda>c s'. deq_error c \<and> isr_ok s s')"
    by (intro ends_weaken [OF enqueue_rx_buffers_ends [OF s(1)]]) auto
qed

lemma isr_keeps_dequeue: "isr_keeps dequeue_rx_buffers"
  using dequeue_rx_buffers_ends by (simp add: isr_keeps_def)

lemmas isr_keeps_rules =
  isr_keeps_bnd isr_keeps_prim isr_keeps_whenM isr_keeps_if isr_keeps_in isr_keeps_timing
  isr_keeps_enqueue isr_keeps_dequeue

lemma isr_keeps_periph_ops:
  "isr_keeps clear_timer_interrupt" "isr_keeps start_timer1" "isr_keeps read_timer1"
  "isr_keeps (setup_irq v)" "isr_keeps (start_timeout v)" "isr_keeps cancel_timeout"
  "isr_keeps (ack_irq v)" "isr_keeps get_irq"
  by (auto simp: clear_timer_interrupt_def start_timer1_def read_timer1_def setup_irq_def disable_irq_def
      set_irq_def enable_irq_def start_timeout_def cancel_timeout_def ack_irq_def get_irq_def Let_def
      simp del: blk.simps xil_out32_bnd intro!: isr_keeps_blk isr_keeps_out isr_keeps_in)

lemma isr_keeps_stream_isr: "isr_keeps stream_isr"
  unfolding stream_isr_def Let_def
  by (intro isr_keeps_rules isr_keeps_periph_ops isr_keeps_blk)
    (simp_all add: isr_keeps_periph_ops del: blk.simps)

text \<open>An interrupt window: the same, except that a jump out of the handler leaves interrupts disabled.\<close>

definition win_ok :: "fw_state \<Rightarrow> fw_state \<Rightarrow> bool" where
  "win_ok s s' \<longleftrightarrow> rx_inv s' \<and> fed s' \<and> isr_frame s s' \<and> isr_events s s'"

lemma win_ok_trans: "rx_inv s \<Longrightarrow> win_ok s t \<Longrightarrow> win_ok t u \<Longrightarrow> win_ok s u"
  by (auto simp: win_ok_def rx_inv_def intro: isr_frame_trans isr_events_trans)

lemma win_ok_flags:
  "rx_inv s \<Longrightarrow> fed s \<Longrightarrow> win_ok s (s\<lparr>irqs := q\<rparr>)"
  "rx_inv s \<Longrightarrow> fed s \<Longrightarrow> win_ok s (s\<lparr>ie := b\<rparr>)"
  by (simp_all add: win_ok_def rx_inv_def tag_ok_def buf_ok_def nbufs_def bufv_def Let_def fed_def
      rx_dma_def rx_net_def isr_frame_def inputs_kept_def isr_events_def)

lemma interrupt_window_ends:
  assumes inv: "rx_inv s" and fed: "fed s"
  shows "ends interrupt_window s (\<lambda>_ s'. win_ok s s' \<and> ie s' = ie s)
     (\<lambda>c s'. deq_error c \<and> win_ok s s' \<and> ie s \<and> \<not> ie s')"
proof (cases "irqs s")
  case Nil
  with assms show ?thesis by (simp add: interrupt_window_def win_ok_def)
next
  case (Cons b q)
  let ?t = "s\<lparr>irqs := q\<rparr>"
  have t: "win_ok s ?t" by (rule win_ok_flags [OF assms])
  show ?thesis
  proof (cases "b \<and> ie s")
    case False
    with Cons t show ?thesis by (cases b) (simp_all add: interrupt_window_def whenM_def)
  next
    case True
    let ?u = "?t\<lparr>ie := False\<rparr>"
    have u: "win_ok s ?u"
      by (rule win_ok_trans [OF inv t], rule win_ok_flags) (use t in \<open>simp_all add: win_ok_def\<close>)
    have "ends stream_isr ?u (\<lambda>_ s'. isr_ok ?u s') (\<lambda>c s'. deq_error c \<and> isr_ok ?u s')"
      using isr_keeps_stream_isr u by (simp add: isr_keeps_def win_ok_def)
    then have "ends (bnd stream_isr (\<lambda>_. modf (\<lambda>s. s\<lparr>ie := True\<rparr>))) ?u
       (\<lambda>_ s'. win_ok s s' \<and> ie s' = ie s) (\<lambda>c s'. deq_error c \<and> win_ok s s' \<and> ie s \<and> \<not> ie s')"
    proof (rule ends_bndI [OF ends_weaken])
      fix c v assume "deq_error c \<and> isr_ok ?u v"
      then have "win_ok ?u v" "\<not> ie v" "deq_error c" by (auto simp: isr_ok_def win_ok_def)
      with True show "deq_error c \<and> win_ok s v \<and> ie s \<and> \<not> ie v"
        by (auto intro: win_ok_trans [OF inv u])
    next
      fix x v assume "isr_ok ?u v"
      then have v: "win_ok ?u v" by (auto simp: isr_ok_def win_ok_def)
      then have sv: "win_ok s v" by (rule win_ok_trans [OF inv u])
      then have "win_ok s (v\<lparr>ie := True\<rparr>)"
        by (intro win_ok_trans [OF inv sv] win_ok_flags) (simp_all add: win_ok_def)
      with True show "ends (modf (\<lambda>s. s\<lparr>ie := True\<rparr>)) v
        (\<lambda>_ s'. win_ok s s' \<and> ie s' = ie s) (\<lambda>c s'. deq_error c \<and> win_ok s s' \<and> ie s \<and> \<not> ie s')"
        by simp
    qed
    with Cons True show ?thesis
      by (simp add: interrupt_window_def whenM_def bnd_ret_right)
  qed
qed

lemma enable_interrupts_ends:
  assumes inv: "rx_inv s" and fed: "fed s"
  shows "ends microblaze_enable_interrupts s (\<lambda>_ s'. win_ok s s' \<and> ie s')
     (\<lambda>c s'. deq_error c \<and> win_ok s s' \<and> \<not> ie s')"
proof -
  have t: "win_ok s (s\<lparr>ie := True\<rparr>)" by (rule win_ok_flags [OF assms])
  then have "rx_inv (s\<lparr>ie := True\<rparr>)" "fed (s\<lparr>ie := True\<rparr>)" by (simp_all add: win_ok_def)
  from interrupt_window_ends [OF this]
  have "ends interrupt_window (s\<lparr>ie := True\<rparr>) (\<lambda>_ s'. win_ok s s' \<and> ie s')
     (\<lambda>c s'. deq_error c \<and> win_ok s s' \<and> \<not> ie s')"
    by (rule ends_weaken) (auto intro: win_ok_trans [OF inv t])
  then show ?thesis
    by (simp add: microblaze_enable_interrupts_def bnd_ret_right)
qed

subsection \<open>Properties\<close>

text \<open>An idle receive ring for the examples: three empty buffers, the second at address \<open>0x100000\<close>.\<close>

definition three_buffers :: fw_state where
  "three_buffers = (boot_state ((\<lambda>_. 0)(0x1000 := 3, 0x1004 + 36 := 0x100000)) (\<lambda>_. []) (\<lambda>_. []) [])
     \<lparr>dma_tag_lookup := replicate 16 (- 1)\<rparr>"

lemma three_buffers_bufv:
  "i \<in> {0, 1, 2} \<Longrightarrow> bufv three_buffers i f = (if i = 1 \<and> f = Addrl then 0x100000 else 0)"
  by (cases f) (auto simp: three_buffers_def bufv_def buf_addr_def rx_offset_def)

lemma three_buffers_nbufs: "nbufs three_buffers = 3"
  by (simp add: three_buffers_def nbufs_def)

lemma three_buffers_inv: "rx_inv three_buffers"
proof -
  have "buf_ok three_buffers i" if "i < 3" for i
    using that three_buffers_bufv [of "of_nat i" Status]
    by (auto simp: buf_ok_def less_Suc_eq numeral_eq_Suc)
  then show ?thesis
    by (simp add: rx_inv_def three_buffers_nbufs)
      (simp add: three_buffers_def tag_ok_def used_tags_def sum_list_replicate)
qed

lemma three_buffers_fed: "fed three_buffers"
  by (simp add: three_buffers_def fed_def)

text \<open>\<open>enqueue_rx_buffers\<close> never fails and keeps the bookkeeping of the receive buffers consistent: afterwards too every
tag in use names an enqueued buffer that carries it, every enqueued buffer has its tag in the table, and
\<open>num_rx_enqueued\<close> counts them; buffers that hold a message, and the address of every buffer, are untouched.\<close>

lemma enqueue_rx_buffers_consistent:
  assumes "rx_inv s"
  shows "ends enqueue_rx_buffers s
     (\<lambda>r s'. rx_inv s' \<and> isr_frame s s' \<and> stream_in s' = stream_in s \<and> ie s' = ie s \<and> irqs s' = irqs s)
     (\<lambda>_ _. False)"
  by (rule ends_weaken [OF enqueue_rx_buffers_ends [OF assms]]) (simp_all add: enq_frame_def)

text \<open>Enqueueing one idle buffer tells the data mover its own address, under the tag that is then the buffer's in the
table, and marks it enqueued.\<close>

lemma enqueue_one_posts_buffer:
  assumes "rx_inv s" and "unat i < nbufs s" and "bufv s i Status = STATUS_IDLE" and "t < 16"
    and "dma_tag_lookup s ! unat t = - 1"
  shows "\<exists>es s'. enqueue_one q i t s = Some (Ret (), s') \<and> trace s' = trace s @ es \<and>
     dma_decode es = Some (DMA_MAX_BTT, push_bit 32 (ucast (bufv s i Addrh)) OR ucast (bufv s i Addrl), t, True) \<and>
     bufv s' i Status = STATUS_ENQUEUED \<and> bufv s' i Dma_tag = t \<and> dma_tag_lookup s' ! unat t = i \<and>
     (\<forall>j f. unat j < nbufs s \<longrightarrow> j \<noteq> i \<longrightarrow> bufv s' j f = bufv s j f) \<and> rx_inv s'"
proof -
  have n: "nbufs s \<le> 113" and len: "length (dma_tag_lookup s) = 16" using assms(1) by (simp_all add: rx_inv_def)
  have t16: "unat t < 16" using assms(4) by (simp add: word_less_nat_alt)
  let ?s = "enqueued q i t s"
  let ?es = "[Put q (0xC0800000 OR DMA_MAX_BTT), Put q (bufv s i Addrl), Put q (bufv s i Addrh), CPut q (0x2000 OR t)]"
  have "enqueue_one q i t s = Some (Ret (), ?s)" using t16 len by (simp add: enqueue_one_run)
  moreover have "trace ?s = trace s @ ?es" by (simp add: enqueued_def)
  moreover have "dma_decode ?es = Some (DMA_MAX_BTT, push_bit 32 (ucast (bufv s i Addrh)) OR ucast (bufv s i Addrl), t, True)"
    using dma_decode_words(1) [of DMA_MAX_BTT t q] assms(4) by (simp add: dma_words_def)
  moreover have "rx_inv ?s" by (rule enqueued_inv [OF assms(1-3) t16 assms(5)])
  moreover have "bufv ?s i Status = STATUS_ENQUEUED" "bufv ?s i Dma_tag = t"
    "\<forall>j f. unat j < nbufs s \<longrightarrow> j \<noteq> i \<longrightarrow> bufv ?s j f = bufv s j f"
    using n assms(2) by (simp_all add: enqueued_bufv)
  moreover have "dma_tag_lookup ?s ! unat t = i" using t16 len by (simp add: enqueued_def)
  ultimately show ?thesis by blast
qed

text \<open>\<open>dequeue_rx_buffers\<close> ends and keeps the bookkeeping consistent whatever tags and statuses the hardware reports,
provided each data mover status comes with the four words of its message header.  It returns, or jumps with a buffer or DMA
error; the time-out of the loop is never raised, because the counter restarts at every status.\<close>

lemma dequeue_rx_buffers_consistent:
  assumes "rx_inv s" and "fed s"
  shows "ends dequeue_rx_buffers s
     (\<lambda>_ s'. rx_inv s' \<and> fed s' \<and> isr_frame s s')
     (\<lambda>c s'. c \<noteq> DEQUEUE_BUFFER_TIMEOUT_ERROR \<and> deq_error c \<and> rx_inv s' \<and> fed s' \<and> isr_frame s s')"
  by (rule ends_weaken [OF dequeue_rx_buffers_ends [OF assms]]) (auto simp: isr_ok_def deq_error_def dma_error_def)

text \<open>A status word for an enqueued buffer is matched with the next header on the network side: the buffer that carries
the tag takes the header's length, tag, sender and sequence number and becomes reserved, its tag is free again, and no other
buffer changes.\<close>

lemma dequeue_one_records_header:
  assumes "rx_inv s" and "stream_in s dma = (0, sts) # ws" and "dma \<noteq> net"
    and "stream_in s net = (d0, len) # (d1, rt) # (d2, src) # (d3, sq) # ws'"
    and "dma_tag_lookup s ! unat (sts AND 0xF) = i" and "i \<noteq> - 1" and "status_ok sts len (sts AND 0xF) True"
    and "nb = mem s RX_BUFFER_COUNT_OFFSET"
  shows "\<exists>s'. dequeue_one dma net nb s = Some (Ret (), s') \<and> nbufs s' = nbufs s \<and> unat i < nbufs s \<and>
     bufv s' i Status = STATUS_RESERVED \<and> bufv s' i Rx_len = len \<and> bufv s' i Rx_tag = rt \<and>
     bufv s' i Rx_src = src \<and> bufv s' i Sequence_number = sq \<and>
     (\<forall>f. f \<in> {Addrl, Addrh, Max_len} \<longrightarrow> bufv s' i f = bufv s i f) \<and>
     (\<forall>j f. unat j < nbufs s \<longrightarrow> j \<noteq> i \<longrightarrow> bufv s' j f = bufv s j f) \<and>
     dma_tag_lookup s' = (dma_tag_lookup s)[unat (sts AND 0xF) := - 1] \<and>
     num_rx_enqueued s' = num_rx_enqueued s - 1 \<and>
     stream_in s' = (stream_in s)(dma := ws, net := ws')"
proof -
  let ?tag = "sts AND 0xF"
  let ?s1 = "s\<lparr>stream_in := (stream_in s)(dma := ws), trace := trace s @ [Got dma sts]\<rparr>"
  have "?tag \<le> 0xF" by (rule word_and_le1)
  then have tag: "unat ?tag < 16" by (simp add: word_le_nat_alt)
  have n: "nbufs s \<le> 113" and len: "length (dma_tag_lookup s) = 16"
    and tg: "tag_ok s (unat ?tag)" using assms(1) tag by (simp_all add: rx_inv_def)
  have i: "unat i < nbufs s" "bufv s i Status = STATUS_ENQUEUED" "bufv s i Dma_tag = ?tag"
    using tg assms(5,6) by (simp_all add: tag_ok_def)
  have same: "\<And>i f. bufv ?s1 i f = bufv s i f" by (simp add: bufv_def)
  have nb: "\<not> nb \<le> i" using i(1) assms(8) by (simp add: nbufs_def word_le_nat_alt)
  let ?r = "recorded net ?tag i [len, rt, src, sq] ws' ?s1"
  let ?t = "?r\<lparr>mem := (mem ?r)(buf_addr i Status := STATUS_RESERVED)\<rparr>"
  have g: "getd dma s = Some (Ret sts, ?s1)" by (simp add: getd_def assms(2))
  have w: "stream_in ?s1 net = (d0, len) # (d1, rt) # (d2, src) # (d3, sq) # ws'"
    using assms(3,4) by simp
  have "dequeue_one dma net nb s = dequeue_record net sts ?tag i ?s1"
    using tag len assms(5) i nb
    by (simp add: dequeue_one_def Let_def bnd_def g lookup_run buf_run prim_run same)
  also have "\<dots> = bnd (check_DMA_status sts len ?tag 1) (\<lambda>_. buf_set i Status STATUS_RESERVED) ?r"
    by (rule dequeue_record_run [OF _ w]) (use w tag len i(3) in \<open>simp_all add: bufv_def\<close>)
  also have "\<dots> = Some (Ret (), ?t)"
    using assms(7) by (simp add: bnd_def check_DMA_status_eq status_ok_def buf_run)
  finally have run: "dequeue_one dma net nb s = Some (Ret (), ?t)" .
  have b: "bufv ?t j f = (if j = i \<and> f = Status then STATUS_RESERVED else bufv ?r j f)" if "unat j < nbufs s" for j f
    using bufv_write [of i j ?r Status STATUS_RESERVED f] that i(1) n by (simp add: bufv_def)
  note rb = recorded_bufv [of i _ net ?tag len rt src sq ws' ?s1, unfolded same]
  have "unat i \<le> 112" using i(1) n by simp
  note low = buf_addr_low(2) [OF this, THEN not_sym]
  have nt: "nbufs ?t = nbufs s" using low by (simp add: nbufs_def recorded_def Let_def)
  show ?thesis
    by (rule exI [of _ ?t])
      (use run b rb i(1) n nt in \<open>auto simp: recorded_def [of net ?tag i "[len, rt, src, sq]" ws' ?s1]\<close>)
qed

text \<open>The example ring with buffer 1 enqueued under tag 4, and its message of 64 bytes on the wire.\<close>

definition arriving :: fw_state where
  "arriving = (enqueued CMD_DMA0_TX 1 4 three_buffers)
     \<lparr>stream_in := (\<lambda>_. [])(STS_DMA0_TX := [(0, 0x80004084)], STS_UDP_RX := [(0, 64), (0, 7), (0, 2), (0, 1)])\<rparr>"

lemma arriving_inv: "rx_inv arriving"
proof -
  have "rx_inv (enqueued CMD_DMA0_TX 1 4 three_buffers)"
    by (rule enqueued_inv [OF three_buffers_inv])
      (simp_all add: three_buffers_nbufs three_buffers_bufv, simp add: three_buffers_def)
  then show ?thesis
    by (simp add: arriving_def rx_inv_def tag_ok_def buf_ok_def nbufs_def bufv_def Let_def)
qed



text \<open>Enabling interrupts takes a pending one at once and leaves the buffers consistent.  When the handler returns
interrupts are enabled; when it jumps, they stay disabled.\<close>

lemma enable_interrupts_outcomes:
  assumes "rx_inv s" and "fed s"
  shows "ends microblaze_enable_interrupts s
     (\<lambda>_ s'. rx_inv s' \<and> fed s' \<and> isr_frame s s' \<and> ie s')
     (\<lambda>c s'. deq_error c \<and> rx_inv s' \<and> fed s' \<and> isr_frame s s' \<and> \<not> ie s')"
  by (rule ends_weaken [OF enable_interrupts_ends [OF assms]]) (auto simp: win_ok_def)

end
