(* ===== verification/Fw_Receive.thy ===== *)
theory Fw_Receive
  imports Fw_Movement Fw_Rx_Buffers
begin

text \<open>
  Receiving: the search for the buffer that holds the next message of a rank, and the four
  transfers that consume received segments (\<open>receive_offchip_world\<close>, \<open>receive_and_accumulate\<close>,
  \<open>receive_and_reduce_offchip\<close>, \<open>relay_to_other_rank\<close>), all instances of the loops of
  \<open>Fw_Pipeline\<close>.  The indices of the buffers in flight are kept in a ring of bytes.
\<close>

subsection \<open>Waiting for a message\<close>

text \<open>An \<open>int\<close> that may be \<open>-1\<close> is a \<open>u32\<close> read as signed.\<close>

definition rx_match :: "u32 \<Rightarrow> u32 \<Rightarrow> u32 \<Rightarrow> u32 \<Rightarrow> u32 \<Rightarrow> bool fw" where
  "rx_match i src_rank len src_tag seq_num =
     bnd (buf_get i Status) (\<lambda>st.
     bnd (buf_get i Rx_src) (\<lambda>src.
     bnd (buf_get i Rx_len) (\<lambda>l.
     bnd (buf_get i Rx_tag) (\<lambda>tag.
     bnd (buf_get i Sequence_number) (\<lambda>sq.
     ret (st = STATUS_RESERVED \<and> src = src_rank \<and> l = len \<and> (tag = src_tag \<or> src_tag = TAG_ANY) \<and>
          sq = seq_num))))))"

definition t_wait_receive_step ::
    "communicator \<Rightarrow> u32 \<Rightarrow> u32 \<Rightarrow> u32 \<Rightarrow> u32 \<Rightarrow> u32 \<Rightarrow> u32 \<Rightarrow> (u32 + u32) fw" where
  "t_wait_receive_step world src_rank len src_tag seq_num n i =
     (if i < n then
        bnd microblaze_disable_interrupts (\<lambda>_.
        bnd (rx_match i src_rank len src_tag seq_num) (\<lambda>found.
        if found then
          bnd (rank_get world src_rank inbound_seq) (\<lambda>q.
          bnd (rank_set world src_rank inbound_seq (q + 1)) (\<lambda>_.
          bnd microblaze_enable_interrupts (\<lambda>_. ret (Inr i))))
        else bnd microblaze_enable_interrupts (\<lambda>_. ret (Inl (i + 1)))))
      else ret (Inr (- 1)))"

definition t_wait_receive_world_i :: "communicator \<Rightarrow> u32 \<Rightarrow> u32 \<Rightarrow> u32 \<Rightarrow> u32 fw" where
  "t_wait_receive_world_i world src_rank len src_tag =
     bnd (rank_get world src_rank inbound_seq) (\<lambda>q.
     bnd (xil_in32 RX_BUFFER_COUNT_OFFSET) (\<lambda>n.
     loop (t_wait_receive_step world src_rank len src_tag (q + 1) n) 0))"

definition wait_receive_step :: "communicator \<Rightarrow> u32 \<Rightarrow> u32 \<Rightarrow> u32 \<Rightarrow> u32 \<Rightarrow> (u32 + u32) fw" where
  "wait_receive_step world src_rank len src_tag count =
     bnd (getf timeout) (\<lambda>tmo.
     if tmo = 0 \<or> count < tmo then
       bnd (t_wait_receive_world_i world src_rank len src_tag) (\<lambda>i.
       ret (if 0 \<le> sint i then Inr i else Inl (count + 1)))
     else longjmp RECEIVE_TIMEOUT_ERROR)"

definition wait_receive_world_i :: "communicator \<Rightarrow> u32 \<Rightarrow> u32 \<Rightarrow> u32 \<Rightarrow> u32 fw" where
  "wait_receive_world_i world src_rank len src_tag = loop (wait_receive_step world src_rank len src_tag) 0"

subsection \<open>The ring of buffers in flight\<close>

text \<open>
  \<open>spare_buffer_indexes\<close> is an array of \<open>max_dma_in_flight\<close> bytes, uninitialised (\<open>None\<close>) at first;
  an array of no bytes, an access outside it and reading an uninitialised byte are undefined.
\<close>

record rx_locals =
  op0_addr :: u64
  dst_addr :: u64
  rx_tag_tmp :: u32
  spare_buffer_indexes :: "u8 option list"
  ring_start :: u8
  ring_end :: u8

definition rx_locals0 :: "u64 \<Rightarrow> u64 \<Rightarrow> rx_locals fw" where
  "rx_locals0 op0 dst =
     bnd (getf max_dma_in_flight) (\<lambda>m.
     bnd (getf dma_tag) (\<lambda>tag.
     if m = 0 then undef
     else ret \<lparr>op0_addr = op0, dst_addr = dst, rx_tag_tmp = tag,
               spare_buffer_indexes = replicate (unat m) None, ring_start = 0, ring_end = 0\<rparr>))"

definition ring_next :: "u8 \<Rightarrow> u8 fw" where
  "ring_next i = bnd (getf max_dma_in_flight) (\<lambda>m. bnd (c_mod (ucast i + 1) m) (\<lambda>v. ret (ucast v)))"

definition ring_put :: "u32 \<Rightarrow> rx_locals \<Rightarrow> rx_locals fw" where
  "ring_put buf_idx l =
     (if unat (ring_end l) < length (spare_buffer_indexes l) then
        bnd (ring_next (ring_end l)) (\<lambda>e.
        ret (l\<lparr>spare_buffer_indexes := (spare_buffer_indexes l)[unat (ring_end l) := Some (ucast buf_idx)],
               ring_end := e\<rparr>))
      else undef)"

definition ring_take :: "rx_locals \<Rightarrow> (u32 \<times> rx_locals) fw" where
  "ring_take l =
     (if unat (ring_start l) < length (spare_buffer_indexes l) then
        (case spare_buffer_indexes l ! unat (ring_start l) of
           None \<Rightarrow> undef
         | Some b \<Rightarrow> bnd (ring_next (ring_start l)) (\<lambda>e. ret (ucast b, l\<lparr>ring_start := e\<rparr>)))
      else undef)"

text \<open>Wait for a segment, note its buffer in the ring, and deliver the buffer's address.\<close>

definition rx_segment :: "communicator \<Rightarrow> u32 \<Rightarrow> u32 \<Rightarrow> u32 \<Rightarrow> rx_locals \<Rightarrow> (u64 \<times> rx_locals) fw" where
  "rx_segment world src_rank src_tag curr_len l =
     bnd (wait_receive_world_i world src_rank curr_len src_tag) (\<lambda>buf_idx.
     bnd (buf_get buf_idx Addrh) (\<lambda>addrh.
     bnd (buf_get buf_idx Addrl) (\<lambda>addrl.
     bnd (ring_put buf_idx l) (\<lambda>l.
     ret (push_bit 32 (ucast addrh) OR ucast addrl, l)))))"

text \<open>Give the oldest buffer in flight back.\<close>

definition rx_release :: "rx_locals \<Rightarrow> rx_locals fw" where
  "rx_release l =
     bnd (ring_take l) (\<lambda>(buf_idx, l).
     bnd microblaze_disable_interrupts (\<lambda>_.
     bnd (buf_set buf_idx Status STATUS_IDLE) (\<lambda>_.
     bnd microblaze_enable_interrupts (\<lambda>_. ret l))))"

subsection \<open>The four transfers\<close>

definition receive_issue :: "communicator \<Rightarrow> u32 \<Rightarrow> u32 \<Rightarrow> u32 \<Rightarrow> rx_locals \<Rightarrow> rx_locals fw" where
  "receive_issue world src_rank src_tag curr_len l =
     bnd (rx_segment world src_rank src_tag curr_len l) (\<lambda>(rx_buff_addr, l).
     bnd (start_dma curr_len 0 rx_buff_addr (dst_addr l) 0 (USE_DMA1_RX OR USE_DMA1_TX) (rx_tag_tmp l)) (\<lambda>t.
     ret (l\<lparr>rx_tag_tmp := t, dst_addr := dst_addr l + ucast curr_len\<rparr>)))"

definition receive_ack :: "u32 \<Rightarrow> u32 \<Rightarrow> rx_locals \<Rightarrow> rx_locals fw" where
  "receive_ack what_DMAS curr_len l = bnd (ack_dma curr_len what_DMAS) (\<lambda>_. rx_release l)"

definition receive_offchip_world :: "communicator \<Rightarrow> u32 \<Rightarrow> u32 \<Rightarrow> u64 \<Rightarrow> u32 \<Rightarrow> u32 fw" where
  "receive_offchip_world world src_rank len dst src_tag =
     bnd (rx_locals0 0 dst) (\<lambda>l.
     bnd (cfg_switch DATAPATH_DMA_LOOPBACK ARITH_NONE) (\<lambda>_.
     bnd (pipelined (receive_issue world src_rank src_tag) (receive_issue world src_rank src_tag)
            (receive_ack (USE_DMA1_RX OR USE_DMA1_TX)) len l) (\<lambda>_.
     ret COLLECTIVE_OP_SUCCESS)))"

definition accumulate_issue :: "communicator \<Rightarrow> u32 \<Rightarrow> u32 \<Rightarrow> u32 \<Rightarrow> rx_locals \<Rightarrow> rx_locals fw" where
  "accumulate_issue world src_rank src_tag curr_len l =
     bnd (rx_segment world src_rank src_tag curr_len l) (\<lambda>(rx_buff_addr, l).
     bnd (start_dma curr_len (op0_addr l) rx_buff_addr (dst_addr l) 0
            (USE_DMA0_RX OR USE_DMA1_RX OR USE_DMA1_TX) (rx_tag_tmp l)) (\<lambda>t.
     ret (l\<lparr>rx_tag_tmp := t, op0_addr := op0_addr l + ucast curr_len,
            dst_addr := dst_addr l + ucast curr_len\<rparr>)))"

definition receive_and_accumulate ::
    "communicator \<Rightarrow> u32 \<Rightarrow> u32 \<Rightarrow> u32 \<Rightarrow> u64 \<Rightarrow> u64 \<Rightarrow> u32 \<Rightarrow> u32 fw" where
  "receive_and_accumulate world src_rank len func op0 dst src_tag =
     bnd (rx_locals0 op0 dst) (\<lambda>l.
     bnd (cfg_switch DATAPATH_DMA_REDUCTION ARITH_INTERNAL) (\<lambda>_.
     bnd (start_arith len func 0) (\<lambda>_.
     bnd (pipelined (accumulate_issue world src_rank src_tag) (accumulate_issue world src_rank src_tag)
            (receive_ack (USE_DMA0_RX OR USE_DMA1_RX OR USE_DMA1_TX)) len l) (\<lambda>_.
     bnd wait_arith (\<lambda>_.
     ret COLLECTIVE_OP_SUCCESS)))))"

text \<open>
  The two functions that send on what they receive: in the second loop they hand the packetizer
  a header after the segment has come and before its DMA commands (\<open>again\<close>).
\<close>

definition rx_header :: "bool \<Rightarrow> communicator \<Rightarrow> u32 \<Rightarrow> u32 \<Rightarrow> u32 \<Rightarrow> unit fw" where
  "rx_header again world dst_rank mpi_tag curr_len =
     whenM again
       (bnd (getf max_dma_in_flight) (\<lambda>m.
        bnd (start_packetizer_message world dst_rank curr_len mpi_tag (m - 1)) (\<lambda>_. ret ())))"

definition reduce_issue :: "bool \<Rightarrow> communicator \<Rightarrow> u32 \<Rightarrow> u32 \<Rightarrow> u32 \<Rightarrow> u32 \<Rightarrow> rx_locals \<Rightarrow> rx_locals fw" where
  "reduce_issue again world src_rank dst_rank mpi_tag curr_len l =
     bnd (rx_segment world src_rank mpi_tag curr_len l) (\<lambda>(rx_buff_addr, l).
     bnd (rx_header again world dst_rank mpi_tag curr_len) (\<lambda>_.
     bnd (start_dma curr_len (op0_addr l) rx_buff_addr 0 0 (USE_DMA0_RX OR USE_DMA1_RX) (rx_tag_tmp l)) (\<lambda>t.
     ret (l\<lparr>rx_tag_tmp := t, op0_addr := op0_addr l + ucast curr_len\<rparr>))))"

definition forward_ack :: "communicator \<Rightarrow> u32 \<Rightarrow> u32 \<Rightarrow> u32 \<Rightarrow> rx_locals \<Rightarrow> rx_locals fw" where
  "forward_ack world dst_rank what_DMAS curr_len l =
     bnd (ack_dma curr_len what_DMAS) (\<lambda>_.
     bnd (ack_packetizer world dst_rank 1) (\<lambda>_. rx_release l))"

definition receive_and_reduce_offchip ::
    "communicator \<Rightarrow> u32 \<Rightarrow> u32 \<Rightarrow> u32 \<Rightarrow> u32 \<Rightarrow> u64 \<Rightarrow> u32 \<Rightarrow> u32 fw" where
  "receive_and_reduce_offchip world src_rank dst_rank len func op0 mpi_tag =
     bnd (rx_locals0 op0 0) (\<lambda>l.
     bnd (getf use_tcp) (\<lambda>tcp.
     bnd (cfg_switch (if tcp \<noteq> 0 then DATAPATH_OFFCHIP_TCP_REDUCTION else DATAPATH_OFFCHIP_UDP_REDUCTION)
            ARITH_INTERNAL) (\<lambda>_.
     bnd (start_arith len func 0) (\<lambda>_.
     bnd (start_packetizer_message world dst_rank len mpi_tag 0) (\<lambda>_.
     bnd (pipelined (reduce_issue False world src_rank dst_rank mpi_tag)
            (reduce_issue True world src_rank dst_rank mpi_tag)
            (forward_ack world dst_rank (USE_DMA0_RX OR USE_DMA1_RX)) len l) (\<lambda>_.
     bnd wait_arith (\<lambda>_.
     ret COLLECTIVE_OP_SUCCESS)))))))"

definition relay_issue :: "bool \<Rightarrow> communicator \<Rightarrow> u32 \<Rightarrow> u32 \<Rightarrow> u32 \<Rightarrow> u32 \<Rightarrow> rx_locals \<Rightarrow> rx_locals fw" where
  "relay_issue again world src_rank dst_rank mpi_tag curr_len l =
     bnd (rx_segment world src_rank mpi_tag curr_len l) (\<lambda>(rx_buff_addr, l).
     bnd (rx_header again world dst_rank mpi_tag curr_len) (\<lambda>_.
     bnd (start_dma curr_len 0 rx_buff_addr 0 0 USE_DMA1_RX (rx_tag_tmp l)) (\<lambda>t.
     ret (l\<lparr>rx_tag_tmp := t\<rparr>))))"

definition relay_to_other_rank :: "communicator \<Rightarrow> u32 \<Rightarrow> u32 \<Rightarrow> u32 \<Rightarrow> u32 \<Rightarrow> u32 fw" where
  "relay_to_other_rank world src_rank dst_rank len mpi_tag =
     bnd (rx_locals0 0 0) (\<lambda>l.
     bnd (getf use_tcp) (\<lambda>tcp.
     bnd (cfg_switch (if tcp \<noteq> 0 then DATAPATH_OFFCHIP_TX_TCP else DATAPATH_OFFCHIP_TX_UDP) ARITH_NONE) (\<lambda>_.
     bnd (start_packetizer_message world dst_rank len mpi_tag 0) (\<lambda>_.
     bnd (pipelined (relay_issue False world src_rank dst_rank mpi_tag)
            (relay_issue True world src_rank dst_rank mpi_tag)
            (forward_ack world dst_rank USE_DMA1_RX) len l) (\<lambda>_.
     ret COLLECTIVE_OP_SUCCESS)))))"

end
