(* ===== verification/Fw_Receiving.thy ===== *)
theory Fw_Receiving
  imports Fw_Receive
begin

text \<open>
  Correctness of receiving.  The interrupt handler runs inside these functions, at every point where they
  enable interrupts; the relation \<open>rx_kept\<close> says what the two together may change, and where a message
  found in a buffer can have come from.  The transfers are instances of the loops of \<open>Fw_Pipeline\<close>, with
  the buffers in flight in a ring of bytes.
\<close>

subsection \<open>Main program and interrupt handler together\<close>

text \<open>A message of this header was in a buffer at the start, or arrived since.\<close>

definition came :: "fw_state \<Rightarrow> fw_state \<Rightarrow> u32 list \<Rightarrow> bool" where
  "came s s' h \<longleftrightarrow> (\<exists>i. unat i < nbufs s \<and> bufv s i Status = STATUS_RESERVED \<and> header_of s i = h) \<or>
     (\<exists>es. trace s' = trace s @ es \<and> arrives s h es)"

text \<open>
  \<open>rx_kept A s s'\<close>: bookkeeping is consistent, settings are as before, memory differs at most in \<open>A\<close> and where the
  handler writes, buffers have kept their addresses, and every message in a buffer came from somewhere.
\<close>

definition rx_kept :: "u32 set \<Rightarrow> fw_state \<Rightarrow> fw_state \<Rightarrow> bool" where
  "rx_kept A s s' \<longleftrightarrow> rx_inv s' \<and> fed s' \<and> nbufs s' = nbufs s \<and>
     use_tcp s' = use_tcp s \<and> timeout s' = timeout s \<and>
     dma_transaction_size s' = dma_transaction_size s \<and> max_dma_in_flight s' = max_dma_in_flight s \<and>
     (\<forall>a. a \<notin> A \<union> isr_words (nbufs s) \<longrightarrow> mem s' a = mem s a) \<and>
     (\<forall>i f. unat i < nbufs s \<longrightarrow> f \<in> {Addrl, Addrh, Max_len} \<longrightarrow> bufv s' i f = bufv s i f) \<and>
     prefix (trace s) (trace s') \<and>
     (\<forall>i. unat i < nbufs s \<longrightarrow> bufv s' i Status = STATUS_RESERVED \<longrightarrow> came s s' (header_of s' i))"

text \<open>While the main program waits, the handler also leaves messages in their buffers and the other engines alone.\<close>

definition waited :: "u32 set \<Rightarrow> fw_state \<Rightarrow> fw_state \<Rightarrow> bool" where
  "waited A s s' \<longleftrightarrow> rx_kept A s s' \<and> dma_tag s' = dma_tag s \<and>
     (\<forall>i. unat i < nbufs s \<longrightarrow> bufv s i Status = STATUS_RESERVED \<longrightarrow>
        bufv s' i Status = STATUS_RESERVED \<and> header_of s' i = header_of s i) \<and>
     (\<forall>ch. ch \<notin> {CMD_DMA0_TX, CMD_DMA2_TX} \<longrightarrow> words_on ch (trace s') = words_on ch (trace s))"

lemma rx_kept_refl: "rx_inv s \<Longrightarrow> fed s \<Longrightarrow> rx_kept A s s"
  by (auto simp: rx_kept_def came_def)

lemma came_mono:
  assumes "came s t h" and "prefix (trace t) (trace u)"
  shows "came s u h"
  using assms arrives_append [of s h _ "[]"] by (fastforce simp: came_def prefix_def)

lemma rx_kept_rx: "rx_kept A s t \<Longrightarrow> rx_dma t = rx_dma s \<and> rx_net t = rx_net s"
  by (simp add: rx_kept_def rx_dma_def rx_net_def)

lemma came_trans:
  assumes "rx_kept A s t" and "prefix (trace t) (trace u)" and "came t u h"
  shows "came s u h"
proof (cases "\<exists>i. unat i < nbufs t \<and> bufv t i Status = STATUS_RESERVED \<and> header_of t i = h")
  case True
  then have "came s t h" using assms(1) by (auto simp: rx_kept_def)
  then show ?thesis by (rule came_mono [OF _ assms(2)])
next
  case False
  with assms(3) obtain es where "trace u = trace t @ es" "arrives t h es" by (auto simp: came_def)
  moreover obtain fs where "trace t = trace s @ fs" using assms(1) by (auto simp: rx_kept_def prefix_def)
  ultimately show ?thesis
    using arrives_append [of s h es fs "[]"] rx_kept_rx [OF assms(1)] by (auto simp: came_def arrives_def)
qed

lemma rx_kept_trans:
  assumes "rx_kept A s t" and "rx_kept A t u"
  shows "rx_kept A s u"
proof -
  have p: "prefix (trace t) (trace u)" using assms(2) by (simp add: rx_kept_def)
  have "came s u (header_of u i)" if "unat i < nbufs s" "bufv u i Status = STATUS_RESERVED" for i
  proof (rule came_trans [OF assms(1) p])
    show "came t u (header_of u i)" using assms that by (simp add: rx_kept_def)
  qed
  then show ?thesis
    using assms unfolding rx_kept_def by (auto intro: prefix_order.trans)
qed

lemma rx_kept_mono: "rx_kept A s t \<Longrightarrow> A \<subseteq> B \<Longrightarrow> rx_kept B s t"
  unfolding rx_kept_def by blast

lemma waited_refl: "rx_inv s \<Longrightarrow> fed s \<Longrightarrow> waited A s s"
  by (simp add: waited_def rx_kept_refl)

lemma waited_trans: "waited A s t \<Longrightarrow> waited A t u \<Longrightarrow> waited A s u"
  unfolding waited_def by (simp add: rx_kept_trans [of A s t u]) (simp add: rx_kept_def)

lemma win_ok_waited:
  assumes "rx_inv s" and "win_ok s t"
  shows "waited A s t"
proof -
  have n: "nbufs s \<le> 113" using assms(1) by (simp add: rx_inv_def)
  have fr: "isr_frame s t" and iv: "rx_inv t" "fed t" using assms(2) by (simp_all add: win_ok_def)
  from assms(2) obtain es where es: "trace t = trace s @ es"
    and q: "\<And>ch. ch \<notin> {CMD_DMA0_TX, CMD_DMA2_TX} \<Longrightarrow> words_on ch es = []"
    and p: "\<And>i. unat i < nbufs s \<Longrightarrow> bufv t i Status = STATUS_RESERVED \<Longrightarrow>
        bufv s i Status = STATUS_RESERVED \<or> arrives s (header_of t i) es"
    unfolding win_ok_def isr_events_def by blast
  have "came s t (header_of t i)" if "unat i < nbufs s" "bufv t i Status = STATUS_RESERVED" for i
    using p [OF that] isr_frame_header(2) [OF fr that(1)] that(1) es by (auto simp: came_def)
  then have "rx_kept A s t"
    using fr iv isr_frame_nbufs [OF fr n] by (simp add: rx_kept_def isr_frame_def)
  then show ?thesis
    using isr_frame_header [OF fr] fr es q by (simp add: waited_def isr_frame_def)
qed

subsection \<open>Operations that leave the handler's input alone\<close>

text \<open>The streams the handler reads; \<open>leaves_rx m\<close>: whatever \<open>m\<close> does and however it ends, their words stay.\<close>

abbreviation (input) rx_streams :: "u32 set" where
  "rx_streams \<equiv> {STS_DMA0_TX, STS_DMA2_TX, STS_TCP_RX, STS_UDP_RX}"

definition same_rx :: "fw_state \<Rightarrow> fw_state \<Rightarrow> bool" where
  "same_rx s s' \<longleftrightarrow> (\<forall>c\<in>rx_streams. map snd (stream_in s' c) = map snd (stream_in s c))"

definition leaves_rx :: "'a fw \<Rightarrow> bool" where
  "leaves_rx m \<longleftrightarrow> (\<forall>s r s'. m s = Some (r, s') \<longrightarrow> same_rx s s')"

lemma same_rx_refl [simp]: "same_rx s s"
  by (simp add: same_rx_def)

lemma same_rx_trans: "same_rx s t \<Longrightarrow> same_rx t u \<Longrightarrow> same_rx s u"
  by (simp add: same_rx_def)

lemma same_rx_stream: "stream_in t = stream_in s \<Longrightarrow> same_rx s t"
  by (simp add: same_rx_def)

lemma leaves_rx_bnd: "leaves_rx m \<Longrightarrow> (\<And>a. leaves_rx (f a)) \<Longrightarrow> leaves_rx (bnd m f)"
  unfolding leaves_rx_def by (blast elim: bnd_SomeE intro: same_rx_trans)

lemma leaves_rx_prim:
  "leaves_rx (ret a)" "leaves_rx (longjmp c)" "leaves_rx undef" "leaves_rx (getf h)" "leaves_rx (load a')"
  "leaves_rx (store a' v)" "leaves_rx (modf (\<lambda>s. s\<lparr>dma_tag := t s\<rparr>))"
  by (auto simp: leaves_rx_def prim_run load_def store_def intro: same_rx_stream)

lemma leaves_rx_whenM: "leaves_rx m \<Longrightarrow> leaves_rx (whenM b m)"
  by (simp add: whenM_def leaves_rx_prim)

lemma leaves_rx_if: "leaves_rx m \<Longrightarrow> leaves_rx m' \<Longrightarrow> leaves_rx (if b then m else m')"
  by simp

lemma leaves_rx_loop:
  assumes "\<And>x. leaves_rx (body x)"
  shows "leaves_rx (loop body x)"
  unfolding leaves_rx_def
proof (intro allI impI)
  fix s r t assume "loop body x s = Some (r, t)"
  then show "same_rx s t"
  proof (rule loop_any [where I = "\<lambda>_ u. same_rx s u" and Q = "\<lambda>_ t. same_rx s t"])
    fix x u z v assume "same_rx s u" and "body x u = Some (z, v)"
    then have "same_rx s v" using assms same_rx_trans unfolding leaves_rx_def by blast
    then show "case z of Ret (Inl y) \<Rightarrow> same_rx s v | Ret (Inr w) \<Rightarrow> same_rx s v
       | Longjmp c \<Rightarrow> same_rx s v | Undef \<Rightarrow> same_rx s v" by (auto split: outcome.split sum.split)
  qed simp
qed

lemma leaves_rx_in:
  "c \<notin> rx_streams \<Longrightarrow> leaves_rx (tngetd c)" "c \<notin> rx_streams \<Longrightarrow> leaves_rx (getd c)"
  by (auto simp: leaves_rx_def tngetd_def getd_def same_rx_def split: list.splits prod.splits nat.splits)

lemmas leaves_rx_rules =
  leaves_rx_bnd leaves_rx_prim leaves_rx_whenM leaves_rx_if leaves_rx_loop leaves_rx_in

lemma leaves_rx_check: "leaves_rx (check_DMA_status a b c d)"
  unfolding check_DMA_status_def by (intro leaves_rx_rules)

lemma leaves_rx_ack_dma: "leaves_rx (ack_dma len what)"
  unfolding ack_dma_def ack_dma_poll_def ack_one_def probe_def blk.simps
  by (intro leaves_rx_rules leaves_rx_check) simp_all

lemma leaves_rx_ack_packetizer: "leaves_rx (ack_packetizer world dst n)"
  unfolding ack_packetizer_def ack_packetizer_step_def packetizer_poll_def rank_get_def rank_set_def
  by (intro leaves_rx_rules) simp_all

lemma ends_leaves_rx:
  assumes "leaves_rx m" and "ends m s Q E"
  shows "ends m s (\<lambda>a s'. Q a s' \<and> same_rx s s') (\<lambda>c s'. E c s' \<and> same_rx s s')"
proof -
  from assms(2) obtain r s' where m: "m s = Some (r, s')" and r: "sat Q E r s'" by (auto simp: ends_def)
  have "same_rx s s'" using assms(1) m by (simp add: leaves_rx_def)
  with r have "sat (\<lambda>a s'. Q a s' \<and> same_rx s s') (\<lambda>c s'. E c s' \<and> same_rx s s') r s'" by (cases r) auto
  with m show ?thesis by (auto simp: ends_def)
qed

subsection \<open>Steps of the main program\<close>

text \<open>Steps of the main program that leave the buffers alone.\<close>

lemma rx_inv_same_buffers:
  assumes "rx_inv s" and "nbufs t = nbufs s" and "\<And>i f. unat i < nbufs s \<Longrightarrow> bufv t i f = bufv s i f"
    and "dma_tag_lookup t = dma_tag_lookup s" and "num_rx_enqueued t = num_rx_enqueued s"
  shows "rx_inv t"
proof -
  have "unat (of_nat i :: u32) < nbufs s" if "i < nbufs s" for i
    using that unat_of_nat_le [of i "mem s 0x1000"] by (simp add: nbufs_def)
  with assms show ?thesis
    by (auto simp: rx_inv_def tag_ok_def buf_ok_def Let_def)
qed

definition free_words :: "nat \<Rightarrow> u32 set \<Rightarrow> bool" where
  "free_words n A \<longleftrightarrow> A \<inter> (rx_area n \<union> {RX_BUFFER_COUNT_OFFSET}) = {}"

lemma rx_kept_frame:
  assumes "rx_inv s" and "fed s" and "frame A s t" and "free_words (nbufs s) A"
    and "same_rx s t"
  shows "rx_kept A s t" and "unat i < nbufs s \<Longrightarrow> bufv t i f = bufv s i f"
proof -
  have nb: "nbufs t = nbufs s"
    using frame_mem [OF assms(3), of "0x1000"] assms(4) by (auto simp: nbufs_def free_words_def)
  have b: "bufv t i f = bufv s i f" if "unat i < nbufs s" for i f
    unfolding bufv_def by (rule frame_mem [OF assms(3)])
      (use assms(4) that in \<open>auto simp: free_words_def rx_area_def\<close>)
  then show "unat i < nbufs s \<Longrightarrow> bufv t i f = bufv s i f" .
  note st = frame_settings [OF assms(3)]
  have "rx_inv t" by (rule rx_inv_same_buffers [OF assms(1) nb b st(6,4)])
  moreover have "length (stream_in t c) = length (stream_in s c)"
    if "c \<in> {STS_DMA0_TX, STS_DMA2_TX, STS_TCP_RX, STS_UDP_RX}" for c
  proof -
    have "map snd (stream_in t c) = map snd (stream_in s c)" using assms(5) that by (auto simp: same_rx_def)
    then show ?thesis by (rule map_eq_imp_length_eq)
  qed
  then have "fed t" using assms(2) by (simp add: fed_def rx_dma_def rx_net_def st)
  moreover have "came s t (header_of t i)" if "unat i < nbufs s" "bufv t i Status = STATUS_RESERVED" for i
    using that b [OF that(1)] by (auto simp: came_def header_of_def)
  ultimately show "rx_kept A s t"
    using nb b assms(3) by (simp add: rx_kept_def frame_settings [OF assms(3)] frame_mem [OF assms(3)])
      (simp add: frame_def)
qed

subsection \<open>Waiting for a message\<close>

definition in_seq :: "communicator \<Rightarrow> u32 \<Rightarrow> fw_state \<Rightarrow> u32" where
  "in_seq world src s = mem s (rank_addr world src inbound_seq)"

text \<open>Buffer \<open>i\<close> holds the message of this source, length and sequence number.\<close>

definition holds :: "fw_state \<Rightarrow> u32 \<Rightarrow> u32 \<Rightarrow> u32 \<Rightarrow> u32 \<Rightarrow> u32 \<Rightarrow> bool" where
  "holds s i src len tag sq \<longleftrightarrow> unat i < nbufs s \<and> bufv s i Status = STATUS_RESERVED \<and>
     (\<exists>t. header_of s i = [len, t, src, sq] \<and> (t = tag \<or> tag = TAG_ANY))"

text \<open>The communicator can be used: it is not the null one, and its counter for \<open>src\<close> lies outside the words of the handler.\<close>

definition rx_world :: "fw_state \<Rightarrow> communicator \<Rightarrow> u32 \<Rightarrow> bool" where
  "rx_world s world src \<longleftrightarrow> ranks world \<noteq> 0 \<and> rank_addr world src inbound_seq \<notin> isr_words (nbufs s) \<and>
     rank_addr world src inbound_seq \<noteq> RX_BUFFER_COUNT_OFFSET"

abbreviation (input) in_word :: "communicator \<Rightarrow> u32 \<Rightarrow> u32 set" where
  "in_word world src \<equiv> {rank_addr world src inbound_seq}"

lemma rx_match_run:
  assumes "unat i < nbufs s"
  shows "rx_match i src len tag sq s = Some (Ret (holds s i src len tag sq), s)"
  using assms by (auto simp: rx_match_def bnd_def buf_run prim_run holds_def header_of_def)

lemma holds_waited: "waited A s t \<Longrightarrow> holds s i src len tag sq \<Longrightarrow> holds t i src len tag sq"
  by (auto simp: waited_def holds_def rx_kept_def)

lemma rx_world_kept: "rx_kept A s t \<Longrightarrow> rx_world s world src \<Longrightarrow> rx_world t world src"
  by (simp add: rx_world_def rx_kept_def)

lemma waited_in_seq: "waited {} s t \<Longrightarrow> rx_world s world src \<Longrightarrow> in_seq world src t = in_seq world src s"
  by (simp add: waited_def rx_kept_def rx_world_def in_seq_def free_words_def)

lemma waited_mono: "waited A s t \<Longrightarrow> A \<subseteq> B \<Longrightarrow> waited B s t"
  by (auto simp: waited_def intro: rx_kept_mono)

lemma waited_store:
  assumes "rx_inv s" and "fed s" and "free_words (nbufs s) {a}" and "t = s\<lparr>mem := (mem s)(a := v)\<rparr>"
  shows "waited {a} s t"
proof -
  have "frame {a} s t" by (simp add: frame_def same_settings_def assms(4))
  from rx_kept_frame [OF assms(1,2) this assms(3)]
  show ?thesis by (simp add: waited_def assms(4) header_of_def same_rx_stream)
qed

lemma waited_kept [simp]: "waited A s t \<Longrightarrow> rx_kept A s t"
  by (simp add: waited_def)

lemma rx_kept_inv: "rx_kept A s t \<Longrightarrow> rx_inv t" "rx_kept A s t \<Longrightarrow> fed t" "rx_kept A s t \<Longrightarrow> nbufs t = nbufs s"
  "rx_kept A s t \<Longrightarrow> timeout t = timeout s" "rx_kept A s t \<Longrightarrow> use_tcp t = use_tcp s"
  "rx_kept A s t \<Longrightarrow> dma_transaction_size t = dma_transaction_size s"
  "rx_kept A s t \<Longrightarrow> max_dma_in_flight t = max_dma_in_flight s"
  by (simp_all add: rx_kept_def)

lemma enable_waited_ends:
  assumes "rx_inv s" and "fed s"
  shows "ends microblaze_enable_interrupts s (\<lambda>_ s'. waited A s s') (\<lambda>c s'. deq_error c \<and> waited A s s')"
  by (rule ends_weaken [OF enable_interrupts_ends [OF assms]]) (auto intro: win_ok_waited [OF assms(1)])

lemma disable_waited:
  assumes "rx_inv s" and "fed s"
  shows "waited A s (s\<lparr>ie := False\<rparr>)"
  by (rule win_ok_waited [OF assms(1) win_ok_flags(2) [OF assms]])

text \<open>One turn of the search.\<close>

lemma t_wait_step_ends:
  assumes inv: "rx_inv s" "fed s" and w: "rx_world s world src" and i: "unat i < nbufs s"
    and n: "n = mem s RX_BUFFER_COUNT_OFFSET"
  shows "ends (t_wait_receive_step world src len tag sq n i) s
     (\<lambda>z s'. case z of
        Inl i' \<Rightarrow> i' = i + 1 \<and> waited {} s s' \<and> \<not> holds s i src len tag sq
      | Inr r \<Rightarrow> r = i \<and> holds s i src len tag sq \<and> waited (in_word world src) s s' \<and>
          in_seq world src s' = in_seq world src s + 1)
     (\<lambda>c s'. deq_error c \<and> rx_kept (in_word world src) s s')" (is "ends _ _ ?Q ?E")
proof -
  let ?t = "s\<lparr>ie := False\<rparr>" and ?a = "rank_addr world src inbound_seq"
  let ?u = "?t\<lparr>mem := (mem ?t)(?a := in_seq world src s + 1)\<rparr>"
  have t: "waited A s ?t" for A by (rule disable_waited [OF inv])
  have tinv: "rx_inv ?t" "fed ?t" "nbufs ?t = nbufs s" using rx_kept_inv(1-3) [OF waited_kept [OF t]] by blast+
  have u: "waited {?a} ?t ?u"
    by (rule waited_store [OF tinv(1,2)]) (use w tinv(3) in \<open>auto simp: rx_world_def free_words_def isr_words_def\<close>)
  have su: "waited {?a} s ?u" by (rule waited_trans [OF t u])
  have uinv: "rx_inv ?u" "fed ?u" using rx_kept_inv(1,2) [OF waited_kept [OF u]] by blast+
  have wu: "rx_world ?u world src" by (rule rx_world_kept [OF waited_kept [OF su] w])
  have lt: "i < n" using i by (simp add: n nbufs_def word_less_nat_alt)
  have h: "holds ?t i src len tag sq = holds s i src len tag sq"
    by (simp add: holds_def header_of_def bufv_def nbufs_def)
  have run: "t_wait_receive_step world src len tag sq n i s =
     (if holds s i src len tag sq then bnd microblaze_enable_interrupts (\<lambda>_. ret (Inr i)) ?u
      else bnd microblaze_enable_interrupts (\<lambda>_. ret (Inl (i + 1))) ?t)"
  proof -
    have "rx_match i src len tag sq ?t = Some (Ret (holds s i src len tag sq), ?t)"
      using rx_match_run [of i ?t] i tinv(3) h by simp
    moreover have "ranks world \<noteq> 0" using w by (simp add: rx_world_def)
    ultimately show ?thesis
      using lt by (simp add: t_wait_receive_step_def microblaze_disable_interrupts_def bnd_def [of "rx_match _ _ _ _ _"]
          rank_get_def rank_set_def load_def store_def in_seq_def)
  qed
  show ?thesis
  proof (cases "holds s i src len tag sq")
    case True
    have "ends (bnd microblaze_enable_interrupts (\<lambda>_. ret (Inr i))) ?u ?Q ?E"
    proof (rule ends_bndI [OF ends_weaken [OF enable_waited_ends [OF uinv, of "{}"]]])
      fix x v assume v: "waited {} ?u v"
      have "waited {?a} s v" by (rule waited_trans [OF su waited_mono [OF v]]) simp
      moreover have "in_seq world src v = in_seq world src s + 1"
        using waited_in_seq [OF v wu] by (simp add: in_seq_def)
      ultimately show "ends (ret (Inr i)) v ?Q ?E" using True by simp
    next
      fix c v assume v: "deq_error c \<and> waited {} ?u v"
      then have "waited {?a} s v" using waited_trans [OF su waited_mono [of "{}" ?u v]] by simp
      with v show "?E c v" by simp
    qed
    with True show ?thesis by (simp add: ends_def run)
  next
    case False
    have "ends (bnd microblaze_enable_interrupts (\<lambda>_. ret (Inl (i + 1)))) ?t ?Q ?E"
    proof (rule ends_bndI [OF ends_weaken [OF enable_waited_ends [OF tinv(1,2), of "{}"]]])
      fix x v assume v: "waited {} ?t v"
      have "waited {} s v" by (rule waited_trans [OF t v])
      with False show "ends (ret (Inl (i + 1))) v ?Q ?E" by simp
    next
      fix c v assume v: "deq_error c \<and> waited {} ?t v"
      then have "waited {} s v" using waited_trans [OF t] by blast
      from waited_mono [OF this, of "{?a}"] v show "?E c v" by simp
    qed
    with False show ?thesis by (simp add: ends_def run)
  qed
qed

text \<open>The whole search: the first buffer that holds the next message in sequence, or none.\<close>

definition took :: "communicator \<Rightarrow> u32 \<Rightarrow> u32 \<Rightarrow> u32 \<Rightarrow> u32 \<Rightarrow> fw_state \<Rightarrow> fw_state \<Rightarrow> bool" where
  "took world src len tag i s s' \<longleftrightarrow> waited (in_word world src) s s' \<and>
     holds s' i src len tag (in_seq world src s + 1) \<and> in_seq world src s' = in_seq world src s + 1"

lemma t_wait_receive_ends:
  assumes inv: "rx_inv s" "fed s" and w: "rx_world s world src"
  shows "ends (t_wait_receive_world_i world src len tag) s
     (\<lambda>i s'. if i = - 1 then waited {} s s' else took world src len tag i s s')
     (\<lambda>c s'. deq_error c \<and> rx_kept (in_word world src) s s')" (is "ends _ _ ?Q ?E")
proof -
  let ?n = "mem s RX_BUFFER_COUNT_OFFSET" and ?sq = "in_seq world src s + 1"
  let ?I = "\<lambda>i :: u32. \<lambda>t. waited {} s t"
  let ?R = "measure (\<lambda>(i :: u32, t :: fw_state). unat ?n - unat i)"
  have "ends (loop (t_wait_receive_step world src len tag ?sq ?n) 0) s ?Q ?E"
  proof (rule loop_ends [where I = ?I and R = ?R])
    fix i t assume t: "?I i t"
    note k = rx_kept_inv [OF waited_kept [OF t]]
    have wt: "rx_world t world src" by (rule rx_world_kept [OF waited_kept [OF t] w])
    have n: "?n = mem t RX_BUFFER_COUNT_OFFSET" using k(3) by (simp add: nbufs_def word_unat_eq_iff)
    let ?P = "\<lambda>z s'. case z of Inl y \<Rightarrow> ?I y s' \<and> ((y, s'), (i, t)) \<in> ?R | Inr v \<Rightarrow> ?Q v s'"
    show "ends (t_wait_receive_step world src len tag ?sq ?n i) t ?P ?E"
    proof (cases "i < ?n")
      case True
      then have i: "unat i < nbufs t" using n by (simp add: nbufs_def word_less_nat_alt)
      have i1: "i \<noteq> - 1" using i k(1) by (intro small_not_minus_one) (simp add: rx_inv_def)
      have sq: "in_seq world src t = in_seq world src s" by (rule waited_in_seq [OF t w])
      show ?thesis
      proof (rule ends_weaken [OF t_wait_step_ends [OF k(1,2) wt i n]])
        fix z u
        assume z: "case z of
          Inl i' \<Rightarrow> i' = i + 1 \<and> waited {} t u \<and> \<not> holds t i src len tag ?sq
        | Inr r \<Rightarrow> r = i \<and> holds t i src len tag ?sq \<and> waited (in_word world src) t u \<and>
            in_seq world src u = in_seq world src t + 1"
        show "?P z u"
        proof (cases z)
          case (Inl y)
          with z have y: "y = i + 1" and u: "waited {} t u" by simp_all
          have "unat ?n - unat y < unat ?n - unat i"
            using unat_succ [OF True] True by (simp add: y word_less_nat_alt diff_less_mono2)
          with Inl waited_trans [OF t u] show ?thesis by simp
        next
          case (Inr r)
          with z have r: "r = i" and h: "holds t i src len tag ?sq" and u: "waited (in_word world src) t u"
            and q: "in_seq world src u = in_seq world src t + 1" by simp_all
          have "waited (in_word world src) s u" by (rule waited_trans [OF waited_mono [OF t] u]) simp
          with Inr r i1 q sq holds_waited [OF u h] show ?thesis by (simp add: took_def)
        qed
      next
        fix c u assume "deq_error c \<and> rx_kept (in_word world src) t u"
        with rx_kept_trans [OF rx_kept_mono [OF waited_kept [OF t]]] show "?E c u" by blast
      qed
    next
      case False
      with t show ?thesis by (simp add: t_wait_receive_step_def)
    qed
  qed (use inv in \<open>simp_all add: waited_refl\<close>)
  moreover have "ranks world \<noteq> 0" using w by (simp add: rx_world_def)
  ultimately show ?thesis
    by (simp add: t_wait_receive_world_i_def ends_def bnd_def xil_in32_ram prim_run rank_get_def load_def in_seq_def)
qed

text \<open>Polling: it ends with the message or by the time-out.\<close>

lemma buffer_index_sint:
  assumes "unat (i :: u32) \<le> 113"
  shows "0 \<le> sint i"
proof -
  have "uint i = int (unat i)" by simp
  then have u: "0 \<le> uint i" "uint i \<le> 113" using assms by linarith+
  have "sint i = (uint i + 2147483648) mod 4294967296 - 2147483648"
    using int_word_sint [where 'a = 32, of "uint i"] by (simp only: word_of_int_uint len_num1 len_num0 len_bit0 len_bit1) simp
  also have "\<dots> = uint i" using u by (subst mod_pos_pos_trivial) linarith+
  finally show ?thesis using u by linarith
qed

lemma wait_receive_ends:
  assumes inv: "rx_inv s" "fed s" and w: "rx_world s world src" and tmo: "timeout s \<noteq> 0"
  shows "ends (wait_receive_world_i world src len tag) s
     (\<lambda>i s'. took world src len tag i s s')
     (\<lambda>c s'. (deq_error c \<or> c = RECEIVE_TIMEOUT_ERROR) \<and> rx_kept (in_word world src) s s')" (is "ends _ _ ?Q ?E")
  unfolding wait_receive_world_i_def
proof (rule counted_loop_ends [where J = "\<lambda>t. waited {} s t" and tmo = "timeout s"])
  fix count t assume t: "waited {} s t"
  note k = rx_kept_inv [OF waited_kept [OF t]]
  have kt: "rx_kept (in_word world src) s t" by (rule rx_kept_mono [OF waited_kept [OF t]]) simp
  have wt: "rx_world t world src" by (rule rx_world_kept [OF waited_kept [OF t] w])
  let ?P = "\<lambda>z s'. case z of Inl y \<Rightarrow> y = count + 1 \<and> count < timeout s \<and> waited {} s s' | Inr v \<Rightarrow> ?Q v s'"
  show "ends (wait_receive_step world src len tag count) t ?P ?E"
  proof (cases "count < timeout s")
    case True
    have "ends (bnd (t_wait_receive_world_i world src len tag) (\<lambda>i. ret (if 0 \<le> sint i then Inr i else Inl (count + 1)))) t ?P ?E"
    proof (rule ends_bndI [OF ends_weaken [OF t_wait_receive_ends [OF k(1,2) wt]]])
      fix i u assume u: "if i = - 1 then waited {} t u else took world src len tag i t u"
      show "ends (ret (if 0 \<le> sint i then Inr i else Inl (count + 1))) u ?P ?E"
      proof (cases "i = - 1")
        case none: True
        with u waited_trans [OF t] True show ?thesis by simp
      next
        case False
        with u have u: "took world src len tag i t u" by simp
        then have "unat i < nbufs u" "rx_inv u"
          using rx_kept_inv(1) [OF waited_kept] by (auto simp: took_def holds_def)
        then have "0 \<le> sint i" by (intro buffer_index_sint) (simp add: rx_inv_def)
        moreover have "waited (in_word world src) s u"
          by (rule waited_trans [OF waited_mono [OF t]]) (use u in \<open>simp_all add: took_def\<close>)
        moreover have "in_seq world src t = in_seq world src s" by (rule waited_in_seq [OF t w])
        ultimately show ?thesis using u by (simp add: took_def)
      qed
    next
      fix c u assume "deq_error c \<and> rx_kept (in_word world src) t u"
      with rx_kept_trans [OF kt] show "?E c u" by blast
    qed
    with True k(4) show ?thesis by (simp add: wait_receive_step_def)
  next
    case False
    with kt k(4) tmo show ?thesis by (simp add: wait_receive_step_def)
  qed
qed (use inv in \<open>simp add: waited_refl\<close>)

subsection \<open>The ring of buffers in flight\<close>

text \<open>
  The ring has \<open>max_dma_in_flight\<close> bytes and byte-sized indices, so it works modulo the smaller of that
  number and 256.
\<close>

definition ring_size :: "u32 \<Rightarrow> nat" where
  "ring_size m = min (unat m) 256"

lemma ring_size_pos: "0 < m \<Longrightarrow> 0 < ring_size m"
  by (simp add: ring_size_def word_less_nat_alt)

lemma ring_next_run:
  assumes "0 < max_dma_in_flight s" and "R = ring_size (max_dma_in_flight s)"
  shows "ring_next (of_nat (k mod R)) s = Some (Ret (of_nat (Suc k mod R)), s)"
proof -
  let ?m = "max_dma_in_flight s" and ?i = "k mod R"
  have R: "0 < R" "R \<le> 256" "R \<le> unat ?m" "R = unat ?m \<or> R = 256 \<and> 256 < unat ?m"
    using ring_size_pos [OF assms(1)] assms(2) by (auto simp: ring_size_def)
  have i: "?i < R" "?i < 256" using R mod_less_divisor [OF R(1), of k] by linarith+
  then have "unat (of_nat ?i :: u8) = ?i" by (simp add: unat_of_nat take_bit_nat_eq_self)
  then have ui: "unat (ucast (of_nat ?i :: u8) + 1 :: u32) = Suc ?i"
    using i R by (simp add: unat_word_ariths unsigned_ucast_eq take_bit_nat_eq_self)
  have "unat (ucast ((ucast (of_nat ?i :: u8) + 1 :: u32) mod ?m) :: u8) = unat (of_nat (Suc k mod R) :: u8)"
  proof -
    have "unat (ucast ((ucast (of_nat ?i :: u8) + 1 :: u32) mod ?m) :: u8) = (Suc ?i mod unat ?m) mod 256"
      by (simp add: unsigned_ucast_eq unat_mod ui take_bit_eq_mod)
    also have "\<dots> = Suc k mod R"
    proof (cases "R = unat ?m")
      case True
      then have "Suc ?i mod unat ?m = Suc k mod R" by (simp add: mod_Suc_eq)
      moreover have "Suc k mod R < 256" using R mod_less_divisor [OF R(1), of "Suc k"] by linarith
      ultimately show ?thesis by simp
    next
      case False
      then have "R = 256" "Suc ?i < unat ?m" using R i by auto
      then show ?thesis by (simp add: mod_Suc_eq)
    qed
    also have "\<dots> = unat (of_nat (Suc k mod R) :: u8)"
      using R mod_less_divisor [OF R(1), of "Suc k"] by (simp add: unat_of_nat take_bit_eq_mod)
    finally show ?thesis .
  qed
  then have "ucast ((ucast (of_nat ?i :: u8) + 1 :: u32) mod ?m) = (of_nat (Suc k mod R) :: u8)"
    by (simp add: word_unat_eq_iff)
  then show ?thesis
    using assms(1) by (simp add: ring_next_def c_mod_def bnd_def prim_run)
qed

text \<open>The ring holds the buffers of the segments \<open>a\<close> to \<open>n - 1\<close>.\<close>

definition ring_holds :: "u32 \<Rightarrow> u32 list \<Rightarrow> nat \<Rightarrow> nat \<Rightarrow> rx_locals \<Rightarrow> bool" where
  "ring_holds m bs a n l \<longleftrightarrow> (let R = ring_size m in
     length (spare_buffer_indexes l) = unat m \<and> ring_start l = of_nat (a mod R) \<and> ring_end l = of_nat (n mod R) \<and>
     (\<forall>k. a \<le> k \<longrightarrow> k < n \<longrightarrow> spare_buffer_indexes l ! (k mod R) = Some (ucast (bs ! k))))"

lemma mod_distinct:
  fixes a k n R :: nat
  assumes "a \<le> k" and "k < n" and "n < a + R"
  shows "k mod R \<noteq> n mod R"
proof
  assume "k mod R = n mod R"
  then have "R dvd n - k" using assms by (metis less_imp_le mod_eq_dvd_iff_nat)
  with assms show False by (auto dest: dvd_imp_le)
qed

lemma ring_index:
  assumes "0 < m"
  shows "unat (of_nat (k mod ring_size m) :: u8) = k mod ring_size m" and "k mod ring_size m < unat m"
proof -
  have "k mod ring_size m < ring_size m" using ring_size_pos [OF assms] by simp
  moreover have "ring_size m \<le> 256" "ring_size m \<le> unat m" by (simp_all add: ring_size_def)
  ultimately show "unat (of_nat (k mod ring_size m) :: u8) = k mod ring_size m" and "k mod ring_size m < unat m"
    by (simp_all add: unat_of_nat take_bit_nat_eq_self)
qed

lemma ring_put_run:
  assumes "ring_holds (max_dma_in_flight s) bs a n l" and "0 < max_dma_in_flight s" and "length bs = n"
    and "n < a + ring_size (max_dma_in_flight s)"
  shows "\<exists>l'. ring_put b l s = Some (Ret l', s) \<and> ring_holds (max_dma_in_flight s) (bs @ [b]) a (Suc n) l' \<and>
     op0_addr l' = op0_addr l \<and> dst_addr l' = dst_addr l \<and> rx_tag_tmp l' = rx_tag_tmp l"
proof -
  let ?m = "max_dma_in_flight s" and ?R = "ring_size (max_dma_in_flight s)"
  let ?l = "l\<lparr>spare_buffer_indexes := (spare_buffer_indexes l)[n mod ?R := Some (ucast b)],
              ring_end := of_nat (Suc n mod ?R)\<rparr>"
  note ix = ring_index [OF assms(2), of n]
  have "ring_put b l s = Some (Ret ?l, s)"
    using assms(1) ix by (simp add: ring_put_def ring_holds_def Let_def bnd_def ring_next_run [OF assms(2) refl] prim_run)
  moreover have "ring_holds ?m (bs @ [b]) a (Suc n) ?l"
    using assms(1,3) ix(2) mod_distinct [of a _ n ?R, THEN not_sym] assms(4)
    by (auto simp: ring_holds_def Let_def less_Suc_eq nth_append)
  ultimately show ?thesis by (intro exI [of _ ?l]) simp
qed

lemma ring_take_run:
  assumes "ring_holds (max_dma_in_flight s) bs a n l" and "0 < max_dma_in_flight s" and "a < n"
    and "unat (bs ! a) \<le> 113"
  shows "\<exists>l'. ring_take l s = Some (Ret (bs ! a, l'), s) \<and> ring_holds (max_dma_in_flight s) bs (Suc a) n l' \<and>
     op0_addr l' = op0_addr l \<and> dst_addr l' = dst_addr l \<and> rx_tag_tmp l' = rx_tag_tmp l"
proof -
  let ?m = "max_dma_in_flight s" and ?R = "ring_size (max_dma_in_flight s)"
  let ?l = "l\<lparr>ring_start := of_nat (Suc a mod ?R)\<rparr>"
  note ix = ring_index [OF assms(2), of a]
  have "unat (ucast (ucast (bs ! a) :: u8) :: u32) = unat (bs ! a)"
    using assms(4) by (simp add: unsigned_ucast_eq unsigned_take_bit_eq take_bit_nat_eq_self)
  then have b: "ucast (ucast (bs ! a) :: u8) = bs ! a" by (simp add: word_unat_eq_iff)
  have "ring_take l s = Some (Ret (bs ! a, ?l), s)"
    using assms(1,3) ix
    by (simp add: ring_take_def ring_holds_def Let_def bnd_def ring_next_run [OF assms(2) refl] prim_run b)
  moreover have "ring_holds ?m bs (Suc a) n ?l"
    using assms(1) by (simp add: ring_holds_def Let_def)
  ultimately show ?thesis by (intro exI [of _ ?l]) simp
qed

subsection \<open>Giving a buffer back\<close>

lemma release_kept:
  assumes inv: "rx_inv s" "fed s" and b: "unat b < nbufs s" "bufv s b Status = STATUS_RESERVED"
    and t: "t = s\<lparr>mem := (mem s)(buf_addr b Status := STATUS_IDLE)\<rparr>"
  shows "rx_kept A s t" and "unat i < nbufs s \<Longrightarrow> i \<noteq> b \<Longrightarrow> bufv t i f = bufv s i f"
proof -
  have n: "nbufs s \<le> 113" "unat b \<le> 112" "unat b \<le> 113" using inv(1) b(1) by (simp_all add: rx_inv_def)
  have nb: "nbufs t = nbufs s"
    using buf_addr_low(2) [OF n(2), THEN not_sym] by (simp add: t nbufs_def)
  have bt: "bufv t i f = (if i = b \<and> f = Status then STATUS_IDLE else bufv s i f)" if "unat i < nbufs s" for i f
    using bufv_write [of b i s Status STATUS_IDLE f] n that by (simp add: t bufv_def)
  then show "unat i < nbufs s \<Longrightarrow> i \<noteq> b \<Longrightarrow> bufv t i f = bufv s i f" by simp
  have u: "unat (of_nat i :: u32) < nbufs s" if "i < nbufs s" for i
    using that unat_of_nat_le [of i "mem s 0x1000"] by (simp add: nbufs_def)
  have "tag_ok t k" if "k < 16" for k
    using inv(1) that b bt nb by (auto simp: rx_inv_def tag_ok_def Let_def t [THEN arg_cong [of _ _ dma_tag_lookup]])
  moreover have "buf_ok t k" if "k < nbufs s" for k
    using inv(1) that u [OF that] bt by (auto simp: rx_inv_def buf_ok_def t [THEN arg_cong [of _ _ dma_tag_lookup]])
  ultimately have "rx_inv t" using inv(1) nb by (simp add: rx_inv_def) (simp add: t)
  moreover have "came s t (header_of t i)" if "unat i < nbufs s" "bufv t i Status = STATUS_RESERVED" for i
    using that bt [OF that(1)] by (auto simp: came_def header_of_def split: if_splits)
  moreover have "mem t a = mem s a" if "a \<notin> isr_words (nbufs s)" for a
    using that b(1) by (auto simp: t isr_words_def rx_area_def)
  ultimately show "rx_kept A s t"
    using inv(2) nb bt by (simp add: rx_kept_def) (simp add: t fed_def rx_dma_def rx_net_def)
qed

subsection \<open>A transfer that consumes received segments\<close>

text \<open>
  A job: the transfer of \<open>Fw_Movement\<close> whose second source is the received segments, sent on to \<open>p_dst\<close> by the jobs
  that forward; \<open>r_src\<close> and \<open>r_tag\<close> say whose messages it takes.
\<close>

record rx_job =
  r_pkt :: pkt_job
  r_src :: u32
  r_tag :: u32

abbreviation (input) r_move :: "rx_job \<Rightarrow> move_job" where "r_move r \<equiv> p_move (r_pkt r)"
abbreviation (input) r_start :: "rx_job \<Rightarrow> fw_state" where "r_start r \<equiv> j_start (p_move (r_pkt r))"
abbreviation (input) r_world :: "rx_job \<Rightarrow> communicator" where "r_world r \<equiv> p_world (r_pkt r)"

definition r_seq :: "rx_job \<Rightarrow> nat \<Rightarrow> u32" where
  "r_seq r k = in_seq (r_world r) (r_src r) (r_start r) + of_nat k"

definition buffer_addr :: "fw_state \<Rightarrow> u32 \<Rightarrow> u64" where
  "buffer_addr s i = push_bit 32 (ucast (bufv s i Addrh)) OR ucast (bufv s i Addrl)"

text \<open>The commands of the \<open>k\<close>-th segment, when it came in buffer \<open>b\<close>.\<close>

definition rx_commands :: "rx_job \<Rightarrow> u32 \<Rightarrow> nat \<Rightarrow> event list" where
  "rx_commands r b k =
     (let j = r_move r; off = of_nat (k * j_d j) in
      emit (engines (j_seg j k) (j_rx0 j + off) (buffer_addr (r_start r) b) (j_tx1 j + off) 0 (j_what j)) (j_tag j k))"

definition rx_offsets :: "move_job \<Rightarrow> nat \<Rightarrow> rx_locals \<Rightarrow> bool" where
  "rx_offsets j i l \<longleftrightarrow> (let off = of_nat (min (unat (j_len j)) (i * j_d j)) in
     rx_tag_tmp l = j_tag j i \<and> (uses (j_what j) USE_DMA0_RX \<longrightarrow> op0_addr l = j_rx0 j + off) \<and>
     (uses (j_what j) USE_DMA1_TX \<longrightarrow> dst_addr l = j_tx1 j + off))"

definition rx_dmas :: "u32 \<Rightarrow> bool" where
  "rx_dmas what \<longleftrightarrow> uses what USE_DMA1_RX \<and> \<not> uses what USE_DMA1_TX_WITHOUT_TLAST \<and> \<not> uses what USE_DMA2_RX"

text \<open>The \<open>k\<close>-th segment was taken from buffer \<open>b\<close>, and its message came.\<close>

definition segment_came :: "rx_job \<Rightarrow> fw_state \<Rightarrow> u32 \<Rightarrow> nat \<Rightarrow> bool" where
  "segment_came r s b k \<longleftrightarrow> unat b < nbufs (r_start r) \<and> (\<exists>t. (t = r_tag r \<or> r_tag r = TAG_ANY) \<and>
     came (r_start r) s [j_seg (r_move r) k, t, r_src r, r_seq r (Suc k)])"

lemma segment_came_mono: "segment_came r s b k \<Longrightarrow> prefix (trace s) (trace t) \<Longrightarrow> segment_came r t b k"
  unfolding segment_came_def using came_mono by blast

text \<open>
  \<open>receiving r A lead pre bs n i a l s\<close>: \<open>n\<close> segments have been taken, from the buffers \<open>bs\<close>; the commands of \<open>i\<close> of
  them are given and the buffers of \<open>a\<close> of them are given back.
\<close>

definition receiving :: "rx_job \<Rightarrow> u32 set \<Rightarrow> event list \<Rightarrow> (nat \<Rightarrow> event list) \<Rightarrow> u32 list
    \<Rightarrow> nat \<Rightarrow> nat \<Rightarrow> nat \<Rightarrow> rx_locals \<Rightarrow> fw_state \<Rightarrow> bool" where
  "receiving r A lead pre bs n i a l s \<longleftrightarrow>
     rx_kept A (r_start r) s \<and> a \<le> i \<and> i \<le> n \<and> length bs = n \<and>
     rx_offsets (r_move r) i l \<and>
     ring_holds (max_dma_in_flight s) bs a n l \<and>
     in_seq (r_world r) (r_src r) s = r_seq r n \<and>
     (\<forall>k. a \<le> k \<longrightarrow> k < n \<longrightarrow> holds s (bs ! k) (r_src r) (j_seg (r_move r) k) (r_tag r) (r_seq r (Suc k))) \<and>
     (\<forall>k<n. segment_came r s (bs ! k) k) \<and>
     (\<forall>ch. ch \<notin> {CMD_DMA0_TX, CMD_DMA2_TX} \<longrightarrow>
        words_on ch (trace s) = words_on ch (trace (r_start r)) @ words_on ch lead @
          concat (map (\<lambda>k. words_on ch (pre k @ rx_commands r (bs ! k) k)) [0..<i]))"

definition rx_ready :: "rx_job \<Rightarrow> u32 set \<Rightarrow> bool" where
  "rx_ready r A \<longleftrightarrow> j_ready (r_move r) \<and> rx_dmas (j_what (r_move r)) \<and>
     rx_inv (r_start r) \<and> fed (r_start r) \<and> rx_world (r_start r) (r_world r) (r_src r) \<and>
     in_word (r_world r) (r_src r) \<subseteq> A \<and> free_words (nbufs (r_start r)) A"

lemma segment_index_small: "k < j_segs j \<Longrightarrow> 0 < j_d j \<Longrightarrow> k < 2 ^ 32"
proof -
  assume "k < j_segs j" "0 < j_d j"
  then have "k * j_d j < unat (j_len j)" by (simp add: j_segs_def nsegs_iff)
  moreover have "k \<le> k * j_d j" using \<open>0 < j_d j\<close> by simp
  moreover have "unat (j_len j) < 2 ^ 32" using unsigned_less [of "j_len j"] by simp
  ultimately show ?thesis by linarith
qed

text \<open>Buffers in flight are distinct: they hold messages of different sequence numbers.\<close>

lemma r_seq_inj: "r_seq r i = r_seq r k \<Longrightarrow> i < 2 ^ 32 \<Longrightarrow> k < 2 ^ 32 \<Longrightarrow> i = k"
  by (metis add_left_cancel r_seq_def unat_of_nat_small)

lemma r_seq_Suc: "r_seq r (Suc k) = r_seq r k + 1"
  by (simp add: r_seq_def add.commute)

lemma in_flight_distinct:
  assumes "holds s b src x tag (r_seq r (Suc i))" and "holds s b src y tag (r_seq r (Suc k))"
    and "i < 2 ^ 32" and "k < 2 ^ 32"
  shows "i = k"
  using assms by (auto simp: holds_def header_of_def r_seq_Suc dest: r_seq_inj)

lemma in_flight_bound:
  assumes "\<And>k. a \<le> k \<Longrightarrow> k < n \<Longrightarrow> holds s (bs ! k) src (x k) tag (r_seq r (Suc k))"
    and "n \<le> 2 ^ 32" and "rx_inv s"
  shows "n - a \<le> 113"
proof -
  have "inj_on (\<lambda>k. unat (bs ! k)) {a..<n}"
  proof (rule inj_onI)
    fix i k assume "i \<in> {a..<n}" "k \<in> {a..<n}" and eq: "unat (bs ! i) = unat (bs ! k)"
    then have i: "a \<le> i" "i < n" and k: "a \<le> k" "k < n" by simp_all
    from eq have "bs ! i = bs ! k" by (simp add: word_unat_eq_iff)
    with assms(1) [OF i] assms(1) [OF k] show "i = k"
      using i k assms(2) by (auto intro: in_flight_distinct)
  qed
  moreover have "(\<lambda>k. unat (bs ! k)) ` {a..<n} \<subseteq> {..<nbufs s}"
    using assms(1) by (auto simp: holds_def)
  ultimately have "card {a..<n} \<le> card {..<nbufs s}" by (intro card_inj_on_le) auto
  with assms(3) show ?thesis by (simp add: rx_inv_def)
qed

definition rx_error :: "u32 \<Rightarrow> bool" where
  "rx_error c \<longleftrightarrow> deq_error c \<or> c = RECEIVE_TIMEOUT_ERROR"

text \<open>What happens between taking segments and giving buffers back leaves them where they are.\<close>

lemma receiving_step:
  assumes "receiving r A lead pre bs n i a l s" and "rx_ready r A" and "frame B s t" and "B \<subseteq> A"
    and "rank_addr (r_world r) (r_src r) inbound_seq \<notin> B"
    and "same_rx s t"
    and "i' \<in> {i, Suc i}" and "i' \<le> n" and "rx_offsets (r_move r) i' l'"
    and "spare_buffer_indexes l' = spare_buffer_indexes l" "ring_start l' = ring_start l" "ring_end l' = ring_end l"
    and "\<And>ch. ch \<notin> {CMD_DMA0_TX, CMD_DMA2_TX} \<Longrightarrow> words_on ch (trace t) = words_on ch (trace s) @
       (if i' = i then [] else words_on ch (pre i @ rx_commands r (bs ! i) i))"
  shows "receiving r A lead pre bs n i' a l' t"
proof -
  have kept: "rx_kept A (r_start r) s" using assms(1) by (simp add: receiving_def)
  note k = rx_kept_inv [OF kept]
  have fB: "free_words (nbufs s) B" using assms(2,4) k(3) by (auto simp: rx_ready_def free_words_def)
  note fr = rx_kept_frame [OF k(1,2) assms(3) fB assms(6)]
  have nb: "nbufs t = nbufs s" using rx_kept_inv(3) [OF fr(1)] by simp
  have kt: "rx_kept A (r_start r) t" by (rule rx_kept_trans [OF kept rx_kept_mono [OF fr(1) assms(4)]])
  have h: "holds t b x y z w" if "holds s b x y z w" for b x y z w
    using that fr(2) nb by (auto simp: holds_def header_of_def)
  have p: "prefix (trace s) (trace t)" using fr(1) by (simp add: rx_kept_def)
  have q: "in_seq (r_world r) (r_src r) t = in_seq (r_world r) (r_src r) s"
    using frame_mem [OF assms(3,5)] by (simp add: in_seq_def)
  have rh: "ring_holds (max_dma_in_flight t) bs a n l'"
    using assms(1,10-12) frame_settings(8) [OF assms(3)] by (simp add: receiving_def ring_holds_def)
  have w: "words_on ch (trace t) = words_on ch (trace (r_start r)) @ words_on ch lead @
          concat (map (\<lambda>k. words_on ch (pre k @ rx_commands r (bs ! k) k)) [0..<i'])"
    if "ch \<notin> {CMD_DMA0_TX, CMD_DMA2_TX}" for ch
    using assms(1,7) assms(13) [OF that] that by (auto simp: receiving_def)
  have "a \<le> i'" using assms(1,7) by (auto simp: receiving_def)
  moreover have "\<forall>k<n. segment_came r t (bs ! k) k"
    using assms(1) segment_came_mono [OF _ p] by (simp add: receiving_def)
  moreover have "\<forall>k. a \<le> k \<longrightarrow> k < n \<longrightarrow> holds t (bs ! k) (r_src r) (j_seg (r_move r) k) (r_tag r) (r_seq r (Suc k))"
    using assms(1) h by (simp add: receiving_def)
  moreover have "length bs = n" "in_seq (r_world r) (r_src r) t = r_seq r n"
    using assms(1) q by (simp_all add: receiving_def)
  ultimately show ?thesis
    using assms(8,9) kt rh w by (simp add: receiving_def)
qed

lemma receiving_kept: "receiving r A lead pre bs n i a l s \<Longrightarrow> rx_kept A (r_start r) s"
  by (simp add: receiving_def)

lemma rx_segment_ends:
  assumes rdy: "rx_ready r A" and rc: "receiving r A lead pre bs n n a l s"
    and n: "n < j_segs (r_move r)" "n < a + j_m (r_move r)"
  shows "ends (rx_segment (r_world r) (r_src r) (r_tag r) (j_seg (r_move r) n) l) s
     (\<lambda>(adr, l') s'. \<exists>b. adr = buffer_addr (r_start r) b \<and> receiving r A lead pre (bs @ [b]) (Suc n) n a l' s' \<and>
        dma_tag s' = dma_tag s \<and> op0_addr l' = op0_addr l \<and> dst_addr l' = dst_addr l \<and> rx_tag_tmp l' = rx_tag_tmp l \<and>
        rx_kept (in_word (r_world r) (r_src r)) s s')
     (\<lambda>c s'. rx_error c \<and> rx_kept A (r_start r) s')" (is "ends _ _ ?Q ?E")
  unfolding rx_segment_def
proof (rule ends_bndI [OF ends_weaken [OF wait_receive_ends]])
  note kept = receiving_kept [OF rc]
  note k = rx_kept_inv [OF kept]
  let ?in = "in_word (r_world r) (r_src r)"
  have inA: "?in \<subseteq> A" using rdy by (simp add: rx_ready_def)
  show "rx_inv s" "fed s" by (rule k)+
  show w: "rx_world s (r_world r) (r_src r)"
    by (rule rx_world_kept [OF kept]) (use rdy in \<open>simp add: rx_ready_def\<close>)
  show "timeout s \<noteq> 0" using k(4) rdy by (simp add: rx_ready_def j_ready_def)
  {
    fix c t assume t: "(deq_error c \<or> c = RECEIVE_TIMEOUT_ERROR) \<and> rx_kept ?in s t"
    with rx_kept_trans [OF kept rx_kept_mono [OF _ inA]] show "?E c t" by (simp add: rx_error_def)
  next
    fix b t assume t: "took (r_world r) (r_src r) (j_seg (r_move r) n) (r_tag r) b s t"
    then have wt: "waited ?in s t" and q: "in_seq (r_world r) (r_src r) t = r_seq r (Suc n)"
      and hb: "holds t b (r_src r) (j_seg (r_move r) n) (r_tag r) (r_seq r (Suc n))"
      using rc by (simp_all add: took_def receiving_def r_seq_Suc)
    have kt: "rx_kept A (r_start r) t" by (rule rx_kept_trans [OF kept rx_kept_mono [OF waited_kept [OF wt] inA]])
    note kt' = rx_kept_inv [OF kt]
    have d: "0 < j_d (r_move r)" and m: "0 < max_dma_in_flight t"
      using rdy kt'(7) by (simp_all add: rx_ready_def j_ready_d) (simp add: j_ready_def)
    have nb: "unat b < nbufs (r_start r)" using hb kt'(3) by (simp add: holds_def)
    have len: "length bs = n" using rc by (simp add: receiving_def)
    have adr: "buffer_addr t b = buffer_addr (r_start r) b"
      using kt nb by (simp add: rx_kept_def buffer_addr_def)
    have hs: "holds t ((bs @ [b]) ! k) (r_src r) (j_seg (r_move r) k) (r_tag r) (r_seq r (Suc k))"
      if "a \<le> k" "k < Suc n" for k
    proof (cases "k = n")
      case True
      then show ?thesis using hb len by (simp add: nth_append)
    next
      case False
      then have "k < n" using that by simp
      then show ?thesis using rc that(1) len holds_waited [OF wt] by (simp add: receiving_def nth_append)
    qed
    have "Suc n - a \<le> 113"
      by (rule in_flight_bound [OF hs _ kt'(1)]) (use segment_index_small [OF n(1) d] in simp_all)
    then have "n < a + ring_size (max_dma_in_flight t)"
      using n(2) kt'(7) by (simp add: ring_size_def j_m_def)
    moreover have "ring_holds (max_dma_in_flight t) bs a n l"
      using rc rx_kept_inv(7) [OF waited_kept [OF wt]] by (simp add: receiving_def)
    ultimately obtain l' where l': "ring_put b l t = Some (Ret l', t)"
      and rh: "ring_holds (max_dma_in_flight t) (bs @ [b]) a (Suc n) l'"
      and same: "op0_addr l' = op0_addr l" "dst_addr l' = dst_addr l" "rx_tag_tmp l' = rx_tag_tmp l"
      using ring_put_run [of t bs a n l b] m len by blast
    have came_b: "segment_came r t b n"
      using hb kt nb by (fastforce simp: segment_came_def holds_def rx_kept_def)
    have p: "prefix (trace s) (trace t)" using waited_kept [OF wt] by (simp add: rx_kept_def)
    have came_k: "segment_came r t ((bs @ [b]) ! k) k" if "k < Suc n" for k
    proof (cases "k = n")
      case False
      then have "segment_came r s (bs ! k) k" using that rc by (simp add: receiving_def)
      with False that len segment_came_mono [OF _ p] show ?thesis by (simp add: nth_append)
    qed (use came_b len in \<open>simp add: nth_append\<close>)
    have ws: "words_on ch (trace t) = words_on ch (trace (r_start r)) @ words_on ch lead @
        concat (map (\<lambda>k. words_on ch (pre k @ rx_commands r ((bs @ [b]) ! k) k)) [0..<n])"
      if "ch \<notin> {CMD_DMA0_TX, CMD_DMA2_TX}" for ch
    proof -
      have "map (\<lambda>k. words_on ch (pre k @ rx_commands r ((bs @ [b]) ! k) k)) [0..<n]
          = map (\<lambda>k. words_on ch (pre k @ rx_commands r (bs ! k) k)) [0..<n]"
        using len by (auto simp: nth_append simp del: words_on_append)
      moreover have "words_on ch (trace t) = words_on ch (trace s)" using wt that by (simp add: waited_def)
      moreover have "words_on ch (trace s) = words_on ch (trace (r_start r)) @ words_on ch lead @
        concat (map (\<lambda>k. words_on ch (pre k @ rx_commands r (bs ! k) k)) [0..<n])"
        using rc that unfolding receiving_def by blast
      ultimately show ?thesis by (simp only:)
    qed
    have an: "a \<le> n" and off: "rx_offsets (r_move r) n l'"
      using rc same by (simp_all add: receiving_def rx_offsets_def)
    have "receiving r A lead pre (bs @ [b]) (Suc n) n a l' t"
      unfolding receiving_def using kt an off rh q hs came_k ws len by simp
    moreover have "dma_tag t = dma_tag s" using wt by (simp add: waited_def)
    ultimately have "?Q (buffer_addr t b, l') t"
      using same waited_kept [OF wt] adr by auto
    moreover have "bnd (buf_get b Addrh) (\<lambda>addrh. bnd (buf_get b Addrl) (\<lambda>addrl.
       bnd (ring_put b l) (\<lambda>l. ret (push_bit 32 (ucast addrh) OR ucast addrl, l)))) t
       = Some (Ret (buffer_addr t b, l'), t)"
      by (simp add: bnd_def buf_run l' prim_run buffer_addr_def)
    ultimately show "ends (bnd (buf_get b Addrh) (\<lambda>addrh. bnd (buf_get b Addrl) (\<lambda>addrl.
       bnd (ring_put b l) (\<lambda>l. ret (push_bit 32 (ucast addrh) OR ucast addrl, l))))) t ?Q ?E"
      by (simp add: ends_def)
  }
qed

lemma rx_offsets_Suc:
  assumes "rx_offsets j n l" and "n < j_segs j" and "0 < j_d j"
    and "rx_tag_tmp l' = j_tag j (Suc n)"
    and "uses (j_what j) USE_DMA0_RX \<Longrightarrow> op0_addr l' = op0_addr l + ucast (j_seg j n)"
    and "uses (j_what j) USE_DMA1_TX \<Longrightarrow> dst_addr l' = dst_addr l + ucast (j_seg j n)"
  shows "rx_offsets j (Suc n) l'"
  using assms(1,4-6) segment_offset_Suc [OF assms(2,3)] unfolding rx_offsets_def Let_def by auto

text \<open>The commands of a segment, from the local variables.\<close>

lemma rx_start_run:
  assumes "rx_offsets (r_move r) n l" and "rx_dmas (j_what (r_move r))" and "n < j_segs (r_move r)" "0 < j_d (r_move r)"
    and "uses (j_what (r_move r)) USE_DMA0_RX \<Longrightarrow> a0 = op0_addr l"
    and "uses (j_what (r_move r)) USE_DMA1_TX \<Longrightarrow> t1 = dst_addr l"
  shows "start_dma (j_seg (r_move r) n) a0 (buffer_addr (r_start r) b) t1 0 (j_what (r_move r)) (rx_tag_tmp l) s =
     Some (Ret (j_tag (r_move r) (Suc n)), s\<lparr>trace := trace s @ rx_commands r b n\<rparr>)"
  using assms(1,2,5,6) segment_offset_lt [OF assms(3,4)]
  by (simp add: start_dma_run rx_commands_def Let_def rx_offsets_def rx_dmas_def engines_def j_tag_Suc min_def)

lemma rx_command_step:
  assumes "rx_ready r A" and "receiving r A lead pre bs (Suc n) n a l s" and "n < j_segs (r_move r)"
    and "t = s\<lparr>trace := trace s @ pre n @ rx_commands r (bs ! n) n\<rparr>"
    and "rx_offsets (r_move r) (Suc n) l'"
    and "spare_buffer_indexes l' = spare_buffer_indexes l" "ring_start l' = ring_start l" "ring_end l' = ring_end l"
  shows "receiving r A lead pre bs (Suc n) (Suc n) a l' t"
  by (rule receiving_step [OF assms(2,1), of "{}"])
    (use assms(4-8) in \<open>simp_all add: frame_def same_settings_def same_rx_stream\<close>)

lemma rx_acked_step:
  assumes "rx_ready r A" and "receiving r A lead pre bs n i a l s" and "acked len (acks what) s t"
  shows "receiving r A lead pre bs n i a l t"
proof (rule receiving_step [OF assms(2,1)])
  show "frame {} s t" "{} \<subseteq> A" using assms(3) by (simp_all add: acked_def)
  obtain es where es: "trace t = trace s @ es" and g: "good_acks len (acks what) (dma_tag s) es"
    using assms(3) by (rule acked_events)
  show "words_on ch (trace t) = words_on ch (trace s) @
       (if i = i then [] else words_on ch (pre i @ rx_commands r (bs ! i) i))" for ch
    using words_on_acks [OF g] by (simp add: es)
  have "fst ` set (acks what) \<inter> rx_streams = {}" by (auto simp: acks_def)
  then show "same_rx s t" using assms(3) unfolding acked_def inputs_kept_def same_rx_def by blast
qed (use assms(2) in \<open>simp_all add: receiving_def\<close>)

text \<open>Giving back the buffer of the oldest segment.\<close>

lemma rx_release_ends:
  assumes rdy: "rx_ready r A" and rc: "receiving r A lead pre bs n n a l s" and an: "a < n"
    and nN: "n \<le> j_segs (r_move r)"
  shows "ends (rx_release l) s
     (\<lambda>l' s'. receiving r A lead pre bs n n (Suc a) l' s' \<and> dma_tag s' = dma_tag s \<and> rx_kept {} s s')
     (\<lambda>c s'. rx_error c \<and> rx_kept A (r_start r) s')" (is "ends _ _ ?Q ?E")
proof -
  note kept = receiving_kept [OF rc]
  note k = rx_kept_inv [OF kept]
  let ?b = "bs ! a"
  have m: "0 < max_dma_in_flight s" and d: "0 < j_d (r_move r)"
    using rdy k(7) by (simp_all add: rx_ready_def j_ready_d) (simp add: j_ready_def)
  have hb: "holds s (bs ! i) (r_src r) (j_seg (r_move r) i) (r_tag r) (r_seq r (Suc i))" if "a \<le> i" "i < n" for i
    using rc that by (simp add: receiving_def)
  have b: "unat ?b < nbufs s" "bufv s ?b Status = STATUS_RESERVED" "unat ?b \<le> 113"
    using hb [OF order_refl an] k(1) by (simp_all add: holds_def rx_inv_def)
  obtain l' where take: "ring_take l s = Some (Ret (?b, l'), s)"
    and ring: "ring_holds (max_dma_in_flight s) bs (Suc a) n l'"
    and same: "op0_addr l' = op0_addr l" "dst_addr l' = dst_addr l" "rx_tag_tmp l' = rx_tag_tmp l"
    using ring_take_run [of s bs a n l] rc m an b(3) by (auto simp: receiving_def)
  let ?t = "s\<lparr>ie := False\<rparr>"
  let ?u = "?t\<lparr>mem := (mem ?t)(buf_addr ?b Status := STATUS_IDLE)\<rparr>"
  have t: "waited {} s ?t" by (rule disable_waited [OF k(1,2)])
  note tk = rx_kept_inv [OF waited_kept [OF t]]
  have bt: "unat ?b < nbufs ?t" "bufv ?t ?b Status = STATUS_RESERVED" using b by (simp_all add: bufv_def nbufs_def)
  note rel = release_kept [OF tk(1,2) bt refl]
  have su: "rx_kept {} s ?u" by (rule rx_kept_trans [OF waited_kept [OF t] rel(1)])
  note uk = rx_kept_inv [OF su]
  have run: "rx_release l s = bnd microblaze_enable_interrupts (\<lambda>_. ret l') ?u"
    by (simp add: rx_release_def bnd_def [of "ring_take _"] take microblaze_disable_interrupts_def)
      (simp add: bnd_def [of "buf_set _ _ _"] buf_run)
  have "ends (bnd microblaze_enable_interrupts (\<lambda>_. ret l')) ?u ?Q ?E"
  proof (rule ends_bndI [OF ends_weaken [OF enable_waited_ends [OF uk(1,2), of "{}"]]])
    fix c v assume v: "deq_error c \<and> waited {} ?u v"
    have "rx_kept {} s v" by (rule rx_kept_trans [OF su]) (use v in simp)
    from rx_kept_trans [OF kept rx_kept_mono [OF this]] v show "?E c v" by (simp add: rx_error_def)
  next
    fix x v assume v: "waited {} ?u v"
    have sv: "rx_kept {} s v" by (rule rx_kept_trans [OF su waited_kept [OF v]])
    have kv: "rx_kept A (r_start r) v" by (rule rx_kept_trans [OF kept rx_kept_mono [OF sv]]) simp
    have hv: "holds v (bs ! i) (r_src r) (j_seg (r_move r) i) (r_tag r) (r_seq r (Suc i))" if i: "Suc a \<le> i" "i < n" for i
    proof (rule holds_waited [OF v])
      have "i < 2 ^ 32" "a < 2 ^ 32"
        using segment_index_small [OF _ d] i(2) an nN by simp_all
      then have "bs ! i \<noteq> ?b"
        using in_flight_distinct [of s "bs ! i" _ _ _ r i _ a] hb [of i] hb [OF order_refl an] i by auto
      then have "bufv ?u (bs ! i) f = bufv s (bs ! i) f" for f
        using rel(2) [of "bs ! i"] hb [of i] i by (simp add: holds_def bufv_def nbufs_def)
      then show "holds ?u (bs ! i) (r_src r) (j_seg (r_move r) i) (r_tag r) (r_seq r (Suc i))"
        using hb [of i] i uk(3) by (simp add: holds_def header_of_def)
    qed
    have p: "prefix (trace s) (trace v)" using sv by (simp add: rx_kept_def)
    have q: "in_seq (r_world r) (r_src r) v = r_seq r n"
    proof -
      have "rx_world s (r_world r) (r_src r)"
        by (rule rx_world_kept [OF kept]) (use rdy in \<open>simp add: rx_ready_def\<close>)
      then have "in_seq (r_world r) (r_src r) v = in_seq (r_world r) (r_src r) s"
        using sv by (simp add: rx_kept_def rx_world_def in_seq_def free_words_def)
      with rc show ?thesis by (simp add: receiving_def)
    qed
    have "receiving r A lead pre bs n n (Suc a) l' v"
      using rc kv an hv q ring same segment_came_mono [OF _ p] rx_kept_inv(7) [OF sv] v
      by (simp add: receiving_def rx_offsets_def waited_def)
    moreover have "dma_tag v = dma_tag s" using v by (simp add: waited_def)
    ultimately show "ends (ret l') v ?Q ?E" using sv by simp
  qed
  then show ?thesis by (simp add: ends_def run)
qed

text \<open>What the four transfers share: take a segment, then give its commands.\<close>

lemma rx_issue_ends:
  assumes rdy: "rx_ready r A" and rc: "receiving r A lead pre bs n n a l s"
    and n: "n < j_segs (r_move r)" "n < a + j_m (r_move r)"
    and go: "\<And>b l1 s1. receiving r A lead pre (bs @ [b]) (Suc n) n a l1 s1 \<Longrightarrow> rx_kept (in_word (r_world r) (r_src r)) s s1 \<Longrightarrow>
      \<exists>l2. f (buffer_addr (r_start r) b, l1) s1 = Some (Ret l2, s1\<lparr>trace := trace s1 @ pre n @ rx_commands r b n\<rparr>) \<and>
        rx_offsets (r_move r) (Suc n) l2 \<and> spare_buffer_indexes l2 = spare_buffer_indexes l1 \<and>
        ring_start l2 = ring_start l1 \<and> ring_end l2 = ring_end l1"
  shows "ends (bnd (rx_segment (r_world r) (r_src r) (r_tag r) (j_seg (r_move r) n) l) f) s
     (\<lambda>l' s'. (\<exists>bs. receiving r A lead pre bs (Suc n) (Suc n) a l' s') \<and> dma_tag s' = dma_tag s \<and>
        rx_kept (in_word (r_world r) (r_src r)) s s')
     (\<lambda>c s'. rx_error c \<and> rx_kept A (r_start r) s')" (is "ends _ _ ?Q ?E")
proof (rule ends_bndI [OF rx_segment_ends [OF rdy rc n]])
  fix x t
  assume x: "(\<lambda>(adr, l') s'. \<exists>b. adr = buffer_addr (r_start r) b \<and> receiving r A lead pre (bs @ [b]) (Suc n) n a l' s' \<and>
        dma_tag s' = dma_tag s \<and> op0_addr l' = op0_addr l \<and> dst_addr l' = dst_addr l \<and> rx_tag_tmp l' = rx_tag_tmp l \<and>
        rx_kept (in_word (r_world r) (r_src r)) s s') x t"
  then obtain b l1 where xb: "x = (buffer_addr (r_start r) b, l1)"
    and t: "receiving r A lead pre (bs @ [b]) (Suc n) n a l1 t" "dma_tag t = dma_tag s"
      "rx_kept (in_word (r_world r) (r_src r)) s t"
    by (cases x) auto
  let ?u = "t\<lparr>trace := trace t @ pre n @ rx_commands r b n\<rparr>"
  from go [OF t(1,3)] obtain l2 where l2: "f x t = Some (Ret l2, ?u)" "rx_offsets (r_move r) (Suc n) l2"
    and same: "spare_buffer_indexes l2 = spare_buffer_indexes l1" "ring_start l2 = ring_start l1" "ring_end l2 = ring_end l1"
    unfolding xb by blast
  have len: "length bs = n" using rc by (simp add: receiving_def)
  have u: "receiving r A lead pre (bs @ [b]) (Suc n) (Suc n) a l2 ?u"
    by (rule rx_command_step [OF rdy t(1) n(1) _ l2(2) same]) (simp add: len nth_append)
  note k = rx_kept_inv [OF receiving_kept [OF t(1)]]
  have "rx_kept {} t ?u"
    by (rule rx_kept_frame [OF k(1,2)]) (simp_all add: frame_def same_settings_def free_words_def same_rx_stream)
  then have "rx_kept (in_word (r_world r) (r_src r)) s ?u"
    by (rule rx_kept_trans [OF t(3) rx_kept_mono]) simp
  with u t(2) l2(1) show "ends (f x) t ?Q ?E" by (auto simp: ends_def)
qed

subsection \<open>Receiving into a buffer, and with accumulation\<close>

definition rc_inv :: "u32 \<Rightarrow> rx_job \<Rightarrow> nat \<Rightarrow> nat \<Rightarrow> rx_locals \<Rightarrow> fw_state \<Rightarrow> bool" where
  "rc_inv what r n a l s \<longleftrightarrow> j_what (r_move r) = what \<and> rx_ready r (in_word (r_world r) (r_src r)) \<and>
     dma_tag s = j_tag (r_move r) a \<and>
     (\<exists>bs. receiving r (in_word (r_world r) (r_src r)) [] (\<lambda>_. []) bs n n a l s)"

definition rc_err :: "rx_job \<Rightarrow> u32 \<Rightarrow> fw_state \<Rightarrow> bool" where
  "rc_err r c s \<longleftrightarrow> rx_error c \<and> rx_kept (in_word (r_world r) (r_src r)) (r_start r) s"

lemma rx_ready_settings:
  assumes "rx_ready r A" and "receiving r A lead pre bs n i a l s"
  shows "dma_transaction_size s = dma_transaction_size (r_start r)" and "max_dma_in_flight s = max_dma_in_flight (r_start r)"
    and "0 < dma_transaction_size (r_start r)" and "0 < max_dma_in_flight (r_start r)" and "timeout s \<noteq> 0"
    and "0 < j_d (r_move r)" and "dmas_ok (j_what (r_move r))" and "rx_dmas (j_what (r_move r))"
  using assms rx_kept_inv(4,6,7) [OF receiving_kept [OF assms(2)]]
  by (simp_all add: rx_ready_def j_ready_def j_ready_d rx_dmas_def dmas_ok_def)

lemma rc_issue:
  assumes iv: "rc_inv what r n a l s" and n: "n < j_segs (r_move r)" "n < a + j_m (r_move r)"
    and issue: "\<And>l. issue (j_seg (r_move r) n) l =
      bnd (rx_segment (r_world r) (r_src r) (r_tag r) (j_seg (r_move r) n) l) (\<lambda>(adr, l).
      bnd (start_dma (j_seg (r_move r) n) (a0 l) adr (dst_addr l) 0 what (rx_tag_tmp l)) (\<lambda>t. ret (upd t l)))"
    and a0: "\<And>l. uses what USE_DMA0_RX \<Longrightarrow> a0 l = op0_addr l"
    and upd: "\<And>l t. rx_tag_tmp (upd t l) = t \<and> dst_addr (upd t l) = dst_addr l + ucast (j_seg (r_move r) n) \<and>
      (uses what USE_DMA0_RX \<longrightarrow> op0_addr (upd t l) = op0_addr l + ucast (j_seg (r_move r) n)) \<and>
      spare_buffer_indexes (upd t l) = spare_buffer_indexes l \<and> ring_start (upd t l) = ring_start l \<and>
      ring_end (upd t l) = ring_end l"
  shows "ends (issue (j_seg (r_move r) n) l) s (\<lambda>l' s'. rc_inv what r (Suc n) a l' s') (rc_err r)"
proof -
  let ?A = "in_word (r_world r) (r_src r)"
  from iv obtain bs where w: "j_what (r_move r) = what" and rdy: "rx_ready r ?A" and tg: "dma_tag s = j_tag (r_move r) a"
    and rc: "receiving r ?A [] (\<lambda>_. []) bs n n a l s" by (auto simp: rc_inv_def)
  note st = rx_ready_settings [OF rdy rc]
  show ?thesis
    unfolding issue
  proof (rule ends_weaken [OF rx_issue_ends [OF rdy rc n]])
    fix b l1 s1 assume t: "receiving r ?A [] (\<lambda>_. []) (bs @ [b]) (Suc n) n a l1 s1"
    then have off: "rx_offsets (r_move r) n l1" by (simp add: receiving_def)
    have "start_dma (j_seg (r_move r) n) (a0 l1) (buffer_addr (r_start r) b) (dst_addr l1) 0 what (rx_tag_tmp l1) s1 =
       Some (Ret (j_tag (r_move r) (Suc n)), s1\<lparr>trace := trace s1 @ rx_commands r b n\<rparr>)"
      using rx_start_run [OF off st(8) n(1) st(6), where ?a0.0 = "a0 l1" and ?t1.0 = "dst_addr l1" and b = b and s = s1] a0
      by (simp add: w)
    moreover have "rx_offsets (r_move r) (Suc n) (upd (j_tag (r_move r) (Suc n)) l1)"
      by (rule rx_offsets_Suc [OF off n(1) st(6)]) (use upd w in auto)
    ultimately show "\<exists>l2. (\<lambda>(adr, l). bnd (start_dma (j_seg (r_move r) n) (a0 l) adr (dst_addr l) 0 what (rx_tag_tmp l))
          (\<lambda>t. ret (upd t l))) (buffer_addr (r_start r) b, l1) s1 =
          Some (Ret l2, s1\<lparr>trace := trace s1 @ [] @ rx_commands r b n\<rparr>) \<and>
        rx_offsets (r_move r) (Suc n) l2 \<and> spare_buffer_indexes l2 = spare_buffer_indexes l1 \<and>
        ring_start l2 = ring_start l1 \<and> ring_end l2 = ring_end l1"
      using upd by (simp add: bnd_def prim_run)
  next
    fix l' s' assume "(\<exists>bs. receiving r ?A [] (\<lambda>_. []) bs (Suc n) (Suc n) a l' s') \<and> dma_tag s' = dma_tag s \<and> rx_kept ?A s s'"
    then show "rc_inv what r (Suc n) a l' s'" using w rdy tg by (auto simp: rc_inv_def)
  qed (simp add: rc_err_def)
qed

lemma rc_ack:
  assumes iv: "rc_inv what r n a l s" and an: "a < n" and nN: "n \<le> j_segs (r_move r)"
  shows "ends (receive_ack what (j_seg (r_move r) a) l) s (\<lambda>l' s'. rc_inv what r n (Suc a) l' s') (rc_err r)"
proof -
  let ?A = "in_word (r_world r) (r_src r)"
  from iv obtain bs where w: "j_what (r_move r) = what" and rdy: "rx_ready r ?A" and tg: "dma_tag s = j_tag (r_move r) a"
    and rc: "receiving r ?A [] (\<lambda>_. []) bs n n a l s" by (auto simp: rc_inv_def)
  note st = rx_ready_settings [OF rdy rc]
  note kept = receiving_kept [OF rc]
  show ?thesis
    unfolding receive_ack_def
  proof (rule ends_bndI [OF ends_weaken [OF ends_leaves_rx [OF leaves_rx_ack_dma ack_dma_ends]]])
    show "timeout s \<noteq> 0" "dmas_ok what" using st w by simp_all
    fix c t assume c: "(dma_error c \<and> frame {} s t) \<and> same_rx s t"
    have "rx_kept {} s t"
      by (rule rx_kept_frame [OF rx_kept_inv(1,2) [OF kept]]) (use c in \<open>simp_all add: free_words_def\<close>)
    from rx_kept_trans [OF kept rx_kept_mono [OF this]] c show "rc_err r c t"
      by (simp add: rc_err_def rx_error_def deq_error_def)
  next
    fix x t assume "acked (j_seg (r_move r) a) (acks what) s t \<and> same_rx s t"
    then have t: "acked (j_seg (r_move r) a) (acks what) s t" ..
    have rt: "receiving r ?A [] (\<lambda>_. []) bs n n a l t" by (rule rx_acked_step [OF rdy rc t])
    have tt: "dma_tag t = j_tag (r_move r) (Suc a)" using t tg w by (simp add: acked_def j_tag_Suc)
    show "ends (rx_release l) t (\<lambda>l' s'. rc_inv what r n (Suc a) l' s') (rc_err r)"
      by (rule ends_weaken [OF rx_release_ends [OF rdy rt an nN]])
        (use w rdy tt in \<open>auto simp: rc_inv_def rc_err_def\<close>)
  qed
qed

lemma rc_params:
  assumes "rc_inv what r n a l s"
  shows "dma_transaction_size s = dma_transaction_size (r_start r) \<and>
      max_dma_in_flight s = max_dma_in_flight (r_start r) \<and>
      0 < dma_transaction_size (r_start r) \<and> 0 < max_dma_in_flight (r_start r)"
proof -
  from assms obtain bs where "rx_ready r (in_word (r_world r) (r_src r))"
    and "receiving r (in_word (r_world r) (r_src r)) [] (\<lambda>_. []) bs n n a l s" unfolding rc_inv_def by blast
  from rx_ready_settings(1-4) [OF this] show ?thesis by blast
qed

abbreviation (input) RECEIVE_DMAS :: u32 where "RECEIVE_DMAS \<equiv> USE_DMA1_RX OR USE_DMA1_TX"
abbreviation (input) ACCUMULATE_DMAS :: u32 where "ACCUMULATE_DMAS \<equiv> USE_DMA0_RX OR USE_DMA1_RX OR USE_DMA1_TX"

lemma receive_issue_ends:
  assumes "rc_inv RECEIVE_DMAS r n a l s" and "n < j_segs (r_move r)" and "n < a + j_m (r_move r)"
  shows "ends (receive_issue (r_world r) (r_src r) (r_tag r) (j_seg (r_move r) n) l) s
     (\<lambda>l' s'. rc_inv RECEIVE_DMAS r (Suc n) a l' s') (rc_err r)"
  by (rule rc_issue [OF assms, where ?a0.0 = "\<lambda>_. 0" and
        upd = "\<lambda>t l. l\<lparr>rx_tag_tmp := t, dst_addr := dst_addr l + ucast (j_seg (r_move r) n)\<rparr>"])
    (simp_all add: receive_issue_def uses_def)

lemma accumulate_issue_ends:
  assumes "rc_inv ACCUMULATE_DMAS r n a l s" and "n < j_segs (r_move r)" and "n < a + j_m (r_move r)"
  shows "ends (accumulate_issue (r_world r) (r_src r) (r_tag r) (j_seg (r_move r) n) l) s
     (\<lambda>l' s'. rc_inv ACCUMULATE_DMAS r (Suc n) a l' s') (rc_err r)"
  by (rule rc_issue [OF assms, where ?a0.0 = op0_addr and
        upd = "\<lambda>t l. l\<lparr>rx_tag_tmp := t, op0_addr := op0_addr l + ucast (j_seg (r_move r) n),
          dst_addr := dst_addr l + ucast (j_seg (r_move r) n)\<rparr>"])
    (simp_all add: accumulate_issue_def)

interpretation rc: job_transfer
  "\<lambda>r. receive_issue (r_world r) (r_src r) (r_tag r)" "\<lambda>r. receive_issue (r_world r) (r_src r) (r_tag r)"
  "\<lambda>r. receive_ack RECEIVE_DMAS" "rc_inv RECEIVE_DMAS" rc_err r_move
  by (unfold_locales; (rule rc_params receive_issue_ends rc_ack)?; simp)

interpretation ac: job_transfer
  "\<lambda>r. accumulate_issue (r_world r) (r_src r) (r_tag r)" "\<lambda>r. accumulate_issue (r_world r) (r_src r) (r_tag r)"
  "\<lambda>r. receive_ack ACCUMULATE_DMAS" "rc_inv ACCUMULATE_DMAS" rc_err r_move
  by (unfold_locales; (rule rc_params accumulate_issue_ends rc_ack)?; simp)

subsection \<open>What a finished transfer has read and written\<close>

text \<open>
  \<open>consumed s world src tag len op0 dst what s'\<close>: segment by segment, the messages of \<open>src\<close> with the next
  sequence numbers were taken from buffers; DMA1 was told to read those buffers in that order, DMA0 the operand and
  DMA1 to write the destination, as far as \<open>what\<close> uses them, and nothing else; every command is whole.
\<close>

definition consumed :: "fw_state \<Rightarrow> communicator \<Rightarrow> u32 \<Rightarrow> u32 \<Rightarrow> u32 \<Rightarrow> u64 \<Rightarrow> u64 \<Rightarrow> u32 \<Rightarrow> fw_state \<Rightarrow> bool" where
  "consumed s world src tag len op0 dst what s' \<longleftrightarrow>
     (let d = unat (dma_transaction_size s); N = nsegs d (unat len) in
        in_seq world src s' = in_seq world src s + of_nat N \<and>
        (\<exists>bs es. length bs = N \<and> trace s' = trace s @ es \<and>
           (\<forall>k<N. unat (bs ! k) < nbufs s \<and> (\<exists>t. (t = tag \<or> tag = TAG_ANY) \<and>
              came s s' [of_nat (seg d (unat len) k), t, src, in_seq world src s + of_nat k + 1])) \<and>
           accessed CMD_DMA1_RX es =
             concat (map (\<lambda>k. bytes_of (of_nat (seg d (unat len) k), buffer_addr s (bs ! k))) [0..<N]) \<and>
           accessed CMD_DMA0_RX es = (if uses what USE_DMA0_RX then buffer op0 len else []) \<and>
           accessed CMD_DMA1_TX es = (if uses what USE_DMA1_TX then buffer dst len else []) \<and>
           accessed CMD_DMA2_RX es = [] \<and> whole_commands es))"

text \<open>The bytes of the segments of one channel, when issuing puts nothing else on it.\<close>

lemma segments_accessed:
  assumes "words_on ch es = concat (map (\<lambda>k. words_on ch (c k)) [0..<j_segs j])"
    and "dma_transaction_size (j_start j) \<le> DMA_MAX_BTT"
    and "\<And>k. k < j_segs j \<Longrightarrow> one_command (j_seg j k) (adr k) (words_on ch (c k))"
  shows "accessed ch es = concat (map (\<lambda>k. bytes_of (j_seg j k, adr k)) [0..<j_segs j])"
proof -
  have "dma_commands (words_on ch es) = map (\<lambda>k. (j_seg j k, adr k)) [0..<j_segs j]"
    unfolding assms(1)
    by (rule dma_commands_segs) (use assms(3) order_trans [OF j_seg_le assms(2)] in auto)
  then show ?thesis by (simp add: accessed_def o_def)
qed

lemma silent_accessed:
  assumes "words_on ch es = concat (map w [0..<n])" and "\<And>k. w k = []"
  shows "accessed ch es = []"
proof -
  have "words_on ch es = []" by (simp add: assms)
  then show ?thesis by (simp add: accessed_def)
qed

lemma receiving_consumed:
  assumes rdy: "rx_ready r A" and small: "dma_transaction_size (r_start r) \<le> DMA_MAX_BTT"
    and rc: "receiving r A lead pre bs (j_segs (r_move r)) (j_segs (r_move r)) a l s"
    and quiet: "\<And>ch k. ch \<in> {CMD_DMA0_RX, CMD_DMA1_RX, CMD_DMA1_TX, CMD_DMA2_RX} \<Longrightarrow>
      words_on ch lead = [] \<and> words_on ch (pre k) = []"
  shows "consumed (r_start r) (r_world r) (r_src r) (r_tag r) (j_len (r_move r)) (j_rx0 (r_move r)) (j_tx1 (r_move r))
     (j_what (r_move r)) s"
proof -
  let ?j = "r_move r" and ?N = "j_segs (r_move r)"
  note st = rx_ready_settings [OF rdy rc]
  have ok: "dmas_ok (j_what ?j)" and d: "0 < j_d ?j" using st by simp_all
  have what: "uses (j_what ?j) USE_DMA1_RX" "\<not> uses (j_what ?j) USE_DMA1_TX_WITHOUT_TLAST" "\<not> uses (j_what ?j) USE_DMA2_RX"
    using st(8) by (simp_all add: rx_dmas_def)
  obtain es where es: "trace s = trace (r_start r) @ es"
    using receiving_kept [OF rc] by (auto simp: rx_kept_def prefix_def)
  have w: "words_on ch es = concat (map (\<lambda>k. words_on ch (rx_commands r (bs ! k) k)) [0..<?N])"
    if "ch \<in> {CMD_DMA0_RX, CMD_DMA1_RX, CMD_DMA1_TX, CMD_DMA2_RX}" for ch
  proof -
    have "ch \<notin> {CMD_DMA0_TX, CMD_DMA2_TX}" using that by auto
    with rc have "words_on ch (trace s) = words_on ch (trace (r_start r)) @ words_on ch lead @
          concat (map (\<lambda>k. words_on ch (pre k @ rx_commands r (bs ! k) k)) [0..<?N])"
      unfolding receiving_def by blast
    with quiet [OF that] es show ?thesis by simp
  qed
  note e = words_on_emit [OF ok]
  have "accessed CMD_DMA1_RX es = concat (map (\<lambda>k. bytes_of (j_seg ?j k, buffer_addr (r_start r) (bs ! k))) [0..<?N])"
    by (rule segments_accessed [OF w small]) (use e(2) what in \<open>simp_all add: rx_commands_def Let_def\<close>)
  moreover have "accessed CMD_DMA0_RX es = (if uses (j_what ?j) USE_DMA0_RX then buffer (j_rx0 ?j) (j_len ?j) else [])"
  proof (cases "uses (j_what ?j) USE_DMA0_RX")
    case True
    have "accessed CMD_DMA0_RX es = concat (map (\<lambda>k. bytes_of (j_seg ?j k, j_rx0 ?j + of_nat (k * j_d ?j))) [0..<?N])"
      by (rule segments_accessed [OF w small]) (use e(1) True in \<open>simp_all add: rx_commands_def Let_def\<close>)
    with True segs_cover_all [OF d] show ?thesis by simp
  next
    case False
    then have "accessed CMD_DMA0_RX es = []"
      by (intro silent_accessed [OF w]) (use e(1) in \<open>simp_all add: rx_commands_def Let_def\<close>)
    with False show ?thesis by simp
  qed
  moreover have "accessed CMD_DMA1_TX es = (if uses (j_what ?j) USE_DMA1_TX then buffer (j_tx1 ?j) (j_len ?j) else [])"
  proof (cases "uses (j_what ?j) USE_DMA1_TX")
    case True
    have "accessed CMD_DMA1_TX es = concat (map (\<lambda>k. bytes_of (j_seg ?j k, j_tx1 ?j + of_nat (k * j_d ?j))) [0..<?N])"
      by (rule segments_accessed [OF w small]) (use e(3) True what in \<open>simp_all add: rx_commands_def Let_def\<close>)
    with True segs_cover_all [OF d] show ?thesis by simp
  next
    case False
    then have "accessed CMD_DMA1_TX es = []"
      by (intro silent_accessed [OF w]) (use e(3) what in \<open>simp_all add: rx_commands_def Let_def\<close>)
    with False show ?thesis by simp
  qed
  moreover have "accessed CMD_DMA2_RX es = []"
    by (intro silent_accessed [OF w]) (use e(4) what in \<open>simp_all add: rx_commands_def Let_def\<close>)
  moreover have "whole_commands es"
    unfolding whole_commands_def
  proof
    fix ch assume "ch \<in> dma_channels"
    then show "4 dvd length (words_on ch es)"
      using w [of ch] whole_emit [OF ok, of ch] by (simp only: rx_commands_def Let_def whole_segments)
  qed
  moreover have "\<forall>k<?N. unat (bs ! k) < nbufs (r_start r) \<and> (\<exists>t. (t = r_tag r \<or> r_tag r = TAG_ANY) \<and>
      came (r_start r) s [j_seg ?j k, t, r_src r, in_seq (r_world r) (r_src r) (r_start r) + of_nat k + 1])"
  proof -
    have "r_seq r (Suc k) = in_seq (r_world r) (r_src r) (r_start r) + of_nat k + 1" for k
      by (simp add: r_seq_def)
    moreover have "\<forall>k<?N. segment_came r s (bs ! k) k" using rc unfolding receiving_def by blast
    ultimately show ?thesis by (simp only: segment_came_def)
  qed
  moreover have "length bs = ?N" "in_seq (r_world r) (r_src r) s = in_seq (r_world r) (r_src r) (r_start r) + of_nat ?N"
    using rc by (simp_all add: receiving_def r_seq_def)
  ultimately show ?thesis
    unfolding consumed_def Let_def j_segs_def [symmetric] j_d_def [symmetric] j_seg_def [symmetric] using es by blast
qed

subsection \<open>Forwarding what is received\<close>

definition fw_words :: "rx_job \<Rightarrow> u32 set" where
  "fw_words r = in_word (r_world r) (r_src r) \<union> {p_addr (r_pkt r)}"

definition fw_ready :: "u32 \<Rightarrow> rx_job \<Rightarrow> bool" where
  "fw_ready what r \<longleftrightarrow> j_what (r_move r) = what \<and> rx_ready r (fw_words r) \<and>
     (\<forall>f \<in> {port, session, outbound_seq}.
        rank_addr (r_world r) (p_dst (r_pkt r)) f \<notin> isr_words (nbufs (r_start r)) \<and>
        rank_addr (r_world r) (p_dst (r_pkt r)) f \<noteq> rank_addr (r_world r) (r_src r) inbound_seq)"

definition fw_inv :: "u32 \<Rightarrow> rx_job \<Rightarrow> nat \<Rightarrow> nat \<Rightarrow> rx_locals \<Rightarrow> fw_state \<Rightarrow> bool" where
  "fw_inv what r n a l s \<longleftrightarrow> fw_ready what r \<and> dma_tag s = j_tag (r_move r) a \<and>
     out_seq (r_world r) (p_dst (r_pkt r)) s = out_seq (r_world r) (p_dst (r_pkt r)) (r_start r) + of_nat a \<and>
     (\<exists>bs. receiving r (fw_words r) (p_lead (r_pkt r)) (p_pre (r_pkt r)) bs n n a l s)"

definition fw_err :: "rx_job \<Rightarrow> u32 \<Rightarrow> fw_state \<Rightarrow> bool" where
  "fw_err r c s \<longleftrightarrow> (rx_error c \<or> pkt_error c) \<and> rx_kept (fw_words r) (r_start r) s"

lemma fw_params:
  assumes "fw_inv what r n a l s"
  shows "dma_transaction_size s = dma_transaction_size (r_start r) \<and>
      max_dma_in_flight s = max_dma_in_flight (r_start r) \<and>
      0 < dma_transaction_size (r_start r) \<and> 0 < max_dma_in_flight (r_start r)"
proof -
  from assms obtain bs where "rx_ready r (fw_words r)"
    and "receiving r (fw_words r) (p_lead (r_pkt r)) (p_pre (r_pkt r)) bs n n a l s"
    unfolding fw_inv_def fw_ready_def by blast
  from rx_ready_settings(1-4) [OF this] show ?thesis by blast
qed

lemma out_seq_kept:
  assumes "rx_kept B s t" and "B \<subseteq> in_word (r_world r) (r_src r)" and "fw_ready what r" and "nbufs s = nbufs (r_start r)"
  shows "out_seq (r_world r) (p_dst (r_pkt r)) t = out_seq (r_world r) (p_dst (r_pkt r)) s"
proof -
  let ?o = "rank_addr (r_world r) (p_dst (r_pkt r)) outbound_seq"
  have "?o \<notin> isr_words (nbufs s)" "?o \<notin> B" using assms(2-4) by (auto simp: fw_ready_def)
  with assms(1) show ?thesis by (simp add: rx_kept_def out_seq_def)
qed

text \<open>The header of a segment in the second loop, after the segment has come.\<close>

lemma fw_header_run:
  assumes kept: "rx_kept (fw_words r) (r_start r) s" and fr: "fw_ready what r"
    and os: "out_seq (r_world r) (p_dst (r_pkt r)) s = out_seq (r_world r) (p_dst (r_pkt r)) (r_start r) + of_nat a"
    and n: "n < j_segs (r_move r)" and late: "if again then Suc n = a + j_m (r_move r) \<and> 0 < a else n < j_m (r_move r)"
  shows "rx_header again (r_world r) (p_dst (r_pkt r)) (p_tag (r_pkt r)) (j_seg (r_move r) n) s =
     Some (Ret (), s\<lparr>trace := trace s @ p_pre (r_pkt r) n\<rparr>)"
proof (cases again)
  case True
  let ?p = "r_pkt r"
  note k = rx_kept_inv [OF kept]
  have rdy: "j_ready (p_move ?p)" "ranks (p_world ?p) \<noteq> 0"
    using fr by (simp_all add: fw_ready_def rx_ready_def rx_world_def)
  have same: "pkt_net s = pkt_net (p_start ?p)" using k(5) by (simp add: pkt_net_def)
  have "rank_addr (r_world r) (p_dst ?p) f \<notin> fw_words r \<union> isr_words (nbufs (r_start r))" if "f \<in> {port, session}" for f
    using fr that by (auto simp: fw_ready_def fw_words_def p_addr_def)
  then have dst: "pkt_dst (p_world ?p) (p_dst ?p) s = pkt_dst (p_world ?p) (p_dst ?p) (p_start ?p)"
    using kept k(5) by (simp add: pkt_dst_def rx_kept_def)
  have "start_packetizer_message (p_world ?p) (p_dst ?p) (j_seg (p_move ?p) n) (p_tag ?p) (max_dma_in_flight s - 1) s =
      Some (Ret 1, s\<lparr>trace := trace s @ p_pre ?p n\<rparr>)"
    by (rule again_header_run [OF rdy os n _ _ same dst k(6,7)]) (use late True in simp_all)
  with True show ?thesis by (simp add: rx_header_def whenM_def bnd_def getf_def prim_run)
next
  case False
  with late show ?thesis by (simp add: rx_header_def whenM_def prim_run p_pre_def)
qed

lemma fw_issue:
  assumes iv: "fw_inv what r n a l s" and n: "n < j_segs (r_move r)"
    and late: "if again then Suc n = a + j_m (r_move r) \<and> 0 < a else n < j_m (r_move r)"
    and issue: "\<And>l. issue (j_seg (r_move r) n) l =
      bnd (rx_segment (r_world r) (r_src r) (r_tag r) (j_seg (r_move r) n) l) (\<lambda>(adr, l).
      bnd (rx_header again (r_world r) (p_dst (r_pkt r)) (p_tag (r_pkt r)) (j_seg (r_move r) n)) (\<lambda>_.
      bnd (start_dma (j_seg (r_move r) n) (a0 l) adr 0 0 what (rx_tag_tmp l)) (\<lambda>t. ret (upd t l))))"
    and a0: "\<And>l. uses what USE_DMA0_RX \<Longrightarrow> a0 l = op0_addr l" and tx: "\<not> uses what USE_DMA1_TX"
    and upd: "\<And>l t. rx_tag_tmp (upd t l) = t \<and>
      (uses what USE_DMA0_RX \<longrightarrow> op0_addr (upd t l) = op0_addr l + ucast (j_seg (r_move r) n)) \<and>
      spare_buffer_indexes (upd t l) = spare_buffer_indexes l \<and> ring_start (upd t l) = ring_start l \<and>
      ring_end (upd t l) = ring_end l"
  shows "ends (issue (j_seg (r_move r) n) l) s (\<lambda>l' s'. fw_inv what r (Suc n) a l' s') (fw_err r)"
proof -
  let ?A = "fw_words r" and ?lead = "p_lead (r_pkt r)" and ?pre = "p_pre (r_pkt r)"
  from iv obtain bs where fr: "fw_ready what r" and tg: "dma_tag s = j_tag (r_move r) a"
    and os: "out_seq (r_world r) (p_dst (r_pkt r)) s = out_seq (r_world r) (p_dst (r_pkt r)) (r_start r) + of_nat a"
    and rc: "receiving r ?A ?lead ?pre bs n n a l s" by (auto simp: fw_inv_def)
  have rdy: "rx_ready r ?A" and w: "j_what (r_move r) = what" using fr by (simp_all add: fw_ready_def)
  note st = rx_ready_settings [OF rdy rc]
  have nb: "nbufs s = nbufs (r_start r)" by (rule rx_kept_inv(3) [OF receiving_kept [OF rc]])
  have nm: "n < a + j_m (r_move r)" using late by (auto split: if_splits)
  have os': "out_seq (r_world r) (p_dst (r_pkt r)) t = out_seq (r_world r) (p_dst (r_pkt r)) (r_start r) + of_nat a"
    if "rx_kept (in_word (r_world r) (r_src r)) s t" for t
    using out_seq_kept [OF that order_refl fr nb] os by simp
  show ?thesis
    unfolding issue
  proof (rule ends_weaken [OF rx_issue_ends [OF rdy rc n nm]])
    fix b l1 s1 assume t: "receiving r ?A ?lead ?pre (bs @ [b]) (Suc n) n a l1 s1"
      and k: "rx_kept (in_word (r_world r) (r_src r)) s s1"
    have off: "rx_offsets (r_move r) n l1" using t by (simp add: receiving_def)
    let ?s2 = "s1\<lparr>trace := trace s1 @ ?pre n\<rparr>"
    have hd: "rx_header again (r_world r) (p_dst (r_pkt r)) (p_tag (r_pkt r)) (j_seg (r_move r) n) s1 = Some (Ret (), ?s2)"
      by (rule fw_header_run [OF receiving_kept [OF t] fr os' [OF k] n late])
    have "start_dma (j_seg (r_move r) n) (a0 l1) (buffer_addr (r_start r) b) 0 0 what (rx_tag_tmp l1) ?s2 =
       Some (Ret (j_tag (r_move r) (Suc n)), ?s2\<lparr>trace := trace ?s2 @ rx_commands r b n\<rparr>)"
      using rx_start_run [OF off st(8) n st(6), where ?a0.0 = "a0 l1" and ?t1.0 = 0 and b = b and s = ?s2] a0 tx
      by (simp add: w)
    moreover have "rx_offsets (r_move r) (Suc n) (upd (j_tag (r_move r) (Suc n)) l1)"
      by (rule rx_offsets_Suc [OF off n st(6)]) (use upd w tx in auto)
    ultimately show "\<exists>l2. (\<lambda>(adr, l). bnd (rx_header again (r_world r) (p_dst (r_pkt r)) (p_tag (r_pkt r)) (j_seg (r_move r) n))
          (\<lambda>_. bnd (start_dma (j_seg (r_move r) n) (a0 l) adr 0 0 what (rx_tag_tmp l)) (\<lambda>t. ret (upd t l))))
          (buffer_addr (r_start r) b, l1) s1 =
          Some (Ret l2, s1\<lparr>trace := trace s1 @ ?pre n @ rx_commands r b n\<rparr>) \<and>
        rx_offsets (r_move r) (Suc n) l2 \<and> spare_buffer_indexes l2 = spare_buffer_indexes l1 \<and>
        ring_start l2 = ring_start l1 \<and> ring_end l2 = ring_end l1"
      using upd hd by (simp add: bnd_def prim_run)
  next
    fix l' s' assume "(\<exists>bs. receiving r ?A ?lead ?pre bs (Suc n) (Suc n) a l' s') \<and> dma_tag s' = dma_tag s \<and>
        rx_kept (in_word (r_world r) (r_src r)) s s'"
    then show "fw_inv what r (Suc n) a l' s'" using fr tg os' [of s'] by (auto simp: fw_inv_def)
  qed (simp add: fw_err_def)
qed

lemma fw_ack:
  assumes iv: "fw_inv what r n a l s" and an: "a < n" and nN: "n \<le> j_segs (r_move r)"
  shows "ends (forward_ack (r_world r) (p_dst (r_pkt r)) what (j_seg (r_move r) a) l) s
     (\<lambda>l' s'. fw_inv what r n (Suc a) l' s') (fw_err r)"
proof -
  let ?A = "fw_words r" and ?lead = "p_lead (r_pkt r)" and ?pre = "p_pre (r_pkt r)"
  let ?w = "r_world r" and ?d = "p_dst (r_pkt r)"
  from iv obtain bs where fr: "fw_ready what r" and tg: "dma_tag s = j_tag (r_move r) a"
    and os: "out_seq ?w ?d s = out_seq ?w ?d (r_start r) + of_nat a"
    and rc: "receiving r ?A ?lead ?pre bs n n a l s" by (auto simp: fw_inv_def)
  have rdy: "rx_ready r ?A" and w: "j_what (r_move r) = what" using fr by (simp_all add: fw_ready_def)
  note st = rx_ready_settings [OF rdy rc]
  note kept = receiving_kept [OF rc]
  show ?thesis
    unfolding forward_ack_def
  proof (rule ends_bndI [OF ends_weaken [OF ends_leaves_rx [OF leaves_rx_ack_dma ack_dma_ends]]])
    show "timeout s \<noteq> 0" "dmas_ok what" using st w by simp_all
    fix c t assume c: "(dma_error c \<and> frame {} s t) \<and> same_rx s t"
    have "rx_kept {} s t"
      by (rule rx_kept_frame [OF rx_kept_inv(1,2) [OF kept]]) (use c in \<open>simp_all add: free_words_def\<close>)
    from rx_kept_trans [OF kept rx_kept_mono [OF this]] c show "fw_err r c t"
      by (simp add: fw_err_def rx_error_def deq_error_def)
  next
    fix x t assume "acked (j_seg (r_move r) a) (acks what) s t \<and> same_rx s t"
    then have t: "acked (j_seg (r_move r) a) (acks what) s t" ..
    have rt: "receiving r ?A ?lead ?pre bs n n a l t" by (rule rx_acked_step [OF rdy rc t])
    have tt: "dma_tag t = j_tag (r_move r) (Suc a)" using t tg w by (simp add: acked_def j_tag_Suc)
    have ot: "out_seq ?w ?d t = out_seq ?w ?d (r_start r) + of_nat a"
      using t os frame_mem [of "{}" s t] by (simp add: acked_def out_seq_def)
    note kt = receiving_kept [OF rt]
    have out: "{rank_addr ?w ?d outbound_seq} \<subseteq> ?A" "rank_addr ?w (r_src r) inbound_seq \<notin> {rank_addr ?w ?d outbound_seq}"
      using fr by (auto simp: fw_words_def p_addr_def fw_ready_def)
    have free: "free_words (nbufs t) {rank_addr ?w ?d outbound_seq}"
      using rdy out(1) rx_kept_inv(3) [OF kt] by (auto simp: rx_ready_def free_words_def)
    show "ends (bnd (ack_packetizer ?w ?d 1) (\<lambda>_. rx_release l)) t (\<lambda>l' s'. fw_inv what r n (Suc a) l' s') (fw_err r)"
    proof (rule ends_bndI [OF ends_weaken [OF ends_leaves_rx [OF leaves_rx_ack_packetizer ack_packetizer_ends]]])
      show "timeout t \<noteq> 0" using rx_ready_settings(5) [OF rdy rt] .
      show "ranks ?w \<noteq> 0" using rdy by (simp add: rx_ready_def rx_world_def)
    next
      fix c u assume c: "(pkt_error c \<and> frame {rank_addr ?w ?d outbound_seq} t u) \<and> same_rx t u"
      have "rx_kept {rank_addr ?w ?d outbound_seq} t u"
        by (rule rx_kept_frame [OF rx_kept_inv(1,2) [OF kt]]) (use c free in simp_all)
      from rx_kept_trans [OF kt rx_kept_mono [OF this out(1)]] c show "fw_err r c u" by (simp add: fw_err_def)
    next
      fix y u assume u: "pkt_acked ?w ?d (unat (1 :: u32)) t u \<and> same_rx t u"
      have ru: "receiving r ?A ?lead ?pre bs n n a l u"
        by (rule receiving_step [OF rt rdy _ out])
          (use u rt in \<open>simp_all add: pkt_acked_def receiving_def\<close>)
      have ou: "out_seq ?w ?d u = out_seq ?w ?d (r_start r) + of_nat (Suc a)" "dma_tag u = dma_tag t"
        using u ot by (simp_all add: pkt_acked_def)
      note nu = rx_kept_inv(3) [OF receiving_kept [OF ru]]
      show "ends (rx_release l) u (\<lambda>l' s'. fw_inv what r n (Suc a) l' s') (fw_err r)"
      proof (rule ends_weaken [OF rx_release_ends [OF rdy ru an nN]])
        fix l' v assume v: "receiving r ?A ?lead ?pre bs n n (Suc a) l' v \<and> dma_tag v = dma_tag u \<and> rx_kept {} u v"
        have "out_seq ?w ?d v = out_seq ?w ?d u" by (rule out_seq_kept [OF _ _ fr nu]) (use v in auto)
        then show "fw_inv what r n (Suc a) l' v" using v fr tt ou unfolding fw_inv_def by auto
      qed (simp add: fw_err_def)
    qed
  qed
qed

abbreviation (input) REDUCE_DMAS :: u32 where "REDUCE_DMAS \<equiv> USE_DMA0_RX OR USE_DMA1_RX"
abbreviation (input) RELAY_DMAS :: u32 where "RELAY_DMAS \<equiv> USE_DMA1_RX"

lemma reduce_issue_ends:
  assumes "fw_inv REDUCE_DMAS r n a l s" and "n < j_segs (r_move r)"
    and "if again then Suc n = a + j_m (r_move r) \<and> 0 < a else n < j_m (r_move r)"
    and "r_tag r = p_tag (r_pkt r)"
  shows "ends (reduce_issue again (r_world r) (r_src r) (p_dst (r_pkt r)) (r_tag r) (j_seg (r_move r) n) l) s
     (\<lambda>l' s'. fw_inv REDUCE_DMAS r (Suc n) a l' s') (fw_err r)"
  by (rule fw_issue [OF assms(1-3), where ?a0.0 = op0_addr and
        upd = "\<lambda>t l. l\<lparr>rx_tag_tmp := t, op0_addr := op0_addr l + ucast (j_seg (r_move r) n)\<rparr>"])
    (simp_all add: reduce_issue_def uses_def assms(4))

lemma relay_issue_ends:
  assumes "fw_inv RELAY_DMAS r n a l s" and "n < j_segs (r_move r)"
    and "if again then Suc n = a + j_m (r_move r) \<and> 0 < a else n < j_m (r_move r)"
    and "r_tag r = p_tag (r_pkt r)"
  shows "ends (relay_issue again (r_world r) (r_src r) (p_dst (r_pkt r)) (r_tag r) (j_seg (r_move r) n) l) s
     (\<lambda>l' s'. fw_inv RELAY_DMAS r (Suc n) a l' s') (fw_err r)"
  by (rule fw_issue [OF assms(1-3), where ?a0.0 = "\<lambda>_. 0" and upd = "\<lambda>t l. l\<lparr>rx_tag_tmp := t\<rparr>"])
    (simp_all add: relay_issue_def uses_def assms(4))

text \<open>The jobs of these two have one tag for what they take and what they send.\<close>

definition fwd_inv :: "u32 \<Rightarrow> rx_job \<Rightarrow> nat \<Rightarrow> nat \<Rightarrow> rx_locals \<Rightarrow> fw_state \<Rightarrow> bool" where
  "fwd_inv what r n a l s \<longleftrightarrow> r_tag r = p_tag (r_pkt r) \<and> fw_inv what r n a l s"

lemma fwd_ack:
  assumes "fwd_inv what r n a l s" and "a < n" and "n \<le> j_segs (r_move r)"
  shows "ends (forward_ack (r_world r) (p_dst (r_pkt r)) what (j_seg (r_move r) a) l) s
     (\<lambda>l' s'. fwd_inv what r n (Suc a) l' s') (fw_err r)"
  by (rule ends_weaken [OF fw_ack]) (use assms in \<open>auto simp: fwd_inv_def\<close>)

lemma fwd_params:
  assumes "fwd_inv what r n a l s"
  shows "dma_transaction_size s = dma_transaction_size (r_start r) \<and>
      max_dma_in_flight s = max_dma_in_flight (r_start r) \<and>
      0 < dma_transaction_size (r_start r) \<and> 0 < max_dma_in_flight (r_start r)"
  using assms fw_params unfolding fwd_inv_def by blast

lemma fwd_reduce:
  assumes "fwd_inv REDUCE_DMAS r n a l s" and "n < j_segs (r_move r)"
    and "if again then Suc n = a + j_m (r_move r) \<and> 0 < a else n < j_m (r_move r)"
  shows "ends (reduce_issue again (r_world r) (r_src r) (p_dst (r_pkt r)) (r_tag r) (j_seg (r_move r) n) l) s
     (\<lambda>l' s'. fwd_inv REDUCE_DMAS r (Suc n) a l' s') (fw_err r)"
  by (rule ends_weaken [OF reduce_issue_ends [OF _ assms(2,3)]]) (use assms(1) in \<open>auto simp: fwd_inv_def\<close>)

lemma fwd_relay:
  assumes "fwd_inv RELAY_DMAS r n a l s" and "n < j_segs (r_move r)"
    and "if again then Suc n = a + j_m (r_move r) \<and> 0 < a else n < j_m (r_move r)"
  shows "ends (relay_issue again (r_world r) (r_src r) (p_dst (r_pkt r)) (r_tag r) (j_seg (r_move r) n) l) s
     (\<lambda>l' s'. fwd_inv RELAY_DMAS r (Suc n) a l' s') (fw_err r)"
  by (rule ends_weaken [OF relay_issue_ends [OF _ assms(2,3)]]) (use assms(1) in \<open>auto simp: fwd_inv_def\<close>)

interpretation rd: job_transfer
  "\<lambda>r. reduce_issue False (r_world r) (r_src r) (p_dst (r_pkt r)) (r_tag r)"
  "\<lambda>r. reduce_issue True (r_world r) (r_src r) (p_dst (r_pkt r)) (r_tag r)"
  "\<lambda>r. forward_ack (r_world r) (p_dst (r_pkt r)) REDUCE_DMAS" "fwd_inv REDUCE_DMAS" fw_err r_move
  by (unfold_locales; (rule fwd_params fwd_reduce fwd_ack)?; simp)

interpretation rl: job_transfer
  "\<lambda>r. relay_issue False (r_world r) (r_src r) (p_dst (r_pkt r)) (r_tag r)"
  "\<lambda>r. relay_issue True (r_world r) (r_src r) (p_dst (r_pkt r)) (r_tag r)"
  "\<lambda>r. forward_ack (r_world r) (p_dst (r_pkt r)) RELAY_DMAS" "fwd_inv RELAY_DMAS" fw_err r_move
  by (unfold_locales; (rule fwd_params fwd_relay fwd_ack)?; simp)

subsection \<open>The loops as a whole\<close>

lemma rx_locals0_run:
  assumes "0 < max_dma_in_flight s"
  shows "\<exists>l. rx_locals0 a0 t1 s = Some (Ret l, s) \<and> ring_holds (max_dma_in_flight s) [] 0 0 l \<and>
     op0_addr l = a0 \<and> dst_addr l = t1 \<and> rx_tag_tmp l = dma_tag s"
  using assms by (auto simp: rx_locals0_def prim_run ring_holds_def Let_def)

lemma receiving_0:
  assumes rdy: "rx_ready r A" and l: "ring_holds (max_dma_in_flight (r_start r)) [] 0 0 l"
    and "op0_addr l = j_rx0 (r_move r)" and "dst_addr l = j_tx1 (r_move r)" and "rx_tag_tmp l = dma_tag (r_start r)"
    and t: "t = (r_start r)\<lparr>trace := trace (r_start r) @ lead\<rparr>"
  shows "receiving r A lead pre [] 0 0 0 l t"
proof -
  have "rx_kept A (r_start r) t"
    by (rule rx_kept_mono [OF rx_kept_frame(1) [of "r_start r" "{}"]])
      (use rdy in \<open>simp_all add: t rx_ready_def frame_def same_settings_def free_words_def same_rx_stream\<close>)
  then show ?thesis
    using assms by (simp add: receiving_def rx_offsets_def j_tag_def r_seq_def in_seq_def)
qed

end
