(* ===== verification/Fw_Collectives.thy ===== *)
theory Fw_Collectives
  imports Fw_Receive
begin

text \<open>
  The primitives and collectives the host can call: copy, accumulate, send, receive, broadcast,
  scatter, gather, all-gather, reduce, reduce-scatter and all-reduce over the ring of ranks, and the
  external kernel calls.
\<close>

subsection \<open>Primitives\<close>

definition dma_loopback :: "u32 \<Rightarrow> u64 \<Rightarrow> u64 \<Rightarrow> u32 fw" where
  "dma_loopback len src_addr dst =
     bnd (cfg_switch DATAPATH_DMA_LOOPBACK ARITH_NONE) (\<lambda>_.
     dma_movement len 0 src_addr dst 0 (USE_DMA1_RX OR USE_DMA1_TX))"

definition copy :: "u32 \<Rightarrow> u64 \<Rightarrow> u64 \<Rightarrow> u32 fw" where
  "copy len src_addr dst = dma_loopback len src_addr dst"

definition copy_single_dma_transaction :: "u32 \<Rightarrow> u64 \<Rightarrow> u64 \<Rightarrow> u32 fw" where
  "copy_single_dma_transaction len src_addr dst =
     bnd (cfg_switch DATAPATH_DMA_LOOPBACK ARITH_NONE) (\<lambda>_.
     dma_movement_single len 0 src_addr dst 0 (USE_DMA1_RX OR USE_DMA1_TX))"

definition reduce_loopback :: "u32 \<Rightarrow> u32 \<Rightarrow> u64 \<Rightarrow> u64 \<Rightarrow> u64 \<Rightarrow> u32 fw" where
  "reduce_loopback len func op0 op1 dst =
     bnd (cfg_switch DATAPATH_DMA_REDUCTION ARITH_INTERNAL) (\<lambda>_.
     bnd (start_arith len func 0) (\<lambda>_.
     bnd (dma_movement len op0 op1 dst 0 (USE_DMA0_RX OR USE_DMA1_RX OR USE_DMA1_TX)) (\<lambda>r.
     bnd wait_arith (\<lambda>_. ret r))))"

definition accumulate :: "u32 \<Rightarrow> u32 \<Rightarrow> u64 \<Rightarrow> u64 \<Rightarrow> u64 \<Rightarrow> u32 fw" where
  "accumulate len func op1 op2 dst = reduce_loopback len func op1 op2 dst"

definition transmit_offchip_world :: "communicator \<Rightarrow> u32 \<Rightarrow> u32 \<Rightarrow> u64 \<Rightarrow> u32 \<Rightarrow> u32 fw" where
  "transmit_offchip_world world dst_rank len src_addr dst_tag =
     bnd (getf use_tcp) (\<lambda>tcp.
     bnd (cfg_switch (if tcp \<noteq> 0 then DATAPATH_OFFCHIP_TX_TCP else DATAPATH_OFFCHIP_TX_UDP) ARITH_NONE) (\<lambda>_.
     dma_movement_and_packetizer world len 0 src_addr 0 0 USE_DMA1_RX dst_rank dst_tag))"

definition transmit_offchip :: "u32 \<Rightarrow> u32 \<Rightarrow> u32 \<Rightarrow> u64 \<Rightarrow> u32 \<Rightarrow> u32 fw" where
  "transmit_offchip comm dst_rank len src_addr dst_tag =
     bnd (find_comm comm) (\<lambda>world. transmit_offchip_world world dst_rank len src_addr dst_tag)"

definition reduce_offchip_world :: "communicator \<Rightarrow> u32 \<Rightarrow> u32 \<Rightarrow> u32 \<Rightarrow> u64 \<Rightarrow> u64 \<Rightarrow> u32 \<Rightarrow> u32 fw" where
  "reduce_offchip_world world dst_rank len func op0 op1 dst_tag =
     bnd (getf use_tcp) (\<lambda>tcp.
     bnd (cfg_switch (if tcp \<noteq> 0 then DATAPATH_OFFCHIP_TCP_REDUCTION else DATAPATH_OFFCHIP_UDP_REDUCTION)
            ARITH_INTERNAL) (\<lambda>_.
     bnd (start_arith len func 0) (\<lambda>_.
     dma_movement_and_packetizer world len op0 op1 0 0 (USE_DMA0_RX OR USE_DMA1_RX) dst_rank dst_tag)))"

definition reduce_offchip :: "u32 \<Rightarrow> u32 \<Rightarrow> u32 \<Rightarrow> u32 \<Rightarrow> u64 \<Rightarrow> u64 \<Rightarrow> u32 \<Rightarrow> u32 fw" where
  "reduce_offchip comm dst_rank len func op0 op1 dst_tag =
     bnd (find_comm comm) (\<lambda>world. reduce_offchip_world world dst_rank len func op0 op1 dst_tag)"

subsection \<open>Send and receive\<close>

definition send :: "u32 \<Rightarrow> u32 \<Rightarrow> u32 \<Rightarrow> u32 \<Rightarrow> u64 \<Rightarrow> u32 fw" where
  "send comm len tag dst_rank buf = transmit_offchip comm dst_rank len buf tag"

definition recv :: "u32 \<Rightarrow> u32 \<Rightarrow> u32 \<Rightarrow> u32 \<Rightarrow> u64 \<Rightarrow> u32 fw" where
  "recv comm len tag src_rank buf =
     bnd (find_comm comm) (\<lambda>world. receive_offchip_world world src_rank len buf tag)"

subsection \<open>Broadcast and scatter, one segment to every rank at a time\<close>

definition other_step :: "communicator \<Rightarrow> (u32 \<Rightarrow> unit fw) \<Rightarrow> u32 \<Rightarrow> (u32 + unit) fw" where
  "other_step world body i =
     (if i < size' world then
        bnd (whenM (i \<noteq> local_rank world) (body i)) (\<lambda>_. ret (Inl (i + 1)))
      else ret (Inr ()))"

definition each_other :: "communicator \<Rightarrow> (u32 \<Rightarrow> unit fw) \<Rightarrow> unit fw" where
  "each_other world body = loop (other_step world body) 0"

definition send_segment :: "communicator \<Rightarrow> u32 \<Rightarrow> u64 \<Rightarrow> u32 \<Rightarrow> unit fw" where
  "send_segment world curr_len addr i =
     bnd (start_packetizer_message world i curr_len TAG_ANY 0) (\<lambda>_.
     bnd (dma_movement_single curr_len 0 addr 0 0 USE_DMA1_RX) (\<lambda>_. ret ()))"

definition broadcast_step :: "communicator \<Rightarrow> u64 \<times> u32 \<times> u32 \<Rightarrow> (u64 \<times> u32 \<times> u32 + unit) fw" where
  "broadcast_step world = (\<lambda>(buf, len, curr_len).
     if 0 < len then
       bnd (getf dma_transaction_size) (\<lambda>dts.
       let curr_len = (if len < dts then len else curr_len) in
       bnd (each_other world (send_segment world curr_len buf)) (\<lambda>_.
       bnd (each_other world (\<lambda>i. ack_packetizer world i 1)) (\<lambda>_.
       ret (Inl (buf + ucast curr_len, len - curr_len, curr_len)))))
     else ret (Inr ()))"

definition cfg_tx :: "unit fw" where
  "cfg_tx = bnd (getf use_tcp) (\<lambda>tcp.
     if tcp \<noteq> 0 then cfg_switch DATAPATH_OFFCHIP_TX_TCP ARITH_NONE
     else cfg_switch DATAPATH_OFFCHIP_TX_UDP ARITH_NONE)"

definition broadcast_round_robin :: "u32 \<Rightarrow> u32 \<Rightarrow> u32 \<Rightarrow> u64 \<Rightarrow> u32 fw" where
  "broadcast_round_robin comm len src_rank buf =
     bnd (find_comm comm) (\<lambda>world.
     if src_rank = local_rank world then
       bnd cfg_tx (\<lambda>_.
       bnd (getf dma_transaction_size) (\<lambda>dts.
       bnd (loop (broadcast_step world) (buf, len, dts)) (\<lambda>_.
       ret COLLECTIVE_OP_SUCCESS)))
     else receive_offchip_world world src_rank len buf TAG_ANY)"

definition scatter_send_step :: "communicator \<Rightarrow> u32 \<Rightarrow> u32 \<Rightarrow> u32 \<times> u64 \<Rightarrow> (u32 \<times> u64 + unit) fw" where
  "scatter_send_step world curr_len offset_next = (\<lambda>(i, addr).
     if i < size' world then
       bnd (whenM (i \<noteq> local_rank world) (send_segment world curr_len addr i)) (\<lambda>_.
       ret (Inl (i + 1, addr + ucast offset_next)))
     else ret (Inr ()))"

definition scatter_step :: "communicator \<Rightarrow> u32 \<Rightarrow> u64 \<times> u32 \<times> u32 \<Rightarrow> (u64 \<times> u32 \<times> u32 + unit) fw" where
  "scatter_step world offset_next = (\<lambda>(base, len, curr_len).
     if 0 < len then
       bnd (getf dma_transaction_size) (\<lambda>dts.
       let curr_len = (if len < dts then len else curr_len) in
       bnd (loop (scatter_send_step world curr_len offset_next) (0, base)) (\<lambda>_.
       bnd (each_other world (\<lambda>i. ack_packetizer world i 1)) (\<lambda>_.
       ret (Inl (base + ucast curr_len, len - curr_len, curr_len)))))
     else ret (Inr ()))"

definition scatter_rr :: "u32 \<Rightarrow> u32 \<Rightarrow> u32 \<Rightarrow> u64 \<Rightarrow> u64 \<Rightarrow> u32 fw" where
  "scatter_rr comm len src_rank src_buf dst_buf =
     bnd (find_comm comm) (\<lambda>world.
     if src_rank = local_rank world then
       bnd cfg_tx (\<lambda>_.
       bnd (getf dma_transaction_size) (\<lambda>dts.
       bnd (loop (scatter_step world len) (src_buf, len, dts)) (\<lambda>_.
       bnd (copy len (src_buf + ucast (local_rank world * len)) dst_buf) (\<lambda>_.
       ret COLLECTIVE_OP_SUCCESS))))
     else receive_offchip_world world src_rank len dst_buf TAG_ANY)"

subsection \<open>Ring collectives\<close>

definition next_in_ring :: "communicator \<Rightarrow> u32 fw" where
  "next_in_ring world = c_mod (local_rank world + 1) (size' world)"

definition prev_in_ring :: "communicator \<Rightarrow> u32 fw" where
  "prev_in_ring world = c_mod (local_rank world + size' world - 1) (size' world)"

definition ring_before :: "communicator \<Rightarrow> u32 \<Rightarrow> u32 fw" where
  "ring_before world k = c_mod (k + size' world - 1) (size' world)"

definition gather_root_step ::
    "communicator \<Rightarrow> u32 \<Rightarrow> u64 \<Rightarrow> u64 \<Rightarrow> u32 \<Rightarrow> u32 \<times> u32 \<times> u32 \<Rightarrow> (u32 \<times> u32 \<times> u32 + u32) fw" where
  "gather_root_step world len src_buf dst_buf prev = (\<lambda>(i, curr_pos, r).
     if i < size' world \<and> r = COLLECTIVE_OP_SUCCESS then
       (let tmp_buf = dst_buf + ucast (len * curr_pos) in
        bnd (if curr_pos = local_rank world then copy len src_buf tmp_buf
             else receive_offchip_world world prev len tmp_buf TAG_ANY) (\<lambda>r.
        bnd (ring_before world curr_pos) (\<lambda>curr_pos.
        ret (Inl (i + 1, curr_pos, r)))))
     else ret (Inr r))"

definition gather_relay_step :: "communicator \<Rightarrow> u32 \<Rightarrow> u32 \<Rightarrow> u32 \<Rightarrow> u32 \<Rightarrow> u32 \<Rightarrow> (u32 + unit) fw" where
  "gather_relay_step world len prev nxt number_of_shift i =
     (if i < number_of_shift then
        bnd (relay_to_other_rank world prev nxt len TAG_ANY) (\<lambda>_. ret (Inl (i + 1)))
      else ret (Inr ()))"

definition gather_ring :: "u32 \<Rightarrow> u32 \<Rightarrow> u32 \<Rightarrow> u64 \<Rightarrow> u64 \<Rightarrow> u32 fw" where
  "gather_ring comm len root_rank src_buf dst_buf =
     bnd (find_comm comm) (\<lambda>world.
     bnd (next_in_ring world) (\<lambda>nxt.
     bnd (prev_in_ring world) (\<lambda>prev.
     if root_rank = local_rank world then
       loop (gather_root_step world len src_buf dst_buf prev) (0, prev, COLLECTIVE_OP_SUCCESS)
     else
       bnd (c_mod (size' world + local_rank world - root_rank) (size' world)) (\<lambda>d.
       bnd (transmit_offchip_world world nxt len src_buf TAG_ANY) (\<lambda>r.
       bnd (loop (gather_relay_step world len prev nxt (d - 1)) 0) (\<lambda>_.
       ret (COLLECTIVE_OP_SUCCESS + r)))))))"

definition allgather_step ::
    "communicator \<Rightarrow> u32 \<Rightarrow> u64 \<Rightarrow> u64 \<Rightarrow> u32 \<Rightarrow> u32 \<Rightarrow> u32 \<times> u32 \<times> u32 \<Rightarrow> (u32 \<times> u32 \<times> u32 + u32) fw" where
  "allgather_step world len src_buf dst_buf prev nxt = (\<lambda>(i, curr_pos, r).
     if i < size' world \<and> r = COLLECTIVE_OP_SUCCESS then
       (let tmp_buf = dst_buf + ucast (len * curr_pos) in
        bnd (if curr_pos = local_rank world then copy len src_buf tmp_buf
             else
               bnd (receive_offchip_world world prev len tmp_buf TAG_ANY) (\<lambda>r.
               if i + 1 < size' world then transmit_offchip_world world nxt len tmp_buf TAG_ANY
               else ret r)) (\<lambda>r.
        bnd (ring_before world curr_pos) (\<lambda>curr_pos.
        ret (Inl (i + 1, curr_pos, r)))))
     else ret (Inr r))"

definition allgather_ring :: "u32 \<Rightarrow> u32 \<Rightarrow> u64 \<Rightarrow> u64 \<Rightarrow> u32 fw" where
  "allgather_ring comm len src_buf dst_buf =
     bnd (find_comm comm) (\<lambda>world.
     bnd (next_in_ring world) (\<lambda>nxt.
     bnd (prev_in_ring world) (\<lambda>prev.
     bnd (transmit_offchip_world world nxt len src_buf TAG_ANY) (\<lambda>r.
     loop (allgather_step world len src_buf dst_buf prev nxt)
       (0, local_rank world, COLLECTIVE_OP_SUCCESS + r)))))"

definition reduce_ring_streaming :: "u32 \<Rightarrow> u32 \<Rightarrow> u32 \<Rightarrow> u32 \<Rightarrow> u64 \<Rightarrow> u64 \<Rightarrow> u32 fw" where
  "reduce_ring_streaming comm len func root_rank src_addr dst =
     bnd (find_comm comm) (\<lambda>world.
     bnd (next_in_ring world) (\<lambda>nxt.
     bnd (prev_in_ring world) (\<lambda>prev.
     if prev = root_rank then transmit_offchip_world world nxt len src_addr TAG_ANY
     else if local_rank world \<noteq> root_rank then
       receive_and_reduce_offchip world prev nxt len func src_addr TAG_ANY
     else receive_and_accumulate world prev len func src_addr dst TAG_ANY)))"

definition scatter_reduce_step ::
    "communicator \<Rightarrow> u32 \<Rightarrow> u32 \<Rightarrow> u64 \<Rightarrow> u32 \<Rightarrow> u32 \<Rightarrow> u32 \<times> u32 \<Rightarrow> (u32 \<times> u32 + u32 \<times> u32) fw" where
  "scatter_reduce_step world len func src_addr prev nxt = (\<lambda>(i, curr_recv_chunk).
     if i < size' world - 2 then
       bnd (receive_and_reduce_offchip world prev nxt len func
              (src_addr + ucast (len * curr_recv_chunk)) TAG_ANY) (\<lambda>r.
       if r \<noteq> COLLECTIVE_OP_SUCCESS then ret (Inr (r, curr_recv_chunk))
       else bnd (ring_before world curr_recv_chunk) (\<lambda>curr_recv_chunk.
            ret (Inl (i + 1, curr_recv_chunk))))
     else ret (Inr (COLLECTIVE_OP_SUCCESS, curr_recv_chunk)))"

definition scatter_reduce :: "u32 \<Rightarrow> u32 \<Rightarrow> u32 \<Rightarrow> u64 \<Rightarrow> u64 \<Rightarrow> u32 fw" where
  "scatter_reduce comm len func src_addr dst =
     bnd (find_comm comm) (\<lambda>world.
     bnd (next_in_ring world) (\<lambda>nxt.
     bnd (prev_in_ring world) (\<lambda>prev.
     bnd (ring_before world prev) (\<lambda>curr_recv_chunk.
     bnd (transmit_offchip_world world nxt len (src_addr + ucast (len * prev)) TAG_ANY) (\<lambda>r.
     if r \<noteq> COLLECTIVE_OP_SUCCESS then ret r
     else
       bnd (loop (scatter_reduce_step world len func src_addr prev nxt) (0, curr_recv_chunk))
         (\<lambda>(r, curr_recv_chunk).
       if r \<noteq> COLLECTIVE_OP_SUCCESS then ret r
       else if 1 < size' world then
         bnd (receive_and_accumulate world prev len func (src_addr + ucast (len * curr_recv_chunk))
                (dst + ucast (len * curr_recv_chunk)) TAG_ANY) (\<lambda>r.
         if r \<noteq> COLLECTIVE_OP_SUCCESS then ret r else ret COLLECTIVE_OP_SUCCESS)
       else ret COLLECTIVE_OP_SUCCESS))))))"

definition all_reduce_step ::
    "communicator \<Rightarrow> u32 \<Rightarrow> u64 \<Rightarrow> u32 \<Rightarrow> u32 \<Rightarrow> u32 \<times> u32 \<Rightarrow> (u32 \<times> u32 + u32) fw" where
  "all_reduce_step world chunk dst prev nxt = (\<lambda>(i, curr_recv_chunk).
     if i < size' world - 1 then
       (let curr_send_chunk = curr_recv_chunk in
        bnd (ring_before world curr_recv_chunk) (\<lambda>curr_recv_chunk.
        bnd (transmit_offchip_world world nxt chunk (dst + ucast (chunk * curr_send_chunk)) TAG_ANY) (\<lambda>r.
        if r \<noteq> COLLECTIVE_OP_SUCCESS then ret (Inr r)
        else bnd (receive_offchip_world world prev chunk (dst + ucast (chunk * curr_recv_chunk)) TAG_ANY) (\<lambda>r.
        if r \<noteq> COLLECTIVE_OP_SUCCESS then ret (Inr r)
        else ret (Inl (i + 1, curr_recv_chunk))))))
     else ret (Inr COLLECTIVE_OP_SUCCESS))"

text \<open>The chunk of each rank: a rank's share of \<open>len\<close>, rounded up to whole operands.\<close>

definition chunk_len :: "u32 \<Rightarrow> u32 \<Rightarrow> u32 \<Rightarrow> u32 fw" where
  "chunk_len len comm_size func =
     bnd (c_div len comm_size) (\<lambda>len_div_size.
     let min_operand_width = arith_number_of_bytes_per func in
     bnd (c_mod len_div_size min_operand_width) (\<lambda>tail.
     ret (len_div_size + (- tail + (if tail = 0 then 0 else min_operand_width)))))"

definition all_reduce_share :: "u32 \<Rightarrow> u32 \<Rightarrow> u32 \<Rightarrow> u64 \<Rightarrow> u64 \<Rightarrow> u32 fw" where
  "all_reduce_share comm len func src_addr dst =
     bnd (find_comm comm) (\<lambda>world.
     bnd (chunk_len len (size' world) func) (\<lambda>chunk.
     bnd (next_in_ring world) (\<lambda>nxt.
     bnd (prev_in_ring world) (\<lambda>prev.
     bnd (scatter_reduce comm chunk func src_addr dst) (\<lambda>_.
     loop (all_reduce_step world chunk dst prev nxt) (0, local_rank world))))))"

subsection \<open>External kernels\<close>

definition ext_kernel_stream :: "u32 \<Rightarrow> u64 \<Rightarrow> u64 \<Rightarrow> u32 fw" where
  "ext_kernel_stream len src_addr dst =
     bnd (cfg_switch DATAPATH_DMA_EXT_LOOPBACK ARITH_NONE) (\<lambda>_.
     dma_movement len 0 src_addr dst 0 (USE_DMA1_RX OR USE_DMA1_TX))"

definition reduce_ext :: "u32 \<Rightarrow> u64 \<Rightarrow> u64 \<Rightarrow> u64 \<Rightarrow> u32 fw" where
  "reduce_ext len op1 op2 dst =
     bnd (cfg_switch DATAPATH_DMA_REDUCTION ARITH_EXTERNAL) (\<lambda>_.
     dma_movement len op1 op2 dst 0 (USE_DMA0_RX OR USE_DMA1_RX OR USE_DMA1_TX))"

end
