(* ===== verification/Fw_Primitives.thy ===== *)
theory Fw_Primitives
  imports Fw_Collectives
begin

text \<open>
  The primitives of the host interface, end to end: a route through the switches, a transfer over it,
  and for reductions the arithmetic unit.  Each theorem says which switch routes are set up, which
  bytes every engine is told to read and write, and how the primitive can fail.
\<close>

subsection \<open>Shared set-up\<close>

text \<open>The settings a transfer needs; \<open>Fw_Service\<close> shows which of them every reachable state has.\<close>

definition ready :: "fw_state \<Rightarrow> bool" where
  "ready s \<longleftrightarrow> 0 < dma_transaction_size s \<and> dma_transaction_size s \<le> DMA_MAX_BTT \<and>
     0 < max_dma_in_flight s \<and> timeout s \<noteq> 0"

lemma ready_quiet [simp]: "ready quiet"
  by (simp add: ready_def)

lemma ready_periph: "ready s \<Longrightarrow> periph_only s t \<Longrightarrow> ready t"
  by (simp add: ready_def periph_only_fields)

abbreviation (input) job :: "fw_state \<Rightarrow> u32 \<Rightarrow> u64 \<Rightarrow> u64 \<Rightarrow> u64 \<Rightarrow> u64 \<Rightarrow> u32 \<Rightarrow> move_job" where
  "job s len a0 a1 t1 a2 what \<equiv> \<lparr>j_start = s, j_len = len, j_rx0 = a0, j_rx1 = a1, j_tx1 = t1, j_rx2 = a2, j_what = what\<rparr>"

lemma touches_start: "touches (job t len a0 a1 t1 a2 what) = touches (job s len a0 a1 t1 a2 what)"
  by (simp add: fun_eq_iff touches_def)

lemma touches_after_writes: "list_all is_Wr ws \<Longrightarrow> touches j (ws @ es) = touches j es"
  by (simp add: touches_def accessed_def whole_commands_def words_on_writes)

lemma periph_touches:
  assumes "periph_only s t" and "\<exists>es. trace u = trace t @ es \<and> touches j es"
  shows "\<exists>es. trace u = trace s @ es \<and> touches j es"
proof -
  from assms(1) obtain ws where "trace t = trace s @ ws" and ws: "list_all is_Wr ws"
    by (auto elim: periph_onlyE)
  with assms(2) obtain es where "trace u = trace s @ (ws @ es)" and "touches j (ws @ es)"
    by (auto simp: touches_after_writes)
  then show ?thesis by blast
qed

text \<open>A transfer from a ready state, as the primitives use it.\<close>

definition transferred :: "fw_state \<Rightarrow> u32 \<Rightarrow> u64 \<Rightarrow> u64 \<Rightarrow> u64 \<Rightarrow> u64 \<Rightarrow> u32 \<Rightarrow> fw_state \<Rightarrow> bool" where
  "transferred s len a0 a1 t1 a2 what s' \<longleftrightarrow>
     (\<exists>es. trace s' = trace s @ es \<and> touches (job s len a0 a1 t1 a2 what) es)"

lemma transferred_periph:
  assumes "periph_only s t" and "transferred t len a0 a1 t1 a2 what u"
  shows "transferred s len a0 a1 t1 a2 what u"
  using periph_touches [OF assms(1), of u "job t len a0 a1 t1 a2 what"] assms(2)
  unfolding transferred_def touches_start [of t _ _ _ _ _ _ s] by blast

text \<open>It puts nothing on the packetizer's stream.\<close>

definition unsent :: "fw_state \<Rightarrow> fw_state \<Rightarrow> bool" where
  "unsent s s' \<longleftrightarrow> words_on (pkt_net s) (trace s') = words_on (pkt_net s) (trace s)"

lemma unsent_periph: "periph_only s t \<Longrightarrow> unsent t u = unsent s u"
  by (auto simp: unsent_def pkt_net_def words_on_writes elim!: periph_onlyE)

lemma moved_unsent:
  assumes "moved j s'"
  shows "unsent (j_start j) s'"
proof -
  from assms obtain es where es: "trace s' = trace (j_start j) @ es"
    and p: "pipe_trace j (\<lambda>_. []) (\<lambda>_. []) (j_segs j) (j_segs j) es" by (auto simp: moved_def)
  then show ?thesis
    using pipe_words [OF p, of "pkt_net (j_start j)"] by (simp add: unsent_def seg_commands_def Let_def words_on_net_emit)
qed

lemma transfer_ends:
  assumes "ready s" and "dmas_ok what"
  shows "ends (dma_movement len a0 a1 t1 a2 what) s
     (\<lambda>r s'. r = COLLECTIVE_OP_SUCCESS \<and> frame {} s s' \<and> transferred s len a0 a1 t1 a2 what s' \<and> unsent s s')
     (\<lambda>c s'. dma_error c \<and> frame {} s s')"
proof (rule ends_weaken [OF dma_movement_ends])
  let ?j = "job s len a0 a1 t1 a2 what"
  show "0 < dma_transaction_size s" "0 < max_dma_in_flight s" "timeout s \<noteq> 0" "dmas_ok what"
    using assms by (simp_all add: ready_def)
  fix r s' assume m: "r = COLLECTIVE_OP_SUCCESS \<and> moved ?j s'"
  then have "\<exists>es. trace s' = trace (j_start ?j) @ es \<and> touches ?j es"
    by (intro moved_touches) (use assms in \<open>simp_all add: ready_def j_d_def word_less_nat_alt\<close>)
  moreover have "unsent s s'" using moved_unsent [of ?j s'] m by simp
  ultimately show "r = COLLECTIVE_OP_SUCCESS \<and> frame {} s s' \<and> transferred s len a0 a1 t1 a2 what s' \<and> unsent s s'"
    using m by (simp add: transferred_def moved_def)
qed simp_all

text \<open>A route, then a transfer over it.\<close>

definition prim_error :: "u32 \<Rightarrow> bool" where
  "prim_error c \<longleftrightarrow> dma_error c \<or> c = CONFIG_SWITCH_ERROR"

lemma routed_transfer_ends:
  assumes "ready s" and "dmas_ok what" and "sc \<in> {1, 2, 3, 4, 5, 6, 7}"
  shows "ends (bnd (cfg_switch sc arith) (\<lambda>_. dma_movement len a0 a1 t1 a2 what)) s
     (\<lambda>r s'. r = COLLECTIVE_OP_SUCCESS \<and> frame peripherals s s' \<and> routes_as (actual_routes sc) (mem s') \<and>
        transferred s len a0 a1 t1 a2 what s' \<and> unsent s s')
     (\<lambda>c s'. prim_error c \<and> frame peripherals s s')"
proof (rule ends_bndI [OF ends_weaken [OF cfg_switch_actual]])
  show "timeout s \<noteq> 0" using assms(1) by (simp add: ready_def)
  fix x t assume t: "routes_as (actual_routes sc) (mem t) \<and> periph_only s t"
  then have fr: "frame peripherals s t" by (simp add: frame_periph)
  have keep: "frame peripherals s u \<and> mem u = mem t" if "frame {} t u" for u
    using frame_trans [OF fr frame_mono [OF that]] frame_mem [OF that] by auto
  show "ends (dma_movement len a0 a1 t1 a2 what) t
     (\<lambda>r s'. r = COLLECTIVE_OP_SUCCESS \<and> frame peripherals s s' \<and> routes_as (actual_routes sc) (mem s') \<and>
        transferred s len a0 a1 t1 a2 what s' \<and> unsent s s')
     (\<lambda>c s'. prim_error c \<and> frame peripherals s s')"
  proof (rule ends_weaken [OF transfer_ends [OF ready_periph [OF assms(1)] assms(2)]])
    show "periph_only s t" using t by simp
  next
    fix r u assume "r = COLLECTIVE_OP_SUCCESS \<and> frame {} t u \<and> transferred t len a0 a1 t1 a2 what u \<and> unsent t u"
    with t keep [of u] show "r = COLLECTIVE_OP_SUCCESS \<and> frame peripherals s u \<and> routes_as (actual_routes sc) (mem u) \<and>
        transferred s len a0 a1 t1 a2 what u \<and> unsent s u" by (auto simp: unsent_periph [of s t] intro: transferred_periph [of s t])
  qed (use keep in \<open>simp add: prim_error_def\<close>)
qed (use assms(3) in \<open>auto simp: prim_error_def frame_periph\<close>)

subsection \<open>Reduction\<close>

text \<open>A reduction of two buffers over the arithmetic unit, after its route is set up.\<close>

definition reduced :: "u32 \<Rightarrow> u32 \<Rightarrow> fw_state \<Rightarrow> fw_state \<Rightarrow> bool" where
  "reduced len func s s' \<longleftrightarrow> mem s' (ARITH_BASEADDR + 0x18) = func \<and>
     unat (mem s' (ARITH_BASEADDR + 0x10)) =
       sum_list (map words64 (segs (unat (dma_transaction_size s)) (unat len)))"

lemma arith_started_reduced:
  assumes "arith_started len func s s'" and "ready s"
  shows "reduced len func s s'"
  using assms start_arith_count [of "dma_transaction_size s" len]
  by (auto simp: reduced_def arith_started_def Let_def ready_def)

lemma reduce_loopback_ends:
  assumes "ready s"
  shows "ends (reduce_loopback len func op0 op1 dst) s
     (\<lambda>r s'. r = COLLECTIVE_OP_SUCCESS \<and> frame peripherals s s' \<and>
        routes_as (documented_routes DATAPATH_DMA_REDUCTION) (mem s') \<and> reduced len func s s' \<and>
        transferred s len op0 op1 dst 0 (USE_DMA0_RX OR USE_DMA1_RX OR USE_DMA1_TX) s')
     (\<lambda>c s'. (prim_error c \<or> c = ARITH_ERROR) \<and> frame peripherals s s')"
    (is "ends _ s ?Q ?E")
  unfolding reduce_loopback_def
proof (rule ends_bndI [OF ends_weaken [OF cfg_switch_actual]])
  let ?what = "USE_DMA0_RX OR USE_DMA1_RX OR USE_DMA1_TX"
  show "timeout s \<noteq> 0" using assms by (simp add: ready_def)
  fix x t assume t: "routes_as (actual_routes DATAPATH_DMA_REDUCTION) (mem t) \<and> periph_only s t"
  have rt: "ready t" using ready_periph [OF assms] t by blast
  show "ends (bnd (start_arith len func 0) (\<lambda>_. bnd (dma_movement len op0 op1 dst 0 ?what) (\<lambda>r.
      bnd wait_arith (\<lambda>_. ret r)))) t ?Q ?E"
  proof (rule ends_bndI [OF start_arith_ends])
    show "dma_transaction_size t \<noteq> 0" using rt by (auto simp: ready_def)
    fix y u assume u: "arith_started len func t u"
    have pu: "periph_only s u" using periph_only_trans arith_started_periph [OF u] t by blast
    have ru: "ready u" by (rule ready_periph [OF assms pu])
    have red: "reduced len func s u"
      using arith_started_reduced [OF u rt] periph_only_fields(4) [OF conjunct2 [OF t]] by (simp add: reduced_def)
    have routes: "routes_as (documented_routes DATAPATH_DMA_REDUCTION) (mem u)"
      using t arith_started_routes [OF u] by (simp add: actual_routes_def)
    have ok: "dmas_ok ?what" by (simp add: dmas_ok_def uses_def)
    show "ends (bnd (dma_movement len op0 op1 dst 0 ?what) (\<lambda>r. bnd wait_arith (\<lambda>_. ret r))) u ?Q ?E"
    proof (rule ends_bndI [OF ends_weaken [OF transfer_ends [OF ru ok]]])
      fix r v assume v: "r = COLLECTIVE_OP_SUCCESS \<and> frame {} u v \<and> transferred u len op0 op1 dst 0 ?what v \<and> unsent u v"
      then have fv: "frame peripherals s v" and mv: "mem v = mem u"
        using frame_trans [OF frame_periph [OF pu] frame_mono [of "{}" u v]] frame_mem [of "{}" u v] by auto
      have tr: "transferred s len op0 op1 dst 0 ?what v" using transferred_periph [OF pu] v by blast
      show "ends (bnd wait_arith (\<lambda>_. ret r)) v ?Q ?E"
      proof (rule ends_bndI [OF ends_weaken [OF wait_arith_ends]])
        show "timeout v \<noteq> 0" using frame_settings(5) [OF fv] assms by (simp add: ready_def)
        fix z w assume "reg_reads v w"
        then obtain q where "w = v\<lparr>reg_script := q\<rparr>" by (rule reg_readsE)
        with v fv mv tr red routes show "ends (ret r) w ?Q ?E"
          by (simp add: reduced_def transferred_def frame_def same_settings_def)
      qed (use frame_trans [OF fv] frame_reg_reads in blast)+
    qed (use frame_trans [OF frame_periph [OF pu] frame_mono [of "{}" u]] in \<open>auto simp: prim_error_def\<close>)
  qed
qed (auto simp: prim_error_def frame_periph)

subsection \<open>Messages to another rank\<close>

lemma find_comm_run:
  assumes "adr < 0x1FF8" and "mem s adr = n" and "mem s (adr + 4) = lr" and "lr < n"
  shows "find_comm adr s = Some (Ret \<lparr>size' = n, local_rank = lr, ranks = adr + 8\<rparr>, s)"
proof -
  have "unat (adr + 4) = unat adr + 4"
    using assms(1) by (intro unat_add_lem [THEN iffD1, of adr 4, simplified]) (simp add: word_less_nat_alt)
  then have "adr < 0x2000" "adr + 4 < 0x2000"
    using assms(1) by (simp_all add: word_less_nat_alt)
  moreover have "n \<noteq> 0" using assms(4) by auto
  ultimately show ?thesis
    using assms(2-4) by (simp add: find_comm_def bnd_def xil_in32_ram prim_run)
qed

text \<open>What a message to \<open>dst\<close> has done, seen from the state \<open>s\<close> before it.\<close>

definition rank_in_exchmem :: "communicator \<Rightarrow> u32 \<Rightarrow> bool" where
  "rank_in_exchmem world dst \<longleftrightarrow> (\<forall>f. rank_addr world dst f < 0x2000)"

lemma rank_in_exchmem_iff: "rank_in_exchmem world dst \<longleftrightarrow>
    (\<forall>f\<in>{ip, port, inbound_seq, outbound_seq, session}. rank_addr world dst f < 0x2000)"
  unfolding rank_in_exchmem_def by (metis (full_types) insertI1 insertI2 rank_field.exhaust)

definition headers_put :: "communicator \<Rightarrow> u32 \<Rightarrow> u32 \<Rightarrow> u32 \<Rightarrow> fw_state \<Rightarrow> fw_state \<Rightarrow> bool" where
  "headers_put world dst tag len s s' \<longleftrightarrow>
     words_on (pkt_net s) (trace s') = words_on (pkt_net s) (trace s) @ message_headers s world dst tag len"

lemma headers_periph:
  assumes "periph_only s t" and "rank_in_exchmem world dst"
  shows "headers_put world dst tag len t u = headers_put world dst tag len s u"
proof -
  note f = periph_only_fields [OF assms(1)]
  from assms(1) have "words_on ch (trace t) = words_on ch (trace s)" for ch
    by (auto elim!: periph_onlyE simp: words_on_writes)
  moreover have "message_headers t world dst tag len = message_headers s world dst tag len"
    using f(11) assms(2) by (simp add: message_headers_def pkt_dst_def out_seq_def f rank_in_exchmem_def)
  ultimately show ?thesis by (simp add: headers_put_def pkt_net_def f)
qed

definition messaged :: "communicator \<Rightarrow> u32 \<Rightarrow> u32 \<Rightarrow> u32 \<Rightarrow> u64 \<Rightarrow> fw_state \<Rightarrow> fw_state \<Rightarrow> bool" where
  "messaged world dst tag len buf s s' \<longleftrightarrow>
     frame (peripherals \<union> {rank_addr world dst outbound_seq}) s s' \<and> headers_put world dst tag len s s' \<and>
     transferred s len 0 buf 0 0 USE_DMA1_RX s' \<and>
     out_seq world dst s' = out_seq world dst s +
       of_nat (nsegs (unat (dma_transaction_size s)) (unat len))"

lemma transmit_ends:
  assumes "ready s" and "ranks world \<noteq> 0" and "rank_in_exchmem world dst"
  shows "ends (transmit_offchip_world world dst len buf tag) s
     (\<lambda>r s'. r = COLLECTIVE_OP_SUCCESS \<and> messaged world dst tag len buf s s' \<and>
        routes_as (documented_routes (if use_tcp s \<noteq> 0 then DATAPATH_OFFCHIP_TX_TCP else DATAPATH_OFFCHIP_TX_UDP)) (mem s'))
     (\<lambda>c s'. (prim_error c \<or> pkt_error c) \<and> frame (peripherals \<union> {rank_addr world dst outbound_seq}) s s')"
    (is "ends _ s ?Q ?E")
proof -
  let ?A = "rank_addr world dst outbound_seq"
  define sc :: u32 where "sc = (if use_tcp s \<noteq> 0 then DATAPATH_OFFCHIP_TX_TCP else DATAPATH_OFFCHIP_TX_UDP)"
  have sc: "sc \<in> {1, 2, 3, 4, 5, 6, 7}" and doc: "actual_routes sc = documented_routes sc"
    by (simp_all add: sc_def actual_routes_def)
  have tmo: "timeout s \<noteq> 0" using assms(1) by (simp add: ready_def)
  have low: "?A < 0x2000" using assms(3) by (simp add: rank_in_exchmem_def)
  have "ends (bnd (cfg_switch sc ARITH_NONE) (\<lambda>_.
      dma_movement_and_packetizer world len 0 buf 0 0 USE_DMA1_RX dst tag)) s ?Q ?E"
  proof (rule ends_bndI [OF ends_weaken [OF cfg_switch_actual [OF tmo sc]]])
    fix x t assume "routes_as (actual_routes sc) (mem t) \<and> periph_only s t"
    then have t: "routes_as (documented_routes sc) (mem t)" "periph_only s t" by (simp_all add: doc)
    have fr: "frame (peripherals \<union> {?A}) s t" by (rule frame_mono [OF frame_periph [OF t(2)]]) blast
    have rt: "ready t" by (rule ready_periph [OF assms(1) t(2)])
    have out: "out_seq world dst t = out_seq world dst s" and d: "dma_transaction_size t = dma_transaction_size s"
      using periph_only_fields [OF t(2)] low by (simp_all add: out_seq_def)
    let ?p = "\<lparr>p_move = job t len 0 buf 0 0 USE_DMA1_RX, p_world = world, p_dst = dst, p_tag = tag\<rparr>"
    show "ends (dma_movement_and_packetizer world len 0 buf 0 0 USE_DMA1_RX dst tag) t ?Q ?E"
    proof (rule ends_weaken [OF dma_movement_and_packetizer_ends])
      show "0 < dma_transaction_size t" "0 < max_dma_in_flight t" "timeout t \<noteq> 0" using rt by (simp_all add: ready_def)
      show "dmas_ok USE_DMA1_RX" by (simp add: dmas_ok_def uses_def)
      show "ranks world \<noteq> 0" by (rule assms(2))
      fix r u assume "r = COLLECTIVE_OP_SUCCESS \<and> sent ?p u"
      then have r: "r = COLLECTIVE_OP_SUCCESS" and u: "sent ?p u" by simp_all
      have fu: "frame {?A} t u" using u by (simp add: sent_def p_addr_def)
      have "\<exists>es. trace u = trace (j_start (p_move ?p)) @ es \<and> touches (p_move ?p) es"
        by (rule sent_touches [OF u])
          (use rt in \<open>simp_all add: ready_def j_d_def word_less_nat_alt dmas_ok_def uses_def\<close>)
      then have "transferred t len 0 buf 0 0 USE_DMA1_RX u" by (simp add: transferred_def)
      then have tr: "transferred s len 0 buf 0 0 USE_DMA1_RX u" by (rule transferred_periph [OF t(2)])
      have os: "out_seq world dst u = out_seq world dst s + of_nat (nsegs (unat (dma_transaction_size s)) (unat len))"
        using u by (simp add: sent_def j_segs_def j_d_def out d)
      have "mem u a = mem t a" if "0x2000 \<le> a" for a
        using frame_mem [OF fu, of a] that low by auto
      then have "routes_as (documented_routes sc) (mem u)"
        using t(1) by (simp add: routes_as_def main_ports_def switch_route_def)
      moreover have "headers_put world dst tag len s u"
        using sent_headers [OF u] headers_periph [OF t(2) assms(3), of tag len u] by (simp add: headers_put_def)
      ultimately show "?Q r u"
        using r tr os frame_trans [OF fr frame_mono [OF fu]] by (simp add: messaged_def sc_def)
    next
      fix c u assume "(dma_error c \<or> pkt_error c) \<and> frame {?A} t u"
      then show "?E c u" using frame_trans [OF fr frame_mono [of "{?A}"]] by (auto simp: prim_error_def)
    qed
  next
    fix c t assume "c = CONFIG_SWITCH_ERROR \<and> periph_only s t"
    then show "?E c t" using frame_mono [OF frame_periph, of s t] by (auto simp: prim_error_def)
  qed
  then show ?thesis by (simp add: transmit_offchip_world_def sc_def)
qed

subsection \<open>Properties\<close>

text \<open>\<open>copy\<close> ends whatever the hardware answers.  When it returns, it returned success, the switch feeds DMA1's write side
from its read side and nothing else, and DMA1 was told to read exactly the source bytes and to write exactly the destination bytes,
each once and in order; no other engine was used.  Otherwise it jumped with a DMA or switch error, outside peripherals nothing changed.\<close>

lemma copy_correct:
  assumes "ready s"
  shows "ends (copy len src dst) s
     (\<lambda>r s'. r = COLLECTIVE_OP_SUCCESS \<and> frame peripherals s s' \<and>
        routes_as [(MAIN_SWITCH_M_DMA1_TX, MAIN_SWITCH_S_DMA1_RX)] (mem s') \<and>
        (\<exists>es. trace s' = trace s @ es \<and>
           accessed CMD_DMA1_RX es = buffer src len \<and> accessed CMD_DMA1_TX es = buffer dst len \<and>
           accessed CMD_DMA0_RX es = [] \<and> accessed CMD_DMA2_RX es = []))
     (\<lambda>c s'. (dma_error c \<or> c = CONFIG_SWITCH_ERROR) \<and> frame peripherals s s')"
  unfolding copy_def dma_loopback_def
  by (rule ends_weaken [OF routed_transfer_ends [OF assms]])
    (auto simp: dmas_ok_def uses_def actual_routes_def documented_routes_def transferred_def touches_def prim_error_def)

text \<open>C16: \<open>accumulate\<close> ends whatever the hardware answers.  When it returns success, the switch has the reduction routes, the
arithmetic unit was given the function asked for and the number of 64-byte words that the segments amount to, DMA0 read exactly
the first operand and DMA1 the second, and DMA1 wrote exactly the destination.\<close>

theorem accumulate_correct:
  assumes "ready s"
  shows "ends (accumulate len func op0 op1 dst) s
     (\<lambda>r s'. r = COLLECTIVE_OP_SUCCESS \<and> frame peripherals s s' \<and>
        routes_as (documented_routes DATAPATH_DMA_REDUCTION) (mem s') \<and>
        mem s' (ARITH_BASEADDR + 0x18) = func \<and>
        unat (mem s' (ARITH_BASEADDR + 0x10)) =
          sum_list (map words64 (segs (unat (dma_transaction_size s)) (unat len))) \<and>
        (\<exists>es. trace s' = trace s @ es \<and>
           accessed CMD_DMA0_RX es = buffer op0 len \<and> accessed CMD_DMA1_RX es = buffer op1 len \<and>
           accessed CMD_DMA1_TX es = buffer dst len \<and> accessed CMD_DMA2_RX es = []))
     (\<lambda>c s'. (dma_error c \<or> c = CONFIG_SWITCH_ERROR \<or> c = ARITH_ERROR) \<and> frame peripherals s s')"
  unfolding accumulate_def
  by (rule ends_weaken [OF reduce_loopback_ends [OF assms]])
    (auto simp: uses_def reduced_def transferred_def touches_def prim_error_def)

theorem accumulate_correct_witness:
  "ends (accumulate 4096 ARITH_fp 0x1000 0x2000 0x2000) quiet
     (\<lambda>r s'. r = COLLECTIVE_OP_SUCCESS \<and> frame peripherals quiet s' \<and>
        routes_as (documented_routes DATAPATH_DMA_REDUCTION) (mem s') \<and>
        mem s' (ARITH_BASEADDR + 0x18) = ARITH_fp \<and>
        unat (mem s' (ARITH_BASEADDR + 0x10)) =
          sum_list (map words64 (segs (unat (dma_transaction_size quiet)) (unat (4096 :: u32)))) \<and>
        (\<exists>es. trace s' = trace quiet @ es \<and>
           accessed CMD_DMA0_RX es = buffer 0x1000 4096 \<and> accessed CMD_DMA1_RX es = buffer 0x2000 4096 \<and>
           accessed CMD_DMA1_TX es = buffer 0x2000 4096 \<and> accessed CMD_DMA2_RX es = []))
     (\<lambda>c s'. (dma_error c \<or> c = CONFIG_SWITCH_ERROR \<or> c = ARITH_ERROR) \<and> frame peripherals quiet s')"
  by (rule accumulate_correct) simp

text \<open>Sending, in full.\<close>

lemma send_ends:
  assumes "ready s" and "comm < 0x1FF8" and "mem s (comm + 4) < mem s comm"
    and "world = \<lparr>size' = mem s comm, local_rank = mem s (comm + 4), ranks = comm + 8\<rparr>"
    and "rank_in_exchmem world dst"
  shows "ends (send comm len tag dst buf) s
     (\<lambda>r s'. r = COLLECTIVE_OP_SUCCESS \<and>
        frame (peripherals \<union> {rank_addr world dst outbound_seq}) s s' \<and>
        routes_as (documented_routes (if use_tcp s \<noteq> 0 then DATAPATH_OFFCHIP_TX_TCP else DATAPATH_OFFCHIP_TX_UDP)) (mem s') \<and>
        words_on (pkt_net s) (trace s') = words_on (pkt_net s) (trace s) @ message_headers s world dst tag len \<and>
        out_seq world dst s' = out_seq world dst s + of_nat (nsegs (unat (dma_transaction_size s)) (unat len)) \<and>
        (\<exists>es. trace s' = trace s @ es \<and> accessed CMD_DMA1_RX es = buffer buf len \<and>
           accessed CMD_DMA0_RX es = [] \<and> accessed CMD_DMA1_TX es = [] \<and> accessed CMD_DMA2_RX es = []))
     (\<lambda>c s'. (dma_error c \<or> c = CONFIG_SWITCH_ERROR \<or> pkt_error c) \<and>
        frame (peripherals \<union> {rank_addr world dst outbound_seq}) s s')"
proof -
  have "comm + 8 \<noteq> 0"
  proof
    assume "comm + 8 = 0"
    then have "comm = - 8" by (simp add: eq_neg_iff_add_eq_0)
    with assms(2) show False by simp
  qed
  then have rk: "ranks world \<noteq> 0" by (simp add: assms(4))
  have f: "find_comm comm s = Some (Ret world, s)"
    using find_comm_run [OF assms(2) refl refl assms(3)] by (simp add: assms(4))
  have "ends (transmit_offchip_world world dst len buf tag) s
     (\<lambda>r s'. r = COLLECTIVE_OP_SUCCESS \<and>
        frame (peripherals \<union> {rank_addr world dst outbound_seq}) s s' \<and>
        routes_as (documented_routes (if use_tcp s \<noteq> 0 then DATAPATH_OFFCHIP_TX_TCP else DATAPATH_OFFCHIP_TX_UDP)) (mem s') \<and>
        words_on (pkt_net s) (trace s') = words_on (pkt_net s) (trace s) @ message_headers s world dst tag len \<and>
        out_seq world dst s' = out_seq world dst s + of_nat (nsegs (unat (dma_transaction_size s)) (unat len)) \<and>
        (\<exists>es. trace s' = trace s @ es \<and> accessed CMD_DMA1_RX es = buffer buf len \<and>
           accessed CMD_DMA0_RX es = [] \<and> accessed CMD_DMA1_TX es = [] \<and> accessed CMD_DMA2_RX es = []))
     (\<lambda>c s'. (dma_error c \<or> c = CONFIG_SWITCH_ERROR \<or> pkt_error c) \<and>
        frame (peripherals \<union> {rank_addr world dst outbound_seq}) s s')"
    by (rule ends_weaken [OF transmit_ends [OF assms(1) rk assms(5)]])
      (auto simp: messaged_def headers_put_def uses_def transferred_def touches_def prim_error_def)
  then show ?thesis
    by (simp add: send_def transmit_offchip_def ends_def bnd_def f)
qed

text \<open>C18: \<open>send\<close> with a valid communicator ends whatever the hardware answers.  When it returns success, DMA1 was told to read
exactly the buffer, the switch routes it to the stack in use, the packetizer was handed exactly one header per segment, in order
and with consecutive sequence numbers, and the outbound sequence number of the destination has advanced by the number of
segments; in exchange memory nothing else changed.\<close>

theorem send_correct:
  assumes "ready s" and "comm < 0x1FF8" and "mem s (comm + 4) < mem s comm"
    and "world = \<lparr>size' = mem s comm, local_rank = mem s (comm + 4), ranks = comm + 8\<rparr>"
    and "rank_in_exchmem world dst"
  shows "ends (send comm len tag dst buf) s
     (\<lambda>r s'. r = COLLECTIVE_OP_SUCCESS \<and>
        frame (peripherals \<union> {rank_addr world dst outbound_seq}) s s' \<and>
        routes_as (documented_routes (if use_tcp s \<noteq> 0 then DATAPATH_OFFCHIP_TX_TCP else DATAPATH_OFFCHIP_TX_UDP)) (mem s') \<and>
        words_on (pkt_net s) (trace s') = words_on (pkt_net s) (trace s) @ message_headers s world dst tag len \<and>
        out_seq world dst s' = out_seq world dst s + of_nat (nsegs (unat (dma_transaction_size s)) (unat len)) \<and>
        (\<exists>es. trace s' = trace s @ es \<and> accessed CMD_DMA1_RX es = buffer buf len \<and>
           accessed CMD_DMA0_RX es = [] \<and> accessed CMD_DMA1_TX es = [] \<and> accessed CMD_DMA2_RX es = []))
     (\<lambda>c s'. (dma_error c \<or> c = CONFIG_SWITCH_ERROR \<or> pkt_error c) \<and>
        frame (peripherals \<union> {rank_addr world dst outbound_seq}) s s')"
  by (rule send_ends [OF assms])

theorem send_correct_witness:
  "ends (send 0x1100 20000000 7 1 0x4000) (quiet\<lparr>mem := (\<lambda>_. 0)(0x1100 := 2)\<rparr>)
     (\<lambda>r s'. r = COLLECTIVE_OP_SUCCESS \<and>
        frame (peripherals \<union> {0x1128}) (quiet\<lparr>mem := (\<lambda>_. 0)(0x1100 := 2)\<rparr>) s' \<and>
        routes_as (documented_routes DATAPATH_OFFCHIP_TX_UDP) (mem s') \<and>
        words_on CMD_UDP_TX (trace s') = concat (map (\<lambda>k. [0, of_nat (seg 0x7FFFFF 20000000 k), 7, 0, of_nat k + 1]) [0..<nsegs 0x7FFFFF 20000000]) \<and>
        mem s' 0x1128 = of_nat (nsegs 0x7FFFFF 20000000) \<and>
        (\<exists>es. trace s' = trace (quiet\<lparr>mem := (\<lambda>_. 0)(0x1100 := 2)\<rparr>) @ es \<and> accessed CMD_DMA1_RX es = buffer 0x4000 20000000 \<and>
           accessed CMD_DMA0_RX es = [] \<and> accessed CMD_DMA1_TX es = [] \<and> accessed CMD_DMA2_RX es = []))
     (\<lambda>c s'. (dma_error c \<or> c = CONFIG_SWITCH_ERROR \<or> pkt_error c) \<and>
        frame (peripherals \<union> {0x1128}) (quiet\<lparr>mem := (\<lambda>_. 0)(0x1100 := 2)\<rparr>) s')"
  using send_correct [of "quiet\<lparr>mem := (\<lambda>_. 0)(0x1100 := 2)\<rparr>" "0x1100" "\<lparr>size' = 2, local_rank = 0, ranks = 0x1108\<rparr>" 1 20000000 7 "0x4000"]
  by (simp add: ready_def rank_in_exchmem_iff rank_addr_def field_offset_def out_seq_def message_headers_def pkt_net_def pkt_dst_def)

text \<open>The external reduction sends both operands to the external kernel's arithmetic path: the reduction routes are set up,
DMA0 reads exactly the first operand, DMA1 the second, and DMA1 writes exactly the destination.\<close>

lemma reduce_ext_correct:
  assumes "ready s"
  shows "ends (reduce_ext len op1 op2 dst) s
     (\<lambda>r s'. r = COLLECTIVE_OP_SUCCESS \<and> frame peripherals s s' \<and>
        routes_as (documented_routes DATAPATH_DMA_REDUCTION) (mem s') \<and>
        (\<exists>es. trace s' = trace s @ es \<and>
           accessed CMD_DMA0_RX es = buffer op1 len \<and> accessed CMD_DMA1_RX es = buffer op2 len \<and>
           accessed CMD_DMA1_TX es = buffer dst len \<and> accessed CMD_DMA2_RX es = []))
     (\<lambda>c s'. (dma_error c \<or> c = CONFIG_SWITCH_ERROR) \<and> frame peripherals s s')"
  unfolding reduce_ext_def
  by (rule ends_weaken [OF routed_transfer_ends [OF assms]])
    (auto simp: dmas_ok_def uses_def actual_routes_def transferred_def touches_def prim_error_def)

lemma round_up:
  fixes q w :: u32
  assumes "0 < w" and "unat q + unat w \<le> 2 ^ 32" and "c = q + (- (q mod w) + (if q mod w = 0 then 0 else w))"
  shows "unat c = unat q - unat q mod unat w + (if unat q mod unat w = 0 then 0 else unat w)"
proof -
  have w: "0 < unat w" using assms(1) by (simp add: word_less_nat_alt)
  have t: "unat (q mod w) = unat q mod unat w" by (simp add: unat_mod)
  have z: "q mod w = 0 \<longleftrightarrow> unat q mod unat w = 0" using t by (simp add: unat_eq_0 [symmetric])
  have "unat (q mod w) \<le> unat q" by (simp add: t)
  then have d: "unat (q - q mod w) = unat q - unat q mod unat w"
    using t by (simp add: unat_sub word_le_nat_alt)
  show ?thesis
  proof (cases "q mod w = 0")
    case True
    then show ?thesis using z assms(3) by simp
  next
    case False
    then have c: "c = (q - q mod w) + w" using assms(3) by simp
    have "0 < unat q mod unat w" using False z by simp
    moreover have "unat q mod unat w \<le> unat q" by simp
    ultimately have "unat q - unat q mod unat w + unat w < 2 ^ 32" using assms(2) by linarith
    then show ?thesis using False z by (simp add: c unat_word_ariths d)
  qed
qed

text \<open>The chunk of \<open>all_reduce_share\<close> is a whole number of operands, at least a rank's share of the length and less than one
operand above it.\<close>

lemma chunk_len_aligned:
  assumes "0 < n" and "func \<in> {ARITH_fp, ARITH_dp, ARITH_i32, ARITH_i64}" and "len \<le> 0xFFFFFFF8"
  shows "\<exists>c. chunk_len len n func s = Some (Ret c, s) \<and> c mod arith_number_of_bytes_per func = 0 \<and>
     len div n \<le> c \<and> c - len div n < arith_number_of_bytes_per func"
  proof -
  let ?w = "arith_number_of_bytes_per func" and ?q = "len div n"
  let ?c = "?q + (- (?q mod ?w) + (if ?q mod ?w = 0 then 0 else ?w))"
  have w: "?w = 4 \<or> ?w = 8" using assms(2) by (auto simp: arith_number_of_bytes_per_def)
  then have w8: "0 < ?w" "unat ?w \<le> 8" "0 < unat ?w" by auto
  have "unat ?q \<le> unat len" by (simp add: unat_div)
  moreover have "unat len \<le> 0xFFFFFFF8" using assms(3) by (simp add: word_le_nat_alt)
  ultimately have "unat ?q + unat ?w \<le> 2 ^ 32" using w8(2) by simp
  from round_up [OF w8(1) this refl]
  have c: "unat ?c = unat ?q - unat ?q mod unat ?w + (if unat ?q mod unat ?w = 0 then 0 else unat ?w)" .
  have lt: "unat ?q mod unat ?w < unat ?w" using w8(3) by simp
  have le: "unat ?q mod unat ?w \<le> unat ?q" by simp
  have "unat ?c mod unat ?w = 0"
    unfolding c using le by (simp add: minus_mod_eq_mult_div)
  then have "?c mod ?w = 0" by (simp add: word_unat_eq_iff unat_mod)
  moreover have "?q \<le> ?c"
    unfolding word_le_nat_alt c using lt le by auto
  moreover have "?c - ?q < ?w"
  proof -
    have "unat (?c - ?q) = unat ?c - unat ?q"
      using \<open>?q \<le> ?c\<close> by (rule unat_sub)
    also have "\<dots> < unat ?w" unfolding c using lt le w8(3) by auto
    finally show ?thesis by (simp only: word_less_nat_alt)
  qed
  moreover have "chunk_len len n func s = Some (Ret ?c, s)"
  proof -
    have "n \<noteq> 0" "?w \<noteq> 0" using assms(1) w by auto
    then show ?thesis unfolding chunk_len_def c_div_def c_mod_def Let_def by (simp only: if_False ret_bnd prim_run)
  qed
  ultimately show ?thesis by (intro exI [of _ ?c] conjI)
qed

text \<open>The chunks need not cover the buffer: for 44 bytes of \<open>float\<close> over ten ranks every chunk is 4 bytes, so the last
operand belongs to no rank's chunk.\<close>

lemma chunk_len_loses_tail:
  "chunk_len 44 10 ARITH_fp s = Some (Ret 4, s) \<and> 10 * 4 < (44 :: u32)"
  by (simp add: chunk_len_def c_div_def c_mod_def Let_def prim_run arith_number_of_bytes_per_def)

end
