(* ===== verification/Fw_Messages.thy ===== *)
theory Fw_Messages
  imports Fw_Receiving Fw_Primitives
begin

text \<open>
  Receiving, end to end: \<open>recv\<close>, the receive that accumulates, the receive that reduces and sends on, and the
  relay, from the set-up of the switches to the last buffer given back.
\<close>

subsection \<open>Before the loops\<close>

definition can_receive :: "fw_state \<Rightarrow> communicator \<Rightarrow> u32 \<Rightarrow> bool" where
  "can_receive s world src \<longleftrightarrow> ready s \<and> rx_inv s \<and> fed s \<and> rx_world s world src \<and>
     rank_addr world src inbound_seq < 0x2000"

lemma periphs_free: "n \<le> 113 \<Longrightarrow> free_words n peripherals"
  using buf_addr_low(3) by (fastforce simp: free_words_def rx_area_def)

lemma periph_rx_kept:
  assumes "rx_inv s" and "fed s" and "periph_only s t"
  shows "rx_kept peripherals s t"
proof (rule rx_kept_frame(1) [OF assms(1,2) frame_periph [OF assms(3)]])
  show "free_words (nbufs s) peripherals" using assms(1) by (intro periphs_free) (simp add: rx_inv_def)
  show "same_rx s t" using periph_only_fields(2) [OF assms(3)] by (rule same_rx_stream)
qed

lemma can_receive_periph:
  assumes "can_receive s world src" and "periph_only s t"
  shows "can_receive t world src" and "in_seq world src t = in_seq world src s"
proof -
  have k: "rx_kept peripherals s t"
    by (rule periph_rx_kept) (use assms in \<open>simp_all add: can_receive_def\<close>)
  show "can_receive t world src"
    using assms ready_periph [of s t] rx_kept_inv(1,2) [OF k] rx_world_kept [OF k] by (simp add: can_receive_def)
  show "in_seq world src t = in_seq world src s"
    using assms periph_only_fields(11) [OF assms(2)] by (simp add: can_receive_def in_seq_def)
qed

text \<open>What was consumed since the set-up was consumed since before it.\<close>

lemma accessed_after_writes: "list_all is_Wr ws \<Longrightarrow> accessed ch (ws @ es) = accessed ch es"
  by (simp add: accessed_def words_on_writes)

lemma whole_after_writes: "list_all is_Wr ws \<Longrightarrow> whole_commands (ws @ es) = whole_commands es"
  by (simp add: whole_commands_def words_on_writes)

lemma consumed_periph:
  assumes "can_receive s world src" and "periph_only s t" and "consumed t world src tag len op0 dst what u"
  shows "consumed s world src tag len op0 dst what u"
proof -
  have k: "rx_kept peripherals s t"
    by (rule periph_rx_kept) (use assms in \<open>simp_all add: can_receive_def\<close>)
  from assms(2) obtain ws where ws: "trace t = trace s @ ws" "list_all is_Wr ws" by (auto elim: periph_onlyE)
  have q: "in_seq world src t = in_seq world src s" by (rule can_receive_periph(2) [OF assms(1,2)])
  have n: "nbufs t = nbufs s" and d: "dma_transaction_size t = dma_transaction_size s"
    using rx_kept_inv [OF k] by simp_all
  from assms(3) obtain bs es where u: "trace u = trace t @ es"
    and c: "\<And>k. k < nsegs (unat (dma_transaction_size s)) (unat len) \<Longrightarrow> unat (bs ! k) < nbufs s \<and>
        (\<exists>x. (x = tag \<or> tag = TAG_ANY) \<and>
           came t u [of_nat (seg (unat (dma_transaction_size s)) (unat len) k), x, src, in_seq world src s + of_nat k + 1])"
    and rest: "length bs = nsegs (unat (dma_transaction_size s)) (unat len)"
      "in_seq world src u = in_seq world src s + of_nat (nsegs (unat (dma_transaction_size s)) (unat len))"
      "accessed CMD_DMA1_RX es = concat (map (\<lambda>k. bytes_of (of_nat (seg (unat (dma_transaction_size s)) (unat len) k),
         buffer_addr t (bs ! k))) [0..<nsegs (unat (dma_transaction_size s)) (unat len)])"
      "accessed CMD_DMA0_RX es = (if uses what USE_DMA0_RX then buffer op0 len else [])"
      "accessed CMD_DMA1_TX es = (if uses what USE_DMA1_TX then buffer dst len else [])"
      "accessed CMD_DMA2_RX es = []" "whole_commands es"
    unfolding consumed_def Let_def q n d by blast
  have p: "prefix (trace t) (trace u)" by (simp add: u)
  have came: "came s u h" if "came t u h" for h by (rule came_trans [OF k p that])
  have adr: "buffer_addr t b = buffer_addr s b" if "unat b < nbufs s" for b
    using k that by (simp add: rx_kept_def buffer_addr_def)
  have rx: "accessed CMD_DMA1_RX (ws @ es) = concat (map (\<lambda>k. bytes_of (of_nat (seg (unat (dma_transaction_size s)) (unat len) k),
         buffer_addr s (bs ! k))) [0..<nsegs (unat (dma_transaction_size s)) (unat len)])"
    unfolding accessed_after_writes [OF ws(2)] rest(3) using c adr
    by (intro arg_cong [where f = concat] map_cong) simp_all
  have c': "\<forall>k<nsegs (unat (dma_transaction_size s)) (unat len). unat (bs ! k) < nbufs s \<and>
        (\<exists>x. (x = tag \<or> tag = TAG_ANY) \<and>
           came s u [of_nat (seg (unat (dma_transaction_size s)) (unat len) k), x, src, in_seq world src s + of_nat k + 1])"
    using c came by blast
  have u': "trace u = trace s @ (ws @ es)" by (simp add: u ws)
  show ?thesis
    unfolding consumed_def Let_def
    by (intro conjI exI [of _ bs] exI [of _ "ws @ es"] rx rest(1,2) c' u')
      (simp_all add: accessed_after_writes [OF ws(2)] whole_after_writes [OF ws(2)] rest(4-7))
qed

abbreviation (input) rx_job_of :: "fw_state \<Rightarrow> communicator \<Rightarrow> u32 \<Rightarrow> u32 \<Rightarrow> u32 \<Rightarrow> u32 \<Rightarrow> u64 \<Rightarrow> u64 \<Rightarrow> u32 \<Rightarrow> rx_job" where
  "rx_job_of s world src dst_rank tag len op0 dst what \<equiv>
     \<lparr>r_pkt = \<lparr>p_move = job s len op0 0 dst 0 what, p_world = world, p_dst = dst_rank, p_tag = tag\<rparr>,
      r_src = src, r_tag = tag\<rparr>"

lemma can_receive_ready:
  assumes "can_receive s world src" and "rx_dmas what"
  shows "rx_ready (rx_job_of s world src d tag len op0 dst what) (in_word world src)"
  using assms by (auto simp: can_receive_def rx_ready_def j_ready_def ready_def rx_world_def free_words_def
      isr_words_def rx_dmas_def dmas_ok_def)

subsection \<open>The loops from a state that can receive\<close>

lemmas rx_job_fields = rx_job.select_convs pkt_job.select_convs move_job.select_convs

lemma rc_start:
  assumes "can_receive t world src" and "rx_dmas what"
    and "ring_holds (max_dma_in_flight t) [] 0 0 l" "op0_addr l = op0" "dst_addr l = dst" "rx_tag_tmp l = dma_tag t"
  shows "rc_inv what (rx_job_of t world src d tag len op0 dst what) 0 0 l t"
  using receiving_0 [of "rx_job_of t world src d tag len op0 dst what" "in_word world src" l t "[]" "\<lambda>_. []"]
    can_receive_ready [OF assms(1,2)] assms(3-6)
  by (auto simp: rc_inv_def j_tag_def)

lemma rc_finish:
  assumes iv: "rc_inv what r (j_segs (r_move r)) (j_segs (r_move r)) l s" and c: "can_receive (r_start r) (r_world r) (r_src r)"
  shows "consumed (r_start r) (r_world r) (r_src r) (r_tag r) (j_len (r_move r)) (j_rx0 (r_move r)) (j_tx1 (r_move r)) what s"
    and "unsent (r_start r) s"
    and "rx_kept (in_word (r_world r) (r_src r)) (r_start r) s"
proof -
  from iv obtain bs where w: "j_what (r_move r) = what" and rdy: "rx_ready r (in_word (r_world r) (r_src r))"
    and rc: "receiving r (in_word (r_world r) (r_src r)) [] (\<lambda>_. []) bs (j_segs (r_move r)) (j_segs (r_move r)) (j_segs (r_move r)) l s"
    by (auto simp: rc_inv_def)
  have small: "dma_transaction_size (r_start r) \<le> DMA_MAX_BTT" using c by (simp add: can_receive_def ready_def)
  from receiving_consumed [OF rdy small rc] w
  show "consumed (r_start r) (r_world r) (r_src r) (r_tag r) (j_len (r_move r)) (j_rx0 (r_move r)) (j_tx1 (r_move r)) what s"
    by simp
  show "rx_kept (in_word (r_world r) (r_src r)) (r_start r) s" by (rule receiving_kept [OF rc])
  let ?net = "pkt_net (r_start r)"
  have "?net \<notin> {CMD_DMA0_TX, CMD_DMA2_TX}" by (simp add: pkt_net_def)
  with rc have "words_on ?net (trace s) = words_on ?net (trace (r_start r)) @ words_on ?net [] @
        concat (map (\<lambda>k. words_on ?net ([] @ rx_commands r (bs ! k) k)) [0..<j_segs (r_move r)])"
    unfolding receiving_def by blast
  then show "unsent (r_start r) s" by (simp add: unsent_def rx_commands_def Let_def words_on_net_emit)
qed

text \<open>Received, and nothing put on the packetizer's stream.\<close>

definition stored :: "fw_state \<Rightarrow> communicator \<Rightarrow> u32 \<Rightarrow> u32 \<Rightarrow> u32 \<Rightarrow> u64 \<Rightarrow> u64 \<Rightarrow> u32 \<Rightarrow> fw_state \<Rightarrow> bool" where
  "stored s world src tag len op0 dst what s' \<longleftrightarrow> consumed s world src tag len op0 dst what s' \<and> unsent s s'"

lemma stored_periph:
  "can_receive s world src \<Longrightarrow> periph_only s t \<Longrightarrow> stored t world src tag len op0 dst what u \<Longrightarrow>
    stored s world src tag len op0 dst what u"
  by (simp add: stored_def consumed_periph unsent_periph)

lemma receive_loop_ends:
  assumes "can_receive t world src"
    and "ring_holds (max_dma_in_flight t) [] 0 0 l" "op0_addr l = 0" "dst_addr l = dst" "rx_tag_tmp l = dma_tag t"
  shows "ends (pipelined (receive_issue world src tag) (receive_issue world src tag) (receive_ack RECEIVE_DMAS) len l) t
     (\<lambda>_ s'. stored t world src tag len 0 dst RECEIVE_DMAS s' \<and> rx_kept (in_word world src) t s')
     (\<lambda>c s'. rx_error c \<and> rx_kept (in_word world src) t s')"
proof -
  let ?r = "rx_job_of t world src 0 tag len 0 dst RECEIVE_DMAS"
  have "rx_dmas RECEIVE_DMAS" by (simp add: rx_dmas_def uses_def)
  from rc_start [OF assms(1) this assms(2-5)] have "rc_inv RECEIVE_DMAS ?r 0 0 l t" .
  from rc.job_ends [OF this, unfolded rx_job_fields] show ?thesis
    by (rule ends_weaken) (use rc_finish [of RECEIVE_DMAS ?r] assms(1) in \<open>auto simp: rc_err_def stored_def\<close>)
qed

lemma accumulate_loop_ends:
  assumes "can_receive t world src"
    and "ring_holds (max_dma_in_flight t) [] 0 0 l" "op0_addr l = op0" "dst_addr l = dst" "rx_tag_tmp l = dma_tag t"
  shows "ends (pipelined (accumulate_issue world src tag) (accumulate_issue world src tag) (receive_ack ACCUMULATE_DMAS) len l) t
     (\<lambda>_ s'. stored t world src tag len op0 dst ACCUMULATE_DMAS s' \<and> rx_kept (in_word world src) t s')
     (\<lambda>c s'. rx_error c \<and> rx_kept (in_word world src) t s')"
proof -
  let ?r = "rx_job_of t world src 0 tag len op0 dst ACCUMULATE_DMAS"
  have "rx_dmas ACCUMULATE_DMAS" by (simp add: rx_dmas_def uses_def)
  from rc_start [OF assms(1) this assms(2-5)] have "rc_inv ACCUMULATE_DMAS ?r 0 0 l t" .
  from ac.job_ends [OF this, unfolded rx_job_fields] show ?thesis
    by (rule ends_weaken) (use rc_finish [of ACCUMULATE_DMAS ?r] assms(1) in \<open>auto simp: rc_err_def stored_def\<close>)
qed

subsection \<open>Routes and registers stay while messages are received\<close>

lemma kept_registers:
  assumes "rx_kept A s t" and "A \<subseteq> {a. a < 0x2000}" and "rx_inv s"
    and "0x2000 \<le> a" and "a \<notin> isr_registers"
  shows "mem t a = mem s a"
proof -
  have n: "nbufs s \<le> 113" using assms(3) by (simp add: rx_inv_def)
  have "a \<notin> rx_area (nbufs s)"
  proof
    assume "a \<in> rx_area (nbufs s)"
    then obtain i f where "unat i < nbufs s" "a = buf_addr i f" by (auto simp: rx_area_def)
    with buf_addr_low(3) [of i f] n assms(4) show False by (simp add: not_le [symmetric])
  qed
  moreover have "a \<notin> A" using assms(2,4) by (auto simp: not_le [symmetric])
  moreover have "a \<noteq> TIME_TO_ACCESS_EXCH_MEM" using assms(4) by auto
  ultimately show ?thesis using assms(1,5) by (simp add: rx_kept_def isr_words_def)
qed

lemma kept_routes:
  assumes "rx_kept A s t" and "A \<subseteq> {a. a < 0x2000}" and "rx_inv s"
  shows "routes_as table (mem t) = routes_as table (mem s)"
  using kept_registers [OF assms] by (simp add: routes_as_def main_ports_def switch_route_def)

lemma kept_reduced:
  assumes "rx_kept A s t" and "A \<subseteq> {a. a < 0x2000}" and "rx_inv s"
  shows "reduced len func r t = reduced len func r s"
  using kept_registers [OF assms] by (simp add: reduced_def)

lemma can_receive_inv: "can_receive s world src \<Longrightarrow> rx_inv s"
  "can_receive s world src \<Longrightarrow> in_word world src \<subseteq> {a. a < 0x2000}" "can_receive s world src \<Longrightarrow> timeout s \<noteq> 0"
  "can_receive s world src \<Longrightarrow> ready s"
  by (simp_all add: can_receive_def ready_def)

lemma periph_then_kept:
  assumes "can_receive s world src" and "periph_only s t" and "rx_kept A t u"
  shows "rx_kept (peripherals \<union> A) s u"
  by (rule rx_kept_trans [OF rx_kept_mono [OF periph_rx_kept] rx_kept_mono [OF assms(3)]])
    (use assms(1,2) in \<open>auto simp: can_receive_def\<close>)

subsection \<open>Receiving into a buffer\<close>

definition recv_error :: "u32 \<Rightarrow> bool" where
  "recv_error c \<longleftrightarrow> rx_error c \<or> c = CONFIG_SWITCH_ERROR"

lemma locals_after_switch:
  assumes "can_receive s world src" and "periph_only s t"
    and "ring_holds (max_dma_in_flight s) [] 0 0 l" "rx_tag_tmp l = dma_tag s"
  shows "ring_holds (max_dma_in_flight t) [] 0 0 l" "rx_tag_tmp l = dma_tag t"
  using assms(3,4) periph_only_fields [OF assms(2)] by simp_all

lemma receive_ends:
  assumes "can_receive s world src"
  shows "ends (receive_offchip_world world src len dst tag) s
     (\<lambda>r s'. r = COLLECTIVE_OP_SUCCESS \<and> rx_kept (peripherals \<union> in_word world src) s s' \<and>
        routes_as (documented_routes DATAPATH_DMA_LOOPBACK) (mem s') \<and>
        stored s world src tag len 0 dst RECEIVE_DMAS s')
     (\<lambda>c s'. recv_error c \<and> rx_kept (peripherals \<union> in_word world src) s s')"
    (is "ends _ s ?Q ?E")
proof -
  obtain l where l: "rx_locals0 0 dst s = Some (Ret l, s)" "ring_holds (max_dma_in_flight s) [] 0 0 l"
    "op0_addr l = 0" "dst_addr l = dst" "rx_tag_tmp l = dma_tag s"
    using rx_locals0_run [of s 0 dst] assms by (auto simp: can_receive_def ready_def)
  have "ends (bnd (cfg_switch DATAPATH_DMA_LOOPBACK ARITH_NONE) (\<lambda>_.
     bnd (pipelined (receive_issue world src tag) (receive_issue world src tag) (receive_ack RECEIVE_DMAS) len l) (\<lambda>_.
     ret COLLECTIVE_OP_SUCCESS))) s ?Q ?E"
  proof (rule ends_bndI [OF ends_weaken [OF cfg_switch_actual [OF can_receive_inv(3) [OF assms]]]])
    fix x t assume "routes_as (actual_routes DATAPATH_DMA_LOOPBACK) (mem t) \<and> periph_only s t"
    then have t: "routes_as (documented_routes DATAPATH_DMA_LOOPBACK) (mem t)" "periph_only s t"
      by (simp_all add: actual_routes_def)
    note c = can_receive_periph(1) [OF assms t(2)]
    note lt = locals_after_switch [OF assms t(2) l(2,5)]
    show "ends (bnd (pipelined (receive_issue world src tag) (receive_issue world src tag) (receive_ack RECEIVE_DMAS) len l)
       (\<lambda>_. ret COLLECTIVE_OP_SUCCESS)) t ?Q ?E"
    proof (rule ends_bndI [OF ends_weaken [OF receive_loop_ends [OF c lt(1) l(3,4) lt(2)]]])
      fix y u assume "stored t world src tag len 0 dst RECEIVE_DMAS u \<and> rx_kept (in_word world src) t u"
      then have u: "stored t world src tag len 0 dst RECEIVE_DMAS u" "rx_kept (in_word world src) t u" by simp_all
      show "ends (ret COLLECTIVE_OP_SUCCESS) u ?Q ?E"
        using kept_routes [OF u(2) can_receive_inv(2,1) [OF c]] t(1) stored_periph [OF assms t(2) u(1)]
          periph_then_kept [OF assms t(2) u(2)] by simp
    qed (use periph_then_kept [OF assms t(2), of "in_word world src"] in \<open>auto simp: recv_error_def\<close>)
  qed (use periph_then_kept [OF assms _ rx_kept_refl, of _ "in_word world src"] can_receive_periph(1) [OF assms] in
        \<open>auto simp: recv_error_def can_receive_def\<close>)
  then show ?thesis
    by (simp add: receive_offchip_world_def ends_def bnd_def l(1))
qed

subsection \<open>Receiving and adding\<close>

lemma kept_reg_reads:
  assumes "rx_kept A s t" and "reg_reads t u"
  shows "rx_kept A s u"
proof (rule rx_kept_trans [OF assms(1)])
  show "rx_kept A t u"
  proof (rule rx_kept_mono [OF rx_kept_frame(1) [of t "{}"]])
    show "rx_inv t" "fed t" using rx_kept_inv(1,2) [OF assms(1)] .
    show "frame {} t u" by (rule frame_reg_reads [OF assms(2)])
  qed (use assms(2) in \<open>auto simp: free_words_def reg_reads_def same_rx_stream\<close>)
qed

lemma consumed_reg_reads: "consumed s world src tag len op0 dst what t \<Longrightarrow> reg_reads t u \<Longrightarrow>
    consumed s world src tag len op0 dst what u"
  by (erule reg_readsE) (simp add: consumed_def came_def in_seq_def Let_def)

lemma stored_reg_reads: "stored s world src tag len op0 dst what t \<Longrightarrow> reg_reads t u \<Longrightarrow>
    stored s world src tag len op0 dst what u"
  by (auto simp: stored_def unsent_def elim: reg_readsE intro: consumed_reg_reads)

lemma accumulate_ends:
  assumes "can_receive s world src"
  shows "ends (receive_and_accumulate world src len func op0 dst tag) s
     (\<lambda>r s'. r = COLLECTIVE_OP_SUCCESS \<and> rx_kept (peripherals \<union> in_word world src) s s' \<and>
        routes_as (documented_routes DATAPATH_DMA_REDUCTION) (mem s') \<and> reduced len func s s' \<and>
        stored s world src tag len op0 dst ACCUMULATE_DMAS s')
     (\<lambda>c s'. (recv_error c \<or> c = ARITH_ERROR) \<and> rx_kept (peripherals \<union> in_word world src) s s')"
    (is "ends _ s ?Q ?E")
proof -
  obtain l where l: "rx_locals0 op0 dst s = Some (Ret l, s)" "ring_holds (max_dma_in_flight s) [] 0 0 l"
    "op0_addr l = op0" "dst_addr l = dst" "rx_tag_tmp l = dma_tag s"
    using rx_locals0_run [of s op0 dst] assms by (auto simp: can_receive_def ready_def)
  let ?loop = "pipelined (accumulate_issue world src tag) (accumulate_issue world src tag) (receive_ack ACCUMULATE_DMAS) len l"
  have "ends (bnd (cfg_switch DATAPATH_DMA_REDUCTION ARITH_INTERNAL) (\<lambda>_. bnd (start_arith len func 0) (\<lambda>_.
     bnd ?loop (\<lambda>_. bnd wait_arith (\<lambda>_. ret COLLECTIVE_OP_SUCCESS))))) s ?Q ?E"
  proof (rule ends_bndI [OF ends_weaken [OF cfg_switch_actual [OF can_receive_inv(3) [OF assms]]]])
    fix x t assume "routes_as (actual_routes DATAPATH_DMA_REDUCTION) (mem t) \<and> periph_only s t"
    then have t: "routes_as (documented_routes DATAPATH_DMA_REDUCTION) (mem t)" "periph_only s t"
      by (simp_all add: actual_routes_def)
    have rt: "ready t" using can_receive_periph(1) [OF assms t(2)] by (rule can_receive_inv(4))
    show "ends (bnd (start_arith len func 0) (\<lambda>_. bnd ?loop (\<lambda>_. bnd wait_arith (\<lambda>_. ret COLLECTIVE_OP_SUCCESS)))) t ?Q ?E"
    proof (rule ends_bndI [OF start_arith_ends])
      show "dma_transaction_size t \<noteq> 0" using rt by (auto simp: ready_def)
      fix y u assume u: "arith_started len func t u"
      have pu: "periph_only s u" by (rule periph_only_trans [OF t(2) arith_started_periph [OF u]])
      have red: "reduced len func s u"
        using arith_started_reduced [OF u rt] periph_only_fields(4) [OF t(2)] by (simp add: reduced_def)
      have routes: "routes_as (documented_routes DATAPATH_DMA_REDUCTION) (mem u)"
        using t(1) arith_started_routes [OF u] by simp
      note c = can_receive_periph(1) [OF assms pu]
      note lt = locals_after_switch [OF assms pu l(2,5)]
      show "ends (bnd ?loop (\<lambda>_. bnd wait_arith (\<lambda>_. ret COLLECTIVE_OP_SUCCESS))) u ?Q ?E"
      proof (rule ends_bndI [OF ends_weaken [OF accumulate_loop_ends [OF c lt(1) l(3,4) lt(2)]]])
        fix z v assume "stored u world src tag len op0 dst ACCUMULATE_DMAS v \<and> rx_kept (in_word world src) u v"
        then have v: "stored u world src tag len op0 dst ACCUMULATE_DMAS v" "rx_kept (in_word world src) u v" by simp_all
        note kv = periph_then_kept [OF assms pu v(2)]
        have rv: "reduced len func s v" "routes_as (documented_routes DATAPATH_DMA_REDUCTION) (mem v)"
          using kept_routes [OF v(2) can_receive_inv(2,1) [OF c]] kept_reduced [OF v(2) can_receive_inv(2,1) [OF c]]
            routes red by simp_all
        have Q: "?Q COLLECTIVE_OP_SUCCESS w" if w: "reg_reads v w" for w
        proof -
          have "mem w = mem v" using w by (auto elim: reg_readsE)
          then show ?thesis
            using stored_reg_reads [OF stored_periph [OF assms pu v(1)] w] kept_reg_reads [OF kv w] rv
            by (simp add: reduced_def)
        qed
        show "ends (bnd wait_arith (\<lambda>_. ret COLLECTIVE_OP_SUCCESS)) v ?Q ?E"
        proof (rule ends_bndI [OF ends_weaken [OF wait_arith_ends]])
          show "timeout v \<noteq> 0" using rx_kept_inv(4) [OF kv] can_receive_inv(3) [OF assms] by simp
          show "ends (ret COLLECTIVE_OP_SUCCESS) w ?Q ?E" if "reg_reads v w" for w
            using Q [OF that] by simp
        qed (use kept_reg_reads [OF kv] in auto)
      qed (use periph_then_kept [OF assms pu, of "in_word world src"] in \<open>auto simp: recv_error_def\<close>)
    qed
  qed (use periph_then_kept [OF assms _ rx_kept_refl, of _ "in_word world src"] can_receive_periph(1) [OF assms] in
        \<open>auto simp: recv_error_def can_receive_def\<close>)
  then show ?thesis
    by (simp add: receive_and_accumulate_def ends_def bnd_def l(1))
qed

subsection \<open>Sending on what is received\<close>

definition can_forward :: "fw_state \<Rightarrow> communicator \<Rightarrow> u32 \<Rightarrow> u32 \<Rightarrow> bool" where
  "can_forward s world src dst \<longleftrightarrow> can_receive s world src \<and> rank_in_exchmem world dst \<and>
     (\<forall>f \<in> {port, session, outbound_seq}.
        rank_addr world dst f \<notin> isr_words (nbufs s) \<union> {RX_BUFFER_COUNT_OFFSET, rank_addr world src inbound_seq})"

abbreviation (input) forward_words :: "communicator \<Rightarrow> u32 \<Rightarrow> u32 \<Rightarrow> u32 set" where
  "forward_words world src dst \<equiv> in_word world src \<union> {rank_addr world dst outbound_seq}"

lemma can_forward_ready:
  assumes "can_forward s world src dst" and "rx_dmas what"
  shows "fw_ready what (rx_job_of s world src dst tag len op0 0 what)"
proof -
  let ?r = "rx_job_of s world src dst tag len op0 0 what"
  have c: "can_receive s world src" using assms(1) by (simp add: can_forward_def)
  note r = can_receive_ready [OF c assms(2), where d = dst and tag = tag and len = len and ?op0.0 = op0 and dst = 0]
  have "free_words (nbufs s) {rank_addr world dst outbound_seq}"
    using assms(1) by (auto simp: can_forward_def free_words_def isr_words_def)
  with r have "rx_ready ?r (fw_words ?r)"
    by (auto simp: rx_ready_def fw_words_def p_addr_def free_words_def)
  with assms(1) show ?thesis
    by (auto simp: fw_ready_def can_forward_def)
qed

text \<open>What a message forwarded has done besides being received.\<close>

definition forwarded :: "fw_state \<Rightarrow> communicator \<Rightarrow> u32 \<Rightarrow> u32 \<Rightarrow> u32 \<Rightarrow> u32 \<Rightarrow> u64 \<Rightarrow> u32 \<Rightarrow> fw_state \<Rightarrow> bool" where
  "forwarded s world src dst tag len op0 what s' \<longleftrightarrow>
     consumed s world src tag len op0 0 what s' \<and> headers_put world dst tag len s s' \<and>
     out_seq world dst s' = out_seq world dst s + of_nat (nsegs (unat (dma_transaction_size s)) (unat len))"

lemma fw_start:
  assumes fw: "can_forward t world src dst" and what: "rx_dmas what"
    and l: "ring_holds (max_dma_in_flight t) [] 0 0 l" "op0_addr l = op0" "dst_addr l = 0" "rx_tag_tmp l = dma_tag t"
  shows "fwd_inv what (rx_job_of t world src dst tag len op0 0 what) 0 0 l
     (t\<lparr>trace := trace t @ p_lead (r_pkt (rx_job_of t world src dst tag len op0 0 what))\<rparr>)"
proof -
  let ?r = "rx_job_of t world src dst tag len op0 0 what"
  note fr = can_forward_ready [OF fw what, where tag = tag and len = len and ?op0.0 = op0]
  have "rx_ready ?r (fw_words ?r)" using fr by (simp add: fw_ready_def)
  from receiving_0 [OF this, of l "t\<lparr>trace := trace t @ p_lead (r_pkt ?r)\<rparr>" "p_lead (r_pkt ?r)" "p_pre (r_pkt ?r)"] l
  have "receiving ?r (fw_words ?r) (p_lead (r_pkt ?r)) (p_pre (r_pkt ?r)) [] 0 0 0 l (t\<lparr>trace := trace t @ p_lead (r_pkt ?r)\<rparr>)"
    by simp
  with fr show ?thesis by (auto simp: fwd_inv_def fw_inv_def out_seq_def j_tag_def)
qed

lemma fw_finish:
  assumes iv: "fwd_inv what r (j_segs (r_move r)) (j_segs (r_move r)) l s" and c: "can_receive (r_start r) (r_world r) (r_src r)"
    and "j_tx1 (r_move r) = 0"
  shows "forwarded (r_start r) (r_world r) (r_src r) (p_dst (r_pkt r)) (r_tag r) (j_len (r_move r)) (j_rx0 (r_move r)) what s"
    and "rx_kept (fw_words r) (r_start r) s"
proof -
  let ?p = "r_pkt r" and ?N = "j_segs (r_move r)"
  let ?net = "pkt_net (p_start ?p)"
  from iv obtain bs where w: "j_what (r_move r) = what" and rdy: "rx_ready r (fw_words r)" and tg: "r_tag r = p_tag ?p"
    and rc: "receiving r (fw_words r) (p_lead ?p) (p_pre ?p) bs ?N ?N ?N l s"
    and os: "out_seq (r_world r) (p_dst ?p) s = out_seq (r_world r) (p_dst ?p) (r_start r) + of_nat ?N"
    by (auto simp: fwd_inv_def fw_inv_def fw_ready_def)
  show "rx_kept (fw_words r) (r_start r) s" by (rule receiving_kept [OF rc])
  have h: "words_on ch (p_header ?p k) = []" if "ch \<in> {CMD_DMA0_RX, CMD_DMA1_RX, CMD_DMA1_TX, CMD_DMA2_RX}" for ch k
    using that by (auto simp: p_header_def pkt_words_def pkt_net_def)
  have small: "dma_transaction_size (r_start r) \<le> DMA_MAX_BTT" using c by (simp add: can_receive_def ready_def)
  have "consumed (r_start r) (r_world r) (r_src r) (r_tag r) (j_len (r_move r)) (j_rx0 (r_move r)) (j_tx1 (r_move r)) what s"
    unfolding w [symmetric]
    by (rule receiving_consumed [OF rdy small rc]) (use h in \<open>simp add: p_lead_def p_pre_def words_on_concat\<close>)
  moreover have "headers_put (r_world r) (p_dst ?p) (r_tag r) (j_len (r_move r)) (r_start r) s"
  proof -
    have "?net \<notin> {CMD_DMA0_TX, CMD_DMA2_TX}" by (simp add: pkt_net_def)
    with rc have "words_on ?net (trace s) = words_on ?net (trace (r_start r)) @ words_on ?net (p_lead ?p) @
          concat (map (\<lambda>k. words_on ?net (p_pre ?p k @ rx_commands r (bs ! k) k)) [0..<?N])"
      unfolding receiving_def by blast
    also have "\<dots> = words_on ?net (trace (r_start r)) @ words_on ?net (p_lead ?p) @
          concat (map (\<lambda>k. words_on ?net (p_pre ?p k)) [0..<?N])"
      by (simp add: rx_commands_def Let_def words_on_net_emit)
    finally show ?thesis using headers_in_order [of ?p] by (simp add: headers_put_def tg)
  qed
  ultimately show "forwarded (r_start r) (r_world r) (r_src r) (p_dst ?p) (r_tag r) (j_len (r_move r)) (j_rx0 (r_move r)) what s"
    using os assms(3) by (simp add: forwarded_def j_segs_def j_d_def)
qed

lemma can_forwardD:
  assumes "can_forward s world src dst"
  shows "can_receive s world src" and "ready s" and "timeout s \<noteq> 0" and "ranks world \<noteq> 0" and "rank_in_exchmem world dst"
    and "forward_words world src dst \<subseteq> {a. a < 0x2000}" and "rx_inv s"
  using assms by (simp_all add: can_forward_def can_receive_def rx_world_def ready_def rank_in_exchmem_def)

lemma can_forward_periph:
  assumes "can_forward s world src dst" and "periph_only s t"
  shows "can_forward t world src dst"
proof -
  note c = can_forwardD(1) [OF assms(1)]
  have "rx_kept peripherals s t" by (rule periph_rx_kept [OF _ _ assms(2)]) (use c in \<open>simp_all add: can_receive_def\<close>)
  with assms(1) can_receive_periph(1) [OF c assms(2)] show ?thesis
    by (simp add: can_forward_def rx_kept_def)
qed

lemma forwarded_periph:
  assumes "can_forward s world src dst" and "periph_only s t" and "forwarded t world src dst tag len op0 what u"
  shows "forwarded s world src dst tag len op0 what u"
proof -
  note f = periph_only_fields [OF assms(2)]
  have "out_seq world dst t = out_seq world dst s"
    using can_forwardD(5) [OF assms(1)] f(11) by (simp add: out_seq_def rank_in_exchmem_def)
  with assms(3) consumed_periph [OF can_forwardD(1) [OF assms(1)] assms(2)]
    headers_periph [OF assms(2) can_forwardD(5) [OF assms(1)]] f(4)
  show ?thesis by (simp add: forwarded_def)
qed

lemma forwarded_reg_reads: "forwarded s world src dst tag len op0 what t \<Longrightarrow> reg_reads t u \<Longrightarrow>
    forwarded s world src dst tag len op0 what u"
  by (auto simp: forwarded_def headers_put_def out_seq_def elim: reg_readsE intro: consumed_reg_reads)

definition forward_error :: "u32 \<Rightarrow> bool" where
  "forward_error c \<longleftrightarrow> rx_error c \<or> pkt_error c \<or> c = CONFIG_SWITCH_ERROR"

text \<open>The first headers, then the loop that forwards.\<close>

lemma forward_ends:
  assumes c: "can_forward t world src dst"
    and r: "r = rx_job_of t world src dst tag len op0 0 what"
    and loop: "ends m (t\<lparr>trace := trace t @ p_lead (r_pkt r)\<rparr>) (\<lambda>l s'. fwd_inv what r (j_segs (r_move r)) (j_segs (r_move r)) l s') (fw_err r)"
  shows "ends (bnd (start_packetizer_message world dst len tag 0) (\<lambda>_. m)) t
     (\<lambda>_ s'. forwarded t world src dst tag len op0 what s' \<and> rx_kept (forward_words world src dst) t s')
     (\<lambda>c s'. forward_error c \<and> rx_kept (forward_words world src dst) t s')"
proof -
  have fields: "r_start r = t" "r_world r = world" "r_src r = src" "p_dst (r_pkt r) = dst" "r_tag r = tag"
    "p_tag (r_pkt r) = tag" "j_len (r_move r) = len" "j_rx0 (r_move r) = op0" "j_tx1 (r_move r) = 0"
    by (simp_all add: r)
  have run: "start_packetizer_message world dst len tag 0 t = Some (Ret (of_nat (min (j_m (r_move r)) (j_segs (r_move r)))),
      t\<lparr>trace := trace t @ p_lead (r_pkt r)\<rparr>)"
    using p_lead_run [of "r_pkt r"] can_forwardD(2,4) [OF c] by (simp add: r ready_def)
  have words: "fw_words r = forward_words world src dst" by (simp add: fw_words_def fields p_addr_def)
  have "ends m (t\<lparr>trace := trace t @ p_lead (r_pkt r)\<rparr>)
     (\<lambda>_ s'. forwarded t world src dst tag len op0 what s' \<and> rx_kept (forward_words world src dst) t s')
     (\<lambda>c s'. forward_error c \<and> rx_kept (forward_words world src dst) t s')"
  proof (rule ends_weaken [OF loop])
    fix l s' assume "fwd_inv what r (j_segs (r_move r)) (j_segs (r_move r)) l s'"
    from fw_finish [OF this, unfolded fields words, OF can_forwardD(1) [OF c] refl]
    show "forwarded t world src dst tag len op0 what s' \<and> rx_kept (forward_words world src dst) t s'" by blast
  next
    fix c' s' assume "fw_err r c' s'"
    then show "forward_error c' \<and> rx_kept (forward_words world src dst) t s'"
      by (auto simp: fw_err_def forward_error_def words fields)
  qed
  then show ?thesis by (simp add: ends_def bnd_def run)
qed

lemma periph_then_forwarded:
  assumes "can_forward s world src dst" and "periph_only s t"
    and "forwarded t world src dst tag len op0 what u" and "rx_kept (forward_words world src dst) t u"
    and "routes_as table (mem t)"
  shows "rx_kept (peripherals \<union> forward_words world src dst) s u \<and> routes_as table (mem u) \<and>
     forwarded s world src dst tag len op0 what u"
  using kept_routes [OF assms(4) can_forwardD(6,7) [OF can_forward_periph [OF assms(1,2)]]] assms(5)
    forwarded_periph [OF assms(1-3)] periph_then_kept [OF can_forwardD(1) [OF assms(1)] assms(2,4)] by simp

lemma relay_loop_ends:
  assumes c: "can_forward t world src dst"
    and l: "ring_holds (max_dma_in_flight t) [] 0 0 l" "op0_addr l = 0" "dst_addr l = 0" "rx_tag_tmp l = dma_tag t"
  shows "ends (bnd (start_packetizer_message world dst len tag 0) (\<lambda>_.
       pipelined (relay_issue False world src dst tag) (relay_issue True world src dst tag) (forward_ack world dst RELAY_DMAS) len l)) t
     (\<lambda>_ s'. forwarded t world src dst tag len 0 RELAY_DMAS s' \<and> rx_kept (forward_words world src dst) t s')
     (\<lambda>c s'. forward_error c \<and> rx_kept (forward_words world src dst) t s')"
proof (rule forward_ends [OF c refl])
  have "rx_dmas RELAY_DMAS" by (simp add: rx_dmas_def uses_def)
  from rl.job_ends [OF fw_start [OF c this l], unfolded rx_job_fields]
  show "ends (pipelined (relay_issue False world src dst tag) (relay_issue True world src dst tag) (forward_ack world dst RELAY_DMAS) len l)
     (t\<lparr>trace := trace t @ p_lead (r_pkt (rx_job_of t world src dst tag len 0 0 RELAY_DMAS))\<rparr>)
     (\<lambda>l. fwd_inv RELAY_DMAS (rx_job_of t world src dst tag len 0 0 RELAY_DMAS)
        (j_segs (r_move (rx_job_of t world src dst tag len 0 0 RELAY_DMAS)))
        (j_segs (r_move (rx_job_of t world src dst tag len 0 0 RELAY_DMAS))) l)
     (fw_err (rx_job_of t world src dst tag len 0 0 RELAY_DMAS))"
    unfolding rx_job_fields .
qed

lemma reduce_loop_ends:
  assumes c: "can_forward t world src dst"
    and l: "ring_holds (max_dma_in_flight t) [] 0 0 l" "op0_addr l = op0" "dst_addr l = 0" "rx_tag_tmp l = dma_tag t"
  shows "ends (bnd (start_packetizer_message world dst len tag 0) (\<lambda>_.
       pipelined (reduce_issue False world src dst tag) (reduce_issue True world src dst tag) (forward_ack world dst REDUCE_DMAS) len l)) t
     (\<lambda>_ s'. forwarded t world src dst tag len op0 REDUCE_DMAS s' \<and> rx_kept (forward_words world src dst) t s')
     (\<lambda>c s'. forward_error c \<and> rx_kept (forward_words world src dst) t s')"
proof (rule forward_ends [OF c refl])
  have "rx_dmas REDUCE_DMAS" by (simp add: rx_dmas_def uses_def)
  from rd.job_ends [OF fw_start [OF c this l], unfolded rx_job_fields]
  show "ends (pipelined (reduce_issue False world src dst tag) (reduce_issue True world src dst tag) (forward_ack world dst REDUCE_DMAS) len l)
     (t\<lparr>trace := trace t @ p_lead (r_pkt (rx_job_of t world src dst tag len op0 0 REDUCE_DMAS))\<rparr>)
     (\<lambda>l. fwd_inv REDUCE_DMAS (rx_job_of t world src dst tag len op0 0 REDUCE_DMAS)
        (j_segs (r_move (rx_job_of t world src dst tag len op0 0 REDUCE_DMAS)))
        (j_segs (r_move (rx_job_of t world src dst tag len op0 0 REDUCE_DMAS))) l)
     (fw_err (rx_job_of t world src dst tag len op0 0 REDUCE_DMAS))"
    unfolding rx_job_fields .
qed

lemma relay_ends:
  assumes "can_forward s world src dst"
  shows "ends (relay_to_other_rank world src dst len tag) s
     (\<lambda>r s'. r = COLLECTIVE_OP_SUCCESS \<and> rx_kept (peripherals \<union> forward_words world src dst) s s' \<and>
        routes_as (documented_routes (if use_tcp s \<noteq> 0 then DATAPATH_OFFCHIP_TX_TCP else DATAPATH_OFFCHIP_TX_UDP)) (mem s') \<and>
        forwarded s world src dst tag len 0 RELAY_DMAS s')
     (\<lambda>c s'. forward_error c \<and> rx_kept (peripherals \<union> forward_words world src dst) s s')"
    (is "ends _ s ?Q ?E")
proof -
  note cr = can_forwardD(1) [OF assms]
  obtain l where l: "rx_locals0 0 0 s = Some (Ret l, s)" "ring_holds (max_dma_in_flight s) [] 0 0 l"
    "op0_addr l = 0" "dst_addr l = 0" "rx_tag_tmp l = dma_tag s"
    using rx_locals0_run [of s 0 0] can_forwardD(2) [OF assms] by (auto simp: ready_def)
  define sc :: u32 where "sc = (if use_tcp s \<noteq> 0 then DATAPATH_OFFCHIP_TX_TCP else DATAPATH_OFFCHIP_TX_UDP)"
  have sc: "sc \<in> {1, 2, 3, 4, 5, 6, 7}" and doc: "actual_routes sc = documented_routes sc"
    by (simp_all add: sc_def actual_routes_def)
  let ?fwd = "bnd (start_packetizer_message world dst len tag 0) (\<lambda>_.
       pipelined (relay_issue False world src dst tag) (relay_issue True world src dst tag) (forward_ack world dst RELAY_DMAS) len l)"
  have "ends (bnd (cfg_switch sc ARITH_NONE) (\<lambda>_. bnd ?fwd (\<lambda>_. ret COLLECTIVE_OP_SUCCESS))) s ?Q ?E"
  proof (rule ends_bndI [OF ends_weaken [OF cfg_switch_actual [OF can_forwardD(3) [OF assms] sc]]])
    fix x t assume "routes_as (actual_routes sc) (mem t) \<and> periph_only s t"
    then have t: "routes_as (documented_routes sc) (mem t)" "periph_only s t" by (simp_all add: doc)
    note lt = locals_after_switch [OF cr t(2) l(2,5)]
    show "ends (bnd ?fwd (\<lambda>_. ret COLLECTIVE_OP_SUCCESS)) t ?Q ?E"
    proof (rule ends_bndI [OF ends_weaken [OF relay_loop_ends [OF can_forward_periph [OF assms t(2)] lt(1) l(3,4) lt(2)]]])
      fix y u assume "forwarded t world src dst tag len 0 RELAY_DMAS u \<and> rx_kept (forward_words world src dst) t u"
      then have "forwarded t world src dst tag len 0 RELAY_DMAS u" "rx_kept (forward_words world src dst) t u" by simp_all
      from periph_then_forwarded [OF assms t(2) this t(1)] show "ends (ret COLLECTIVE_OP_SUCCESS) u ?Q ?E"
        unfolding sc_def by simp
    qed (use periph_then_kept [OF cr t(2), of "forward_words world src dst"] in auto)
  qed (use periph_then_kept [OF cr _ rx_kept_refl, of _ "forward_words world src dst"] can_receive_periph(1) [OF cr] in
        \<open>auto simp: forward_error_def can_receive_def\<close>)
  then show ?thesis
    by (simp add: relay_to_other_rank_def ends_def bnd_assoc bnd_run(1) [where m = "rx_locals0 0 0", OF l(1)] sc_def)
qed

lemma receive_reduce_ends:
  assumes "can_forward s world src dst"
  shows "ends (receive_and_reduce_offchip world src dst len func op0 tag) s
     (\<lambda>r s'. r = COLLECTIVE_OP_SUCCESS \<and> rx_kept (peripherals \<union> forward_words world src dst) s s' \<and>
        routes_as (documented_routes (if use_tcp s \<noteq> 0 then DATAPATH_OFFCHIP_TCP_REDUCTION else DATAPATH_OFFCHIP_UDP_REDUCTION)) (mem s') \<and>
        reduced len func s s' \<and> forwarded s world src dst tag len op0 REDUCE_DMAS s')
     (\<lambda>c s'. (forward_error c \<or> c = ARITH_ERROR) \<and> rx_kept (peripherals \<union> forward_words world src dst) s s')"
    (is "ends _ s ?Q ?E")
proof -
  note cr = can_forwardD(1) [OF assms]
  obtain l where l: "rx_locals0 op0 0 s = Some (Ret l, s)" "ring_holds (max_dma_in_flight s) [] 0 0 l"
    "op0_addr l = op0" "dst_addr l = 0" "rx_tag_tmp l = dma_tag s"
    using rx_locals0_run [of s op0 0] can_forwardD(2) [OF assms] by (auto simp: ready_def)
  define sc :: u32 where "sc = (if use_tcp s \<noteq> 0 then DATAPATH_OFFCHIP_TCP_REDUCTION else DATAPATH_OFFCHIP_UDP_REDUCTION)"
  have sc: "sc \<in> {1, 2, 3, 4, 5, 6, 7}" and doc: "actual_routes sc = documented_routes sc"
    by (simp_all add: sc_def actual_routes_def)
  let ?fwd = "bnd (start_packetizer_message world dst len tag 0) (\<lambda>_.
       pipelined (reduce_issue False world src dst tag) (reduce_issue True world src dst tag) (forward_ack world dst REDUCE_DMAS) len l)"
  let ?fin = "bnd wait_arith (\<lambda>_. ret COLLECTIVE_OP_SUCCESS)"
  have "ends (bnd (cfg_switch sc ARITH_INTERNAL) (\<lambda>_. bnd (start_arith len func 0) (\<lambda>_. bnd ?fwd (\<lambda>_. ?fin)))) s ?Q ?E"
  proof (rule ends_bndI [OF ends_weaken [OF cfg_switch_actual [OF can_forwardD(3) [OF assms] sc]]])
    fix x t assume "routes_as (actual_routes sc) (mem t) \<and> periph_only s t"
    then have t: "routes_as (documented_routes sc) (mem t)" "periph_only s t" by (simp_all add: doc)
    have rt: "ready t" by (rule can_forwardD(2) [OF can_forward_periph [OF assms t(2)]])
    show "ends (bnd (start_arith len func 0) (\<lambda>_. bnd ?fwd (\<lambda>_. ?fin))) t ?Q ?E"
    proof (rule ends_bndI [OF start_arith_ends])
      show "dma_transaction_size t \<noteq> 0" using rt by (auto simp: ready_def)
      fix y u assume u: "arith_started len func t u"
      have pu: "periph_only s u" by (rule periph_only_trans [OF t(2) arith_started_periph [OF u]])
      have red: "reduced len func s u"
        using arith_started_reduced [OF u rt] periph_only_fields(4) [OF t(2)] by (simp add: reduced_def)
      have routes: "routes_as (documented_routes sc) (mem u)" using t(1) arith_started_routes [OF u] by simp
      note cu = can_forward_periph [OF assms pu]
      note lt = locals_after_switch [OF cr pu l(2,5)]
      show "ends (bnd ?fwd (\<lambda>_. ?fin)) u ?Q ?E"
      proof (rule ends_bndI [OF ends_weaken [OF reduce_loop_ends [OF cu lt(1) l(3,4) lt(2)]]])
        fix z v assume "forwarded u world src dst tag len op0 REDUCE_DMAS v \<and> rx_kept (forward_words world src dst) u v"
        then have v: "forwarded u world src dst tag len op0 REDUCE_DMAS v" "rx_kept (forward_words world src dst) u v" by simp_all
        note fv = periph_then_forwarded [OF assms pu v routes]
        have rv: "reduced len func s v" using kept_reduced [OF v(2) can_forwardD(6,7) [OF cu]] red by simp
        have Q: "?Q COLLECTIVE_OP_SUCCESS w" if w: "reg_reads v w" for w
        proof -
          have "mem w = mem v" using w by (auto elim: reg_readsE)
          then show ?thesis
            using forwarded_reg_reads [OF _ w, of s world src dst tag len op0] fv kept_reg_reads [OF _ w] rv
            by (simp add: reduced_def sc_def)
        qed
        show "ends ?fin v ?Q ?E"
        proof (rule ends_bndI [OF ends_weaken [OF wait_arith_ends]])
          show "timeout v \<noteq> 0" using rx_kept_inv(4) [OF v(2)] can_forwardD(3) [OF cu] by simp
          show "ends (ret COLLECTIVE_OP_SUCCESS) w ?Q ?E" if "reg_reads v w" for w
            using Q [OF that] by simp
        qed (use fv kept_reg_reads in blast)+
      qed (use periph_then_kept [OF cr pu, of "forward_words world src dst"] in auto)
    qed
  qed (use periph_then_kept [OF cr _ rx_kept_refl, of _ "forward_words world src dst"] can_receive_periph(1) [OF cr] in
        \<open>auto simp: forward_error_def can_receive_def\<close>)
  then show ?thesis
    by (simp add: receive_and_reduce_offchip_def ends_def bnd_assoc bnd_run(1) [where m = "rx_locals0 op0 0", OF l(1)] sc_def)
qed

subsection \<open>Properties\<close>

text \<open>For the examples: rank 0 of a communicator of two, with the three receive buffers.\<close>

definition receiver :: fw_state where
  "receiver = three_buffers\<lparr>mem := (mem three_buffers)(0x1100 := 2)\<rparr>"

abbreviation (input) pair :: communicator where
  "pair \<equiv> \<lparr>size' = 2, local_rank = 0, ranks = 0x1108\<rparr>"

lemma three_buffers_area: "a \<in> rx_area 3 \<Longrightarrow> 0x1004 \<le> a \<and> a < 0x1070"
proof -
  assume "a \<in> rx_area 3"
  then obtain i :: u32 and f where i: "unat i < 3" and a: "a = buf_addr i f" by (auto simp: rx_area_def)
  from i have "unat i = unat (0 :: u32) \<or> unat i = unat (1 :: u32) \<or> unat i = unat (2 :: u32)" by simp arith
  then have "i = 0 \<or> i = 1 \<or> i = 2" by (simp only: word_unat_eq_iff)
  then show ?thesis by (cases f) (auto simp: a buf_addr_def rx_offset_def)
qed

lemma receiver_nbufs: "nbufs receiver = 3"
  by (simp add: receiver_def three_buffers_def nbufs_def)

lemma receiver_kept: "rx_kept {0x1100} three_buffers receiver"
proof (rule rx_kept_frame(1) [OF three_buffers_inv three_buffers_fed])
  show "frame {0x1100} three_buffers receiver" by (simp add: receiver_def frame_def same_settings_def)
  show "free_words (nbufs three_buffers) {0x1100}"
    using three_buffers_area [of "0x1100"] by (auto simp: free_words_def three_buffers_nbufs)
  show "same_rx three_buffers receiver" by (simp add: receiver_def same_rx_stream)
qed

lemma receiver_can_receive: "can_receive receiver pair 1"
proof -
  have "ready receiver" by (simp add: receiver_def three_buffers_def ready_def boot_state_def)
  moreover have "(0x1124 :: u32) \<notin> isr_words 3" using three_buffers_area [of "0x1124"] by (auto simp: isr_words_def)
  ultimately show ?thesis
    using rx_kept_inv(1,2) [OF receiver_kept]
    by (simp add: can_receive_def rx_world_def receiver_nbufs rank_addr_def field_offset_def)
qed

text \<open>C6: \<open>recv\<close> with a valid communicator ends whatever the network and the data movers deliver.  When it returns success, it took
the next messages of the source rank, one per segment: of the segment's length, with the tag asked for and with consecutive
sequence numbers, each found in a receive buffer; DMA1 was told to read exactly those buffers in that order and to write exactly
the destination; the inbound sequence number advanced by the number of segments; the bookkeeping of the buffers is consistent.\<close>

theorem recv_correct:
  assumes "comm < 0x1FF8" and "mem s (comm + 4) < mem s comm"
    and "world = \<lparr>size' = mem s comm, local_rank = mem s (comm + 4), ranks = comm + 8\<rparr>"
    and "can_receive s world src"
  shows "ends (recv comm len tag src buf) s
     (\<lambda>r s'. r = COLLECTIVE_OP_SUCCESS \<and> routes_as (documented_routes DATAPATH_DMA_LOOPBACK) (mem s') \<and>
        rx_kept (peripherals \<union> {rank_addr world src inbound_seq}) s s' \<and>
        (let d = unat (dma_transaction_size s); N = nsegs d (unat len) in
           in_seq world src s' = in_seq world src s + of_nat N \<and>
           (\<exists>bs es. length bs = N \<and> trace s' = trace s @ es \<and>
              (\<forall>k<N. unat (bs ! k) < nbufs s \<and> (\<exists>t. (t = tag \<or> tag = TAG_ANY) \<and>
                 came s s' [of_nat (seg d (unat len) k), t, src, in_seq world src s + of_nat k + 1])) \<and>
              accessed CMD_DMA1_RX es =
                concat (map (\<lambda>k. bytes_of (of_nat (seg d (unat len) k), buffer_addr s (bs ! k))) [0..<N]) \<and>
              accessed CMD_DMA1_TX es = buffer buf len \<and>
              accessed CMD_DMA0_RX es = [] \<and> accessed CMD_DMA2_RX es = [])))
     (\<lambda>c s'. (deq_error c \<or> c = RECEIVE_TIMEOUT_ERROR \<or> c = CONFIG_SWITCH_ERROR) \<and>
        rx_kept (peripherals \<union> {rank_addr world src inbound_seq}) s s')"
    (is "ends _ _ ?Q ?E")
proof -
  have f: "find_comm comm s = Some (Ret world, s)"
    using find_comm_run [OF assms(1) refl refl assms(2)] by (simp add: assms(3))
  have u: "uses RECEIVE_DMAS USE_DMA1_TX" "\<not> uses RECEIVE_DMAS USE_DMA0_RX" by (simp_all add: uses_def)
  have "ends (receive_offchip_world world src len buf tag) s ?Q ?E"
  proof (rule ends_weaken [OF receive_ends [OF assms(4)]])
    fix r s' assume "r = COLLECTIVE_OP_SUCCESS \<and> rx_kept (peripherals \<union> in_word world src) s s' \<and>
        routes_as (documented_routes DATAPATH_DMA_LOOPBACK) (mem s') \<and> stored s world src tag len 0 buf RECEIVE_DMAS s'"
    then show "?Q r s'" using u unfolding stored_def consumed_def Let_def by (simp only: if_True if_False) blast
  qed (simp add: recv_error_def rx_error_def)
  then show ?thesis by (simp add: recv_def ends_def bnd_def f)
qed

theorem recv_correct_witness:
  "ends (recv 0x1100 20000000 5 1 0x200000) receiver
     (\<lambda>r s'. r = COLLECTIVE_OP_SUCCESS \<and> routes_as (documented_routes DATAPATH_DMA_LOOPBACK) (mem s') \<and>
        rx_kept (peripherals \<union> {0x1124}) receiver s' \<and>
        (let d = 0x7FFFFF; N = nsegs d 20000000 in
           mem s' 0x1124 = of_nat N \<and>
           (\<exists>bs es. length bs = N \<and> trace s' = es \<and>
              (\<forall>k<N. unat (bs ! k) < 3 \<and> (\<exists>t. (t = 5 \<or> 5 = TAG_ANY) \<and>
                 came receiver s' [of_nat (seg d 20000000 k), t, 1, of_nat k + 1])) \<and>
              accessed CMD_DMA1_RX es =
                concat (map (\<lambda>k. bytes_of (of_nat (seg d 20000000 k), buffer_addr receiver (bs ! k))) [0..<N]) \<and>
              accessed CMD_DMA1_TX es = buffer 0x200000 20000000 \<and>
              accessed CMD_DMA0_RX es = [] \<and> accessed CMD_DMA2_RX es = [])))
     (\<lambda>c s'. (deq_error c \<or> c = RECEIVE_TIMEOUT_ERROR \<or> c = CONFIG_SWITCH_ERROR) \<and>
        rx_kept (peripherals \<union> {0x1124}) receiver s')"
proof -
  have "mem receiver 0x1100 = 2" "mem receiver 0x1104 = 0" "mem receiver 0x1124 = 0" "trace receiver = []"
    "dma_transaction_size receiver = 0x7FFFFF"
    by (simp_all add: receiver_def three_buffers_def boot_state_def)
  then show ?thesis
    using recv_correct [of "0x1100" receiver pair 1 20000000 5 "0x200000"] receiver_can_receive
    by (simp add: receiver_nbufs in_seq_def rank_addr_def field_offset_def)
qed

end
