(* ===== verification/Hls_Stream.thy ===== *)
theory Hls_Stream
  imports Prelude
begin

text \<open>
  What the hardware kernels of \<open>src/kernel/hls\<close> share. A stream is a list, the next element first; a
  kernel that runs to its end takes its input streams and gives back what is left of them and what it
  wrote, or \<open>None\<close> when it is still blocked in a read of a stream that has run dry. A kernel without
  control interface (\<open>ap_ctrl_none\<close>) is called for ever: one call is one step on its static variables
  and streams, and the system is described by the states reachable in any number of steps.
\<close>

lemma unat_ucast_u16 [simp]: "unat (ucast (x :: u16) :: u32) = unat x"
proof -
  have "unat x < 2 ^ LENGTH(16)" by (rule unsigned_less)
  then show ?thesis by (simp add: unsigned_ucast_eq take_bit_nat_eq_self)
qed

lemma ucast_u32_u16 [simp]: "ucast (ucast (x :: u16) :: u32) = x"
  by (rule bit_word_eqI) (simp add: bit_simps)

lemma ucast_u16_u32:
  assumes "(x :: u32) < 2 ^ 16"
  shows "ucast (ucast x :: u16) = x"
proof -
  have "unat x < 2 ^ 16" using assms by (simp add: word_less_nat_alt)
  then have "unat (ucast (ucast x :: u16) :: u32) = unat x"
    by (simp only: unat_ucast_u16) (simp add: unsigned_ucast_eq take_bit_nat_eq_self)
  then show ?thesis by (simp only: word_unat_eq_iff)
qed

subsection \<open>Words on a 512-bit stream\<close>

text \<open>\<open>ap_axiu<512,0,0,0>\<close> and, with a destination, \<open>ap_axiu<512,0,0,16>\<close>.\<close>

record axis =
  ax_data :: "512 word"
  ax_keep :: "64 word"
  ax_last :: bool

record axis_dest = axis +
  ax_dest :: u16

text \<open>A blocking read.\<close>

fun take_one :: "'a list \<Rightarrow> ('a \<times> 'a list) option" where
  "take_one [] = None"
| "take_one (x # xs) = Some (x, xs)"

fun_cases take_one_SomeE: "take_one xs = Some p"

lemma take_one_Some [simp]: "take_one xs = Some (x, ys) \<longleftrightarrow> xs = x # ys"
  by (cases xs) auto

lemma take_one_None [simp]: "take_one xs = None \<longleftrightarrow> xs = []"
  by (cases xs) auto

text \<open>The packets of a stream: every packet ends with a word whose last flag is set.\<close>

fun packets :: "bool list \<Rightarrow> nat list" where
  "packets [] = []"
| "packets (l # ls) = (if l then 1 # packets ls else
     (case packets ls of [] \<Rightarrow> [1] | p # ps \<Rightarrow> Suc p # ps))"

text \<open>The number of packets that have been passed on to their last word.\<close>

definition passed_on :: "'a axis_scheme list \<Rightarrow> nat" where
  "passed_on ws = length (filter ax_last ws)"

subsection \<open>Streams with a history\<close>

text \<open>
  A stream between concurrent kernels: what has been read from it and what is waiting in it. Reading an
  empty stream and writing a full one block, so the kernels below either test first or stay where they are.
\<close>

record 'a stream =
  consumed :: "'a list"
  waiting :: "'a list"

definition no_data :: "'a stream" where
  "no_data = \<lparr>consumed = [], waiting = []\<rparr>"

definition is_empty :: "'a stream \<Rightarrow> bool" where
  "is_empty f \<longleftrightarrow> waiting f = []"

definition front :: "'a stream \<Rightarrow> 'a" where
  "front f = hd (waiting f)"

definition pop :: "'a stream \<Rightarrow> 'a stream" where
  "pop f = (case waiting f of [] \<Rightarrow> f | x # xs \<Rightarrow> \<lparr>consumed = consumed f @ [x], waiting = xs\<rparr>)"

definition push :: "'a \<Rightarrow> 'a stream \<Rightarrow> 'a stream" where
  "push x f = f\<lparr>waiting := waiting f @ [x]\<rparr>"

definition written :: "'a stream \<Rightarrow> 'a list" where
  "written f = consumed f @ waiting f"

lemma stream_simps [simp]:
  "consumed no_data = []" "waiting no_data = []" "written no_data = []"
  "consumed (push x f) = consumed f" "waiting (push x f) = waiting f @ [x]"
  "written (push x f) = written f @ [x]"
  by (simp_all add: no_data_def push_def written_def)

lemma written_pop [simp]: "written (pop f) = written f"
  by (simp add: pop_def written_def split: list.split)

lemma not_empty: "\<not> is_empty f \<longleftrightarrow> (\<exists>x xs. waiting f = x # xs)"
  by (simp add: is_empty_def neq_Nil_conv)

lemma is_empty_iff [simp]: "is_empty f \<longleftrightarrow> waiting f = []"
  by (simp add: is_empty_def)

lemma pop_Cons [simp]:
  "waiting f = x # xs \<Longrightarrow> consumed (pop f) = consumed f @ [x]"
  "waiting f = x # xs \<Longrightarrow> waiting (pop f) = xs"
  "waiting f = x # xs \<Longrightarrow> front f = x"
  by (simp_all add: pop_def front_def)

subsection \<open>Kernels that run for ever\<close>

text \<open>The contract of such a kernel: a set of initial states, steps, and a property that both keep.\<close>

locale kernel =
  fixes init :: "'s \<Rightarrow> bool"
    and step :: "'s \<Rightarrow> 's \<Rightarrow> bool"
    and inv :: "'s \<Rightarrow> bool"
  assumes inv_init: "init s \<Longrightarrow> inv s"
    and inv_step: "\<lbrakk> inv s; step s s' \<rbrakk> \<Longrightarrow> inv s'"
begin

lemma inv_steps:
  assumes "step\<^sup>*\<^sup>* s s'" and "inv s"
  shows "inv s'"
  using assms by (induction rule: rtranclp_induct) (auto intro: inv_step)

lemma inv_reachable: "\<lbrakk> init s; step\<^sup>*\<^sup>* s s' \<rbrakk> \<Longrightarrow> inv s'"
  by (rule inv_steps) (auto intro: inv_init)

end

subsection \<open>Links\<close>

text \<open>A sender and a receiver of messages over one stream of words.\<close>

primrec pack_all :: "('m \<Rightarrow> 'w list) \<Rightarrow> 'm list \<Rightarrow> 'w list" where
  "pack_all pack [] = []"
| "pack_all pack (m # ms) = pack m @ pack_all pack ms"

primrec unpack_n :: "('w list \<Rightarrow> ('r \<times> 'w list) option) \<Rightarrow> nat \<Rightarrow> 'w list \<Rightarrow> ('r list \<times> 'w list) option" where
  "unpack_n unpack 0 ws = Some ([], ws)"
| "unpack_n unpack (Suc n) ws = (case unpack ws of None \<Rightarrow> None
     | Some (r, ws') \<Rightarrow> (case unpack_n unpack n ws' of None \<Rightarrow> None
         | Some (rs, ws'') \<Rightarrow> Some (r # rs, ws'')))"

text \<open>What is promised of one message carries over to any number of them, sent back to back.\<close>

locale link =
  fixes pack :: "'m \<Rightarrow> 'w list"
    and unpack :: "'w list \<Rightarrow> ('r \<times> 'w list) option"
    and delivered :: "'m \<Rightarrow> 'r"
    and sendable :: "'m \<Rightarrow> bool"
  assumes unpack_pack: "sendable m \<Longrightarrow> unpack (pack m @ ws) = Some (delivered m, ws)"
begin

lemma unpack_all:
  "list_all sendable ms \<Longrightarrow> unpack_n unpack (length ms) (pack_all pack ms @ ws) = Some (map delivered ms, ws)"
  by (induction ms) (auto simp: unpack_pack)

end

end
