(* ===== verification/Hls_Packetizer.thy ===== *)
theory Hls_Packetizer
  imports Hls_Stream
begin

text \<open>
  The message framing of \<open>vnx_packetizer.cpp\<close>, \<open>vnx_depacketizer.cpp\<close>, \<open>tcp_packetizer.cpp\<close> and
  \<open>tcp_depacketizer.cpp\<close>: a header word with count, tag, source and sequence number, the payload in
  64-byte words with the keep mask of a ragged tail, and the last flag every \<open>max_pktsize\<close> words. The
  packetizers and depacketizers are shown to be inverse to each other as links. A C \<open>int\<close> is an \<open>u32\<close>
  compared with \<open><s\<close>.
\<close>

subsection \<open>Header\<close>

definition DATA_WIDTH :: nat where "DATA_WIDTH = 512"
definition HEADER_COUNT_START :: nat where "HEADER_COUNT_START = 0"
definition HEADER_COUNT_END :: nat where "HEADER_COUNT_END = 31"
definition HEADER_TAG_START :: nat where "HEADER_TAG_START = HEADER_COUNT_END + 1"
definition HEADER_TAG_END :: nat where "HEADER_TAG_END = HEADER_TAG_START + 31"
definition HEADER_SRC_START :: nat where "HEADER_SRC_START = HEADER_TAG_END + 1"
definition HEADER_SRC_END :: nat where "HEADER_SRC_END = HEADER_SRC_START + 31"
definition HEADER_SEQ_START :: nat where "HEADER_SEQ_START = HEADER_SRC_END + 1"
definition HEADER_SEQ_END :: nat where "HEADER_SEQ_END = HEADER_SEQ_START + 31"

lemmas header_fields [range_simps] =
  HEADER_COUNT_START_def HEADER_COUNT_END_def HEADER_TAG_START_def HEADER_TAG_END_def
  HEADER_SRC_START_def HEADER_SRC_END_def HEADER_SEQ_START_def HEADER_SEQ_END_def

text \<open>The header goes into the low 128 bits; the others keep what the uninitialised word held.\<close>

definition put_header :: "512 word \<Rightarrow> u32 \<Rightarrow> u32 \<Rightarrow> u32 \<Rightarrow> u32 \<Rightarrow> 512 word" where
  "put_header w count tag src seq =
     (let w1 = set_range w HEADER_COUNT_END HEADER_COUNT_START count;
          w2 = set_range w1 HEADER_TAG_END HEADER_TAG_START tag;
          w3 = set_range w2 HEADER_SRC_END HEADER_SRC_START src
      in set_range w3 HEADER_SEQ_END HEADER_SEQ_START seq)"

definition header_count :: "512 word \<Rightarrow> u32" where
  "header_count w = get_range w HEADER_COUNT_END HEADER_COUNT_START"

definition header_tag :: "512 word \<Rightarrow> u32" where
  "header_tag w = get_range w HEADER_TAG_END HEADER_TAG_START"

definition header_src :: "512 word \<Rightarrow> u32" where
  "header_src w = get_range w HEADER_SRC_END HEADER_SRC_START"

definition header_seq :: "512 word \<Rightarrow> u32" where
  "header_seq w = get_range w HEADER_SEQ_END HEADER_SEQ_START"

lemma header_read_back [simp]:
  "header_count (put_header w count tag src seq) = count"
  "header_tag (put_header w count tag src seq) = tag"
  "header_src (put_header w count tag src seq) = src"
  "header_seq (put_header w count tag src seq) = seq"
  by (simp_all add: header_count_def header_tag_def header_src_def header_seq_def put_header_def range_simps)

subsection \<open>One payload word\<close>

definition bytes_per_word :: u32 where
  "bytes_per_word = of_nat (DATA_WIDTH div 8)"

lemma bytes_per_word_64 [simp]: "bytes_per_word = 64"
  by (simp add: bytes_per_word_def DATA_WIDTH_def)

text \<open>
  The keep mask, how far the byte count advances, the last flag and the new packet size of a word with
  \<open>left\<close> bytes still to send (compared unsigned, as \<open>bytes_per_word\<close> is unsigned). \<open>tail\<close> is the mask
  of a ragged tail.
\<close>

definition word_frame :: "(u32 \<Rightarrow> 64 word) \<Rightarrow> u32 \<Rightarrow> u32 \<Rightarrow> u32 \<Rightarrow> 64 word \<times> u32 \<times> bool \<times> u32" where
  "word_frame tail max_pktsize left pktsize =
     (let keep = (if left < bytes_per_word then tail left else - 1);
          advance = (if left < bytes_per_word then left else bytes_per_word);
          pktsize' = pktsize + 1
      in if pktsize' = max_pktsize \<or> left \<le> bytes_per_word then (keep, advance, True, 0)
         else (keep, advance, False, pktsize'))"

text \<open>\<open>vnx_packetizer\<close> computes the mask on an \<open>ap_uint<64>\<close>.\<close>

definition vnx_tail :: "u32 \<Rightarrow> 64 word" where
  "vnx_tail left = push_bit (unat left) 1 - 1"

text \<open>
  \<open>tcp_packetizer\<close> computes it as \<open>(1 << bytes_left)-1\<close> on a 32-bit \<open>int\<close>. Beyond a shift of 30 the
  language leaves the value open; it is the parameter \<open>shl\<close>.
\<close>

definition int_shl :: "(u32 \<Rightarrow> u32 \<Rightarrow> u32) \<Rightarrow> u32 \<Rightarrow> u32 \<Rightarrow> u32" where
  "int_shl shl a n = (if n < 31 then push_bit (unat n) a else shl a n)"

definition tcp_tail :: "(u32 \<Rightarrow> u32 \<Rightarrow> u32) \<Rightarrow> u32 \<Rightarrow> 64 word" where
  "tcp_tail shl left = scast (int_shl shl 1 left - 1)"

text \<open>The byte counters of both loops come closer to their bound with every word.\<close>

lemma sint_left:
  fixes p b :: u32
  assumes "p <s b"
  shows "int (unat (b - p)) = sint b - sint p"
proof -
  have "sint p < sint b" using assms by (simp add: word_sless_alt)
  moreover have "- 2147483648 \<le> sint p" using sint_greater_eq [of p] by simp
  moreover have "sint b < 2147483648" using sint_less [of b] by simp
  ultimately have *: "0 \<le> sint b - sint p" "sint b - sint p < 2 ^ 32" by simp_all
  have "b - p = word_of_int (sint b - sint p)" by simp
  from arg_cong [where f = uint, OF this]
  have "uint (b - p) = (sint b - sint p) mod 2 ^ 32" by (simp only: uint_word_of_int) simp
  then have "uint (b - p) = sint b - sint p" using * by simp
  then show ?thesis by simp
qed

lemma loop_measure:
  fixes p b :: u32
  assumes "p <s b" and "(keep, advance, l, k') = word_frame tail m (b - p) k"
  shows "sint p < sint (p + advance)"
proof -
  note left = sint_left [OF assms(1)]
  have less: "sint p < sint b" using assms(1) by (simp add: word_sless_alt)
  show ?thesis
  proof (cases "b - p < 64")
    case True
    then have "advance = b - p" using assms(2) by (simp add: word_frame_def Let_def split: if_splits)
    then show ?thesis using less by simp
  next
    case False
    then have adv: "advance = 64" using assms(2) by (simp add: word_frame_def Let_def split: if_splits)
    have "64 \<le> unat (b - p)" using False by (simp add: word_less_nat_alt)
    then have 1: "sint p + 64 \<le> sint b" using left by linarith
    have "sint b < 2 ^ 31" "- (2 ^ 31) \<le> sint p" using sint_less [of b] sint_greater_eq [of p] by simp_all
    have "p + 64 = word_of_int (sint p + 64)" by simp
    from arg_cong [where f = sint, OF this]
    have "sint (p + 64) = signed_take_bit 31 (sint p + 64)" by (simp only: signed_of_int) simp
    also have "\<dots> = sint p + 64"
      using 1 \<open>sint b < 2 ^ 31\<close> \<open>- (2 ^ 31) \<le> sint p\<close> by (intro signed_take_bit_int_eq_self) simp_all
    finally have "sint (p + 64) = sint p + 64" .
    with 1 adv show ?thesis by simp
  qed
qed

lemma sless_sint: "p <s b \<Longrightarrow> sint p < sint b"
  by (simp add: word_sless_alt)

subsection \<open>Packetizers\<close>

text \<open>
  The loop of \<open>vnx_packetizer\<close>, with \<open>processed\<close> of \<open>bytes_to_process\<close> bytes behind it and \<open>pktsize\<close> words in the
  current packet: the first word carries the header (over whatever \<open>junk\<close> the word held), the others
  the payload.
\<close>

function vnx_packetizer_loop ::
  "512 word \<Rightarrow> u32 \<Rightarrow> u32 \<Rightarrow> u32 \<Rightarrow> u32 \<Rightarrow> u32 \<Rightarrow> u32 \<Rightarrow> u32 \<Rightarrow> u32 \<Rightarrow> u32 \<Rightarrow> axis list \<Rightarrow>
     (axis_dest list \<times> axis list) option" where
  "vnx_packetizer_loop junk destination message_bytes tag src seq max_pktsize bytes_to_process processed pktsize ins =
     (if processed <s bytes_to_process then
        (case (if processed = 0 then Some (put_header junk message_bytes tag src seq, ins)
               else (case take_one ins of None \<Rightarrow> None | Some (w, ins') \<Rightarrow> Some (ax_data w, ins'))) of
           None \<Rightarrow> None
         | Some (d, ins') \<Rightarrow>
             (case word_frame vnx_tail max_pktsize (bytes_to_process - processed) pktsize of (keep, advance, l, pktsize') \<Rightarrow>
               (case vnx_packetizer_loop junk destination message_bytes tag src seq max_pktsize bytes_to_process
                       (processed + advance) pktsize' ins' of
                  None \<Rightarrow> None
                | Some (out, rest) \<Rightarrow>
                    Some (\<lparr>ax_data = d, ax_keep = keep, ax_last = l, ax_dest = ucast destination\<rparr> # out, rest))))
      else Some ([], ins))"
  by pat_completeness auto

termination
  by (relation "measure (\<lambda>(_, _, _, _, _, _, _, bytes_to_process, processed, _, _). nat (sint bytes_to_process - sint processed))")
    (auto intro: loop_measure simp: sless_sint)

declare vnx_packetizer_loop.simps [simp del]

text \<open>A run: the words written, the status words, and what is left of the payload and command streams.\<close>

fun vnx_packetizer :: "512 word \<Rightarrow> u32 \<Rightarrow> axis list \<Rightarrow> u32 list \<Rightarrow>
     (axis_dest list \<times> u32 list \<times> axis list \<times> u32 list) option" where
  "vnx_packetizer junk max_pktsize ins (c0 # message_bytes # message_tag # message_src # message_seq # cmd) =
     (let destination = ucast (get_range c0 15 0 :: u16);
          bytes_to_process = message_bytes + bytes_per_word
      in case vnx_packetizer_loop junk destination message_bytes message_tag message_src message_seq
                max_pktsize bytes_to_process 0 0 ins of
           None \<Rightarrow> None
         | Some (out, ins') \<Rightarrow> Some (out, [message_seq], ins', cmd))"
| "vnx_packetizer junk max_pktsize ins _ = None"

text \<open>The loop of \<open>tcp_packetizer\<close>, which sends the payload only.\<close>

function tcp_packetizer_loop ::
  "(u32 \<Rightarrow> u32 \<Rightarrow> u32) \<Rightarrow> u32 \<Rightarrow> u32 \<Rightarrow> u32 \<Rightarrow> u32 \<Rightarrow> axis list \<Rightarrow> (axis list \<times> axis list) option" where
  "tcp_packetizer_loop shl max_pktsize message_bytes processed pktsize ins =
     (if processed <s message_bytes then
        (case take_one ins of None \<Rightarrow> None
         | Some (w, ins') \<Rightarrow>
             (case word_frame (tcp_tail shl) max_pktsize (message_bytes - processed) pktsize of (keep, advance, l, pktsize') \<Rightarrow>
               (case tcp_packetizer_loop shl max_pktsize message_bytes (processed + advance) pktsize' ins' of
                  None \<Rightarrow> None
                | Some (out, rest) \<Rightarrow>
                    Some (\<lparr>ax_data = ax_data w, ax_keep = keep, ax_last = l\<rparr> # out, rest))))
      else Some ([], ins))"
  by pat_completeness auto

termination
  by (relation "measure (\<lambda>(_, _, bytes_to_process, processed, _, _). nat (sint bytes_to_process - sint processed))")
    (auto intro: loop_measure simp: sless_sint)

declare tcp_packetizer_loop.simps [simp del]

text \<open>
  The header is held back until there is payload on the input, and is not counted in the packet size. A
  run gives the words written, the command for the transmit handler (session, byte count with header,
  packet size), the status words, and what is left of the inputs.
\<close>

definition tx_command :: "u32 \<Rightarrow> u32 \<Rightarrow> u32 \<Rightarrow> 96 word \<Rightarrow> 96 word" where
  "tx_command session bytes_to_process max_pktsize w =
     set_range (set_range (set_range w 31 0 session) 63 32 bytes_to_process) 95 64 max_pktsize"

fun tcp_packetizer :: "(u32 \<Rightarrow> u32 \<Rightarrow> u32) \<Rightarrow> 512 word \<Rightarrow> 96 word \<Rightarrow> u32 \<Rightarrow> axis list \<Rightarrow> u32 list \<Rightarrow>
     (axis list \<times> 96 word \<times> u32 list \<times> axis list \<times> u32 list) option" where
  "tcp_packetizer shl junk junk_cmd max_pktsize ins (c0 # message_bytes # message_tag # message_src # message_seq # cmd) =
     (let session = ucast (get_range c0 15 0 :: u16);
          bytes_to_process = message_bytes + bytes_per_word;
          tx_cmd = tx_command session bytes_to_process max_pktsize junk_cmd;
          header = \<lparr>ax_data = put_header junk message_bytes message_tag message_src message_seq,
                    ax_keep = - 1, ax_last = False\<rparr>
      in if ins = [] then None
         else case tcp_packetizer_loop shl max_pktsize message_bytes 0 0 ins of
           None \<Rightarrow> None
         | Some (out, ins') \<Rightarrow> Some (header # out, tx_cmd, [message_seq], ins', cmd))"
| "tcp_packetizer shl junk junk_cmd max_pktsize ins _ = None"

subsection \<open>Depacketizers\<close>

text \<open>The copy loop, which is the same in both: \<open>count\<close> is a signed byte count.\<close>

lemma depacketizer_measure:
  fixes count :: u32
  assumes "0 <s count"
  shows "sint (count - 64) = sint count - 64"
proof -
  have "count - 64 = word_of_int (sint count - 64)" by simp
  from arg_cong [where f = sint, OF this]
  have "sint (count - 64) = signed_take_bit 31 (sint count - 64)" by (simp only: signed_of_int) simp
  also have "\<dots> = sint count - 64"
    using assms sint_less [of count] by (intro signed_take_bit_int_eq_self) (simp_all add: word_sless_alt)
  finally show ?thesis .
qed

function depacketizer_loop :: "u32 \<Rightarrow> 'a axis_scheme list \<Rightarrow> (axis list \<times> 'a axis_scheme list) option" where
  "depacketizer_loop count ins =
     (if 0 <s count then
        (case take_one ins of None \<Rightarrow> None
         | Some (inword, ins') \<Rightarrow>
             (let count' = count - bytes_per_word in
              case depacketizer_loop count' ins' of None \<Rightarrow> None
              | Some (out, rest) \<Rightarrow>
                  Some (\<lparr>ax_data = ax_data inword, ax_keep = ax_keep inword, ax_last = count' \<le>s 0\<rparr> # out, rest)))
      else Some ([], ins))"
  by pat_completeness auto

termination
  by (relation "measure (\<lambda>(count, _). nat (sint count))")
    (auto simp: depacketizer_measure word_sless_alt)

declare depacketizer_loop.simps [simp del]

text \<open>A run: the words written, the four status words, and what is left of the input.\<close>

fun vnx_depacketizer :: "axis_dest list \<Rightarrow> (axis list \<times> u32 list \<times> axis_dest list) option" where
  "vnx_depacketizer [] = None"
| "vnx_depacketizer (inword # ins) =
     (let count = header_count (ax_data inword);
          tag = header_tag (ax_data inword);
          src = header_src (ax_data inword);
          seq = header_seq (ax_data inword)
      in case depacketizer_loop count ins of None \<Rightarrow> None
         | Some (out, rest) \<Rightarrow> Some (out, [count, tag, src, seq], rest))"

fun tcp_depacketizer :: "axis list \<Rightarrow> (axis list \<times> u32 list \<times> axis list) option" where
  "tcp_depacketizer [] = None"
| "tcp_depacketizer (inword # ins) =
     (let count = header_count (ax_data inword);
          tag = header_tag (ax_data inword);
          src = header_src (ax_data inword);
          seq = header_seq (ax_data inword)
      in case depacketizer_loop count ins of None \<Rightarrow> None
         | Some (out, rest) \<Rightarrow> Some (out, [count, tag, src, seq], rest))"

subsection \<open>What the loops compute\<close>

text \<open>
  The words of \<open>t\<close> bytes from the \<open>k\<close>-th on: the keep mask is full but for a ragged tail, and a packet
  ends after every \<open>m\<close> words (never, for \<open>m = 0\<close>) and with the last byte.
\<close>

definition word_keep :: "(u32 \<Rightarrow> 64 word) \<Rightarrow> nat \<Rightarrow> nat \<Rightarrow> 64 word" where
  "word_keep tail t k = (if t - 64 * k < 64 then tail (of_nat (t - 64 * k)) else - 1)"

definition packet_end :: "nat \<Rightarrow> nat \<Rightarrow> nat \<Rightarrow> bool" where
  "packet_end m t k \<longleftrightarrow> Suc k mod m = 0 \<or> t \<le> 64 * Suc k"

primrec frames :: "(u32 \<Rightarrow> 64 word) \<Rightarrow> nat \<Rightarrow> nat \<Rightarrow> nat \<Rightarrow> 512 word list \<Rightarrow> axis list" where
  "frames tail m t k [] = []"
| "frames tail m t k (d # ds) =
     \<lparr>ax_data = d, ax_keep = word_keep tail t k, ax_last = packet_end m t k\<rparr> # frames tail m t (Suc k) ds"

lemma length_frames [simp]: "length (frames tail m t k ds) = length ds"
  by (induction ds arbitrary: k) simp_all

lemma nth_frames:
  "i < length ds \<Longrightarrow> frames tail m t k ds ! i =
     \<lparr>ax_data = ds ! i, ax_keep = word_keep tail t (k + i), ax_last = packet_end m t (k + i)\<rparr>"
proof (induction ds arbitrary: k i)
  case (Cons d ds)
  then show ?case by (cases i) simp_all
qed simp

lemma data_frames: "map ax_data (frames tail m t k ds) = ds"
  by (induction ds arbitrary: k) simp_all

lemma word_frame_nth:
  assumes "64 * k < t" and "t < 2 ^ 31"
  shows "\<exists>p. word_frame tail m (of_nat t - of_nat (64 * k)) (of_nat (k mod unat m)) =
       (word_keep tail t k, of_nat (min 64 (t - 64 * k)), packet_end (unat m) t k, p) \<and>
     (64 * Suc k < t \<longrightarrow> p = of_nat (Suc k mod unat m))"
proof -
  define left :: u32 where "left = of_nat (t - 64 * k)"
  have eq: "of_nat t - of_nat (64 * k) = left" using assms by (simp add: left_def of_nat_diff)
  have left: "unat left = t - 64 * k"
    unfolding left_def by (rule unat_of_nat_small) (use assms in simp)
  have left64: "t - 64 * k = 64 \<Longrightarrow> left = 64" by (simp only: left_def of_nat_numeral)
  let ?k = "k mod unat m"
  have "Suc k < 2 ^ 32" using assms by simp
  then have k: "Suc ?k < 2 ^ 32" by (rule le_less_trans [rotated]) (simp add: mod_less_eq_dividend)
  have pk: "of_nat ?k + 1 = m \<longleftrightarrow> Suc k mod unat m = 0"
  proof -
    have "of_nat ?k + 1 = m \<longleftrightarrow> unat (of_nat (Suc ?k) :: u32) = unat m"
      by (simp add: ac_simps word_unat_eq_iff)
    also have "\<dots> \<longleftrightarrow> Suc ?k = unat m" by (simp only: unat_of_nat_small [OF k])
    also have "\<dots> \<longleftrightarrow> Suc k mod unat m = 0" by (auto simp: mod_Suc)
    finally show ?thesis .
  qed
  have succ: "of_nat ?k + 1 = (of_nat (Suc k mod unat m) :: u32)" if "Suc k mod unat m \<noteq> 0"
    using that by (simp add: mod_Suc split: if_splits)
  show ?thesis
    unfolding eq using assms(1) pk succ
    by (auto simp: word_frame_def word_keep_def packet_end_def word_less_nat_alt word_le_nat_alt left min_def Let_def
        left64 left_def [symmetric])
qed

lemma of_nat_sless:
  assumes "a < 2 ^ 31" and "b < 2 ^ 31"
  shows "(of_nat a :: u32) <s of_nat b \<longleftrightarrow> a < b"
proof -
  have "sint (of_nat n :: u32) = int n" if "n < 2 ^ 31" for n
    using that signed_take_bit_int_eq_self [of 31 "int n"] by (simp add: signed_of_nat)
  with assms show ?thesis by (simp add: word_sless_alt)
qed

lemma nsegs_step: "64 * k < t \<Longrightarrow> nsegs 64 t - k = Suc (nsegs 64 t - Suc k)"
  using nsegs_iff [of 64 k t] by simp

lemma nsegs_done: "\<not> 64 * k < t \<Longrightarrow> nsegs 64 t - k = 0"
  using nsegs_iff [of 64 k t] by simp

text \<open>One turn of a packetizer loop, at word \<open>k\<close> of \<open>t\<close> bytes.\<close>

lemma frame_step:
  assumes "64 * k < t" and "64 * k < t \<longrightarrow> p = of_nat (k mod unat m)" and "t < 2 ^ 31"
  obtains advance p' where "(of_nat (min (64 * k) t) :: u32) <s of_nat t"
    and "word_frame tail m (of_nat t - of_nat (min (64 * k) t)) p =
       (word_keep tail t k, advance, packet_end (unat m) t k, p')"
    and "of_nat (min (64 * k) t) + advance = (of_nat (min (64 * Suc k) t) :: u32)"
    and "64 * Suc k < t \<longrightarrow> p' = of_nat (Suc k mod unat m)"
proof -
  from assms word_frame_nth [of k t tail m] obtain p'
    where frame: "word_frame tail m (of_nat t - of_nat (64 * k)) p =
       (word_keep tail t k, of_nat (min 64 (t - 64 * k)), packet_end (unat m) t k, p')"
      and p': "64 * Suc k < t \<longrightarrow> p' = of_nat (Suc k mod unat m)" by blast
  have pos: "min (64 * k) t = 64 * k" using assms(1) by simp
  show thesis
  proof (rule that)
    show "(of_nat (min (64 * k) t) :: u32) <s of_nat t"
      using assms by (subst of_nat_sless) simp_all
    show "of_nat (min (64 * k) t) + of_nat (min 64 (t - 64 * k)) = (of_nat (min (64 * Suc k) t) :: u32)"
      unfolding of_nat_add [symmetric] using assms(1) by (intro arg_cong [where f = of_nat]) auto
  qed (use frame p' in \<open>simp_all only: pos\<close>)
qed

lemma frame_stop: "\<not> 64 * k < t \<Longrightarrow> \<not> (of_nat (min (64 * k) t) :: u32) <s of_nat t"
  by (simp add: min_absorb2 word_sless_alt)

lemma tcp_packetizer_loop_frames:
  assumes "length ws = nsegs 64 t - k" and "64 * k < t \<longrightarrow> p = of_nat (k mod unat m)" and "t < 2 ^ 31"
  shows "tcp_packetizer_loop shl m (of_nat t) (of_nat (min (64 * k) t)) p (ws @ rest) =
     Some (frames (tcp_tail shl) (unat m) t k (map ax_data ws), rest)"
  using assms
proof (induction ws arbitrary: k p)
  case Nil
  then have "\<not> 64 * k < t" using nsegs_step [of k t] by auto
  then show ?case by (subst tcp_packetizer_loop.simps) (simp add: frame_stop del: of_nat_min)
next
  case (Cons w ws)
  then have k: "64 * k < t" using nsegs_done [of k t] by (cases "64 * k < t") auto
  from frame_step [OF k Cons.prems(2,3), where tail = "tcp_tail shl"] obtain advance p'
    where step: "(of_nat (min (64 * k) t) :: u32) <s of_nat t"
        "word_frame (tcp_tail shl) m (of_nat t - of_nat (min (64 * k) t)) p =
           (word_keep (tcp_tail shl) t k, advance, packet_end (unat m) t k, p')"
        "of_nat (min (64 * k) t) + advance = (of_nat (min (64 * Suc k) t) :: u32)"
      and p': "64 * Suc k < t \<longrightarrow> p' = of_nat (Suc k mod unat m)" by blast
  have "length ws = nsegs 64 t - Suc k" using Cons.prems(1) nsegs_step [OF k] by simp
  from Cons.IH [OF this p' Cons.prems(3)] show ?case
    by (subst tcp_packetizer_loop.simps) (simp add: step del: of_nat_mult of_nat_min mult_Suc_right)
qed

text \<open>The same for \<open>vnx_packetizer\<close>, whose words also carry the destination.\<close>

definition with_dest :: "u16 \<Rightarrow> axis \<Rightarrow> axis_dest" where
  "with_dest d w = axis.extend w (axis_dest.fields d)"

lemma with_dest_simps [simp]:
  "ax_data (with_dest d w) = ax_data w" "ax_keep (with_dest d w) = ax_keep w"
  "ax_last (with_dest d w) = ax_last w" "ax_dest (with_dest d w) = d"
  by (simp_all add: with_dest_def axis.defs axis_dest.defs)

lemma vnx_packetizer_loop_frames:
  assumes "length ws = nsegs 64 t - k" and "64 * k < t \<longrightarrow> p = of_nat (k mod unat m)" and "t < 2 ^ 31" and "0 < k"
  shows "vnx_packetizer_loop junk d mb tag src seq m (of_nat t) (of_nat (min (64 * k) t)) p (ws @ rest) =
     Some (map (with_dest (ucast d)) (frames vnx_tail (unat m) t k (map ax_data ws)), rest)"
  using assms
proof (induction ws arbitrary: k p)
  case Nil
  then have "\<not> 64 * k < t" using nsegs_step [of k t] by auto
  then show ?case by (subst vnx_packetizer_loop.simps) (simp add: frame_stop del: of_nat_min)
next
  case (Cons w ws)
  then have k: "64 * k < t" using nsegs_done [of k t] by (cases "64 * k < t") auto
  from frame_step [OF k Cons.prems(2,3), where tail = vnx_tail] obtain advance p'
    where step: "(of_nat (min (64 * k) t) :: u32) <s of_nat t"
        "word_frame vnx_tail m (of_nat t - of_nat (min (64 * k) t)) p =
           (word_keep vnx_tail t k, advance, packet_end (unat m) t k, p')"
        "of_nat (min (64 * k) t) + advance = (of_nat (min (64 * Suc k) t) :: u32)"
      and p': "64 * Suc k < t \<longrightarrow> p' = of_nat (Suc k mod unat m)" by blast
  have "unat (of_nat (min (64 * k) t) :: u32) = min (64 * k) t"
    by (rule unat_of_nat_small) (use Cons.prems(3) in auto)
  then have first: "(of_nat (min (64 * k) t) :: u32) \<noteq> 0" using k Cons.prems(4) by (auto simp: unat_eq_0 [symmetric] simp del: unat_eq_0 of_nat_min of_nat_mult)
  have "length ws = nsegs 64 t - Suc k" using Cons.prems(1) nsegs_step [OF k] by simp
  from Cons.IH [OF this p' Cons.prems(3)] show ?case
    by (subst vnx_packetizer_loop.simps)
      (simp add: step first with_dest_def axis.defs axis_dest.defs del: of_nat_mult of_nat_min mult_Suc_right)
qed

lemma last_word: "i < nsegs 64 t \<Longrightarrow> t \<le> 64 * Suc i \<longleftrightarrow> Suc i = nsegs 64 t"
  using nsegs_iff [of 64 "Suc i" t] by auto

subsection \<open>Runs of the packetizers\<close>

lemma header_steps: "nsegs 64 (t + 64) = Suc (nsegs 64 t)"
  by (simp add: nsegs_def)

lemma vnx_packetizer_run:
  assumes "unat mb + 64 < 2 ^ 31" and "length ws = nsegs 64 (unat mb)"
  shows "vnx_packetizer junk m (ws @ rest) (c0 # mb # tag # src # seq # cmd) =
     Some (map (with_dest (get_range c0 15 0))
        (frames vnx_tail (unat m) (unat mb + 64) 0 (put_header junk mb tag src seq # map ax_data ws)), [seq], rest, cmd)"
proof -
  let ?t = "unat mb + 64" and ?d = "ucast (get_range c0 15 0 :: u16) :: u32"
  have t: "mb + bytes_per_word = of_nat ?t" by simp
  have k: "64 * 0 < ?t" by simp
  from frame_step [OF k _ assms(1), where p = 0 and m = m and tail = vnx_tail] obtain advance p'
    where step: "(of_nat (min (64 * 0) ?t) :: u32) <s of_nat ?t"
        "word_frame vnx_tail m (of_nat ?t - of_nat (min (64 * 0) ?t)) 0 =
           (word_keep vnx_tail ?t 0, advance, packet_end (unat m) ?t 0, p')"
        "of_nat (min (64 * 0) ?t) + advance = (of_nat (min (64 * Suc 0) ?t) :: u32)"
      and p': "64 * Suc 0 < ?t \<longrightarrow> p' = of_nat (Suc 0 mod unat m)" by fastforce
  have len: "length ws = nsegs 64 ?t - Suc 0" using assms(2) by (simp add: header_steps)
  have d: "ucast ?d = (get_range c0 15 0 :: u16)" by (rule bit_word_eqI) (simp add: bit_simps)
  show ?thesis
    using vnx_packetizer_loop_frames [OF len p' assms(1), of junk ?d mb tag src seq rest] step
    unfolding vnx_packetizer.simps Let_def t
    by (subst vnx_packetizer_loop.simps)
      (simp add: d with_dest_def axis.defs axis_dest.defs del: of_nat_add)
qed

lemma tcp_packetizer_run:
  assumes "unat mb < 2 ^ 31" and "length ws = nsegs 64 (unat mb)" and "ws @ rest \<noteq> []"
  shows "tcp_packetizer shl junk junk_cmd m (ws @ rest) (c0 # mb # tag # src # seq # cmd) =
     Some (\<lparr>ax_data = put_header junk mb tag src seq, ax_keep = - 1, ax_last = False\<rparr> #
           frames (tcp_tail shl) (unat m) (unat mb) 0 (map ax_data ws),
        tx_command (ucast (get_range c0 15 0 :: u16)) (mb + 64) m junk_cmd, [seq], rest, cmd)"
  using tcp_packetizer_loop_frames [of ws "unat mb" 0 0 m shl rest] assms by (auto simp: Let_def)

text \<open>
  A message length that, with its header, does not fit a signed \<open>int\<close>: nothing is sent, no payload is
  taken, and the message is acknowledged all the same.
\<close>

lemma vnx_packetizer_overflow:
  assumes "2 ^ 31 \<le> unat mb + 64" and "unat mb < 2 ^ 31"
  shows "vnx_packetizer junk m ins (c0 # mb # tag # src # seq # cmd) = Some ([], [seq], ins, cmd)"
proof -
  have "unat (mb + 64) = unat mb + 64" using assms(2) by (simp add: unat_word_ariths)
  with assms have "unat (mb + 64) div 2 ^ 31 = 1" by (intro div_nat_eqI) simp_all
  then have "bit (unat (mb + 64)) 31" by (simp add: bit_iff_odd)
  then have "bit (mb + 64) 31" by (simp only: bit_unsigned_iff)
  then have "sint (mb + 64) < 0" using bit_last_iff [of "mb + 64"] by simp
  then show ?thesis
    by (simp add: Let_def vnx_packetizer_loop.simps word_sless_alt)
qed

subsection \<open>Runs of the depacketizers\<close>

text \<open>The words the receiver gets of \<open>t\<close> bytes: the packet ends are gone but the one at the end.\<close>

primrec unframed :: "nat \<Rightarrow> 'a axis_scheme list \<Rightarrow> axis list" where
  "unframed t [] = []"
| "unframed t (w # ws) = \<lparr>ax_data = ax_data w, ax_keep = ax_keep w, ax_last = t \<le> 64\<rparr> # unframed (t - 64) ws"

lemma depacketizer_loop_unframed:
  assumes "length ws = nsegs 64 t" and "t < 2 ^ 31"
  shows "depacketizer_loop (of_nat t) (ws @ rest) = Some (unframed t ws, rest)"
  using assms
proof (induction ws arbitrary: t)
  case Nil
  then have "t = 0" using nsegs_iff [of 64 0 t] by auto
  then show ?case by (subst depacketizer_loop.simps) simp
next
  case (Cons w ws)
  then have "0 < t" by (cases t) auto
  with Cons.prems(2) have pos: "0 <s (of_nat t :: u32)" using of_nat_sless [of 0 t] by simp
  have len: "length ws = nsegs 64 (t - 64)"
  proof (cases "64 \<le> t")
    case True
    then show ?thesis using Cons.prems(1) header_steps [of "t - 64"] by simp
  next
    case False
    then have "nsegs 64 t = 1" unfolding nsegs_def by (intro div_nat_eqI) (use \<open>0 < t\<close> in simp_all)
    with False Cons.prems(1) show ?thesis by simp
  qed
  show ?case
  proof (cases "64 < t")
    case True
    then have c: "of_nat t - 64 = (of_nat (t - 64) :: u32)" by (simp add: of_nat_diff)
    have "0 <s (of_nat (t - 64) :: u32)" using True Cons.prems(2) of_nat_sless [of 0 "t - 64"] by simp
    then have "\<not> of_nat (t - 64) \<le>s (0 :: u32)" by (simp add: word_sless_alt word_sle_eq)
    with Cons.IH [OF len] Cons.prems(2) pos True c show ?thesis
      by (subst depacketizer_loop.simps) (simp del: of_nat_diff)
  next
    case False
    with len have "ws = []" by simp
    have "sint (of_nat t :: u32) = int t"
      using Cons.prems(2) signed_take_bit_int_eq_self [of 31 "int t"] by (simp add: signed_of_nat)
    with False depacketizer_measure [OF pos] have "sint (of_nat t - 64 :: u32) \<le> 0" by simp
    with pos \<open>ws = []\<close> False show ?thesis
      by (subst depacketizer_loop.simps)
        (simp add: word_sle_eq depacketizer_loop.simps [of "of_nat t - 64"] word_sless_alt)
  qed
qed

lemma unframed_frames:
  "unframed (t - 64 * k) (frames tail m t k ds) = frames tail 0 t k ds"
proof (induction ds arbitrary: k)
  case (Cons d ds)
  have "t - 64 * k - 64 = t - 64 * Suc k" "t - 64 * k \<le> 64 \<longleftrightarrow> t \<le> 64 * Suc k" by auto
  with Cons show ?case by (simp add: packet_end_def del: mult_Suc_right)
qed simp

text \<open>Behind the header of \<open>vnx_packetizer\<close> the words stand one place further on.\<close>

lemma unframed_frames_header:
  "unframed (t - 64 * k) (map (with_dest c) (frames tail m (t + 64) (Suc k) ds)) = frames tail 0 t k ds"
proof (induction ds arbitrary: k)
  case (Cons d ds)
  have "t - 64 * k - 64 = t - 64 * Suc k" "t - 64 * k \<le> 64 \<longleftrightarrow> t \<le> 64 * Suc k" by auto
  with Cons show ?case by (simp add: packet_end_def word_keep_def del: mult_Suc_right) (simp add: algebra_simps)
qed simp

lemma vnx_depacketizer_run:
  assumes "unat mb < 2 ^ 31" and "length ds = nsegs 64 (unat mb)"
  shows "vnx_depacketizer (map (with_dest c) (frames tail m (unat mb + 64) 0 (put_header junk mb tag src seq # ds)) @ rest) =
     Some (frames tail 0 (unat mb) 0 ds, [mb, tag, src, seq], rest)"
  using depacketizer_loop_unframed [of "map (with_dest c) (frames tail m (unat mb + 64) (Suc 0) ds)" "unat mb" rest]
    unframed_frames_header [of "unat mb" 0 c tail m ds] assms by simp

lemma tcp_depacketizer_run:
  assumes "unat mb < 2 ^ 31" and "length ds = nsegs 64 (unat mb)"
  shows "tcp_depacketizer (\<lparr>ax_data = put_header junk mb tag src seq, ax_keep = - 1, ax_last = False\<rparr> #
       frames tail m (unat mb) 0 ds @ rest) = Some (frames tail 0 (unat mb) 0 ds, [mb, tag, src, seq], rest)"
  using depacketizer_loop_unframed [of "frames tail m (unat mb) 0 ds" "unat mb" rest]
    unframed_frames [of "unat mb" 0 tail m ds] assms by simp

subsection \<open>The bytes of a message\<close>

definition word_bytes :: "512 word \<Rightarrow> u8 list" where
  "word_bytes d = map (\<lambda>i. get_range d (8 * i + 7) (8 * i)) [0..<64]"

text \<open>The bytes of a stream word that its mask keeps.\<close>

definition kept_bytes :: "'a axis_scheme \<Rightarrow> u8 list" where
  "kept_bytes w = map (\<lambda>i. get_range (ax_data w) (8 * i + 7) (8 * i)) (filter (bit (ax_keep w)) [0..<64])"

lemma length_word_bytes [simp]: "length (word_bytes d) = 64"
  by (simp add: word_bytes_def)

lemma bit_vnx_tail: "bit (vnx_tail n) i \<longleftrightarrow> i < unat n \<and> i < 64"
proof -
  have "vnx_tail n = mask (unat n)" by (simp add: vnx_tail_def mask_eq_decr_exp push_bit_eq_mult)
  then show ?thesis by (auto simp: bit_mask_iff)
qed

lemma tcp_tail_short: "n < 31 \<Longrightarrow> tcp_tail shl n = vnx_tail n"
proof -
  assume n: "n < 31"
  then have "unat n < 31" by (simp add: word_less_nat_alt)
  moreover have "int_shl shl 1 n - 1 = mask (unat n)"
    using n by (simp add: int_shl_def mask_eq_decr_exp push_bit_eq_mult)
  ultimately show ?thesis
    by (intro bit_word_eqI) (auto simp: tcp_tail_def bit_vnx_tail bit_signed_iff bit_mask_iff min_def)
qed

lemma filter_less_upt: "n \<le> m \<Longrightarrow> filter (\<lambda>i. i < n) [0..<m] = [0..<n]"
  by (induction m) (auto simp: le_Suc_eq)

lemma kept_bytes_nth:
  "kept_bytes \<lparr>ax_data = d, ax_keep = word_keep vnx_tail t k, ax_last = l\<rparr> = take (t - 64 * k) (word_bytes d)"
proof (cases "t - 64 * k < 64")
  case True
  then have "unat (of_nat (t - 64 * k) :: u32) = t - 64 * k" by (intro unat_of_nat_small) simp
  then have "bit (word_keep vnx_tail t k) i \<longleftrightarrow> i < t - 64 * k" if "i < 64" for i
    using True that by (simp add: word_keep_def bit_vnx_tail)
  then have "filter (bit (word_keep vnx_tail t k)) [0..<64] = filter (\<lambda>i. i < t - 64 * k) [0..<64]"
    by (intro filter_cong) simp_all
  also have "\<dots> = [0..<t - 64 * k]" using True by (intro filter_less_upt) simp
  finally have "filter (bit (word_keep vnx_tail t k)) [0..<64] = [0..<t - 64 * k]" .
  then show ?thesis using True by (simp add: kept_bytes_def word_bytes_def take_map)
next
  case False
  then have "filter (bit (word_keep vnx_tail t k)) [0..<64] = [0..<64]"
    by (intro filter_True) (simp add: word_keep_def)
  then show ?thesis using False by (simp add: kept_bytes_def word_bytes_def take_map)
qed

lemma bytes_frames:
  "length ds = nsegs 64 t - k \<Longrightarrow>
     concat (map kept_bytes (frames vnx_tail m t k ds)) = take (t - 64 * k) (concat (map word_bytes ds))"
proof (induction ds arbitrary: k)
  case (Cons d ds)
  then have "64 * k < t" using nsegs_done [of k t] by (cases "64 * k < t") auto
  with Cons nsegs_step [of k t] have "length ds = nsegs 64 t - Suc k" by simp
  moreover have "t - 64 * k - 64 = t - 64 * Suc k" by simp
  ultimately show ?case using Cons.IH [of "Suc k"] by (simp add: kept_bytes_nth del: mult_Suc_right)
qed simp

end
