(* ===== verification/Hls_Links.thy ===== *)
theory Hls_Links
  imports Hls_Packetizer
begin

text \<open>
  Messages from one packetizer to the matching depacketizer: both pairs are links in the sense of
  \<open>Hls_Stream\<close>, so that messages sent back to back arrive one by one, in order, each with its header and
  exactly its bytes.
\<close>

subsection \<open>Messages\<close>

text \<open>The five words of a packetizer command, and the words waiting on the payload stream.\<close>

record message =
  m_dest :: u32
  m_bytes :: u32
  m_tag :: u32
  m_src :: u32
  m_seq :: u32
  m_payload :: "axis list"

definition command :: "message \<Rightarrow> u32 list" where
  "command msg = [m_dest msg, m_bytes msg, m_tag msg, m_src msg, m_seq msg]"

text \<open>A message whose length fits an \<open>int\<close> with its header, and whose payload words are all there.\<close>

definition whole :: "message \<Rightarrow> bool" where
  "whole msg \<longleftrightarrow> unat (m_bytes msg) + 64 < 2 ^ 31 \<and> length (m_payload msg) = nsegs 64 (unat (m_bytes msg))"

text \<open>What the receiver is to get: the status words, the bytes, and the last flag of each word.\<close>

definition delivered :: "message \<Rightarrow> u32 list \<times> u8 list \<times> bool list" where
  "delivered msg =
     ([m_bytes msg, m_tag msg, m_src msg, m_seq msg],
      take (unat (m_bytes msg)) (concat (map (word_bytes \<circ> ax_data) (m_payload msg))),
      map (\<lambda>k. Suc k = length (m_payload msg)) [0..<length (m_payload msg)])"

definition received :: "(axis list \<times> u32 list \<times> 'w list) \<Rightarrow> (u32 list \<times> u8 list \<times> bool list) \<times> 'w list" where
  "received r = (case r of (out, sts, rest) \<Rightarrow> ((sts, concat (map kept_bytes out), map ax_last out), rest))"

definition vnx_send :: "512 word \<Rightarrow> u32 \<Rightarrow> message \<Rightarrow> axis_dest list" where
  "vnx_send junk max_pktsize msg =
     (case vnx_packetizer junk max_pktsize (m_payload msg) (command msg) of
        Some (out, _) \<Rightarrow> out | None \<Rightarrow> [])"

definition vnx_receive :: "axis_dest list \<Rightarrow> ((u32 list \<times> u8 list \<times> bool list) \<times> axis_dest list) option" where
  "vnx_receive ws = map_option received (vnx_depacketizer ws)"

definition tcp_send :: "(u32 \<Rightarrow> u32 \<Rightarrow> u32) \<Rightarrow> 512 word \<Rightarrow> 96 word \<Rightarrow> u32 \<Rightarrow> message \<Rightarrow> axis list" where
  "tcp_send shl junk junk_cmd max_pktsize msg =
     (case tcp_packetizer shl junk junk_cmd max_pktsize (m_payload msg) (command msg) of
        Some (out, _) \<Rightarrow> out | None \<Rightarrow> [])"

definition tcp_receive :: "axis list \<Rightarrow> ((u32 list \<times> u8 list \<times> bool list) \<times> axis list) option" where
  "tcp_receive ws = map_option received (tcp_depacketizer ws)"

text \<open>
  On the TCP side the message must moreover have payload and a ragged tail of at most thirty bytes, for
  which the mask is computed within the range of \<open>int\<close>.
\<close>

definition short_tail :: "message \<Rightarrow> bool" where
  "short_tail msg \<longleftrightarrow> whole msg \<and> m_bytes msg \<noteq> 0 \<and> unat (m_bytes msg) mod 64 \<le> 30"

subsection \<open>Both pairs are links\<close>

lemma last_flags:
  "length ds = nsegs 64 t \<Longrightarrow>
     map ax_last (frames tail 0 t 0 ds) = map (\<lambda>k. Suc k = length ds) [0..<length ds]"
  by (rule nth_equalityI) (simp_all add: nth_frames packet_end_def last_word del: mult_Suc_right)

lemma vnx_send_frames:
  assumes "whole msg"
  shows "vnx_send junk m msg = map (with_dest (get_range (m_dest msg) 15 0))
     (frames vnx_tail (unat m) (unat (m_bytes msg) + 64) 0
       (put_header junk (m_bytes msg) (m_tag msg) (m_src msg) (m_seq msg) # map ax_data (m_payload msg)))"
  using vnx_packetizer_run [of "m_bytes msg" "m_payload msg" junk m "[]"] assms
  by (simp add: vnx_send_def command_def whole_def del: vnx_packetizer.simps frames.simps)

interpretation vnx: link "vnx_send junk m" vnx_receive delivered whole
proof
  fix msg :: message and ws
  assume msg: "whole msg"
  then show "vnx_receive (vnx_send junk m msg @ ws) = Some (delivered msg, ws)"
    using vnx_depacketizer_run [of "m_bytes msg" "map ax_data (m_payload msg)"]
    by (simp add: vnx_send_frames whole_def vnx_receive_def received_def delivered_def bytes_frames last_flags
        del: frames.simps)
qed

text \<open>The masks of a short tail are those of the other packetizer.\<close>

lemma frames_short_tail:
  assumes "t mod 64 \<le> 30" and "length ds = nsegs 64 t - k"
  shows "frames (tcp_tail shl) m t k ds = frames vnx_tail m t k ds"
  using assms(2)
proof (induction ds arbitrary: k)
  case (Cons d ds)
  then have k: "64 * k < t" using nsegs_done [of k t] by (cases "64 * k < t") auto
  with Cons nsegs_step [of k t] have "length ds = nsegs 64 t - Suc k" by simp
  moreover have "tcp_tail shl (of_nat (t - 64 * k)) = vnx_tail (of_nat (t - 64 * k))" if "t - 64 * k < 64"
  proof (rule tcp_tail_short)
    have "t - 64 * k = t mod 64" using k that by (intro sym [OF mod_nat_eqI]) auto
    moreover from this assms(1) that have "unat (of_nat (t - 64 * k) :: u32) = t - 64 * k"
      by (intro unat_of_nat_small) simp
    ultimately show "of_nat (t - 64 * k) < (31 :: u32)"
      using assms(1) by (simp add: word_less_nat_alt del: of_nat_diff)
  qed
  ultimately show ?case using Cons.IH [of "Suc k"] by (simp add: word_keep_def)
qed simp

lemma tcp_send_frames:
  assumes "short_tail msg"
  shows "tcp_send shl junk junk_cmd m msg =
     \<lparr>ax_data = put_header junk (m_bytes msg) (m_tag msg) (m_src msg) (m_seq msg), ax_keep = - 1, ax_last = False\<rparr> #
     frames vnx_tail (unat m) (unat (m_bytes msg)) 0 (map ax_data (m_payload msg))"
proof -
  from assms have len: "length (m_payload msg) = nsegs 64 (unat (m_bytes msg))" and pos: "0 < unat (m_bytes msg)"
    by (auto simp: short_tail_def whole_def unat_gt_0)
  with nsegs_iff [of 64 0 "unat (m_bytes msg)"] have "m_payload msg \<noteq> []" by auto
  with len tcp_packetizer_run [of "m_bytes msg" "m_payload msg" "[]" shl junk junk_cmd m] assms show ?thesis
    by (simp add: tcp_send_def command_def short_tail_def whole_def frames_short_tail del: tcp_packetizer.simps)
qed

interpretation tcp: link "tcp_send shl junk junk_cmd m" tcp_receive delivered short_tail
proof
  fix msg :: message and ws
  assume msg: "short_tail msg"
  then show "tcp_receive (tcp_send shl junk junk_cmd m msg @ ws) = Some (delivered msg, ws)"
    using tcp_depacketizer_run [of "m_bytes msg" "map ax_data (m_payload msg)"]
    by (simp add: tcp_send_frames short_tail_def whole_def tcp_receive_def received_def delivered_def bytes_frames last_flags
        del: tcp_depacketizer.simps)
qed

subsection \<open>Packet sizes\<close>

lemma packets_bounded:
  assumes "0 < m" and "k \<le> n"
  shows "case packets (map (packet_end m t) [k..<n]) of [] \<Rightarrow> True
     | p # ps \<Rightarrow> p \<le> m - k mod m \<and> (\<forall>q \<in> set ps. q \<le> m)"
  using assms(2)
proof (induction k rule: inc_induct)
  case (step k)
  have range: "[k..<n] = k # [Suc k..<n]" using step(2) by (rule upt_conv_Cons)
  have less: "k mod m < m" using assms(1) by simp
  show ?case
  proof (cases "packets (map (packet_end m t) [Suc k..<n])")
    case Nil
    then show ?thesis using less by (simp add: range)
  next
    case (Cons p ps)
    with step.IH have "p \<le> m - Suc k mod m" "\<forall>q \<in> set ps. q \<le> m" by simp_all
    moreover have "Suc k mod m = Suc (k mod m)" if "\<not> packet_end m t k"
      using that by (simp add: packet_end_def mod_Suc split: if_splits)
    ultimately show ?thesis using less Cons by (auto simp: range Suc_diff_Suc)
  qed
qed simp

lemma sum_packets: "sum_list (packets ls) = length ls"
  by (induction ls rule: packets.induct) (auto split: list.splits)

lemma last_with_dest [simp]: "ax_last \<circ> with_dest d = ax_last"
  by (simp add: fun_eq_iff)

lemma flags_frames: "map ax_last (frames tail m t 0 ds) = map (packet_end m t) [0..<length ds]"
  by (rule nth_equalityI) (simp_all add: nth_frames)

lemma packets_vnx_send:
  assumes "whole msg" and "0 < m" and "p \<in> set (packets (map ax_last (vnx_send junk m msg)))"
  shows "p \<le> unat m"
proof -
  let ?ps = "packets (map (packet_end (unat m) (unat (m_bytes msg) + 64)) [0..<Suc (length (m_payload msg))])"
  have "map ax_last (vnx_send junk m msg) = map (packet_end (unat m) (unat (m_bytes msg) + 64)) [0..<Suc (length (m_payload msg))]"
    using flags_frames [of vnx_tail "unat m" "unat (m_bytes msg) + 64" "put_header junk (m_bytes msg) (m_tag msg) (m_src msg) (m_seq msg) # map ax_data (m_payload msg)"]
    by (simp add: vnx_send_frames assms(1) del: frames.simps upt_Suc)
  with assms(3) have "p \<in> set ?ps" by (simp only:)
  moreover have "0 < unat m" using assms(2) by (simp add: word_less_nat_alt)
  from packets_bounded [OF this, of 0 "Suc (length (m_payload msg))" "unat (m_bytes msg) + 64"]
  have "\<forall>q \<in> set ?ps. q \<le> unat m" by (simp del: upt_Suc split: list.splits)
  ultimately show ?thesis by blast
qed

subsection \<open>Properties\<close>

text \<open>An example message: 70 bytes in two words.\<close>

definition two_words :: message where
  "two_words = \<lparr>m_dest = 3, m_bytes = 70, m_tag = 5, m_src = 1, m_seq = 9,
     m_payload = [\<lparr>ax_data = 0x1234, ax_keep = - 1, ax_last = False\<rparr>,
                  \<lparr>ax_data = 0xFF00, ax_keep = 0x3F, ax_last = True\<rparr>]\<rparr>"

text \<open>C3: messages that \<open>vnx_packetizer\<close> sends back to back, at whatever packet size, come out of \<open>vnx_depacketizer\<close> one by
one and in order: each with its length, tag, source and sequence number, exactly its bytes, and the last flag on its last word only;
and the depacketizer takes no word beyond them.\<close>

theorem vnx_link_in_order:
  assumes "list_all whole ms"
  shows "unpack_n vnx_receive (length ms) (pack_all (vnx_send junk max_pktsize) ms @ ws) = Some (map delivered ms, ws)"
  by (rule vnx.unpack_all [OF assms])

lemma two_words_whole: "whole two_words" and two_words_short: "short_tail two_words"
  by (simp_all add: whole_def short_tail_def two_words_def nsegs_def)

theorem vnx_link_in_order_witness:
  "unpack_n vnx_receive 2 (pack_all (vnx_send 0 1) [two_words, two_words] @ []) = Some ([delivered two_words, delivered two_words], [])"
  using vnx_link_in_order [of "[two_words, two_words]" 0 1 "[]"] two_words_whole by (simp add: numeral_2_eq_2)

text \<open>C19: the same for \<open>tcp_packetizer\<close> and \<open>tcp_depacketizer\<close>, for messages with payload whose ragged tail is at most thirty
bytes long.\<close>

theorem tcp_link_in_order:
  assumes "list_all short_tail ms"
  shows "unpack_n tcp_receive (length ms) (pack_all (tcp_send shl junk junk_cmd max_pktsize) ms @ ws) = Some (map delivered ms, ws)"
  by (rule tcp.unpack_all [OF assms])

theorem tcp_link_in_order_witness:
  "unpack_n tcp_receive 2 (pack_all (tcp_send (\<lambda>a n. 0) 0 0 1) [two_words, two_words] @ []) = Some ([delivered two_words, delivered two_words], [])"
  using tcp_link_in_order [of "[two_words, two_words]" "\<lambda>a n. 0" 0 0 1 "[]"] two_words_short by (simp add: numeral_2_eq_2)

text \<open>No packet that \<open>vnx_packetizer\<close> puts on the network, header included, is longer than \<open>max_pktsize\<close> words.\<close>

lemma vnx_packets_within_limit:
  assumes "whole msg" and "0 < max_pktsize"
  shows "\<forall>p \<in> set (packets (map ax_last (vnx_send junk max_pktsize msg))). p \<le> unat max_pktsize"
  using packets_vnx_send [OF assms] by blast

text \<open>A message whose length, header included, does not fit a signed integer is acknowledged by \<open>vnx_packetizer\<close> without
a single word having been sent or taken from its input.\<close>

lemma vnx_length_overflow_acknowledged:
  assumes "2 ^ 31 \<le> unat message_bytes + 64" and "unat message_bytes < 2 ^ 31"
  shows "vnx_packetizer junk max_pktsize ins (dest # message_bytes # tag # src # seq # cmd) = Some ([], [seq], ins, cmd)"
  by (rule vnx_packetizer_overflow [OF assms])

end
