(* ===== verification/Net_Link.thy ===== *)
theory Net_Link
  imports Fw_Messages Hls_Links
begin

text \<open>
  Two firmwares and the message framing between them: the header words that the firmware of one rank puts on the
  packetizer's stream, the words the packetizer sends for them, what the depacketizer of the other rank hands to
  its firmware, and the buffer in which that firmware finds the message.
\<close>

subsection \<open>The messages of a send\<close>

text \<open>One message per segment; \<open>pss\<close> are the payload words that the data mover delivers for each.\<close>

definition segment_message :: "fw_state \<Rightarrow> communicator \<Rightarrow> u32 \<Rightarrow> u32 \<Rightarrow> u32 \<Rightarrow> axis list list \<Rightarrow> nat \<Rightarrow> message" where
  "segment_message s world dst tag len pss k =
     \<lparr>m_dest = pkt_dst world dst s, m_bytes = of_nat (seg (unat (dma_transaction_size s)) (unat len) k), m_tag = tag,
      m_src = local_rank world, m_seq = out_seq world dst s + of_nat k + 1, m_payload = pss ! k\<rparr>"

abbreviation (input) segment_count :: "fw_state \<Rightarrow> u32 \<Rightarrow> nat" where
  "segment_count s len \<equiv> nsegs (unat (dma_transaction_size s)) (unat len)"

definition segment_messages :: "fw_state \<Rightarrow> communicator \<Rightarrow> u32 \<Rightarrow> u32 \<Rightarrow> u32 \<Rightarrow> axis list list \<Rightarrow> message list" where
  "segment_messages s world dst tag len pss = map (segment_message s world dst tag len pss) [0..<segment_count s len]"

lemma segment_messages_headers:
  "message_headers s world dst tag len = concat (map command (segment_messages s world dst tag len pss))"
  by (simp add: message_headers_def segment_messages_def segment_message_def command_def Let_def comp_def)

text \<open>The words the data mover delivers for the segments: just enough for each.\<close>

definition payload_for :: "fw_state \<Rightarrow> u32 \<Rightarrow> axis list list \<Rightarrow> bool" where
  "payload_for s len pss \<longleftrightarrow> map length pss = map (nsegs 64) (segs (unat (dma_transaction_size s)) (unat len))"

lemma segment_message_whole:
  assumes "ready s" and "payload_for s len pss" and "k < segment_count s len"
  shows "whole (segment_message s world dst tag len pss k)"
proof -
  have le: "seg (unat (dma_transaction_size s)) (unat len) k \<le> unat (DMA_MAX_BTT)"
    using seg_le [of "unat (dma_transaction_size s)" "unat len" k] assms(1)
    by (simp add: ready_def word_le_nat_alt)
  then have small: "unat (of_nat (seg (unat (dma_transaction_size s)) (unat len) k) :: u32) = seg (unat (dma_transaction_size s)) (unat len) k"
    by (intro unat_of_nat_small) simp
  have n: "length pss = segment_count s len" using arg_cong [OF assms(2) [unfolded payload_for_def], of length] by simp
  then have "length (pss ! k) = map length pss ! k" using assms(3) by simp
  also have "\<dots> = nsegs 64 (seg (unat (dma_transaction_size s)) (unat len) k)"
    using assms(2,3) by (simp add: payload_for_def segs_def)
  finally show ?thesis using le small by (simp add: whole_def segment_message_def)
qed

lemma segment_messages_arrive:
  assumes "ready s" and "payload_for s len pss"
  shows "unpack_n vnx_receive (segment_count s len) (pack_all (vnx_send junk m) (segment_messages s world dst tag len pss)) =
     Some (map delivered (segment_messages s world dst tag len pss), [])"
proof -
  have "list_all whole (segment_messages s world dst tag len pss)"
    using segment_message_whole [OF assms] by (auto simp: segment_messages_def list_all_iff)
  from vnx.unpack_all [OF this, of junk m "[]"] show ?thesis by (simp add: segment_messages_def)
qed

subsection \<open>The buffer at the other end\<close>

text \<open>A header of the depacketizer, recorded by the receiving firmware, is one that \<open>recv\<close> finds.\<close>

lemma delivered_header_found:
  assumes "rx_inv t" and "stream_in t dma = (0, sts) # ws" and "dma \<noteq> net"
    and "dma_tag_lookup t ! unat (sts AND 0xF) = i" and "i \<noteq> - 1" and "status_ok sts (m_bytes msg) (sts AND 0xF) True"
    and "length ds = 4" and "stream_in t net = zip ds (fst (delivered msg)) @ ws'" and "nb = mem t RX_BUFFER_COUNT_OFFSET"
  shows "\<exists>t'. dequeue_one dma net nb t = Some (Ret (), t') \<and> buffer_addr t' i = buffer_addr t i \<and>
     rx_match i (m_src msg) (m_bytes msg) (m_tag msg) (m_seq msg) t' = Some (Ret True, t')"
proof -
  from assms(7) obtain d0 d1 d2 d3 where "ds = [d0, d1, d2, d3]" by (auto simp: numeral_eq_Suc length_Suc_conv)
  with assms(8) have "stream_in t net = (d0, m_bytes msg) # (d1, m_tag msg) # (d2, m_src msg) # (d3, m_seq msg) # ws'"
    by (simp add: delivered_def)
  from dequeue_one_records_header [OF assms(1-3) this assms(4-6,9)] obtain t' where
    t': "dequeue_one dma net nb t = Some (Ret (), t')" "nbufs t' = nbufs t" "unat i < nbufs t" "bufv t' i Status = STATUS_RESERVED"
      "header_of t' i = [m_bytes msg, m_tag msg, m_src msg, m_seq msg]" "\<forall>f. f \<in> {Addrl, Addrh, Max_len} \<longrightarrow> bufv t' i f = bufv t i f"
    by (auto simp: header_of_def)
  have "buffer_addr t' i = buffer_addr t i" using t'(6) by (simp add: buffer_addr_def)
  moreover have "holds t' i (m_src msg) (m_bytes msg) (m_tag msg) (m_seq msg)" using t'(2-5) by (simp add: holds_def)
  ultimately show ?thesis using t'(1-3) rx_match_run [of i t'] by auto
qed

subsection \<open>Properties\<close>

text \<open>C17: From \<open>send\<close> on one rank to a receive buffer on another.  The words that \<open>send\<close> puts on the packetizer's stream are the
commands of one message per segment; \<open>vnx_packetizer\<close> and \<open>vnx_depacketizer\<close>, connected back to back, deliver these messages one by one with
exactly the bytes the data mover read; and the status words of the \<open>k\<close>-th, when the receiving firmware takes them for a buffer that has
been filled, mark it as the buffer that \<open>recv\<close> looks for: from the sender's rank, of the segment's length, with the tag of the
send, and with the \<open>k\<close>-th of the sequence numbers behind the outbound one.\<close>

theorem message_reaches_buffer:
  assumes "ready s" and "comm < 0x1FF8" and "mem s (comm + 4) < mem s comm" and "use_tcp s = 0"
    and "world = \<lparr>size' = mem s comm, local_rank = mem s (comm + 4), ranks = comm + 8\<rparr>" and "rank_in_exchmem world dst"
    and "payload_for s len pss" and "k < segment_count s len" and "n = of_nat (seg (unat (dma_transaction_size s)) (unat len) k)"
    and "unpack_n vnx_receive (segment_count s len) (pack_all (vnx_send junk m) (segment_messages s world dst tag len pss)) = Some (got, [])"
    and "rx_inv t" and "stream_in t dma = (0, sts) # ws" and "dma \<noteq> net"
    and "dma_tag_lookup t ! unat (sts AND 0xF) = i" and "i \<noteq> - 1" and "status_ok sts n (sts AND 0xF) True"
    and "length ds = 4" and "stream_in t net = zip ds (fst (got ! k)) @ ws'" and "nb = mem t RX_BUFFER_COUNT_OFFSET"
  shows "ends (send comm len tag dst buf) s
       (\<lambda>r s'. words_on CMD_UDP_TX (trace s') = words_on CMD_UDP_TX (trace s) @ concat (map command (segment_messages s world dst tag len pss)) \<and>
          accessed CMD_DMA1_RX (drop (length (trace s)) (trace s')) = buffer buf len)
       (\<lambda>c s'. c \<noteq> 0) \<and>
     fst (snd (got ! k)) = take (unat n) (concat (map (word_bytes \<circ> ax_data) (pss ! k))) \<and>
     (\<exists>t'. dequeue_one dma net nb t = Some (Ret (), t') \<and> buffer_addr t' i = buffer_addr t i \<and>
        rx_match i (local_rank world) n tag (out_seq world dst s + of_nat k + 1) t' = Some (Ret True, t'))"
proof (intro conjI)
  let ?msg = "segment_message s world dst tag len pss k"
  have "got = map delivered (segment_messages s world dst tag len pss)"
    using segment_messages_arrive [OF assms(1,7), of junk m world dst tag] assms(10) by simp
  then have got: "got ! k = delivered ?msg" using assms(8) by (simp add: segment_messages_def)
  show "ends (send comm len tag dst buf) s
       (\<lambda>r s'. words_on CMD_UDP_TX (trace s') = words_on CMD_UDP_TX (trace s) @ concat (map command (segment_messages s world dst tag len pss)) \<and>
          accessed CMD_DMA1_RX (drop (length (trace s)) (trace s')) = buffer buf len)
       (\<lambda>c s'. c \<noteq> 0)"
    by (rule ends_weaken [OF send_ends [OF assms(1-3,5,6)]])
      (auto simp: assms(4) pkt_net_def segment_messages_headers [symmetric], auto simp: dma_error_def pkt_error_def)
  show "fst (snd (got ! k)) = take (unat n) (concat (map (word_bytes \<circ> ax_data) (pss ! k)))"
    by (simp add: got delivered_def segment_message_def assms(9))
  show "\<exists>t'. dequeue_one dma net nb t = Some (Ret (), t') \<and> buffer_addr t' i = buffer_addr t i \<and>
        rx_match i (local_rank world) n tag (out_seq world dst s + of_nat k + 1) t' = Some (Ret True, t')"
    using delivered_header_found [OF assms(11-15) _ assms(17) _ assms(19), of ?msg ws'] assms(16,18)
    by (simp add: got) (simp add: segment_message_def assms(9))
qed

text \<open>For the example: rank 2 of three sends one word of 64 bytes to rank 1.\<close>

definition sender :: fw_state where
  "sender = quiet\<lparr>mem := (\<lambda>_. 0)(0x1100 := 3, 0x1104 := 2)\<rparr>"

abbreviation (input) trio :: communicator where
  "trio \<equiv> \<lparr>size' = 3, local_rank = 2, ranks = 0x1108\<rparr>"

definition one_word :: "axis list list" where
  "one_word = [[\<lparr>ax_data = 0x1234, ax_keep = - 1, ax_last = True\<rparr>]]"

theorem message_reaches_buffer_witness:
  "\<exists>got t'. unpack_n vnx_receive 1 (pack_all (vnx_send 0 1) (segment_messages sender trio 1 7 64 one_word)) = Some (got, []) \<and>
     fst (snd (got ! 0)) = take 64 (word_bytes 0x1234) \<and>
     dequeue_one STS_DMA0_TX STS_UDP_RX 3 arriving = Some (Ret (), t') \<and> rx_match 1 2 64 7 1 t' = Some (Ret True, t')"
proof -
  have one: "segment_count sender 64 = 1" by (simp add: sender_def nsegs_def)
  have seg: "seg (unat (dma_transaction_size sender)) (unat (64 :: u32)) 0 = 64" by (simp add: sender_def seg_def)
  have ready: "ready sender" by (simp add: sender_def ready_def)
  have size: "mem sender (0x1100 + 4) < mem sender 0x1100" by (simp add: sender_def)
  have world: "trio = \<lparr>size' = mem sender 0x1100, local_rank = mem sender (0x1100 + 4), ranks = 0x1100 + 8\<rparr>" by (simp add: sender_def)
  have rank: "rank_in_exchmem trio 1" by (simp add: rank_in_exchmem_iff rank_addr_def field_offset_def)
  have pay: "payload_for sender 64 one_word"
    by (simp add: payload_for_def segs_def sender_def nsegs_def seg_def one_word_def)
  have udp: "use_tcp sender = 0" by (simp add: sender_def)
  have n: "64 = (of_nat (seg (unat (dma_transaction_size sender)) (unat (64 :: u32)) 0) :: u32)" unfolding seg by simp
  let ?ms = "segment_messages sender trio 1 7 64 one_word"
  let ?got = "map delivered ?ms"
  have got: "unpack_n vnx_receive (segment_count sender 64) (pack_all (vnx_send 0 1) ?ms) = Some (?got, [])"
    by (rule segment_messages_arrive [OF ready pay])
  have hd: "fst (?got ! 0) = [64, 7, 2, 1]"
    using one seg by (simp add: segment_messages_def segment_message_def delivered_def out_seq_def rank_addr_def field_offset_def)
      (simp add: sender_def)
  have four: "replicate 4 (0 :: nat) = [0, 0, 0, 0]" by (simp add: numeral_eq_Suc)
  have st: "stream_in arriving STS_DMA0_TX = (0, 0x80004084) # []"
    "stream_in arriving STS_UDP_RX = zip (replicate 4 0) (fst (?got ! 0)) @ []"
    unfolding hd four by (simp_all add: arriving_def)
  have tag: "dma_tag_lookup arriving ! unat (0x80004084 AND 0xF :: u32) = 1"
    by (simp add: arriving_def enqueued_def three_buffers_def)
  have ok: "status_ok 0x80004084 64 (0x80004084 AND 0xF) True" by code_simp
  have nb: "3 = mem arriving RX_BUFFER_COUNT_OFFSET"
    by (simp add: arriving_def enqueued_def three_buffers_def buf_addr_def rx_offset_def)
  have seq: "out_seq trio 1 sender + of_nat 0 + 1 = 1" by (simp add: out_seq_def sender_def rank_addr_def field_offset_def)
  show ?thesis
    using message_reaches_buffer [OF ready _ size udp world rank pay _ n got arriving_inv st(1) _ tag _ ok _ st(2) nb, of 0] got
    unfolding one seq by (simp add: one_word_def) blast
qed

end
