(* ===== verification/Hls_Tx.thy ===== *)
theory Hls_Tx
  imports Hls_Links "HOL-Library.Sublist"
begin

text \<open>
  \<open>tcp_txHandler.cpp\<close>: for each command (session, byte count, packet size) it asks the TCP stack for room,
  one packet at a time, and copies the words of the message into packets. Comparisons that the source
  does on wide \<open>ap_int\<close> intermediates are comparisons of naturals; assignments cut to the width of the
  variable.
\<close>

subsection \<open>The kernel\<close>

datatype txHandlerStateType = WAIT_CMD | WAIT_FIRST_DATA | CHECK_REQ | WRITE_PKG

record tx_handler =
  txHandlerState :: txHandlerStateType
  sessionID :: u32
  expectedTxByteCnt :: u32
  maxPkgWord :: u32
  tx_length :: u16
  remaining_space :: u16
  tx_error :: u8
  currentPkgWord :: u32
  wordCnt :: u32
  sentByteCnt :: u32
  s_data_in :: "axis stream"
  cmd_txHandler :: "96 word stream"
  m_axis_tcp_tx_meta :: "u32 stream"
  m_axis_tcp_tx_data :: "axis stream"
  s_axis_tcp_tx_status :: "u64 stream"

text \<open>A request for room: session and length, sixteen bits each.\<close>

definition tx_meta :: "u32 \<Rightarrow> u32 \<Rightarrow> u32" where
  "tx_meta session len = set_range (set_range 0 15 0 session) 31 16 len"

definition tx_wait_cmd :: "tx_handler \<Rightarrow> tx_handler" where
  "tx_wait_cmd s =
     (if is_empty (cmd_txHandler s) then s
      else let cmd = front (cmd_txHandler s) in
        s\<lparr>cmd_txHandler := pop (cmd_txHandler s),
          sessionID := get_range cmd 31 0, expectedTxByteCnt := get_range cmd 63 32,
          maxPkgWord := get_range cmd 95 64, txHandlerState := WAIT_FIRST_DATA\<rparr>)"

definition tx_wait_first_data :: "tx_handler \<Rightarrow> tx_handler" where
  "tx_wait_first_data s =
     (if is_empty (s_data_in s) then s
      else let len = (if unat (maxPkgWord s) * 64 > unat (expectedTxByteCnt s) then expectedTxByteCnt s
                      else maxPkgWord s * 64) in
        s\<lparr>m_axis_tcp_tx_meta := push (tx_meta (sessionID s) len) (m_axis_tcp_tx_meta s),
          txHandlerState := CHECK_REQ\<rparr>)"

text \<open>The answer of the stack: session, length, remaining space and error.\<close>

definition tx_status_read :: "tx_handler \<Rightarrow> tx_handler" where
  "tx_status_read s =
     (let txStatus = front (s_axis_tcp_tx_status s);
          len = get_range txStatus 31 16 :: u16
      in s\<lparr>s_axis_tcp_tx_status := pop (s_axis_tcp_tx_status s),
           sessionID := get_range txStatus 15 0, tx_length := len,
           remaining_space := get_range txStatus 61 32, tx_error := get_range txStatus 63 62,
           currentPkgWord := drop_bit 6 (ucast len + 64 - 1)\<rparr>)"

definition tx_check_req :: "tx_handler \<Rightarrow> tx_handler" where
  "tx_check_req s0 =
     (if is_empty (s_axis_tcp_tx_status s0) then s0
      else let s = tx_status_read s0 in
        (if tx_error s = 0 then
           (let sent = sentByteCnt s + ucast (tx_length s);
                len = (if unat sent + unat (maxPkgWord s) * 64 < unat (expectedTxByteCnt s) then maxPkgWord s * 64
                       else expectedTxByteCnt s - sent)
            in s\<lparr>sentByteCnt := sent,
                 m_axis_tcp_tx_meta := (if sent < expectedTxByteCnt s
                   then push (tx_meta (sessionID s) len) (m_axis_tcp_tx_meta s) else m_axis_tcp_tx_meta s),
                 txHandlerState := WRITE_PKG\<rparr>)
         else if tx_error s = 1 then s
         else s\<lparr>m_axis_tcp_tx_meta := push (tx_meta (sessionID s) (ucast (tx_length s))) (m_axis_tcp_tx_meta s)\<rparr>))"

text \<open>The read of the data word blocks, so a call on an empty stream has not happened yet.\<close>

definition tx_write_pkg :: "tx_handler \<Rightarrow> tx_handler" where
  "tx_write_pkg s =
     (if is_empty (s_data_in s) then s
      else let cnt = wordCnt s + 1;
               currWord = front (s_data_in s);
               currPkt = currWord\<lparr>ax_last := (cnt = currentPkgWord s)\<rparr>;
               s' = s\<lparr>s_data_in := pop (s_data_in s), m_axis_tcp_tx_data := push currPkt (m_axis_tcp_tx_data s),
                      wordCnt := cnt\<rparr>
        in if cnt = currentPkgWord s then
             (if sentByteCnt s \<ge> expectedTxByteCnt s
              then s'\<lparr>wordCnt := 0, sentByteCnt := 0, currentPkgWord := 0, txHandlerState := WAIT_CMD\<rparr>
              else s'\<lparr>wordCnt := 0, txHandlerState := CHECK_REQ\<rparr>)
           else s')"

definition tcp_txHandler :: "tx_handler \<Rightarrow> tx_handler" where
  "tcp_txHandler s =
     (case txHandlerState s of
        WAIT_CMD \<Rightarrow> tx_wait_cmd s
      | WAIT_FIRST_DATA \<Rightarrow> tx_wait_first_data s
      | CHECK_REQ \<Rightarrow> tx_check_req s
      | WRITE_PKG \<Rightarrow> tx_write_pkg s)"

definition tx_init :: "tx_handler \<Rightarrow> bool" where
  "tx_init s \<longleftrightarrow> txHandlerState s = WAIT_CMD \<and> currentPkgWord s = 0 \<and> wordCnt s = 0 \<and> sentByteCnt s = 0 \<and>
     s_data_in s = no_data \<and> cmd_txHandler s = no_data \<and> m_axis_tcp_tx_meta s = no_data \<and>
     m_axis_tcp_tx_data s = no_data \<and> s_axis_tcp_tx_status s = no_data"

subsection \<open>With a TCP stack that keeps the connection\<close>

definition cmd_bytes :: "96 word \<Rightarrow> nat" where
  "cmd_bytes c = unat (get_range c 63 32 :: u32)"

definition cmd_packet_words :: "96 word \<Rightarrow> nat" where
  "cmd_packet_words c = unat (get_range c 95 64 :: u32)"

text \<open>Commands whose lengths can be asked for: not empty, with packets that fit the 16-bit length field.\<close>

definition good_command :: "96 word \<Rightarrow> bool" where
  "good_command c \<longleftrightarrow> 0 < cmd_bytes c \<and> 0 < cmd_packet_words c \<and> 64 * cmd_packet_words c < 2 ^ 16"

definition answers :: "u64 \<Rightarrow> u32 \<Rightarrow> bool" where
  "answers st m \<longleftrightarrow> (get_range st 15 0 :: u16) = get_range m 15 0 \<and>
     (get_range st 31 16 :: u16) = get_range m 31 16 \<and> (get_range st 63 62 :: u8) \<noteq> 1"

text \<open>
  The kernel is called; commands and data arrive; the stack answers a request, granting it or refusing it
  for the time being, with the length asked for; the stack takes data.
\<close>

inductive tx_step :: "tx_handler \<Rightarrow> tx_handler \<Rightarrow> bool" where
  tx_call: "tx_step s (tcp_txHandler s)"
| tx_cmd: "good_command c \<Longrightarrow> tx_step s (s\<lparr>cmd_txHandler := push c (cmd_txHandler s)\<rparr>)"
| tx_data: "tx_step s (s\<lparr>s_data_in := push w (s_data_in s)\<rparr>)"
| tx_answer: "\<lbrakk> waiting (m_axis_tcp_tx_meta s) = m # ms; answers st m \<rbrakk> \<Longrightarrow>
    tx_step s (s\<lparr>m_axis_tcp_tx_meta := pop (m_axis_tcp_tx_meta s),
                 s_axis_tcp_tx_status := push st (s_axis_tcp_tx_status s)\<rparr>)"
| tx_taken: "tx_step s (s\<lparr>m_axis_tcp_tx_data := pop (m_axis_tcp_tx_data s)\<rparr>)"

inductive_cases tx_stepE: "tx_step s s'"

text \<open>The last flags of the words of one command: a packet ends after \<open>cmd_packet_words\<close> words and with the message.\<close>

definition cmd_flags :: "96 word \<Rightarrow> bool list" where
  "cmd_flags c = map (packet_end (cmd_packet_words c) (cmd_bytes c)) [0..<nsegs 64 (cmd_bytes c)]"

text \<open>The request or answer on its way for \<open>n\<close> bytes; none for \<open>n = 0\<close>.\<close>

definition in_flight :: "tx_handler \<Rightarrow> nat \<Rightarrow> bool" where
  "in_flight s n \<longleftrightarrow>
     (if n = 0 then waiting (m_axis_tcp_tx_meta s) = [] \<and> waiting (s_axis_tcp_tx_status s) = []
      else (\<exists>m. waiting (m_axis_tcp_tx_meta s) = [m] \<and> waiting (s_axis_tcp_tx_status s) = [] \<and>
              unat (get_range m 31 16 :: u16) = n) \<or>
           (\<exists>st. waiting (m_axis_tcp_tx_meta s) = [] \<and> waiting (s_axis_tcp_tx_status s) = [st] \<and>
              unat (get_range st 31 16 :: u16) = n \<and> (get_range st 63 62 :: u8) \<noteq> 1))"

text \<open>
  Inside a command \<open>c\<close>, with \<open>j\<close> of its words written: the registers hold the command, \<open>start\<close> is where the
  packet being asked for or written starts, and the request on its way is for the packet after what the stack has granted.
\<close>

definition tx_within :: "tx_handler \<Rightarrow> 96 word \<Rightarrow> nat \<Rightarrow> bool" where
  "tx_within s c j \<longleftrightarrow>
     (let p = 64 * cmd_packet_words c; e = cmd_bytes c in
      good_command c \<and> unat (expectedTxByteCnt s) = e \<and> unat (maxPkgWord s) = cmd_packet_words c \<and>
      in_flight s (if txHandlerState s = WAIT_FIRST_DATA then 0 else min p (e - unat (sentByteCnt s))) \<and>
      (case txHandlerState s of
         WAIT_CMD \<Rightarrow> False
       | WAIT_FIRST_DATA \<Rightarrow> j = 0 \<and> wordCnt s = 0 \<and> sentByteCnt s = 0
       | CHECK_REQ \<Rightarrow> wordCnt s = 0 \<and> p dvd unat (sentByteCnt s) \<and> unat (sentByteCnt s) < e \<and> 64 * j = unat (sentByteCnt s)
       | WRITE_PKG \<Rightarrow> (\<exists>start. p dvd start \<and> start < e \<and> unat (sentByteCnt s) = start + min p (e - start) \<and>
            unat (currentPkgWord s) = nsegs 64 (min p (e - start)) \<and> unat (wordCnt s) < unat (currentPkgWord s) \<and>
            64 * j = start + 64 * unat (wordCnt s))))"

definition tx_idle :: "tx_handler \<Rightarrow> bool" where
  "tx_idle s \<longleftrightarrow> txHandlerState s = WAIT_CMD \<and> wordCnt s = 0 \<and> sentByteCnt s = 0 \<and> in_flight s 0"

text \<open>The words copied so far are those taken, and their packets are those of the commands.\<close>

definition tx_inv :: "tx_handler \<Rightarrow> bool" where
  "tx_inv s \<longleftrightarrow>
     list_all good_command (waiting (cmd_txHandler s)) \<and>
     map (ax_last_update (\<lambda>_. True)) (written (m_axis_tcp_tx_data s)) =
       map (ax_last_update (\<lambda>_. True)) (consumed (s_data_in s)) \<and>
     (tx_idle s \<and> map ax_last (written (m_axis_tcp_tx_data s)) = concat (map cmd_flags (consumed (cmd_txHandler s))) \<or>
      (\<exists>cs c j. consumed (cmd_txHandler s) = cs @ [c] \<and> tx_within s c j \<and>
         map ax_last (written (m_axis_tcp_tx_data s)) = concat (map cmd_flags cs) @ take j (cmd_flags c)))"

subsection \<open>The handler keeps the account\<close>

lemma meta_length:
  assumes "unat len < 2 ^ 16"
  shows "unat (get_range (tx_meta session len) 31 16 :: u16) = unat len"
proof -
  have "(get_range (tx_meta session len) 31 16 :: u16) = ucast len"
    by (rule bit_word_eqI) (auto simp: tx_meta_def bit_get_range bit_set_range bit_simps)
  then show ?thesis using assms by (simp add: unsigned_ucast_eq take_bit_nat_eq_self)
qed

lemma packet_account:
  assumes "0 < m" and "64 * m dvd start" and "start < e" and "w < nsegs 64 (min (64 * m) (e - start))"
    and "64 * j = start + 64 * w"
  shows packet_account_end: "packet_end m e j \<longleftrightarrow> Suc w = nsegs 64 (min (64 * m) (e - start))"
    and packet_account_word: "j < nsegs 64 e"
    and packet_account_full: "Suc w = nsegs 64 (min (64 * m) (e - start)) \<Longrightarrow> start + 64 * m \<le> e \<Longrightarrow> Suc w = m"
    and packet_account_last: "Suc w = nsegs 64 (min (64 * m) (e - start)) \<Longrightarrow> e \<le> start + 64 * m \<Longrightarrow> Suc j = nsegs 64 e"
proof -
  let ?n = "min (64 * m) (e - start)"
  obtain q where q: "start = 64 * m * q" using assms(2) by (auto simp: dvd_def)
  have j: "j = m * q + w" using assms(5) q by simp
  have w: "64 * w < ?n" using assms(4) nsegs_iff [of 64 w ?n] by simp
  then have "w < m" by simp
  have last: "?n \<le> 64 * Suc w \<longleftrightarrow> Suc w = nsegs 64 ?n" by (rule last_word [OF assms(4)])
  have mods: "Suc j mod m = 0 \<longleftrightarrow> Suc w = m"
  proof -
    have "Suc j mod m = Suc w mod m" unfolding j by (metis add_Suc_right add.commute mod_mult_self2)
    then show ?thesis using \<open>w < m\<close> by (cases "Suc w = m") (simp_all add: mod_less)
  qed
  have ends: "e \<le> 64 * Suc j \<longleftrightarrow> e - start \<le> 64 * Suc w" using assms(3,5) by auto
  show "packet_end m e j \<longleftrightarrow> Suc w = nsegs 64 ?n"
    unfolding packet_end_def mods ends last [symmetric] using \<open>w < m\<close> by (auto simp: min_def)
  have "64 * w < e - start" using w by simp
  then have "64 * j < e" using assms(5) by linarith
  then show j_in: "j < nsegs 64 e" using nsegs_iff [of 64 j e] by simp
  show "Suc w = m" if "Suc w = nsegs 64 ?n" "start + 64 * m \<le> e"
    using last that \<open>w < m\<close> by (auto simp: min_def split: if_splits)
  show "Suc j = nsegs 64 e" if "Suc w = nsegs 64 ?n" "e \<le> start + 64 * m"
    using last that ends last_word [OF j_in] by (auto simp: min_def split: if_splits)
qed

lemma packet_words:
  fixes len :: u16
  shows "unat (drop_bit 6 (ucast len + 64 - 1 :: u32)) = nsegs 64 (unat len)"
proof -
  have "unat len < 2 ^ LENGTH(16)" by (rule unsigned_less)
  then have "unat (of_nat (unat len + 63) :: u32) = unat len + 63" by (intro unat_of_nat_small) simp
  moreover have "ucast len + 64 - 1 = (of_nat (unat len + 63) :: u32)" by simp
  ultimately have "unat (ucast len + 64 - 1 :: u32) = unat len + 63" by (simp only:)
  moreover have "unat (drop_bit 6 x) = unat x div 64" for x :: u32
    by (simp add: drop_bit_eq_div unat_div)
  ultimately show ?thesis by (simp only: nsegs_def)
qed

lemma length_cmd_flags [simp]: "length (cmd_flags c) = nsegs 64 (cmd_bytes c)"
  by (simp add: cmd_flags_def)

lemma nth_cmd_flags [simp]:
  "j < nsegs 64 (cmd_bytes c) \<Longrightarrow> cmd_flags c ! j = packet_end (cmd_packet_words c) (cmd_bytes c) j"
  by (simp add: cmd_flags_def)

text \<open>The invariant inside a command, for the steps of the handler that start or stay within one.\<close>

lemma tx_invI:
  assumes "list_all good_command (waiting (cmd_txHandler s))"
    and "map (ax_last_update (\<lambda>_. True)) (written (m_axis_tcp_tx_data s)) =
       map (ax_last_update (\<lambda>_. True)) (consumed (s_data_in s))"
    and "consumed (cmd_txHandler s) = cs @ [c]" and "tx_within s c j"
    and "map ax_last (written (m_axis_tcp_tx_data s)) = concat (map cmd_flags cs) @ take j (cmd_flags c)"
  shows "tx_inv s"
  using assms unfolding tx_inv_def by blast

lemma tx_wait_cmd_inv:
  assumes "tx_inv s" and "txHandlerState s = WAIT_CMD"
  shows "tx_inv (tx_wait_cmd s)"
proof (cases "waiting (cmd_txHandler s)")
  case Nil
  then show ?thesis using assms by (simp add: tx_wait_cmd_def)
next
  case (Cons c rest)
  from assms have "tx_idle s" "list_all good_command (c # rest)"
      "map ax_last (written (m_axis_tcp_tx_data s)) = concat (map cmd_flags (consumed (cmd_txHandler s)))"
    by (auto simp: tx_inv_def tx_within_def Cons Let_def)
  moreover from this have "tx_within (tx_wait_cmd s) c 0"
    by (simp add: tx_within_def tx_wait_cmd_def Cons Let_def cmd_bytes_def cmd_packet_words_def tx_idle_def in_flight_def)
  ultimately show ?thesis
    using assms(1) by (intro tx_invI [where cs = "consumed (cmd_txHandler s)" and c = c and j = 0])
      (simp_all add: tx_wait_cmd_def Cons Let_def tx_inv_def)
qed

lemma within_of_state:
  assumes "tx_inv s" and "txHandlerState s \<noteq> WAIT_CMD"
  obtains cs c j where "consumed (cmd_txHandler s) = cs @ [c]" and "tx_within s c j"
    and "map ax_last (written (m_axis_tcp_tx_data s)) = concat (map cmd_flags cs) @ take j (cmd_flags c)"
  using assms by (auto simp: tx_inv_def tx_idle_def)

lemma tx_wait_first_data_inv:
  assumes "tx_inv s" and "txHandlerState s = WAIT_FIRST_DATA"
  shows "tx_inv (tx_wait_first_data s)"
proof (cases "waiting (s_data_in s)")
  case Nil
  then show ?thesis using assms by (simp add: tx_wait_first_data_def)
next
  case (Cons w ws)
  from assms obtain cs c j where c: "consumed (cmd_txHandler s) = cs @ [c]" and within: "tx_within s c j"
    and flags: "map ax_last (written (m_axis_tcp_tx_data s)) = concat (map cmd_flags cs) @ take j (cmd_flags c)"
    by (auto elim: within_of_state)
  let ?p = "64 * cmd_packet_words c" and ?e = "cmd_bytes c"
  define len :: u32 where "len = (if unat (maxPkgWord s) * 64 > unat (expectedTxByteCnt s) then expectedTxByteCnt s else maxPkgWord s * 64)"
  from within assms(2) have good: "good_command c" and e: "unat (expectedTxByteCnt s) = ?e"
    and m: "unat (maxPkgWord s) = cmd_packet_words c" and fl: "in_flight s 0"
    and j: "j = 0" "wordCnt s = 0" "sentByteCnt s = 0"
    by (auto simp: tx_within_def Let_def)
  have "unat (maxPkgWord s * 64) = ?p"
    using good m by (simp add: unat_word_ariths good_command_def mult.commute)
  then have len: "unat len = min ?p ?e" using e m by (auto simp: len_def min_def mult.commute)
  have "in_flight (tx_wait_first_data s) (min ?p ?e)"
    using fl good len meta_length [of len "sessionID s"]
    by (auto simp: in_flight_def tx_wait_first_data_def Cons len_def [symmetric] good_command_def)
  then have "tx_within (tx_wait_first_data s) c 0"
    using good e m j by (simp add: tx_within_def tx_wait_first_data_def Cons Let_def good_command_def)
  then show ?thesis
    using assms(1) c flags j by (intro tx_invI [where j = 0]) (simp_all add: tx_wait_first_data_def Cons Let_def tx_inv_def)
qed

text \<open>An answer that grants room opens the next packet and asks for the one after it; another one repeats the request.\<close>

lemma tx_check_req_within:
  assumes "tx_within s c j" and "txHandlerState s = CHECK_REQ"
  shows "tx_within (tx_check_req s) c j"
proof (cases "waiting (s_axis_tcp_tx_status s)")
  case Nil
  then show ?thesis using assms by (simp add: tx_check_req_def)
next
  case (Cons st rest)
  let ?p = "64 * cmd_packet_words c" and ?e = "cmd_bytes c" and ?s = "tx_status_read s"
  let ?sent = "sentByteCnt s" and ?n = "min (64 * cmd_packet_words c) (cmd_bytes c - unat (sentByteCnt s))"
  from assms have good: "good_command c" and e: "unat (expectedTxByteCnt s) = ?e"
    and m: "unat (maxPkgWord s) = cmd_packet_words c" and fl: "in_flight s ?n"
    and pos: "wordCnt s = 0" "?p dvd unat ?sent" "unat ?sent < ?e" "64 * j = unat ?sent"
    by (auto simp: tx_within_def Let_def)
  from good pos have n: "0 < ?n" "?n < 2 ^ 16" by (auto simp: good_command_def)
  with fl Cons have rest: "rest = []" and nometa: "waiting (m_axis_tcp_tx_meta s) = []"
    and len: "unat (get_range st 31 16 :: u16) = ?n" and err: "(get_range st 63 62 :: u8) \<noteq> 1"
    by (auto simp: in_flight_def split: if_splits)
  have ulen: "unat (ucast (get_range st 31 16 :: u16) :: u32) = ?n" using len by simp
  show ?thesis
  proof (cases "(get_range st 63 62 :: u8) = 0")
    case False
    have "in_flight (tx_check_req s) ?n"
      using False err n meta_length [OF n(2) [folded ulen]] ulen rest
      by (simp add: in_flight_def tx_check_req_def tx_status_read_def Cons Let_def nometa)
    with False err good e m pos show ?thesis
      by (simp add: tx_within_def tx_check_req_def tx_status_read_def Cons Let_def assms(2))
  next
    case True
    let ?sent' = "?sent + ucast (get_range st 31 16 :: u16)"
    have "unat ?sent + ?n \<le> ?e" using pos(3) by simp
    moreover have "?e < 2 ^ 32" unfolding cmd_bytes_def using unsigned_less [of "get_range c 63 32 :: u32"] by simp
    ultimately have sent: "unat ?sent' = unat ?sent + ?n" using ulen by (simp add: unat_word_ariths)
    define len' :: u32 where "len' = (if unat ?sent' + unat (maxPkgWord s) * 64 < unat (expectedTxByteCnt s)
       then maxPkgWord s * 64 else expectedTxByteCnt s - ?sent')"
    have "unat (maxPkgWord s * 64) = ?p"
      using good m by (simp add: unat_word_ariths good_command_def mult.commute)
    moreover have "unat (expectedTxByteCnt s - ?sent') = ?e - unat ?sent'" if "?sent' < expectedTxByteCnt s"
      using that e by (subst unat_sub) (auto simp: word_less_nat_alt word_le_nat_alt)
    ultimately have len': "unat len' = min ?p (?e - unat ?sent')" if "?sent' < expectedTxByteCnt s"
      using that e m by (auto simp: len'_def min_def mult.commute)
    have run: "tx_check_req s = ?s\<lparr>sentByteCnt := ?sent',
        m_axis_tcp_tx_meta := (if ?sent' < expectedTxByteCnt s then push (tx_meta (get_range st 15 0) len') (m_axis_tcp_tx_meta s)
          else m_axis_tcp_tx_meta s), txHandlerState := WRITE_PKG\<rparr>"
      using True by (simp add: tx_check_req_def tx_status_read_def Cons Let_def len'_def cong: if_cong)
    have "in_flight (tx_check_req s) (min ?p (?e - unat ?sent'))"
    proof (cases "?sent' < expectedTxByteCnt s")
      case True
      then have "unat ?sent' < ?e" using e by (simp add: word_less_nat_alt)
      with good True have "0 < min ?p (?e - unat ?sent')" "unat len' < 2 ^ 16" by (auto simp: good_command_def len')
      with meta_length [of len' "get_range st 15 0"] True show ?thesis
        by (simp add: run in_flight_def tx_status_read_def Let_def Cons rest nometa len')
    next
      case False
      then have "?e \<le> unat ?sent'" using e by (simp add: word_less_nat_alt)
      with False show ?thesis by (simp add: run in_flight_def tx_status_read_def Let_def Cons rest nometa)
    qed
    moreover have "unat (currentPkgWord ?s) = nsegs 64 ?n"
      using packet_words [of "get_range st 31 16"] len by (simp add: tx_status_read_def Cons Let_def)
    moreover have "0 < nsegs 64 ?n" using n(1) nsegs_iff [of 64 0 ?n] by simp
    ultimately show ?thesis
      using good e m pos sent
      by (auto simp: tx_within_def run Let_def tx_status_read_def intro!: exI [of _ "unat ?sent"])
  qed
qed

lemma tx_check_req_inv:
  assumes "tx_inv s" and "txHandlerState s = CHECK_REQ"
  shows "tx_inv (tx_check_req s)"
proof -
  from assms obtain cs c j where c: "consumed (cmd_txHandler s) = cs @ [c]" and within: "tx_within s c j"
    and flags: "map ax_last (written (m_axis_tcp_tx_data s)) = concat (map cmd_flags cs) @ take j (cmd_flags c)"
    by (auto elim: within_of_state)
  have "cmd_txHandler (tx_check_req s) = cmd_txHandler s" "s_data_in (tx_check_req s) = s_data_in s"
    "m_axis_tcp_tx_data (tx_check_req s) = m_axis_tcp_tx_data s"
    by (simp_all add: tx_check_req_def tx_status_read_def Let_def)
  with c flags tx_check_req_within [OF within assms(2)] assms(1) show ?thesis
    by (intro tx_invI) (simp_all add: tx_inv_def)
qed

lemma in_flight_other [simp]:
  "in_flight (s\<lparr>txHandlerState := a\<rparr>) n = in_flight s n" "in_flight (s\<lparr>currentPkgWord := b\<rparr>) n = in_flight s n"
  "in_flight (s\<lparr>wordCnt := b\<rparr>) n = in_flight s n" "in_flight (s\<lparr>sentByteCnt := b\<rparr>) n = in_flight s n"
  "in_flight (s\<lparr>s_data_in := d\<rparr>) n = in_flight s n" "in_flight (s\<lparr>m_axis_tcp_tx_data := d\<rparr>) n = in_flight s n"
  "in_flight (s\<lparr>cmd_txHandler := e\<rparr>) n = in_flight s n"
  by (simp_all add: in_flight_def)

lemma tx_write_pkg_inv:
  assumes "tx_inv s" and "txHandlerState s = WRITE_PKG"
  shows "tx_inv (tx_write_pkg s)"
proof (cases "waiting (s_data_in s)")
  case Nil
  then show ?thesis using assms by (simp add: tx_write_pkg_def)
next
  case (Cons x xs)
  from assms obtain cs c j where c: "consumed (cmd_txHandler s) = cs @ [c]" and within: "tx_within s c j"
    and flags: "map ax_last (written (m_axis_tcp_tx_data s)) = concat (map cmd_flags cs) @ take j (cmd_flags c)"
    by (auto elim: within_of_state)
  let ?m = "cmd_packet_words c" and ?e = "cmd_bytes c" and ?w = "unat (wordCnt s)" and ?last = "wordCnt s + 1 = currentPkgWord s"
  from within assms(2) obtain start where good: "good_command c" and e: "unat (expectedTxByteCnt s) = ?e"
    and m: "unat (maxPkgWord s) = ?m" and fl: "in_flight s (min (64 * ?m) (?e - unat (sentByteCnt s)))"
    and start: "64 * ?m dvd start" "start < ?e" and sent: "unat (sentByteCnt s) = start + min (64 * ?m) (?e - start)"
    and cur: "unat (currentPkgWord s) = nsegs 64 (min (64 * ?m) (?e - start))"
    and w: "?w < unat (currentPkgWord s)" and j: "64 * j = start + 64 * ?w"
    by (auto simp: tx_within_def Let_def)
  from good have "0 < ?m" by (simp add: good_command_def)
  note account = this start w [unfolded cur] j
  have wlt: "wordCnt s < currentPkgWord s" using w by (simp add: word_less_nat_alt)
  have next_w: "unat (wordCnt s + 1) = Suc ?w" by (rule unat_succ [OF wlt])
  have last: "?last \<longleftrightarrow> Suc ?w = nsegs 64 (min (64 * ?m) (?e - start))"
    using next_w cur by (simp add: word_unat_eq_iff)
  have flag: "packet_end ?m ?e j = ?last" unfolding last by (rule packet_account_end [OF account])
  have word: "j < nsegs 64 ?e" by (rule packet_account_word [OF account])
  let ?s = "s\<lparr>s_data_in := pop (s_data_in s),
    m_axis_tcp_tx_data := push (x\<lparr>ax_last := ?last\<rparr>) (m_axis_tcp_tx_data s), wordCnt := wordCnt s + 1\<rparr>"
  have flags': "map ax_last (written (m_axis_tcp_tx_data ?s)) = concat (map cmd_flags cs) @ take (Suc j) (cmd_flags c)"
    using flags word by (simp add: take_Suc_conv_app_nth flag)
  have data': "map (ax_last_update (\<lambda>_. True)) (written (m_axis_tcp_tx_data ?s)) =
      map (ax_last_update (\<lambda>_. True)) (consumed (s_data_in ?s))"
    using assms(1) Cons by (simp add: tx_inv_def)
  have cmds: "list_all good_command (waiting (cmd_txHandler s))" using assms(1) by (simp add: tx_inv_def)
  have j': "64 * Suc j = start + 64 * Suc ?w" using j by simp
  show ?thesis
  proof (cases ?last)
    case False
    then have run: "tx_write_pkg s = ?s" using Cons by (simp add: tx_write_pkg_def Let_def)
    have "Suc ?w < unat (currentPkgWord s)" using False w last cur by linarith
    then have "tx_within ?s c (Suc j)"
      using good e m fl start sent cur j' next_w assms(2)
      by (auto simp: tx_within_def Let_def intro!: exI [of _ start] simp del: mult_Suc_right)
    then show ?thesis unfolding run using flags' data' cmds c by (intro tx_invI) simp_all
  next
    case True
    note lastw = True [unfolded last]
    show ?thesis
    proof (cases "expectedTxByteCnt s \<le> sentByteCnt s")
      case fin: True
      let ?t = "?s\<lparr>wordCnt := 0, sentByteCnt := 0, currentPkgWord := 0, txHandlerState := WAIT_CMD\<rparr>"
      have run: "tx_write_pkg s = ?t" using Cons True fin by (simp add: tx_write_pkg_def Let_def)
      have le: "?e \<le> unat (sentByteCnt s)" using fin e by (simp add: word_le_nat_alt)
      then have "?e \<le> start + 64 * ?m" using sent by (simp add: min_def split: if_splits)
      with packet_account_last [OF account lastw] have "Suc j = nsegs 64 ?e" by simp
      with flags' have "map ax_last (written (m_axis_tcp_tx_data ?t)) = concat (map cmd_flags (consumed (cmd_txHandler ?t)))"
        using c by (simp add: length_cmd_flags)
      moreover have "tx_idle ?t" using fl le by (simp add: tx_idle_def)
      ultimately show ?thesis unfolding run using data' cmds by (auto simp: tx_inv_def)
    next
      case more: False
      let ?t = "?s\<lparr>wordCnt := 0, txHandlerState := CHECK_REQ\<rparr>"
      have run: "tx_write_pkg s = ?t" using Cons True more by (simp add: tx_write_pkg_def Let_def)
      have lt: "unat (sentByteCnt s) < ?e" using more e by (simp add: word_le_nat_alt not_le)
      then have full: "start + 64 * ?m \<le> ?e" "unat (sentByteCnt s) = start + 64 * ?m"
        using sent start(2) by (auto simp: min_def split: if_splits)
      with packet_account_full [OF account lastw] j' have "64 * Suc j = unat (sentByteCnt s)" by simp
      then have "tx_within ?t c (Suc j)"
        using good e m fl lt full start(1)
        by (auto simp: tx_within_def Let_def simp del: mult_Suc_right)
      then show ?thesis unfolding run using flags' data' cmds c by (intro tx_invI) simp_all
    qed
  qed
qed

lemma tcp_txHandler_inv: "tx_inv s \<Longrightarrow> tx_inv (tcp_txHandler s)"
  by (cases "txHandlerState s")
    (simp_all add: tcp_txHandler_def tx_wait_cmd_inv tx_wait_first_data_inv tx_check_req_inv tx_write_pkg_inv)

text \<open>The environment does not touch the registers.\<close>

lemma tx_within_other [simp]:
  "tx_within (s\<lparr>cmd_txHandler := f\<rparr>) c j = tx_within s c j"
  "tx_within (s\<lparr>s_data_in := d\<rparr>) c j = tx_within s c j"
  "tx_within (s\<lparr>m_axis_tcp_tx_data := d\<rparr>) c j = tx_within s c j"
  by (cases "txHandlerState s"; simp add: tx_within_def)+

lemma tx_idle_other [simp]:
  "tx_idle (s\<lparr>cmd_txHandler := f\<rparr>) = tx_idle s"
  "tx_idle (s\<lparr>s_data_in := d\<rparr>) = tx_idle s"
  "tx_idle (s\<lparr>m_axis_tcp_tx_data := d\<rparr>) = tx_idle s"
  by (simp_all add: tx_idle_def)

lemma tx_answer_inv:
  assumes "tx_inv s" and "waiting (m_axis_tcp_tx_meta s) = m # ms" and "answers st m"
  shows "tx_inv (s\<lparr>m_axis_tcp_tx_meta := pop (m_axis_tcp_tx_meta s),
     s_axis_tcp_tx_status := push st (s_axis_tcp_tx_status s)\<rparr>)" (is "tx_inv ?s")
proof -
  have fl: "in_flight ?s n" if "in_flight s n" for n
    using that assms(2,3) by (auto simp: in_flight_def answers_def split: if_splits)
  then have "tx_within s c j \<Longrightarrow> tx_within ?s c j" for c j
    by (cases "txHandlerState s") (simp_all add: tx_within_def Let_def)
  moreover have "tx_idle s \<Longrightarrow> tx_idle ?s" using fl by (simp add: tx_idle_def)
  moreover have same: "cmd_txHandler ?s = cmd_txHandler s" "m_axis_tcp_tx_data ?s = m_axis_tcp_tx_data s"
    "s_data_in ?s = s_data_in s" by simp_all
  ultimately show ?thesis using assms(1) unfolding tx_inv_def same by blast
qed

interpretation tx: kernel tx_init tx_step tx_inv
proof
  fix s s' assume inv: "tx_inv s" and "tx_step s s'"
  from this(2) show "tx_inv s'"
    by (rule tx_stepE) (use inv in \<open>auto simp: tcp_txHandler_inv tx_answer_inv\<close>, auto simp: tx_inv_def)
qed (simp add: tx_init_def tx_inv_def tx_idle_def in_flight_def)

lemma tx_requests_bounded:
  assumes "tx_inv s"
  shows "length (waiting (m_axis_tcp_tx_meta s)) + length (waiting (s_axis_tcp_tx_status s)) \<le> 1"
proof -
  from assms have "\<exists>n. in_flight s n" by (auto simp: tx_inv_def tx_idle_def tx_within_def Let_def)
  then show ?thesis by (auto simp: in_flight_def split: if_splits)
qed

lemma tx_packets_so_far:
  assumes "tx_inv s"
  shows "prefix (map ax_last (written (m_axis_tcp_tx_data s))) (concat (map cmd_flags (consumed (cmd_txHandler s))))"
    and "txHandlerState s = WAIT_CMD \<Longrightarrow>
       map ax_last (written (m_axis_tcp_tx_data s)) = concat (map cmd_flags (consumed (cmd_txHandler s)))"
  using assms by (auto simp: tx_inv_def tx_within_def Let_def take_is_prefix)

text \<open>A refusal with error 1 (the connection is gone) is not answered: the handler waits for another status that nobody owes it.\<close>

lemma tx_torn_down:
  assumes "txHandlerState s = CHECK_REQ" and "waiting (s_axis_tcp_tx_status s) = [st]"
    and "(get_range st 63 62 :: u8) = 1"
  shows "txHandlerState ((tcp_txHandler ^^ Suc n) s) = CHECK_REQ \<and>
     m_axis_tcp_tx_meta ((tcp_txHandler ^^ Suc n) s) = m_axis_tcp_tx_meta s \<and>
     waiting (s_axis_tcp_tx_status ((tcp_txHandler ^^ Suc n) s)) = []"
proof (induction n)
  case 0
  from assms show ?case
    by (simp add: tcp_txHandler_def tx_check_req_def tx_status_read_def Let_def)
next
  case (Suc n)
  then show ?case by (simp add: tcp_txHandler_def tx_check_req_def)
qed

subsection \<open>Commands of the packetizer\<close>

lemma tx_command_fields:
  "cmd_bytes (tx_command session n m junk) = unat n" "cmd_packet_words (tx_command session n m junk) = unat m"
  by (simp_all add: cmd_bytes_def cmd_packet_words_def tx_command_def range_simps)

text \<open>The handler takes from its input just the words that \<open>tcp_packetizer\<close> wrote for the command.\<close>

lemma packetizer_command:
  assumes "tcp_packetizer shl junk junk_cmd m ins (c0 # mb # tag # src # seq # cmd) = Some (out, tx_cmd, sts, rest)"
    and "unat mb + 64 < 2 ^ 31" and "nsegs 64 (unat mb) \<le> length ins" and "0 < m" and "m < 1024"
  shows "good_command tx_cmd \<and> length (cmd_flags tx_cmd) = length out"
proof -
  have "ins \<noteq> []" using assms(1) by (auto simp: Let_def)
  with tcp_packetizer_run [of mb "take (nsegs 64 (unat mb)) ins" "drop (nsegs 64 (unat mb)) ins" shl junk junk_cmd m c0 tag src seq cmd]
    assms have "length out = Suc (nsegs 64 (unat mb))" "tx_cmd = tx_command (ucast (get_range c0 15 0 :: u16)) (mb + 64) m junk_cmd"
    by (auto simp del: tcp_packetizer.simps)
  moreover have "unat (mb + 64) = unat mb + 64" using assms(2) by (simp add: unat_word_ariths)
  moreover have "unat m < 1024" "0 < unat m" using assms(4,5) by (simp_all add: word_less_nat_alt)
  ultimately show ?thesis by (simp add: good_command_def tx_command_fields header_steps)
qed

subsection \<open>Properties\<close>

text \<open>C4: with commands whose lengths fit the request and a TCP stack that answers every request, granting or refusing it for
the time being, whatever the interleaving: the words put out are the words taken in, in order (but for the last flag); their
packets are those of the commands, each cut after \<open>maxPkgWord\<close> words and at the end of its message, complete
whenever the handler waits for a command; and at most one request is unanswered.\<close>

theorem tx_packets_match_commands:
  assumes "tx_init s" and "tx_step\<^sup>*\<^sup>* s s'"
  shows "map (ax_last_update (\<lambda>_. True)) (written (m_axis_tcp_tx_data s')) =
       map (ax_last_update (\<lambda>_. True)) (consumed (s_data_in s')) \<and>
     prefix (map ax_last (written (m_axis_tcp_tx_data s'))) (concat (map cmd_flags (consumed (cmd_txHandler s')))) \<and>
     (txHandlerState s' = WAIT_CMD \<longrightarrow>
        map ax_last (written (m_axis_tcp_tx_data s')) = concat (map cmd_flags (consumed (cmd_txHandler s')))) \<and>
     length (waiting (m_axis_tcp_tx_meta s')) + length (waiting (s_axis_tcp_tx_status s')) \<le> 1"
proof -
  have inv: "tx_inv s'" by (rule tx.inv_reachable [OF assms])
  then show ?thesis
    using tx_packets_so_far [OF inv] tx_requests_bounded [OF inv] by (simp add: tx_inv_def)
qed

text \<open>An example: 64 bytes for session 7, one word, granted at once.\<close>

definition tx_quiet :: tx_handler where
  "tx_quiet = \<lparr>txHandlerState = WAIT_CMD, sessionID = 0, expectedTxByteCnt = 0, maxPkgWord = 0, tx_length = 0,
     remaining_space = 0, tx_error = 0, currentPkgWord = 0, wordCnt = 0, sentByteCnt = 0, s_data_in = no_data,
     cmd_txHandler = no_data, m_axis_tcp_tx_meta = no_data, m_axis_tcp_tx_data = no_data, s_axis_tcp_tx_status = no_data\<rparr>"

definition tx_asked :: tx_handler where
  "tx_asked = tcp_txHandler (tcp_txHandler (tx_quiet
     \<lparr>cmd_txHandler := push (tx_command 7 64 24 0) no_data,
      s_data_in := push \<lparr>ax_data = 5, ax_keep = - 1, ax_last = False\<rparr> no_data\<rparr>))"

definition tx_sent :: tx_handler where
  "tx_sent = tcp_txHandler (tcp_txHandler (tx_asked
     \<lparr>m_axis_tcp_tx_meta := pop (m_axis_tcp_tx_meta tx_asked),
      s_axis_tcp_tx_status := push 0x400007 (s_axis_tcp_tx_status tx_asked)\<rparr>))"

theorem tx_packets_match_commands_witness:
  "tx_step\<^sup>*\<^sup>* tx_quiet tx_sent \<and> txHandlerState tx_sent = WAIT_CMD \<and>
     map ax_last (written (m_axis_tcp_tx_data tx_sent)) = concat (map cmd_flags (consumed (cmd_txHandler tx_sent))) \<and>
     written (m_axis_tcp_tx_data tx_sent) = [\<lparr>ax_data = 5, ax_keep = - 1, ax_last = True\<rparr>]"
proof -
  have init: "tx_init tx_quiet" by (simp add: tx_init_def tx_quiet_def)
  let ?c = "tx_command 7 64 24 0" and ?w = "\<lparr>ax_data = 5, ax_keep = - 1, ax_last = False\<rparr> :: axis"
  have "tx_step tx_quiet (tx_quiet\<lparr>cmd_txHandler := push ?c (cmd_txHandler tx_quiet)\<rparr>)"
    by (rule tx_cmd) (simp add: good_command_def tx_command_fields)
  moreover have "tx_step (tx_quiet\<lparr>cmd_txHandler := push ?c (cmd_txHandler tx_quiet)\<rparr>)
      (tx_quiet\<lparr>cmd_txHandler := push ?c no_data, s_data_in := push ?w no_data\<rparr>)"
    using tx_data [of "tx_quiet\<lparr>cmd_txHandler := push ?c (cmd_txHandler tx_quiet)\<rparr>" ?w] by (simp add: tx_quiet_def)
  moreover have calls: "tx_step\<^sup>*\<^sup>* t (tcp_txHandler (tcp_txHandler t))" for t
    by (blast intro: tx_call rtranclp.rtrancl_into_rtrancl rtranclp.rtrancl_refl)
  ultimately have asked: "tx_step\<^sup>*\<^sup>* tx_quiet tx_asked"
    unfolding tx_asked_def by (meson converse_rtranclp_into_rtranclp)
  have "waiting (m_axis_tcp_tx_meta tx_asked) = [0x400007]" by code_simp
  moreover have "answers 0x400007 0x400007" by code_simp
  ultimately have "tx_step tx_asked (tx_asked\<lparr>m_axis_tcp_tx_meta := pop (m_axis_tcp_tx_meta tx_asked),
      s_axis_tcp_tx_status := push 0x400007 (s_axis_tcp_tx_status tx_asked)\<rparr>)"
    by (rule tx_answer)
  with asked calls have steps: "tx_step\<^sup>*\<^sup>* tx_quiet tx_sent"
    unfolding tx_sent_def by (meson rtranclp.rtrancl_into_rtrancl rtranclp_trans)
  have idle: "txHandlerState tx_sent = WAIT_CMD" by code_simp
  have out: "written (m_axis_tcp_tx_data tx_sent) = [\<lparr>ax_data = 5, ax_keep = - 1, ax_last = True\<rparr>]" by code_simp
  from tx_packets_match_commands [OF init steps] steps idle out show ?thesis by blast
qed

text \<open>The command that \<open>tcp_packetizer\<close> gives the transmit handler is one it can serve, and makes it take
exactly as many words from its input as the packetizer wrote for the message, header included.\<close>

lemma packetizer_feeds_handler:
  assumes "tcp_packetizer shl junk junk_cmd max_pktsize ins (c0 # mb # tag # src # seq # cmd) = Some (out, tx_cmd, sts, rest)"
    and "unat mb + 64 < 2 ^ 31" and "nsegs 64 (unat mb) \<le> length ins" and "0 < max_pktsize" and "max_pktsize < 1024"
  shows "good_command tx_cmd \<and> length (cmd_flags tx_cmd) = length out"
  by (rule packetizer_command [OF assms])

end
