(* ===== verification/Hls_Rx.thy ===== *)
theory Hls_Rx
  imports Hls_Stream
begin

text \<open>
  \<open>tcp_rxHandler.cpp\<close> with rate control: three processes that run concurrently (\<open>#pragma HLS DATAFLOW\<close>)
  and talk through FIFOs of depth two. \<open>requestFSM\<close> turns notifications of the TCP stack into read
  requests, \<open>consumeFSM\<close> passes the packets on, and \<open>inflightReadHandler\<close> keeps the number of packets
  asked for and not yet passed on. A process that would block in a read, or in
  a write to one of these FIFOs that the case at hand makes, stays where it is.
\<close>

subsection \<open>The processes\<close>

datatype requestFsmStateType = WAIT_NOTI | CHECK_IN_FLIGHT | BACK_OFF | REQUEST
datatype consumeFsmStateType = WAIT_PKG | CONSUME

record rx_handler =
  inflightCnt :: u32
  requestFsmState :: requestFsmStateType
  rx_counter :: u8
  serverFsmState :: consumeFsmStateType
  s_axis_tcp_notification :: "128 word stream"
  m_axis_tcp_read_pkg :: "u32 stream"
  s_axis_tcp_rx_meta :: "u16 stream"
  s_axis_tcp_rx_data :: "axis stream"
  s_data_out :: "axis stream"
  inflightReadCntReq :: "bool stream"
  inflightReadCntRsp :: "u32 stream"
  incrCntReq :: "bool stream"
  decrCntReq :: "bool stream"

definition full2 :: "'a stream \<Rightarrow> bool" where
  "full2 f \<longleftrightarrow> 2 \<le> length (waiting f)"

definition inflightReadHandler :: "rx_handler \<Rightarrow> rx_handler" where
  "inflightReadHandler s =
     (if \<not> is_empty (decrCntReq s) \<and> 0 < inflightCnt s then
        s\<lparr>decrCntReq := pop (decrCntReq s), inflightCnt := inflightCnt s - 1\<rparr>
      else if \<not> is_empty (incrCntReq s) then
        s\<lparr>incrCntReq := pop (incrCntReq s), inflightCnt := inflightCnt s + 1\<rparr>
      else if \<not> is_empty (inflightReadCntReq s) \<and> \<not> full2 (inflightReadCntRsp s) then
        s\<lparr>inflightReadCntReq := pop (inflightReadCntReq s),
          inflightReadCntRsp := push (inflightCnt s) (inflightReadCntRsp s)\<rparr>
      else s)"

text \<open>The fields of a notification that are used, and the read request made of them.\<close>

definition noti_length :: "128 word \<Rightarrow> u16" where
  "noti_length n = get_range n 31 16"

definition read_request :: "128 word \<Rightarrow> u32" where
  "read_request n = set_range (set_range 0 15 0 (get_range n 15 0 :: u16)) 31 16 (noti_length n)"

definition requestFSM :: "rx_handler \<Rightarrow> rx_handler" where
  "requestFSM s =
     (case requestFsmState s of
        WAIT_NOTI \<Rightarrow>
          (if is_empty (s_axis_tcp_notification s) \<or> full2 (inflightReadCntReq s) then s
           else s\<lparr>inflightReadCntReq := push True (inflightReadCntReq s), requestFsmState := CHECK_IN_FLIGHT\<rparr>)
      | CHECK_IN_FLIGHT \<Rightarrow>
          (if is_empty (inflightReadCntRsp s) then s
           else s\<lparr>inflightReadCntRsp := pop (inflightReadCntRsp s),
                  requestFsmState := (if front (inflightReadCntRsp s) < 4 then REQUEST else BACK_OFF)\<rparr>)
      | BACK_OFF \<Rightarrow>
          (if rx_counter s = 5 then s\<lparr>rx_counter := 0, requestFsmState := WAIT_NOTI\<rparr>
           else s\<lparr>rx_counter := rx_counter s + 1\<rparr>)
      | REQUEST \<Rightarrow>
          (let n = front (s_axis_tcp_notification s) in
           if is_empty (s_axis_tcp_notification s) \<or> noti_length n \<noteq> 0 \<and> full2 (incrCntReq s) then s
           else let s' = s\<lparr>s_axis_tcp_notification := pop (s_axis_tcp_notification s)\<rparr>
             in (if noti_length n \<noteq> 0
                 then s'\<lparr>m_axis_tcp_read_pkg := push (read_request n) (m_axis_tcp_read_pkg s),
                         incrCntReq := push True (incrCntReq s), requestFsmState := WAIT_NOTI\<rparr>
                 else s'\<lparr>requestFsmState := WAIT_NOTI\<rparr>)))"

definition consumeFSM :: "rx_handler \<Rightarrow> rx_handler" where
  "consumeFSM s =
     (case serverFsmState s of
        WAIT_PKG \<Rightarrow>
          (let receiveWord = front (s_axis_tcp_rx_data s) in
           if is_empty (s_axis_tcp_rx_meta s) \<or> is_empty (s_axis_tcp_rx_data s) \<or> ax_last receiveWord \<and> full2 (decrCntReq s) then s
           else let s' = s\<lparr>s_axis_tcp_rx_meta := pop (s_axis_tcp_rx_meta s),
                           s_axis_tcp_rx_data := pop (s_axis_tcp_rx_data s),
                           s_data_out := push receiveWord (s_data_out s)\<rparr>
             in (if \<not> ax_last receiveWord then s'\<lparr>serverFsmState := CONSUME\<rparr>
                 else s'\<lparr>decrCntReq := push True (decrCntReq s)\<rparr>))
      | CONSUME \<Rightarrow>
          (let receiveWord = front (s_axis_tcp_rx_data s) in
           if is_empty (s_axis_tcp_rx_data s) \<or> ax_last receiveWord \<and> full2 (decrCntReq s) then s
           else let s' = s\<lparr>s_axis_tcp_rx_data := pop (s_axis_tcp_rx_data s),
                           s_data_out := push receiveWord (s_data_out s)\<rparr>
             in (if ax_last receiveWord
                 then s'\<lparr>decrCntReq := push True (decrCntReq s), serverFsmState := WAIT_PKG\<rparr>
                 else s')))"

text \<open>One call of the kernel runs each process once; in hardware they run independently.\<close>

definition tcp_rxHandler :: "rx_handler \<Rightarrow> rx_handler" where
  "tcp_rxHandler s = consumeFSM (inflightReadHandler (requestFSM s))"

definition rx_init :: "rx_handler \<Rightarrow> bool" where
  "rx_init s \<longleftrightarrow> inflightCnt s = 0 \<and> requestFsmState s = WAIT_NOTI \<and> rx_counter s = 0 \<and> serverFsmState s = WAIT_PKG \<and>
     s_axis_tcp_notification s = no_data \<and> m_axis_tcp_read_pkg s = no_data \<and> s_axis_tcp_rx_meta s = no_data \<and>
     s_axis_tcp_rx_data s = no_data \<and> s_data_out s = no_data \<and> inflightReadCntReq s = no_data \<and>
     inflightReadCntRsp s = no_data \<and> incrCntReq s = no_data \<and> decrCntReq s = no_data"

text \<open>Any process may run, the TCP stack may notify, deliver, and take requests, the reader may take data.\<close>

inductive rx_step :: "rx_handler \<Rightarrow> rx_handler \<Rightarrow> bool" where
  rx_count: "rx_step s (inflightReadHandler s)"
| rx_request: "rx_step s (requestFSM s)"
| rx_consume: "rx_step s (consumeFSM s)"
| rx_notify: "rx_step s (s\<lparr>s_axis_tcp_notification := push n (s_axis_tcp_notification s)\<rparr>)"
| rx_meta: "rx_step s (s\<lparr>s_axis_tcp_rx_meta := push m (s_axis_tcp_rx_meta s)\<rparr>)"
| rx_data: "rx_step s (s\<lparr>s_axis_tcp_rx_data := push w (s_axis_tcp_rx_data s)\<rparr>)"
| rx_read_taken: "rx_step s (s\<lparr>m_axis_tcp_read_pkg := pop (m_axis_tcp_read_pkg s)\<rparr>)"
| rx_data_taken: "rx_step s (s\<lparr>s_data_out := pop (s_data_out s)\<rparr>)"

inductive_cases rx_stepE: "rx_step s s'"

lemma rx_call: "rx_step\<^sup>*\<^sup>* s (tcp_rxHandler s)"
  unfolding tcp_rxHandler_def
  by (rule rtranclp_trans [OF r_into_rtranclp [of rx_step, OF rx_request]
        rtranclp_trans [OF r_into_rtranclp [of rx_step, OF rx_count] r_into_rtranclp [of rx_step, OF rx_consume]]])

subsection \<open>The invariant\<close>

text \<open>The counter and the messages about it: what the request process has been told is an upper bound until it asks again.\<close>

definition rx_count_inv :: "rx_handler \<Rightarrow> bool" where
  "rx_count_inv s \<longleftrightarrow>
     unat (inflightCnt s) + length (waiting (incrCntReq s)) \<le> 4 \<and> length (waiting (incrCntReq s)) \<le> 1 \<and>
     (case requestFsmState s of
        WAIT_NOTI \<Rightarrow> waiting (inflightReadCntReq s) = [] \<and> waiting (inflightReadCntRsp s) = []
      | BACK_OFF \<Rightarrow> waiting (inflightReadCntReq s) = [] \<and> waiting (inflightReadCntRsp s) = []
      | CHECK_IN_FLIGHT \<Rightarrow>
          length (waiting (inflightReadCntReq s)) = 1 \<and> waiting (inflightReadCntRsp s) = [] \<or>
          (\<exists>v. waiting (inflightReadCntReq s) = [] \<and> waiting (inflightReadCntRsp s) = [v] \<and>
             waiting (incrCntReq s) = [] \<and> inflightCnt s \<le> v)
      | REQUEST \<Rightarrow> waiting (inflightReadCntReq s) = [] \<and> waiting (inflightReadCntRsp s) = [] \<and>
          waiting (incrCntReq s) = [] \<and> inflightCnt s < 4)"

text \<open>Requests, increments, decrements and packets are in step with each other.\<close>

definition rx_flow_inv :: "rx_handler \<Rightarrow> bool" where
  "rx_flow_inv s \<longleftrightarrow>
     written (m_axis_tcp_read_pkg s) =
       map read_request (filter (\<lambda>n. noti_length n \<noteq> 0) (consumed (s_axis_tcp_notification s))) \<and>
     length (written (incrCntReq s)) = length (written (m_axis_tcp_read_pkg s)) \<and>
     unat (inflightCnt s) + length (consumed (decrCntReq s)) = length (consumed (incrCntReq s)) \<and>
     length (written (decrCntReq s)) = passed_on (consumed (s_axis_tcp_rx_data s)) \<and>
     written (s_data_out s) = consumed (s_axis_tcp_rx_data s) \<and>
     length (consumed (s_axis_tcp_rx_meta s)) =
       passed_on (consumed (s_axis_tcp_rx_data s)) + (if serverFsmState s = CONSUME then 1 else 0)"

definition rx_handler_inv :: "rx_handler \<Rightarrow> bool" where
  "rx_handler_inv s \<longleftrightarrow> rx_count_inv s \<and> rx_flow_inv s"

lemma inflight_step:
  fixes n :: u32
  shows "0 < n \<Longrightarrow> unat (n - 1) = unat n - 1" and "unat n < 4 \<Longrightarrow> unat (n + 1) = unat n + 1"
proof -
  show "unat (n - 1) = unat n - 1" if "0 < n"
  proof -
    have "1 \<le> n" using that by (simp add: word_le_nat_alt word_less_nat_alt Suc_le_eq)
    then show ?thesis by (simp add: unat_sub)
  qed
  show "unat n < 4 \<Longrightarrow> unat (n + 1) = unat n + 1" by (simp add: unat_word_ariths)
qed

lemma rx_count_inv_handler:
  assumes "rx_handler_inv s"
  shows "rx_handler_inv (inflightReadHandler s)"
proof (cases "\<not> is_empty (decrCntReq s) \<and> 0 < inflightCnt s")
  case True
  then obtain b bs where d: "waiting (decrCntReq s) = b # bs" by (auto simp: neq_Nil_conv)
  from True have n: "unat (inflightCnt s - 1) = unat (inflightCnt s) - 1" "0 < unat (inflightCnt s)"
    by (auto simp: inflight_step word_less_nat_alt)
  then have "inflightCnt s - 1 < 4" "inflightCnt s - 1 \<le> v" if "inflightCnt s \<le> v" "unat (inflightCnt s) \<le> 4" for v
    using that by (auto simp: word_less_nat_alt word_le_nat_alt)
  with True assms d n show ?thesis
    by (cases "requestFsmState s")
      (auto simp: rx_handler_inv_def rx_count_inv_def rx_flow_inv_def inflightReadHandler_def passed_on_def)
next
  case no_decr: False
  show ?thesis
  proof (cases "waiting (incrCntReq s)")
    case (Cons b bs)
    then have "unat (inflightCnt s) < 4" "bs = []" using assms by (auto simp: rx_handler_inv_def rx_count_inv_def)
    then have "unat (inflightCnt s + 1) = unat (inflightCnt s) + 1" by (simp add: inflight_step)
    with assms Cons no_decr \<open>bs = []\<close> show ?thesis
      by (cases "requestFsmState s")
        (auto simp: rx_handler_inv_def rx_count_inv_def rx_flow_inv_def inflightReadHandler_def written_def)
  next
    case Nil
    with assms no_decr show ?thesis
      by (cases "requestFsmState s"; cases "waiting (inflightReadCntReq s)")
        (auto simp: rx_handler_inv_def rx_count_inv_def rx_flow_inv_def inflightReadHandler_def)
  qed
qed

lemma rx_handler_inv_requestFSM:
  assumes "rx_handler_inv s"
  shows "rx_handler_inv (requestFSM s)"
proof (cases "requestFsmState s")
  case WAIT_NOTI
  with assms show ?thesis by (simp add: rx_handler_inv_def rx_count_inv_def rx_flow_inv_def requestFSM_def)
next
  case CHECK_IN_FLIGHT
  with assms show ?thesis
    by (cases "waiting (inflightReadCntRsp s)")
      (auto simp: rx_handler_inv_def rx_count_inv_def rx_flow_inv_def requestFSM_def)
next
  case BACK_OFF
  with assms show ?thesis by (simp add: rx_handler_inv_def rx_count_inv_def rx_flow_inv_def requestFSM_def)
next
  case REQUEST
  with assms have "unat (inflightCnt s) < 4" by (simp add: rx_handler_inv_def rx_count_inv_def word_less_nat_alt)
  with REQUEST assms show ?thesis
    by (cases "waiting (s_axis_tcp_notification s)")
      (auto simp: rx_handler_inv_def rx_count_inv_def rx_flow_inv_def requestFSM_def Let_def)
qed

lemma rx_handler_inv_consumeFSM:
  assumes "rx_handler_inv s"
  shows "rx_handler_inv (consumeFSM s)"
proof (cases "waiting (s_axis_tcp_rx_data s)")
  case Nil
  then have "consumeFSM s = s" by (simp add: consumeFSM_def split: consumeFsmStateType.split)
  with assms show ?thesis by simp
next
  case (Cons w ws)
  have count: "rx_count_inv (consumeFSM s)"
    using assms Cons by (cases "serverFsmState s"; cases "requestFsmState s")
      (simp_all add: rx_handler_inv_def rx_count_inv_def consumeFSM_def Let_def)
  have "rx_flow_inv (consumeFSM s)"
    using assms Cons by (cases "serverFsmState s"; cases "waiting (s_axis_tcp_rx_meta s)")
      (auto simp: rx_handler_inv_def rx_flow_inv_def consumeFSM_def Let_def passed_on_def)
  with count show ?thesis by (simp add: rx_handler_inv_def)
qed

interpretation rx: kernel rx_init rx_step rx_handler_inv
proof
  fix s s' assume inv: "rx_handler_inv s" and "rx_step s s'"
  from this(2) show "rx_handler_inv s'"
    by (rule rx_stepE)
      (use inv in \<open>auto simp: rx_count_inv_handler rx_handler_inv_requestFSM rx_handler_inv_consumeFSM\<close>,
       (cases "requestFsmState s"; simp add: rx_handler_inv_def rx_count_inv_def rx_flow_inv_def)+)
qed (simp add: rx_init_def rx_handler_inv_def rx_count_inv_def rx_flow_inv_def passed_on_def)

lemma rx_requests_bounded:
  assumes "rx_handler_inv s"
  shows "length (written (m_axis_tcp_read_pkg s)) \<le> passed_on (written (s_data_out s)) + 4"
proof -
  have len: "length (written f) = length (consumed f) + length (waiting f)" for f :: "bool stream"
    by (simp add: written_def)
  from assms have "unat (inflightCnt s) + length (waiting (incrCntReq s)) \<le> 4"
    by (simp add: rx_handler_inv_def rx_count_inv_def)
  moreover from assms have "length (written (incrCntReq s)) = length (written (m_axis_tcp_read_pkg s))"
    and "unat (inflightCnt s) + length (consumed (decrCntReq s)) = length (consumed (incrCntReq s))"
    and "length (written (decrCntReq s)) = passed_on (written (s_data_out s))"
    by (simp_all only: rx_handler_inv_def rx_flow_inv_def)
  ultimately show ?thesis unfolding len by linarith
qed

subsection \<open>Properties\<close>

text \<open>C10: in every interleaving of the three processes of the receive handler with the TCP stack and the reader, at most four
of the packets asked for have not been passed on to their last word.\<close>

theorem rx_at_most_four_outstanding:
  assumes "rx_init s" and "rx_step\<^sup>*\<^sup>* s s'"
  shows "length (written (m_axis_tcp_read_pkg s')) \<le> passed_on (written (s_data_out s')) + 4"
  by (rule rx_requests_bounded [OF rx.inv_reachable [OF assms]])

text \<open>C37: in every interleaving, the read requests are those of the notifications taken whose length is not zero, in order, and
the words put out are the words taken from the stack, unchanged and in order.\<close>

theorem rx_requests_and_data_in_order:
  assumes "rx_init s" and "rx_step\<^sup>*\<^sup>* s s'"
  shows "written (m_axis_tcp_read_pkg s') =
       map read_request (filter (\<lambda>n. noti_length n \<noteq> 0) (consumed (s_axis_tcp_notification s'))) \<and>
     written (s_data_out s') = consumed (s_axis_tcp_rx_data s')"
  using rx.inv_reachable [OF assms] by (simp add: rx_handler_inv_def rx_flow_inv_def)

text \<open>An example: one notification of 64 bytes for session 7, requested after two calls, and delivered.\<close>

definition rx_quiet :: rx_handler where
  "rx_quiet = \<lparr>inflightCnt = 0, requestFsmState = WAIT_NOTI, rx_counter = 0, serverFsmState = WAIT_PKG,
     s_axis_tcp_notification = no_data, m_axis_tcp_read_pkg = no_data, s_axis_tcp_rx_meta = no_data,
     s_axis_tcp_rx_data = no_data, s_data_out = no_data, inflightReadCntReq = no_data, inflightReadCntRsp = no_data,
     incrCntReq = no_data, decrCntReq = no_data\<rparr>"

definition rx_told :: rx_handler where
  "rx_told = rx_quiet\<lparr>s_axis_tcp_notification := push 0x400007 no_data\<rparr>"

definition rx_notified :: rx_handler where
  "rx_notified = rx_quiet\<lparr>s_axis_tcp_notification := \<lparr>consumed = [0x400007], waiting = []\<rparr>,
     m_axis_tcp_read_pkg := \<lparr>consumed = [], waiting = [0x400007]\<rparr>, inflightCnt := 1,
     inflightReadCntReq := \<lparr>consumed = [True], waiting = []\<rparr>, inflightReadCntRsp := \<lparr>consumed = [0], waiting = []\<rparr>,
     incrCntReq := \<lparr>consumed = [True], waiting = []\<rparr>\<rparr>"

text \<open>It takes three calls: ask for the count, compare it, request.\<close>

lemma rx_three_calls: "(tcp_rxHandler ^^ 3) rx_told = rx_notified"
proof -
  let ?asked = "rx_told\<lparr>requestFsmState := CHECK_IN_FLIGHT,
    inflightReadCntReq := \<lparr>consumed = [True], waiting = []\<rparr>, inflightReadCntRsp := \<lparr>consumed = [], waiting = [0]\<rparr>\<rparr>"
  let ?checked = "?asked\<lparr>requestFsmState := REQUEST, inflightReadCntRsp := \<lparr>consumed = [0], waiting = []\<rparr>\<rparr>"
  have "tcp_rxHandler rx_told = ?asked" by code_simp
  moreover have "tcp_rxHandler ?asked = ?checked" by code_simp
  moreover have "tcp_rxHandler ?checked = rx_notified" by code_simp
  ultimately show ?thesis by (simp only: numeral_3_eq_3 funpow.simps comp_apply id_apply)
qed

lemma rx_quiet_init: "rx_init rx_quiet"
  by (simp add: rx_init_def rx_quiet_def)

lemma rx_calls: "rx_step\<^sup>*\<^sup>* s ((tcp_rxHandler ^^ n) s)"
  by (induction n) (auto intro: rtranclp_trans rx_call)

lemma rx_notified_reachable: "rx_step\<^sup>*\<^sup>* rx_quiet rx_notified"
proof -
  have "rx_step rx_quiet rx_told"
    using rx_notify [of rx_quiet] by (simp add: rx_quiet_def rx_told_def)
  then show ?thesis unfolding rx_three_calls [symmetric] by (rule converse_rtranclp_into_rtranclp) (rule rx_calls)
qed

theorem rx_at_most_four_outstanding_witness:
  "inflightCnt rx_notified = 1 \<and> length (written (m_axis_tcp_read_pkg rx_notified)) \<le> passed_on (written (s_data_out rx_notified)) + 4"
proof -
  have "inflightCnt rx_notified = 1" by code_simp
  with rx_at_most_four_outstanding [OF rx_quiet_init rx_notified_reachable] show ?thesis by blast
qed

theorem rx_requests_and_data_in_order_witness:
  "written (m_axis_tcp_read_pkg rx_notified) = [0x400007] \<and>
     written (m_axis_tcp_read_pkg rx_notified) =
       map read_request (filter (\<lambda>n. noti_length n \<noteq> 0) (consumed (s_axis_tcp_notification rx_notified))) \<and>
     written (s_data_out rx_notified) = consumed (s_axis_tcp_rx_data rx_notified)"
proof -
  have "written (m_axis_tcp_read_pkg rx_notified) = [0x400007]" by code_simp
  with rx_requests_and_data_in_order [OF rx_quiet_init rx_notified_reachable] show ?thesis by blast
qed

end
