(* ===== verification/Hls_Session.thy ===== *)
theory Hls_Session
  imports Hls_Stream
begin

text \<open>
  The kernels through which the firmware opens ports and connections of the TCP stack:
  \<open>tcp_openPort.cpp\<close>, \<open>tcp_openConReq.cpp\<close> and \<open>tcp_openConResp.cpp\<close>. The stack itself is the environment:
  it may put words on its status streams at any time, and may keep the 32-bit status stream to the
  firmware full for as long as it likes (the flag \<open>full\<close> of a step).
\<close>

subsection \<open>Connection requests\<close>

text \<open>Two words, address and port, make a request packet; \<open>junk\<close> is what the packet held before.\<close>

fun tcp_openConReq :: "u64 \<Rightarrow> u32 list \<Rightarrow> (u64 \<times> u32 list) option" where
  "tcp_openConReq junk (ip # port # cmd) = Some (set_range (set_range junk 31 0 ip) 47 32 port, cmd)"
| "tcp_openConReq junk cmd = None"

subsection \<open>Connection reports\<close>

datatype openConRespStateType = WAIT_STATUS | WR_SESSION | WR_IP | WR_PORT | WR_SUCCESS

record con_resp =
  openConRespState :: openConRespStateType
  cr_session :: u32
  cr_success :: u32
  cr_ip :: u32
  cr_port :: u32
  s_axis_tcp_open_status :: "128 word stream"
  cr_sts :: "u32 stream"

definition tcp_openConResp :: "bool \<Rightarrow> con_resp \<Rightarrow> con_resp" where
  "tcp_openConResp full s =
     (case openConRespState s of
        WAIT_STATUS \<Rightarrow>
          (if is_empty (s_axis_tcp_open_status s) then s
           else let d = front (s_axis_tcp_open_status s) in
             s\<lparr>s_axis_tcp_open_status := pop (s_axis_tcp_open_status s),
               cr_session := get_range d 15 0, cr_success := get_range d 23 16,
               cr_ip := get_range d 55 24, cr_port := get_range d 71 56,
               openConRespState := WR_SESSION\<rparr>)
      | WR_SESSION \<Rightarrow>
          (if full then s else s\<lparr>cr_sts := push (cr_session s) (cr_sts s), openConRespState := WR_IP\<rparr>)
      | WR_IP \<Rightarrow>
          (if full then s else s\<lparr>cr_sts := push (cr_ip s) (cr_sts s), openConRespState := WR_PORT\<rparr>)
      | WR_PORT \<Rightarrow>
          (if full then s else s\<lparr>cr_sts := push (cr_port s) (cr_sts s), openConRespState := WR_SUCCESS\<rparr>)
      | WR_SUCCESS \<Rightarrow>
          (if full then s else s\<lparr>cr_sts := push (cr_success s) (cr_sts s), openConRespState := WAIT_STATUS\<rparr>))"

definition con_resp_init :: "con_resp \<Rightarrow> bool" where
  "con_resp_init s \<longleftrightarrow> openConRespState s = WAIT_STATUS \<and>
     s_axis_tcp_open_status s = no_data \<and> cr_sts s = no_data"

text \<open>The kernel is called, the stack reports, or the firmware reads.\<close>

inductive con_resp_step :: "con_resp \<Rightarrow> con_resp \<Rightarrow> bool" where
  resp_call: "con_resp_step s (tcp_openConResp full s)"
| resp_report: "con_resp_step s (s\<lparr>s_axis_tcp_open_status := push d (s_axis_tcp_open_status s)\<rparr>)"
| resp_taken: "con_resp_step s (s\<lparr>cr_sts := pop (cr_sts s)\<rparr>)"

inductive_cases con_resp_stepE: "con_resp_step s s'"

text \<open>The four words of a report, in the order the firmware takes them, and those still to be written.\<close>

definition con_report :: "128 word \<Rightarrow> u32 list" where
  "con_report d = [get_range d 15 0, get_range d 55 24, get_range d 71 56, get_range d 23 16]"

definition con_pending :: "con_resp \<Rightarrow> u32 list" where
  "con_pending s = (case openConRespState s of
     WAIT_STATUS \<Rightarrow> []
   | WR_SESSION \<Rightarrow> [cr_session s, cr_ip s, cr_port s, cr_success s]
   | WR_IP \<Rightarrow> [cr_ip s, cr_port s, cr_success s]
   | WR_PORT \<Rightarrow> [cr_port s, cr_success s]
   | WR_SUCCESS \<Rightarrow> [cr_success s])"

definition con_resp_inv :: "con_resp \<Rightarrow> bool" where
  "con_resp_inv s \<longleftrightarrow> written (cr_sts s) @ con_pending s =
     concat (map con_report (consumed (s_axis_tcp_open_status s)))"

lemma tcp_openConResp_inv:
  assumes "con_resp_inv s"
  shows "con_resp_inv (tcp_openConResp full s)"
proof (cases "openConRespState s")
  case WAIT_STATUS
  with assms show ?thesis
    by (cases "waiting (s_axis_tcp_open_status s)")
      (simp_all add: con_resp_inv_def tcp_openConResp_def con_pending_def con_report_def Let_def)
qed (use assms in \<open>simp_all add: con_resp_inv_def tcp_openConResp_def con_pending_def\<close>)

interpretation con_resp: kernel con_resp_init con_resp_step con_resp_inv
proof
  fix s s' assume "con_resp_inv s" and "con_resp_step s s'"
  then show "con_resp_inv s'"
    by (auto elim!: con_resp_stepE simp: tcp_openConResp_inv)
      (auto simp: con_resp_inv_def con_pending_def split: openConRespStateType.split)
qed (simp add: con_resp_init_def con_resp_inv_def con_pending_def)

text \<open>With room on the status stream five calls bring a report through.\<close>

lemma con_report_through:
  assumes "openConRespState s = WAIT_STATUS" and "waiting (s_axis_tcp_open_status s) = d # ds"
  shows "\<exists>s'. (tcp_openConResp False ^^ 5) s = s' \<and> openConRespState s' = WAIT_STATUS \<and>
     waiting (s_axis_tcp_open_status s') = ds \<and> written (cr_sts s') = written (cr_sts s) @ con_report d"
  using assms by (simp add: numeral_eq_Suc tcp_openConResp_def Let_def con_report_def)

subsection \<open>Ports\<close>

datatype listenFsmStateType = OPEN_PORT | WAIT_PORT_STATUS | WR_STS

record open_port =
  listenState :: listenFsmStateType
  op_success :: u32
  op_cmd :: "u32 stream"
  op_sts :: "u32 stream"
  m_axis_tcp_listen_port :: "u16 stream"
  s_axis_tcp_port_status :: "u8 stream"

definition tcp_openPort :: "bool \<Rightarrow> open_port \<Rightarrow> open_port" where
  "tcp_openPort full s =
     (case listenState s of
        OPEN_PORT \<Rightarrow>
          (if is_empty (op_cmd s) then s
           else let port = ucast (front (op_cmd s)) :: u16 in
             s\<lparr>op_cmd := pop (op_cmd s), m_axis_tcp_listen_port := push port (m_axis_tcp_listen_port s),
               listenState := WAIT_PORT_STATUS\<rparr>)
      | WAIT_PORT_STATUS \<Rightarrow>
          (if is_empty (s_axis_tcp_port_status s) then s
           else s\<lparr>s_axis_tcp_port_status := pop (s_axis_tcp_port_status s),
                  op_success := ucast (front (s_axis_tcp_port_status s)), listenState := WR_STS\<rparr>)
      | WR_STS \<Rightarrow>
          (if full then s else s\<lparr>op_sts := push (op_success s) (op_sts s), listenState := OPEN_PORT\<rparr>))"

definition open_port_init :: "open_port \<Rightarrow> bool" where
  "open_port_init s \<longleftrightarrow> listenState s = OPEN_PORT \<and> op_cmd s = no_data \<and> op_sts s = no_data \<and>
     m_axis_tcp_listen_port s = no_data \<and> s_axis_tcp_port_status s = no_data"

text \<open>The kernel is called, the firmware asks or reads, the stack takes a port or answers.\<close>

inductive open_port_step :: "open_port \<Rightarrow> open_port \<Rightarrow> bool" where
  port_call: "open_port_step s (tcp_openPort full s)"
| port_ask: "open_port_step s (s\<lparr>op_cmd := push p (op_cmd s)\<rparr>)"
| port_read: "open_port_step s (s\<lparr>op_sts := pop (op_sts s)\<rparr>)"
| port_take: "open_port_step s (s\<lparr>m_axis_tcp_listen_port := pop (m_axis_tcp_listen_port s)\<rparr>)"
| port_answer: "open_port_step s (s\<lparr>s_axis_tcp_port_status := push a (s_axis_tcp_port_status s)\<rparr>)"

inductive_cases open_port_stepE: "open_port_step s s'"

text \<open>
  Every command taken has been passed on, truncated to a port number, every answer taken is on the status
  stream or about to be, and at most one command is unanswered.
\<close>

definition open_port_inv :: "open_port \<Rightarrow> bool" where
  "open_port_inv s \<longleftrightarrow>
     written (m_axis_tcp_listen_port s) = map ucast (consumed (op_cmd s)) \<and>
     written (op_sts s) @ (if listenState s = WR_STS then [op_success s] else []) =
       map ucast (consumed (s_axis_tcp_port_status s)) \<and>
     length (consumed (op_cmd s)) =
       length (consumed (s_axis_tcp_port_status s)) + (if listenState s = WAIT_PORT_STATUS then 1 else 0)"

lemma tcp_openPort_inv:
  assumes "open_port_inv s"
  shows "open_port_inv (tcp_openPort full s)"
proof (cases "listenState s")
  case OPEN_PORT
  with assms show ?thesis
    by (cases "waiting (op_cmd s)") (simp_all add: open_port_inv_def tcp_openPort_def Let_def)
next
  case WAIT_PORT_STATUS
  with assms show ?thesis
    by (cases "waiting (s_axis_tcp_port_status s)") (simp_all add: open_port_inv_def tcp_openPort_def)
qed (use assms in \<open>simp add: open_port_inv_def tcp_openPort_def\<close>)

interpretation open_port: kernel open_port_init open_port_step open_port_inv
proof
  fix s s' assume "open_port_inv s" and "open_port_step s s'"
  then show "open_port_inv s'"
    by (auto elim!: open_port_stepE simp: tcp_openPort_inv) (auto simp: open_port_inv_def split: if_splits)
qed (simp add: open_port_init_def open_port_inv_def)

subsection \<open>Properties\<close>

text \<open>However the calls of \<open>tcp_openConResp\<close>, the reports of the TCP stack and the reads of the firmware interleave, the
words written for the firmware, with those the kernel still holds, are the session, address, port and success words of the
reports taken so far, in that order and in the order of the reports.\<close>

lemma con_reports_in_order:
  assumes "con_resp_init s" and "con_resp_step\<^sup>*\<^sup>* s s'"
  shows "written (cr_sts s') @ con_pending s' = concat (map con_report (consumed (s_axis_tcp_open_status s')))"
  using con_resp.inv_reachable [OF assms] by (simp only: con_resp_inv_def)

definition con_resp_idle :: con_resp where
  "con_resp_idle = \<lparr>openConRespState = WAIT_STATUS, cr_session = 0, cr_success = 0, cr_ip = 0, cr_port = 0,
     s_axis_tcp_open_status = no_data, cr_sts = no_data\<rparr>"

end
