(* ===== verification/Demo_Stack.thy ===== *)
theory Demo_Stack
  imports Hls_Tx Hls_Rx Hls_Session
begin

text \<open>
  The stand-in for the TCP stack that the demo design builds, \<open>src/demo/build/hls/dummy_tcp_stack/dummy_tcp_stack.cpp\<close>:
  four processes that answer connection requests, listen requests, transmit requests and deliver what comes
  from the network. A call that would block in a write to a full stream stays where it is; \<open>full\<close> says that the
  stream the source tests is full, and \<open>junk\<close> is what an uninitialised packet held.
\<close>

subsection \<open>Connections and ports\<close>

record demo_con =
  sessionCnt :: u32
  dc_open_connection :: "u64 stream"
  dc_open_status :: "128 word stream"

definition open_con_handler :: "128 word \<Rightarrow> demo_con \<Rightarrow> demo_con" where
  "open_con_handler junk s =
     (if is_empty (dc_open_connection s) then s
      else let openConnection_pkt = front (dc_open_connection s);
               ip = get_range openConnection_pkt 31 0 :: u32;
               port = get_range openConnection_pkt 47 32 :: u16;
               open_status_pkt = set_range (set_range (set_range (set_range junk
                 15 0 (sessionCnt s)) 23 16 (1 :: u8)) 55 24 ip) 71 56 port
           in s\<lparr>dc_open_connection := pop (dc_open_connection s),
                dc_open_status := push open_status_pkt (dc_open_status s),
                sessionCnt := sessionCnt s + 1\<rparr>)"

definition listen_port_handler :: "u16 stream \<times> u8 stream \<Rightarrow> u16 stream \<times> u8 stream" where
  "listen_port_handler = (\<lambda>(listen_port, port_status).
     if is_empty listen_port then (listen_port, port_status) else (pop listen_port, push 1 port_status))"

subsection \<open>Transmitting\<close>

datatype txFsmStateType = WAIT_META | WRITE_STATUS | TX_DATA

record demo_tx =
  txFsmState :: txFsmStateType
  dt_session :: u16
  dt_length :: u16
  recvByte :: u16
  dt_tx_meta :: "u32 stream"
  dt_tx_data :: "axis stream"
  dt_tx_status :: "u64 stream"
  net_tx :: "axis stream"

definition demo_status :: "u64 \<Rightarrow> u16 \<Rightarrow> u16 \<Rightarrow> u64" where
  "demo_status junk session len =
     set_range (set_range (set_range (set_range junk 15 0 session) 31 16 len) 61 32 (8000 :: u32)) 63 62 (0 :: u8)"

definition demo_tx_handler :: "bool \<Rightarrow> u64 \<Rightarrow> demo_tx \<Rightarrow> demo_tx" where
  "demo_tx_handler full junk s =
     (case txFsmState s of
        WAIT_META \<Rightarrow>
          (if is_empty (dt_tx_meta s) then s
           else let tx_meta_pkt = front (dt_tx_meta s) in
             s\<lparr>dt_tx_meta := pop (dt_tx_meta s), dt_session := get_range tx_meta_pkt 15 0,
               dt_length := get_range tx_meta_pkt 31 16, txFsmState := WRITE_STATUS\<rparr>)
      | WRITE_STATUS \<Rightarrow>
          (if full then s
           else s\<lparr>dt_tx_status := push (demo_status junk (dt_session s) (dt_length s)) (dt_tx_status s),
                  txFsmState := TX_DATA\<rparr>)
      | TX_DATA \<Rightarrow>
          (if is_empty (dt_tx_data s) then s
           else let s' = s\<lparr>dt_tx_data := pop (dt_tx_data s), net_tx := push (front (dt_tx_data s)) (net_tx s),
                           recvByte := recvByte s + 64\<rparr>
             in (if recvByte s' \<ge> dt_length s' then s'\<lparr>recvByte := 0, txFsmState := WAIT_META\<rparr> else s')))"

subsection \<open>Receiving\<close>

datatype rxFsmStateType = BUFFER_HEADER | BUFFER_DATA | SEND_NOTI | WAIT_REQ | SEND_MSG

record demo_rx =
  rxFsmState :: rxFsmStateType
  payload_length :: u32
  msg_length :: u32
  dr_count :: u32
  rxDataBuffer :: "axis stream"
  net_rx :: "axis stream"
  dr_notification :: "128 word stream"
  dr_read_pkg :: "u32 stream"
  dr_rx_meta :: "u16 stream"
  dr_rx_data :: "axis stream"

text \<open>The buffer between the two halves of the process has a depth of 512 words.\<close>

definition buffer_full :: "demo_rx \<Rightarrow> bool" where
  "buffer_full s \<longleftrightarrow> 512 \<le> length (waiting (rxDataBuffer s))"

definition demo_notification :: "128 word \<Rightarrow> u32 \<Rightarrow> 128 word" where
  "demo_notification junk msg_len =
     set_range (set_range (set_range (set_range (set_range junk 15 0 (0 :: u16)) 31 16 msg_len) 63 32 (0 :: u32))
       79 64 (0 :: u16)) 80 80 (0 :: u8)"

definition demo_rx_handler :: "bool \<Rightarrow> 128 word \<Rightarrow> demo_rx \<Rightarrow> demo_rx" where
  "demo_rx_handler full junk s =
     (case rxFsmState s of
        BUFFER_HEADER \<Rightarrow>
          (if is_empty (net_rx s) \<or> buffer_full s then s
           else let inword = front (net_rx s); len = get_range (ax_data inword) 31 0 in
             s\<lparr>net_rx := pop (net_rx s), payload_length := len, msg_length := len + 64,
               rxDataBuffer := push inword (rxDataBuffer s), rxFsmState := BUFFER_DATA\<rparr>)
      | BUFFER_DATA \<Rightarrow>
          (if is_empty (net_rx s) \<or> buffer_full s then s
           else let inword = front (net_rx s);
                    s' = s\<lparr>net_rx := pop (net_rx s), rxDataBuffer := push inword (rxDataBuffer s),
                           dr_count := dr_count s + 64\<rparr>
             in (if sint (dr_count s') \<ge> sint (payload_length s')
                 then s'\<lparr>dr_count := 0, rxFsmState := SEND_NOTI\<rparr> else s'))
      | SEND_NOTI \<Rightarrow>
          (if full then s
           else s\<lparr>dr_notification := push (demo_notification junk (msg_length s)) (dr_notification s),
                  rxFsmState := WAIT_REQ\<rparr>)
      | WAIT_REQ \<Rightarrow>
          (if is_empty (dr_read_pkg s) then s
           else s\<lparr>dr_read_pkg := pop (dr_read_pkg s), dr_rx_meta := push 0 (dr_rx_meta s), rxFsmState := SEND_MSG\<rparr>)
      | SEND_MSG \<Rightarrow>
          (if is_empty (rxDataBuffer s) then s
           else let s' = s\<lparr>rxDataBuffer := pop (rxDataBuffer s),
                           dr_rx_data := push (front (rxDataBuffer s)) (dr_rx_data s), dr_count := dr_count s + 64\<rparr>
             in (if sint (dr_count s') \<ge> sint (msg_length s')
                 then s'\<lparr>dr_count := 0, msg_length := 0, payload_length := 0, rxFsmState := BUFFER_HEADER\<rparr>
                 else s')))"

text \<open>One run of all four, in the order in which the source lists the processes of its dataflow region.\<close>

definition network_krnl ::
    "128 word \<Rightarrow> bool \<Rightarrow> 128 word \<Rightarrow> bool \<Rightarrow> u64 \<Rightarrow> demo_con \<times> (u16 stream \<times> u8 stream) \<times> demo_rx \<times> demo_tx \<Rightarrow>
     demo_con \<times> (u16 stream \<times> u8 stream) \<times> demo_rx \<times> demo_tx" where
  "network_krnl open_junk noti_full noti_junk status_full status_junk = (\<lambda>(con, ports, rx, tx).
     (open_con_handler open_junk con, listen_port_handler ports, demo_rx_handler noti_full noti_junk rx,
      demo_tx_handler status_full status_junk tx))"

subsection \<open>What the processes do, alone\<close>

text \<open>Each process with its environment: words come on its inputs, its outputs are taken.\<close>

definition demo_con_init :: "demo_con \<Rightarrow> bool" where
  "demo_con_init s \<longleftrightarrow> sessionCnt s = 0 \<and> dc_open_connection s = no_data \<and> dc_open_status s = no_data"

inductive demo_con_step :: "demo_con \<Rightarrow> demo_con \<Rightarrow> bool" where
  dc_call: "demo_con_step s (open_con_handler junk s)"
| dc_ask: "demo_con_step s (s\<lparr>dc_open_connection := push r (dc_open_connection s)\<rparr>)"
| dc_taken: "demo_con_step s (s\<lparr>dc_open_status := pop (dc_open_status s)\<rparr>)"

inductive_cases demo_con_stepE: "demo_con_step s s'"

text \<open>The report of the \<open>i\<close>-th connection: session, address, port and success.\<close>

definition con_granted :: "nat \<Rightarrow> u64 \<Rightarrow> u32 list" where
  "con_granted i r = [ucast (of_nat i :: u16), get_range r 31 0, get_range r 47 32, 1]"

definition demo_con_inv :: "demo_con \<Rightarrow> bool" where
  "demo_con_inv s \<longleftrightarrow> sessionCnt s = of_nat (length (consumed (dc_open_connection s))) \<and>
     map con_report (written (dc_open_status s)) =
       map (\<lambda>i. con_granted i (consumed (dc_open_connection s) ! i)) [0..<length (consumed (dc_open_connection s))]"

lemma con_report_granted:
  "con_report (set_range (set_range (set_range (set_range junk 15 0 (of_nat i :: u32)) 23 16 (1 :: u8))
     55 24 (get_range r 31 0 :: u32)) 71 56 (get_range r 47 32 :: u16)) = con_granted i r"
proof -
  have "(of_nat i :: u16) = ucast (of_nat i :: u32)" by (simp add: word_unat_eq_iff unsigned_ucast_eq unat_of_nat take_bit_eq_mod mod_mod_cancel)
  moreover have "bit (1 :: u8) n \<longleftrightarrow> bit (1 :: u32) n" for n by (auto simp: bit_simps)
  ultimately show ?thesis
    unfolding con_report_def con_granted_def
    by (auto intro!: bit_word_eqI simp: bit_get_range bit_set_range bit_simps not_less)
qed


lemma con_granted_nth: "map (\<lambda>i. con_granted i ((xs @ [x]) ! i)) [0..<length xs] = map (\<lambda>i. con_granted i (xs ! i)) [0..<length xs]"
  by (rule map_cong) (simp_all add: nth_append)

lemma open_con_handler_inv:
  assumes "demo_con_inv s"
  shows "demo_con_inv (open_con_handler junk s)"
  using assms
  by (cases "waiting (dc_open_connection s)")
    (simp_all add: demo_con_inv_def open_con_handler_def Let_def con_report_granted con_granted_nth)

interpretation demo_con: kernel demo_con_init demo_con_step demo_con_inv
proof
  fix s s' assume inv: "demo_con_inv s" and "demo_con_step s s'"
  from this(2) show "demo_con_inv s'"
    by (rule demo_con_stepE) (use inv in \<open>auto simp: open_con_handler_inv\<close>, simp_all add: demo_con_inv_def)
qed (simp add: demo_con_init_def demo_con_inv_def)

text \<open>The transmitting process on its own: how many words each request lets through.\<close>

lemma recvByte_step:
  fixes r len :: u16
  assumes "unat len \<le> 65472" and "unat r = 64 * n" and "64 * n < unat len"
  shows "unat (r + 64) = 64 * Suc n"
  using assms by (simp add: unat_word_ariths)

definition demo_tx_left :: "demo_tx \<Rightarrow> nat" where
  "demo_tx_left s = (if txFsmState s = WAIT_META then 0
     else max 1 (nsegs 64 (unat (dt_length s))) - unat (recvByte s) div 64)"

text \<open>A request for more than 65472 bytes is never finished: the 16-bit counter wraps to 0 before it gets there.\<close>

definition demo_tx_stuck :: "demo_tx \<Rightarrow> bool" where
  "demo_tx_stuck s \<longleftrightarrow> txFsmState s = TX_DATA \<and> 65472 < unat (dt_length s) \<and> 64 dvd unat (recvByte s)"

lemma demo_tx_stuck_step:
  assumes "demo_tx_stuck s"
  shows "demo_tx_stuck (demo_tx_handler full junk s)"
proof (cases "waiting (dt_tx_data s)")
  case (Cons w ws)
  from assms obtain n where n: "unat (recvByte s) = 64 * n" by (auto simp: demo_tx_stuck_def)
  have "unat (recvByte s + 64) = (unat (recvByte s) + 64) mod 65536" by (simp add: unat_word_ariths)
  also have "unat (recvByte s) + 64 = 64 * Suc n" using n by simp
  also have "64 * Suc n mod 65536 = (64 * Suc n) mod (64 * 1024)" by simp
  also have "\<dots> = 64 * (Suc n mod 1024)" by (rule mult_mod_right [symmetric])
  finally have "unat (recvByte s + 64) = 64 * (Suc n mod 1024)" .
  moreover have "64 * (Suc n mod 1024) \<le> 65472" by (simp add: less_Suc_eq_le [symmetric])
  ultimately show ?thesis
    using assms Cons by (auto simp: demo_tx_stuck_def demo_tx_handler_def Let_def word_le_nat_alt)
qed (use assms in \<open>simp add: demo_tx_stuck_def demo_tx_handler_def\<close>)


subsection \<open>Messages through the receiving process\<close>

text \<open>
  A message as the packetizer sends it: a header whose lowest word is the number of payload bytes, and the
  payload. There is payload, and header and payload fit the buffer.
\<close>

definition header_bytes :: "axis \<Rightarrow> nat" where
  "header_bytes w = unat (get_range (ax_data w) 31 0 :: u32)"

definition demo_message :: "axis list \<Rightarrow> bool" where
  "demo_message m \<longleftrightarrow> m \<noteq> [] \<and> 0 < header_bytes (hd m) \<and> length m = Suc (nsegs 64 (header_bytes (hd m))) \<and>
     length m \<le> 512"

text \<open>The length that is notified: header and payload.\<close>

definition notified :: "axis list \<Rightarrow> nat" where
  "notified m = header_bytes (hd m) + 64"

definition demo_rx_init :: "demo_rx \<Rightarrow> bool" where
  "demo_rx_init s \<longleftrightarrow> rxFsmState s = BUFFER_HEADER \<and> dr_count s = 0 \<and> rxDataBuffer s = no_data \<and> net_rx s = no_data \<and>
     dr_notification s = no_data \<and> dr_read_pkg s = no_data \<and> dr_rx_meta s = no_data \<and> dr_rx_data s = no_data"

inductive demo_rx_step :: "demo_rx \<Rightarrow> demo_rx \<Rightarrow> bool" where
  dr_call: "demo_rx_step s (demo_rx_handler full junk s)"
| dr_arrive: "demo_rx_step s (s\<lparr>net_rx := push w (net_rx s)\<rparr>)"
| dr_request: "demo_rx_step s (s\<lparr>dr_read_pkg := push r (dr_read_pkg s)\<rparr>)"
| dr_noti_taken: "demo_rx_step s (s\<lparr>dr_notification := pop (dr_notification s)\<rparr>)"
| dr_meta_taken: "demo_rx_step s (s\<lparr>dr_rx_meta := pop (dr_rx_meta s)\<rparr>)"
| dr_data_taken: "demo_rx_step s (s\<lparr>dr_rx_data := pop (dr_rx_data s)\<rparr>)"

inductive_cases demo_rx_stepE: "demo_rx_step s s'"

text \<open>
  With the messages \<open>before\<close> delivered, the process works on \<open>m\<close>: \<open>i\<close> of its words have been
  taken from the network and \<open>j\<close> have been passed on.
\<close>

definition demo_rx_at :: "demo_rx \<Rightarrow> axis list list \<Rightarrow> axis list \<Rightarrow> nat \<Rightarrow> nat \<Rightarrow> bool" where
  "demo_rx_at s before m i j \<longleftrightarrow>
     (case rxFsmState s of
        BUFFER_HEADER \<Rightarrow> i = 0 \<and> j = 0 \<and> dr_count s = 0
      | BUFFER_DATA \<Rightarrow> 0 < i \<and> i < length m \<and> j = 0 \<and> unat (dr_count s) = 64 * (i - 1)
      | SEND_NOTI \<Rightarrow> i = length m \<and> j = 0 \<and> dr_count s = 0
      | WAIT_REQ \<Rightarrow> i = length m \<and> j = 0 \<and> dr_count s = 0
      | SEND_MSG \<Rightarrow> i = length m \<and> j < length m \<and> unat (dr_count s) = 64 * j) \<and>
     (rxFsmState s \<noteq> BUFFER_HEADER \<longrightarrow> demo_message m \<and> unat (payload_length s) = header_bytes (hd m) \<and>
        unat (msg_length s) = notified m) \<and>
     consumed (net_rx s) = concat before @ take i m \<and> waiting (rxDataBuffer s) = drop j (take i m) \<and>
     written (dr_rx_data s) = concat before @ take j m \<and>
     map (\<lambda>n. unat (noti_length n)) (written (dr_notification s)) =
       map (\<lambda>m. notified m mod 2 ^ 16) (before @ (if rxFsmState s \<in> {WAIT_REQ, SEND_MSG} then [m] else [])) \<and>
     length (written (dr_rx_meta s)) = length before + (if rxFsmState s = SEND_MSG then 1 else 0) \<and>
     length (consumed (dr_read_pkg s)) = length (written (dr_rx_meta s))"

lemma noti_length_demo: "unat (noti_length (demo_notification junk len)) = unat len mod 2 ^ 16"
proof -
  have "noti_length (demo_notification junk len) = ucast len"
    unfolding noti_length_def demo_notification_def
    by (rule bit_word_eqI) (auto simp: bit_get_range bit_set_range bit_simps)
  then show ?thesis by (simp add: unsigned_ucast_eq take_bit_eq_mod)
qed

lemma sint_small:
  assumes "unat (x :: u32) < 2 ^ 31"
  shows "sint x = int (unat x)"
proof -
  have "uint x = int (unat x)" by simp
  moreover have "int (unat x) < int (2 ^ 31)" using assms by (simp only: of_nat_less_iff)
  ultimately have u: "0 \<le> uint x" "uint x < 2147483648" by simp_all
  have "sint x = (uint x + 2147483648) mod 4294967296 - 2147483648"
    using int_word_sint [where 'a = 32, of "uint x"] by (simp only: word_of_int_uint len_num1 len_num0 len_bit0 len_bit1) simp
  also have "\<dots> = uint x" using u by (subst mod_pos_pos_trivial) linarith+
  finally show ?thesis by simp
qed


lemma demo_message_length:
  assumes "demo_message m"
  shows "0 < header_bytes (hd m)" and "header_bytes (hd m) \<le> 32704" and "1 < length m" and "length m \<le> 512"
    and "Suc i < length m \<longleftrightarrow> 64 * i < header_bytes (hd m)" and "i < length m \<longleftrightarrow> 64 * i < notified m"
proof -
  let ?n = "header_bytes (hd m)"
  from assms have n: "0 < ?n" "length m = Suc (nsegs 64 ?n)" "nsegs 64 ?n \<le> 511" by (auto simp: demo_message_def)
  have iff: "i < nsegs 64 ?n \<longleftrightarrow> 64 * i < ?n" for i using nsegs_iff [of 64 i ?n] by (simp add: mult.commute)
  show "0 < ?n" by (rule n(1))
  show "?n \<le> 32704" using iff [of 511] n(3) by simp
  show "1 < length m" using n iff [of 0] by simp
  show "length m \<le> 512" using n by simp
  show "Suc i < length m \<longleftrightarrow> 64 * i < ?n" using n iff by simp
  show "i < length m \<longleftrightarrow> 64 * i < notified m"
    using n iff [of "i - 1"] by (cases i) (simp_all add: notified_def)
qed

lemma sint_geq:
  assumes "unat (a :: u32) < 2 ^ 31" and "unat (b :: u32) < 2 ^ 31"
  shows "sint b \<le> sint a \<longleftrightarrow> unat b \<le> unat a"
  using assms by (simp only: sint_small of_nat_le_iff)

text \<open>The counter of the process, and its comparison with a length.\<close>

lemma count_step:
  fixes c len :: u32
  assumes "unat c = 64 * k" and "k \<le> 512" and "unat len \<le> 32768"
  shows "unat (c + 64) = 64 * Suc k" and "sint len \<le> sint (c + 64) \<longleftrightarrow> \<not> 64 * Suc k < unat len"
proof -
  show *: "unat (c + 64) = 64 * Suc k" using assms by (simp add: unat_word_ariths)
  have "unat (c + 64) < 2 ^ 31" "unat len < 2 ^ 31" using * assms by simp_all
  then have "sint len \<le> sint (c + 64) \<longleftrightarrow> unat len \<le> unat (c + 64)" by (rule sint_geq)
  then show "sint len \<le> sint (c + 64) \<longleftrightarrow> \<not> 64 * Suc k < unat len" by (simp only: * not_less)
qed

definition demo_rx_inv :: "axis list list \<Rightarrow> demo_rx \<Rightarrow> bool" where
  "demo_rx_inv msgs s \<longleftrightarrow> (\<exists>before m i j. demo_rx_at s before m i j \<and>
     prefix (if rxFsmState s = BUFFER_HEADER then before else before @ [m]) msgs)"

lemma demo_rx_invI:
  "\<lbrakk> demo_rx_at s before m i j; prefix (if rxFsmState s = BUFFER_HEADER then before else before @ [m]) msgs \<rbrakk> \<Longrightarrow>
     demo_rx_inv msgs s"
  unfolding demo_rx_inv_def by blast

text \<open>The word the process would take next is the one the messages have at this place.\<close>

definition next_word_of :: "axis list list \<Rightarrow> demo_rx \<Rightarrow> bool" where
  "next_word_of msgs s \<longleftrightarrow> (\<forall>w ws. waiting (net_rx s) = w # ws \<longrightarrow> prefix (consumed (net_rx s) @ [w]) (concat msgs))"

lemma next_word_written: "prefix (written (net_rx s)) (concat msgs) \<Longrightarrow> next_word_of msgs s"
  by (auto simp: next_word_of_def written_def prefix_def)

lemma demo_rx_header:
  assumes "demo_rx_at s before m0 i j" and "rxFsmState s = BUFFER_HEADER" and "prefix before msgs"
    and "next_word_of msgs s" and "list_all demo_message msgs"
  shows "demo_rx_inv msgs (demo_rx_handler full junk s)"
proof (cases "waiting (net_rx s)")
  case Nil
  then have "demo_rx_handler full junk s = s" using assms(2) by (simp add: demo_rx_handler_def)
  with assms show ?thesis by (auto simp: demo_rx_inv_def)
next
  case (Cons w ws)
  from assms(3) obtain rest where rest: "msgs = before @ rest" by (auto simp: prefix_def)
  from assms(1,2) have at: "consumed (net_rx s) = concat before" "waiting (rxDataBuffer s) = []"
    by (auto simp: demo_rx_at_def)
  with assms(4) Cons rest have pre: "prefix [w] (concat rest)" by (simp add: next_word_of_def)
  then obtain m rest' where m: "rest = m # rest'" by (cases rest) auto
  with assms(5) rest have msg: "demo_message m" by simp
  with pre m have w: "w = hd m" by (cases m) (auto simp: demo_message_def)
  note len = demo_message_length [OF msg]
  let ?t = "demo_rx_handler full junk s"
  have t: "?t = s\<lparr>net_rx := pop (net_rx s), payload_length := get_range (ax_data w) 31 0,
      msg_length := get_range (ax_data w) 31 0 + 64, rxDataBuffer := push w (rxDataBuffer s), rxFsmState := BUFFER_DATA\<rparr>"
    using assms(2) Cons at by (simp add: demo_rx_handler_def Let_def buffer_full_def)
  have "unat (get_range (ax_data w) 31 0 + 64 :: u32) = notified m"
    using len(2) w by (simp add: notified_def header_bytes_def unat_word_ariths)
  moreover have "take (Suc 0) m = [w]" using w len(3) by (cases m) auto
  ultimately have "demo_rx_at ?t before m 1 0"
    using assms(1,2) Cons msg len w unfolding t by (simp add: demo_rx_at_def header_bytes_def)
  moreover have "prefix (before @ [m]) msgs" using rest m by simp
  ultimately show ?thesis unfolding demo_rx_inv_def t by (intro exI [of _ before] exI [of _ m]) auto
qed

lemma demo_rx_data:
  assumes "demo_rx_at s before m i j" and "rxFsmState s = BUFFER_DATA" and "prefix (before @ [m]) msgs"
    and "next_word_of msgs s"
  shows "demo_rx_inv msgs (demo_rx_handler full junk s)"
proof (cases "waiting (net_rx s) = [] \<or> buffer_full s")
  case True
  then have "demo_rx_handler full junk s = s" using assms(2) by (auto simp: demo_rx_handler_def)
  with assms show ?thesis by (auto simp: demo_rx_inv_def)
next
  case False
  then obtain w ws where Cons: "waiting (net_rx s) = w # ws" by (auto simp: neq_Nil_conv)
  from assms(1,2) have at: "consumed (net_rx s) = concat before @ take i m" "waiting (rxDataBuffer s) = take i m"
    "0 < i" "i < length m" "j = 0" "unat (dr_count s) = 64 * (i - 1)" "demo_message m"
    "unat (payload_length s) = header_bytes (hd m)"
    by (auto simp: demo_rx_at_def)
  from assms(3) obtain rest where rest: "msgs = before @ m # rest" by (auto simp: prefix_def)
  with assms(4) at Cons have "prefix (take i m @ [w]) (m @ concat rest)" by (simp add: next_word_of_def)
  then have "prefix [w] (drop i m @ concat rest)"
    by (metis append_assoc append_take_drop_id same_prefix_prefix)
  then have w: "w = m ! i" using at(4) by (simp add: Cons_nth_drop_Suc [symmetric])
  note len = demo_message_length [OF at(7)]
  have "unat (payload_length s) \<le> 32768" "i - 1 \<le> 512" using at(4,8) len(2,4) by linarith+
  note step = count_step [OF at(6) this(2,1), unfolded at(8)]
  have i: "Suc (i - 1) = i" using at(3) by simp
  let ?s = "s\<lparr>net_rx := pop (net_rx s), rxDataBuffer := push w (rxDataBuffer s), dr_count := dr_count s + 64\<rparr>"
  have take: "take (Suc i) m = take i m @ [w]" using w at(4) by (simp add: take_Suc_conv_app_nth)
  show ?thesis
  proof (cases "Suc i < length m")
    case True
    then have "demo_rx_handler full junk s = ?s"
      using assms(2) Cons False step(2) len(5) i by (simp add: demo_rx_handler_def Let_def del: mult_Suc_right)
    moreover have "demo_rx_at ?s before m (Suc i) 0"
      using assms(1,2) Cons True at step(1) take i by (simp add: demo_rx_at_def del: mult_Suc_right)
    ultimately show ?thesis using assms(2,3) unfolding demo_rx_inv_def
      by (intro exI [of _ before] exI [of _ m] exI [of _ "Suc i"] exI [of _ 0]) simp
  next
    case False': False
    then have all: "Suc i = length m" using at(4) by simp
    let ?t = "?s\<lparr>dr_count := 0, rxFsmState := SEND_NOTI\<rparr>"
    have "demo_rx_handler full junk s = ?t"
      using assms(2) Cons False False' step(2) len(5) i by (simp add: demo_rx_handler_def Let_def del: mult_Suc_right)
    moreover have "demo_rx_at ?t before m (length m) 0"
      using assms(1,2) Cons at take all by (simp add: demo_rx_at_def)
    ultimately show ?thesis using assms(2,3) unfolding demo_rx_inv_def
      by (intro exI [of _ before] exI [of _ m] exI [of _ "length m"] exI [of _ 0]) simp
  qed
qed

lemma demo_rx_rest:
  assumes "demo_rx_at s before m i j" and "rxFsmState s \<in> {SEND_NOTI, WAIT_REQ, SEND_MSG}" and "prefix (before @ [m]) msgs"
  shows "demo_rx_inv msgs (demo_rx_handler full junk s)"
proof (cases "demo_rx_handler full junk s = s")
  case True
  with assms show ?thesis by (auto intro: demo_rx_invI)
next
  case moved: False
  let ?t = "demo_rx_handler full junk s"
  consider "rxFsmState s = SEND_NOTI" | "rxFsmState s = WAIT_REQ" | "rxFsmState s = SEND_MSG" using assms(2) by auto
  then show ?thesis
  proof cases
    case 1
    with moved have "\<not> full" by (auto simp: demo_rx_handler_def)
    with 1 have "demo_rx_at ?t before m i j \<and> rxFsmState ?t = WAIT_REQ"
      using assms(1) by (simp add: demo_rx_at_def demo_rx_handler_def noti_length_demo)
    with assms(3) show ?thesis by (auto intro: demo_rx_invI)
  next
    case 2
    with moved obtain r rs where "waiting (dr_read_pkg s) = r # rs"
      by (cases "waiting (dr_read_pkg s)") (auto simp: demo_rx_handler_def)
    with 2 have "demo_rx_at ?t before m i j \<and> rxFsmState ?t = SEND_MSG"
      using assms(1) demo_message_length(3) [of m] by (auto simp: demo_rx_at_def demo_rx_handler_def)
    with assms(3) show ?thesis by (auto intro: demo_rx_invI)
  next
    case 3
    from assms(1) 3 have at: "waiting (rxDataBuffer s) = drop j m" "i = length m" "j < length m"
      "unat (dr_count s) = 64 * j" "demo_message m" "unat (msg_length s) = notified m"
      by (auto simp: demo_rx_at_def)
    then have "waiting (rxDataBuffer s) = m ! j # drop (Suc j) m" by (simp add: Cons_nth_drop_Suc)
    then have buf: "waiting (rxDataBuffer s) \<noteq> []" "front (rxDataBuffer s) = m ! j"
      "waiting (pop (rxDataBuffer s)) = drop (Suc j) m" by simp_all
    note len = demo_message_length [OF at(5)]
    have "j \<le> 512" "unat (msg_length s) \<le> 32768" using at len(2,4) by (simp_all add: notified_def)
    note step = count_step [OF at(4) this, unfolded at(6)]
    let ?s = "s\<lparr>rxDataBuffer := pop (rxDataBuffer s), dr_rx_data := push (m ! j) (dr_rx_data s), dr_count := dr_count s + 64\<rparr>"
    show ?thesis
    proof (cases "Suc j < length m")
      case True
      then have "?t = ?s" using 3 buf step(2) len(6) by (simp add: demo_rx_handler_def Let_def del: mult_Suc_right)
      moreover have "demo_rx_at ?s before m i (Suc j)"
        using assms(1) 3 buf True at step(1) by (simp add: demo_rx_at_def take_Suc_conv_app_nth del: mult_Suc_right)
      ultimately show ?thesis using 3 assms(3) unfolding demo_rx_inv_def
        by (intro exI [of _ before] exI [of _ m] exI [of _ i] exI [of _ "Suc j"]) simp
    next
      case False
      then have all: "Suc j = length m" using at(3) by simp
      let ?u = "?s\<lparr>dr_count := 0, msg_length := 0, payload_length := 0, rxFsmState := BUFFER_HEADER\<rparr>"
      have "?t = ?u" using 3 buf False step(2) len(6) by (simp add: demo_rx_handler_def Let_def del: mult_Suc_right)
      moreover have "take j m @ [m ! j] = m" using all by (metis lessI take_Suc_conv_app_nth take_all_iff order_refl)
      then have "demo_rx_at ?u (before @ [m]) [] 0 0"
        using assms(1) 3 buf at all by (simp add: demo_rx_at_def)
      ultimately show ?thesis using assms(3) unfolding demo_rx_inv_def
        by (intro exI [of _ "before @ [m]"] exI [of _ "[]"] exI [of _ 0]) simp
    qed
  qed
qed


lemma demo_rx_handler_inv:
  assumes "demo_rx_inv msgs s" and "next_word_of msgs s" and "list_all demo_message msgs"
  shows "demo_rx_inv msgs (demo_rx_handler full junk s)"
proof -
  from assms(1) obtain before m i j where at: "demo_rx_at s before m i j"
    and pre: "prefix (if rxFsmState s = BUFFER_HEADER then before else before @ [m]) msgs"
    by (auto simp: demo_rx_inv_def)
  show ?thesis
  proof (cases "rxFsmState s")
    case BUFFER_HEADER
    with demo_rx_header [OF at this _ assms(2,3)] pre show ?thesis by simp
  next
    case BUFFER_DATA
    with demo_rx_data [OF at this _ assms(2)] pre show ?thesis by simp
  qed (use demo_rx_rest [OF at] pre in simp_all)
qed

text \<open>The environment leaves the account alone, and what has been written only grows.\<close>

lemma demo_rx_handler_net [simp]: "written (net_rx (demo_rx_handler full junk s)) = written (net_rx s)"
  by (cases "rxFsmState s") (simp_all add: demo_rx_handler_def Let_def)

lemma demo_rx_at_other [simp]:
  "demo_rx_at (s\<lparr>net_rx := push w (net_rx s)\<rparr>) before m i j = demo_rx_at s before m i j"
  "demo_rx_at (s\<lparr>dr_read_pkg := push r (dr_read_pkg s)\<rparr>) before m i j = demo_rx_at s before m i j"
  "demo_rx_at (s\<lparr>dr_notification := pop (dr_notification s)\<rparr>) before m i j = demo_rx_at s before m i j"
  "demo_rx_at (s\<lparr>dr_rx_meta := pop (dr_rx_meta s)\<rparr>) before m i j = demo_rx_at s before m i j"
  "demo_rx_at (s\<lparr>dr_rx_data := pop (dr_rx_data s)\<rparr>) before m i j = demo_rx_at s before m i j"
  by (cases "rxFsmState s"; simp add: demo_rx_at_def)+

lemma demo_rx_step_inv:
  assumes "demo_rx_step s s'" and "demo_rx_inv msgs s" and "next_word_of msgs s" and "list_all demo_message msgs"
  shows "demo_rx_inv msgs s'"
  using assms(1)
proof (cases rule: demo_rx_step.cases)
  case (dr_call full junk)
  with assms show ?thesis by (simp add: demo_rx_handler_inv)
qed (use assms(2) in \<open>simp_all add: demo_rx_inv_def\<close>)

lemma demo_rx_written_grows: "demo_rx_step s s' \<Longrightarrow> prefix (written (net_rx s)) (written (net_rx s'))"
  by (auto elim: demo_rx_stepE)

lemma demo_rx_reachable:
  assumes "demo_rx_step\<^sup>*\<^sup>* s s'" and "demo_rx_init s" and "prefix (written (net_rx s')) (concat msgs)"
    and "list_all demo_message msgs"
  shows "demo_rx_inv msgs s'"
  using assms(1,3)
proof (induction rule: rtranclp_induct)
  case base
  have "demo_rx_at s [] [] 0 0" using assms(2) by (simp add: demo_rx_init_def demo_rx_at_def)
  with assms(2) show ?case by (auto simp: demo_rx_init_def intro: demo_rx_invI)
next
  case (step t u)
  then have "prefix (written (net_rx t)) (concat msgs)"
    by (meson demo_rx_written_grows prefix_order.trans)
  then have "demo_rx_inv msgs t" by (rule step.IH)
  from demo_rx_step_inv [OF step.hyps(2) this next_word_written assms(4)] \<open>prefix (written (net_rx t)) (concat msgs)\<close>
  show ?case by blast
qed

text \<open>What the account says to the outside.\<close>

lemma demo_rx_delivered:
  assumes "demo_rx_inv msgs s"
  shows "\<exists>n \<le> length msgs. map (\<lambda>n. unat (noti_length n)) (written (dr_notification s)) = map (\<lambda>m. notified m mod 2 ^ 16) (take n msgs) \<and>
     prefix (concat (take n msgs)) (consumed (net_rx s)) \<and>
     length (written (dr_rx_meta s)) = length (consumed (dr_read_pkg s)) \<and>
     length (consumed (dr_read_pkg s)) \<le> n \<and> prefix (written (dr_rx_data s)) (concat (take (length (consumed (dr_read_pkg s))) msgs))"
proof -
  from assms obtain before m i j where at: "demo_rx_at s before m i j"
    and pre: "prefix (if rxFsmState s = BUFFER_HEADER then before else before @ [m]) msgs"
    by (auto simp: demo_rx_inv_def)
  from pre obtain rest where rest: "msgs = (if rxFsmState s = BUFFER_HEADER then before else before @ [m]) @ rest"
    by (auto simp: prefix_def)
  let ?n = "length before + (if rxFsmState s \<in> {WAIT_REQ, SEND_MSG} then 1 else 0)"
  show ?thesis
    by (rule exI [of _ ?n], use at rest in \<open>cases "rxFsmState s"\<close>)
      (auto simp: demo_rx_at_def take_is_prefix)
qed

text \<open>A message with header \<open>h\<close> that does not fit the buffer, after the messages \<open>ms\<close>: they have been delivered, the buffer fills with
the words of the long message, and when it is full the process never moves again.\<close>

definition demo_rx_jam :: "axis list list \<Rightarrow> axis \<Rightarrow> demo_rx \<Rightarrow> bool" where
  "demo_rx_jam ms h s \<longleftrightarrow> rxFsmState s = BUFFER_DATA \<and> payload_length s = get_range (ax_data h) 31 0 \<and>
     (\<exists>n < 512. length (waiting (rxDataBuffer s)) = Suc n \<and> unat (dr_count s) = 64 * n \<and>
        length (consumed (net_rx s)) = length (concat ms) + Suc n) \<and>
     map (\<lambda>n. unat (noti_length n)) (written (dr_notification s)) = map (\<lambda>m. notified m mod 2 ^ 16) ms \<and>
     written (dr_rx_data s) = concat ms"

lemma demo_rx_jam_call:
  assumes "demo_rx_jam ms h s" and "32704 < header_bytes h" and "header_bytes h < 2 ^ 31"
  shows "demo_rx_jam ms h (demo_rx_handler full junk s)"
proof -
  from assms(1) obtain n where n: "n < 512" "length (waiting (rxDataBuffer s)) = Suc n" "unat (dr_count s) = 64 * n"
    "length (consumed (net_rx s)) = length (concat ms) + Suc n" "payload_length s = get_range (ax_data h) 31 0" "rxFsmState s = BUFFER_DATA"
    by (auto simp: demo_rx_jam_def)
  show ?thesis
  proof (cases "waiting (net_rx s) = [] \<or> buffer_full s")
    case True
    with n(6) have "demo_rx_handler full junk s = s" by (auto simp: demo_rx_handler_def)
    with assms(1) show ?thesis by simp
  next
    case False
    with n have m: "Suc n < 512" by (simp add: buffer_full_def)
    from n have c: "unat (dr_count s + 64) = 64 * Suc n" by (simp add: unat_word_ariths)
    have "sint (payload_length s) \<le> sint (dr_count s + 64) \<longleftrightarrow> unat (payload_length s) \<le> unat (dr_count s + 64)"
      using c m n(5) assms(3) by (intro sint_geq) (simp_all add: header_bytes_def)
    then have "\<not> sint (payload_length s) \<le> sint (dr_count s + 64)"
      using c m n(5) assms(2) by (simp add: header_bytes_def)
    with False n m c assms(1) show ?thesis
      by (auto simp: demo_rx_jam_def demo_rx_handler_def Let_def neq_Nil_conv intro!: exI [of _ "Suc n"])
  qed
qed

text \<open>With all of \<open>ms\<close> taken and \<open>h\<close> next, the process is between two messages.\<close>

lemma demo_rx_at_end:
  assumes "demo_rx_inv ms s" and "\<not> next_word_of ms s" and "prefix (written (net_rx s)) (concat ms @ h # ws)"
    and "list_all demo_message ms" and "rxFsmState s \<in> {BUFFER_HEADER, BUFFER_DATA}"
  shows "demo_rx_at s ms [] 0 0 \<and> rxFsmState s = BUFFER_HEADER \<and> (\<exists>vs. waiting (net_rx s) = h # vs)"
proof -
  from assms(2) obtain v vs where v: "waiting (net_rx s) = v # vs" "\<not> prefix (consumed (net_rx s) @ [v]) (concat ms)"
    by (auto simp: next_word_of_def)
  with assms(3) have next_in: "prefix (consumed (net_rx s) @ [v]) (concat ms @ h # ws)" by (auto simp: written_def prefix_def)
  from assms(1) obtain before m i j where at: "demo_rx_at s before m i j"
    and pre: "prefix (if rxFsmState s = BUFFER_HEADER then before else before @ [m]) ms"
    by (auto simp: demo_rx_inv_def)
  from pre obtain rest where rest: "ms = (if rxFsmState s = BUFFER_HEADER then before else before @ [m]) @ rest"
    by (auto simp: prefix_def)
  have none_left: "more = [] \<and> v = h" if "concat ms = consumed (net_rx s) @ more" for more
    using next_in v(2) that by (cases more) auto
  show ?thesis
  proof (cases "rxFsmState s = BUFFER_HEADER")
    case True
    with at have at': "consumed (net_rx s) = concat before" "i = 0" "j = 0" by (simp_all add: demo_rx_at_def)
    from rest True have ms: "ms = before @ rest" by simp
    with at'(1) none_left [of "concat rest"] have none: "concat rest = []" "v = h" by simp_all
    with assms(4) ms have "rest = []" by (cases rest) (auto simp: demo_message_def)
    with at at' ms True none(2) v(1) show ?thesis by (simp add: demo_rx_at_def)
  next
    case False
    with assms(5) at have at': "consumed (net_rx s) = concat before @ take i m" "i < length m" by (auto simp: demo_rx_at_def)
    from rest False have "ms = before @ m # rest" by simp
    with at'(1) have "concat ms = consumed (net_rx s) @ drop i m @ concat rest" by simp
    from none_left [OF this] at'(2) show ?thesis by simp
  qed
qed

lemma demo_rx_jam_starts:
  assumes "demo_rx_at s ms [] 0 0" and "rxFsmState s = BUFFER_HEADER" and "waiting (net_rx s) = h # vs"
  shows "demo_rx_jam ms h (demo_rx_handler full junk s)"
  using assms by (auto simp: demo_rx_jam_def demo_rx_at_def demo_rx_handler_def Let_def buffer_full_def)

lemma demo_rx_jam_step:
  assumes "demo_rx_step s s'" and "demo_rx_inv ms s \<or> demo_rx_jam ms h s" and "prefix (written (net_rx s')) (concat ms @ h # ws)"
    and "list_all demo_message ms" and "32704 < header_bytes h" and "header_bytes h < 2 ^ 31"
  shows "demo_rx_inv ms s' \<or> demo_rx_jam ms h s'"
  using assms(2)
proof
  assume jam: "demo_rx_jam ms h s"
  from assms(1) have "demo_rx_jam ms h s'"
  proof (cases rule: demo_rx_step.cases)
    case (dr_call full junk)
    with demo_rx_jam_call [OF jam assms(5,6)] show ?thesis by simp
  qed (use jam in \<open>simp_all add: demo_rx_jam_def\<close>)
  then show ?thesis ..
next
  assume inv: "demo_rx_inv ms s"
  from assms(1,3) have pre: "prefix (written (net_rx s)) (concat ms @ h # ws)"
    by (meson demo_rx_written_grows prefix_order.trans)
  from assms(1) show ?thesis
  proof (cases rule: demo_rx_step.cases)
    case (dr_call full junk)
    show ?thesis
    proof (cases "next_word_of ms s")
      case True
      with inv assms(4) show ?thesis unfolding dr_call by (blast intro: demo_rx_handler_inv)
    next
      case False
      show ?thesis
      proof (cases "rxFsmState s \<in> {BUFFER_HEADER, BUFFER_DATA}")
        case True
        from demo_rx_at_end [OF inv False pre assms(4) True] show ?thesis unfolding dr_call by (blast intro: demo_rx_jam_starts)
      next
        case False
        moreover from inv False obtain before m i j where "demo_rx_at s before m i j" "prefix (before @ [m]) ms"
          by (auto simp: demo_rx_inv_def)
        moreover from False have "rxFsmState s \<in> {SEND_NOTI, WAIT_REQ, SEND_MSG}" by (cases "rxFsmState s") simp_all
        ultimately show ?thesis unfolding dr_call by (blast intro: demo_rx_rest)
      qed
    qed
  qed (use inv in \<open>simp_all add: demo_rx_inv_def\<close>)
qed

lemma demo_rx_jam_reachable:
  assumes "demo_rx_step\<^sup>*\<^sup>* s s'" and "demo_rx_init s" and "prefix (written (net_rx s')) (concat ms @ h # ws)"
    and "list_all demo_message ms" and "32704 < header_bytes h" and "header_bytes h < 2 ^ 31"
  shows "demo_rx_inv ms s' \<or> demo_rx_jam ms h s'"
  using assms(1,3)
proof (induction rule: rtranclp_induct)
  case base
  have "demo_rx_at s [] [] 0 0" using assms(2) by (simp add: demo_rx_init_def demo_rx_at_def)
  with assms(2) show ?case by (auto simp: demo_rx_init_def intro: demo_rx_invI)
next
  case (step t u)
  then have "prefix (written (net_rx t)) (concat ms @ h # ws)" by (meson demo_rx_written_grows prefix_order.trans)
  from demo_rx_jam_step [OF step.hyps(2) step.IH [OF this] step.prems assms(4,5,6)] show ?case .
qed

lemma concat_take_prefix: "k \<le> n \<Longrightarrow> prefix (concat (take k xss)) (concat (take n xss))"
  by (metis concat_append le_iff_add prefixI take_add)

lemma demo_rx_jam_delivered:
  assumes "demo_rx_inv ms s \<or> demo_rx_jam ms h s"
  shows "\<exists>n \<le> length ms. map (\<lambda>n. unat (noti_length n)) (written (dr_notification s)) = map (\<lambda>m. notified m mod 2 ^ 16) (take n ms) \<and>
     prefix (written (dr_rx_data s)) (concat (take n ms))"
  using assms
proof
  assume "demo_rx_inv ms s"
  from demo_rx_delivered [OF this] show ?thesis by (meson concat_take_prefix prefix_order.trans)
next
  assume "demo_rx_jam ms h s"
  then show ?thesis by (intro exI [of _ "length ms"]) (simp add: demo_rx_jam_def)
qed

lemma demo_rx_jam_taken:
  assumes "demo_rx_inv ms s \<or> demo_rx_jam ms h s"
  shows "length (consumed (net_rx s)) \<le> length (concat ms) + 512"
  using assms
proof
  assume "demo_rx_inv ms s"
  then obtain before m i j where at: "demo_rx_at s before m i j"
    and pre: "prefix (if rxFsmState s = BUFFER_HEADER then before else before @ [m]) ms" by (auto simp: demo_rx_inv_def)
  then have "length (consumed (net_rx s)) \<le> length (concat (if rxFsmState s = BUFFER_HEADER then before else before @ [m]))"
    by (cases "rxFsmState s") (auto simp: demo_rx_at_def)
  also have "\<dots> \<le> length (concat ms)" using pre by (auto simp: prefix_def)
  finally show ?thesis by simp
qed (auto simp: demo_rx_jam_def)


subsection \<open>Properties\<close>

text \<open>Whatever calls of the demo stack's connection process, requests and reads of its answers interleave, the \<open>i\<close>-th
request is answered with session \<open>i\<close> (16 bits), its own address and port, and success: the reports are just what
\<open>tcp_openConResp\<close> takes apart.\<close>

lemma demo_connections_granted:
  assumes "demo_con_init s" and "demo_con_step\<^sup>*\<^sup>* s s'"
  shows "map con_report (written (dc_open_status s')) =
     map (\<lambda>i. con_granted i (consumed (dc_open_connection s') ! i)) [0..<length (consumed (dc_open_connection s'))]"
  using demo_con.inv_reachable [OF assms] by (simp only: demo_con_inv_def)

text \<open>The receiving process of the demo stack, in every interleaving with the network and its reader, and with messages that have payload and fit
its buffer: it notifies each message once, in order, with the length of header and payload (16 bits), only when the whole message has
arrived; it writes one descriptor per read request; and the words it passes on are those of the messages asked for, in order.\<close>

lemma demo_rx_messages_in_order:
  assumes "demo_rx_init s" and "demo_rx_step\<^sup>*\<^sup>* s s'" and "list_all demo_message msgs"
    and "prefix (written (net_rx s')) (concat msgs)"
  shows "\<exists>n \<le> length msgs. map (\<lambda>n. unat (noti_length n)) (written (dr_notification s')) = map (\<lambda>m. notified m mod 2 ^ 16) (take n msgs) \<and>
     prefix (concat (take n msgs)) (consumed (net_rx s')) \<and>
     length (written (dr_rx_meta s')) = length (consumed (dr_read_pkg s')) \<and>
     length (consumed (dr_read_pkg s')) \<le> n \<and>
     prefix (written (dr_rx_data s')) (concat (take (length (consumed (dr_read_pkg s'))) msgs))"
  by (rule demo_rx_delivered [OF demo_rx_reachable [OF assms(2,1,4,3)]])

text \<open>An example: a header for 64 bytes and one word of payload.\<close>

definition demo_word :: "512 word \<Rightarrow> bool \<Rightarrow> axis" where
  "demo_word d l = \<lparr>ax_data = d, ax_keep = - 1, ax_last = l\<rparr>"

definition demo_rx_quiet :: demo_rx where
  "demo_rx_quiet = \<lparr>rxFsmState = BUFFER_HEADER, payload_length = 0, msg_length = 0, dr_count = 0, rxDataBuffer = no_data,
     net_rx = no_data, dr_notification = no_data, dr_read_pkg = no_data, dr_rx_meta = no_data, dr_rx_data = no_data\<rparr>"

lemma demo_rx_calls: "demo_rx_step\<^sup>*\<^sup>* t ((demo_rx_handler full junk ^^ n) t)"
  by (induction n) (auto intro: rtranclp.rtrancl_into_rtrancl dr_call)

lemma demo_rx_quiet_init: "demo_rx_init demo_rx_quiet"
  by (simp add: demo_rx_init_def demo_rx_quiet_def)

text \<open>The words of a message arriving one by one, and the process taking them until the buffer is full.\<close>

primrec demo_rx_load :: "axis list \<Rightarrow> demo_rx \<Rightarrow> demo_rx" where
  "demo_rx_load [] s = s"
| "demo_rx_load (w # ws) s = demo_rx_load ws (s\<lparr>net_rx := push w (net_rx s)\<rparr>)"

lemma demo_rx_load_steps: "demo_rx_step\<^sup>*\<^sup>* s (demo_rx_load ws s)"
  by (induction ws arbitrary: s) (auto intro: converse_rtranclp_into_rtranclp dr_arrive)

lemma demo_rx_load_fields [simp]:
  "rxFsmState (demo_rx_load ws s) = rxFsmState s" "rxDataBuffer (demo_rx_load ws s) = rxDataBuffer s"
  "payload_length (demo_rx_load ws s) = payload_length s" "dr_count (demo_rx_load ws s) = dr_count s"
  "waiting (net_rx (demo_rx_load ws s)) = waiting (net_rx s) @ ws" "written (net_rx (demo_rx_load ws s)) = written (net_rx s) @ ws"
  by (induction ws arbitrary: s) simp_all

definition demo_rx_filling :: "nat \<Rightarrow> demo_rx \<Rightarrow> bool" where
  "demo_rx_filling n s \<longleftrightarrow> rxFsmState s = BUFFER_DATA \<and> payload_length s = 32705 \<and> n < 512 \<and>
     length (waiting (rxDataBuffer s)) = Suc n \<and> unat (dr_count s) = 64 * n"

lemma demo_rx_fills:
  assumes "demo_rx_filling n s" and "n + k < 512" and "k \<le> length (waiting (net_rx s))"
  shows "demo_rx_filling (n + k) ((demo_rx_handler full junk ^^ k) s) \<and>
     waiting (net_rx ((demo_rx_handler full junk ^^ k) s)) = drop k (waiting (net_rx s))"
  using assms(2,3)
proof (induction k)
  case 0
  with assms(1) show ?case by simp
next
  case (Suc k)
  let ?t = "(demo_rx_handler full junk ^^ k) s"
  from Suc have t: "demo_rx_filling (n + k) ?t" "waiting (net_rx ?t) = drop k (waiting (net_rx s))" by simp_all
  from Suc.prems(2) t(2) obtain w ws where w: "waiting (net_rx ?t) = w # ws" "ws = drop (Suc k) (waiting (net_rx s))"
    by (metis Cons_nth_drop_Suc Suc_le_eq)
  from t(1) have c: "unat (dr_count ?t + 64) = 64 * Suc (n + k)" by (simp add: demo_rx_filling_def unat_word_ariths)
  have "unat (dr_count ?t + 64) < 32705" using c Suc.prems(1) by simp
  then have "sint (32705 :: u32) \<le> sint (dr_count ?t + 64) \<longleftrightarrow> unat (32705 :: u32) \<le> unat (dr_count ?t + 64)"
    by (intro sint_geq) simp_all
  then have "\<not> sint (32705 :: u32) \<le> sint (dr_count ?t + 64)" using \<open>unat (dr_count ?t + 64) < 32705\<close> by simp
  moreover have "\<not> buffer_full ?t" using t(1) Suc.prems(1) by (simp add: demo_rx_filling_def buffer_full_def)
  ultimately show ?case
    using t(1) w c Suc.prems(1) by (simp add: demo_rx_filling_def demo_rx_handler_def [of _ _ ?t] Let_def)
qed

lemma demo_rx_full:
  assumes "demo_rx_filling 511 s"
  shows "(demo_rx_handler full junk ^^ k) s = s"
  by (induction k) (use assms in \<open>simp_all add: demo_rx_filling_def demo_rx_handler_def buffer_full_def\<close>)

text \<open>C39: a message that does not fit the demo stack's buffer of 512 words (more than 32704 bytes of payload), coming after any number of
messages that do fit, is never notified and none of its words is ever passed on, whatever follows it and whatever else happens; the same
holds for everything behind it. The process takes at most 512 words from the network after the messages before it.\<close>

theorem demo_rx_oversize_jams:
  assumes "demo_rx_init s" and "demo_rx_step\<^sup>*\<^sup>* s s'" and "list_all demo_message ms"
    and "written (net_rx s') = concat ms @ h # ws" and "32704 < header_bytes h" and "header_bytes h < 2 ^ 31"
  shows "(\<exists>n \<le> length ms. map (\<lambda>n. unat (noti_length n)) (written (dr_notification s')) = map (\<lambda>m. notified m mod 2 ^ 16) (take n ms) \<and>
        prefix (written (dr_rx_data s')) (concat (take n ms))) \<and>
     length (consumed (net_rx s')) \<le> length (concat ms) + 512"
proof -
  have "demo_rx_inv ms s' \<or> demo_rx_jam ms h s'"
    by (rule demo_rx_jam_reachable [OF assms(2,1) _ assms(3,5,6), of ws]) (simp add: assms(4))
  then show ?thesis by (blast intro: demo_rx_jam_delivered demo_rx_jam_taken)
qed

text \<open>One message of two words, which is delivered, and one with a header of 32705 bytes and 600 more words: the process fills its
buffer and leaves the other words on the network.\<close>

definition demo_rx_long_header :: demo_rx where
  "demo_rx_long_header = (demo_rx_handler False 0 ^^ 7)
     ((demo_rx_load [demo_word 64 False, demo_word 5 True, demo_word 32705 False] demo_rx_quiet)\<lparr>dr_read_pkg := push 0 no_data\<rparr>)"

definition demo_rx_flood :: "axis list" where
  "demo_rx_flood = replicate 600 (demo_word 9 False)"

definition demo_rx_jammed :: demo_rx where
  "demo_rx_jammed = (demo_rx_handler False 0 ^^ 700) (demo_rx_load demo_rx_flood demo_rx_long_header)"

lemma demo_word_range:
  "get_range (64 :: 512 word) 31 0 = (64 :: u32)" "get_range (32705 :: 512 word) 31 0 = (32705 :: u32)" by code_simp+

lemma demo_rx_jammed_full:
  "demo_rx_filling 511 demo_rx_jammed" "length (waiting (net_rx demo_rx_jammed)) = 89"
proof -
  let ?s = "demo_rx_load demo_rx_flood demo_rx_long_header"
  have len: "length demo_rx_flood = 600" by (simp only: demo_rx_flood_def length_replicate)
  have calls: "demo_rx_long_header = (let f = demo_rx_handler False 0 in f (f (f (f (f (f (f
      ((demo_rx_load [demo_word 64 False, demo_word 5 True, demo_word 32705 False] demo_rx_quiet)\<lparr>dr_read_pkg := push 0 no_data\<rparr>))))))))"
    by (simp add: demo_rx_long_header_def eval_nat_numeral Let_def)
  have start: "rxFsmState demo_rx_long_header = BUFFER_DATA" "payload_length demo_rx_long_header = 32705"
    "length (waiting (rxDataBuffer demo_rx_long_header)) = 1" "dr_count demo_rx_long_header = 0"
    "waiting (net_rx demo_rx_long_header) = []"
    by (simp_all add: calls demo_rx_quiet_def demo_rx_handler_def Let_def buffer_full_def demo_word_def demo_word_range)
  have "demo_rx_filling (0 + 511) ((demo_rx_handler False 0 ^^ 511) ?s) \<and>
      waiting (net_rx ((demo_rx_handler False 0 ^^ 511) ?s)) = drop 511 (waiting (net_rx ?s))"
    by (rule demo_rx_fills) (simp_all add: demo_rx_filling_def start len)
  then have full: "demo_rx_filling 511 ((demo_rx_handler False 0 ^^ 511) ?s)"
    "length (waiting (net_rx ((demo_rx_handler False 0 ^^ 511) ?s))) = 89" by (simp_all add: start len)
  have "demo_rx_jammed = (demo_rx_handler False 0 ^^ 189) ((demo_rx_handler False 0 ^^ 511) ?s)"
    unfolding demo_rx_jammed_def using fun_cong [OF funpow_add [of 189 511 "demo_rx_handler False 0"], of ?s] by simp
  then have "demo_rx_jammed = (demo_rx_handler False 0 ^^ 511) ?s" by (simp only: demo_rx_full [OF full(1)])
  with full show "demo_rx_filling 511 demo_rx_jammed" "length (waiting (net_rx demo_rx_jammed)) = 89" by simp_all
qed

theorem demo_rx_oversize_jams_witness:
  "let t = demo_rx_jammed in buffer_full t \<and> length (waiting (net_rx t)) = 89 \<and>
     (\<exists>n \<le> 1. map (\<lambda>n. unat (noti_length n)) (written (dr_notification t)) = take n [128] \<and>
        prefix (written (dr_rx_data t)) (concat (take n [[demo_word 64 False, demo_word 5 True]])))"
proof -
  let ?m = "[demo_word 64 False, demo_word 5 True]" and ?h = "demo_word 32705 False" and ?ws = demo_rx_flood
  let ?a = "demo_rx_load (?m @ [?h]) demo_rx_quiet"
  have "demo_rx_step\<^sup>*\<^sup>* demo_rx_quiet ?a" by (rule demo_rx_load_steps)
  moreover have "demo_rx_step ?a (?a\<lparr>dr_read_pkg := push 0 no_data\<rparr>)"
    using dr_request [of ?a 0] by (simp add: demo_rx_quiet_def)
  moreover have "demo_rx_step\<^sup>*\<^sup>* (?a\<lparr>dr_read_pkg := push 0 no_data\<rparr>) demo_rx_long_header"
    using demo_rx_calls by (simp add: demo_rx_long_header_def)
  moreover have "demo_rx_step\<^sup>*\<^sup>* demo_rx_long_header demo_rx_jammed" unfolding demo_rx_jammed_def
    by (rule rtranclp_trans [OF demo_rx_load_steps demo_rx_calls])
  ultimately have steps: "demo_rx_step\<^sup>*\<^sup>* demo_rx_quiet demo_rx_jammed" by (meson rtranclp.rtrancl_into_rtrancl rtranclp_trans)
  have net: "written (net_rx ((demo_rx_handler False 0 ^^ n) s)) = written (net_rx s)" for n s by (induction n) simp_all
  have "written (net_rx demo_rx_jammed) = concat [?m] @ ?h # ?ws"
    by (simp add: demo_rx_jammed_def demo_rx_long_header_def net demo_rx_quiet_def)
  moreover have "32704 < header_bytes ?h" "header_bytes ?h < 2 ^ 31" by (simp_all add: header_bytes_def demo_word_def demo_word_range)
  moreover have "list_all demo_message [?m]" "map (\<lambda>m. notified m mod 2 ^ 16) [?m] = [128]"
    by (simp_all add: demo_message_def notified_def header_bytes_def demo_word_def demo_word_range nsegs_def)
  ultimately have "\<exists>n \<le> length [?m]. map (\<lambda>n. unat (noti_length n)) (written (dr_notification demo_rx_jammed)) = take n [128] \<and>
      prefix (written (dr_rx_data demo_rx_jammed)) (concat (take n [?m]))"
    using demo_rx_oversize_jams [OF demo_rx_quiet_init steps, of "[?m]" ?h ?ws] by (simp only: take_map [symmetric])
  with demo_rx_jammed_full show ?thesis by (simp add: Let_def demo_rx_filling_def buffer_full_def)
qed

end
