(* ===== verification/Demo_Link.thy ===== *)
theory Demo_Link
  imports Demo_Stack
begin

text \<open>
  The transmit and receive handlers of the TCP side connected to the demo stack, word by word over streams
  that hold any number of words: a wire moves the first word of an output to the end of the input it is connected
  to. Every process may run and every wire may move at any time.
\<close>

definition move_word :: "'a stream \<Rightarrow> 'a stream \<Rightarrow> 'a stream" where
  "move_word from to = push (front from) to"

lemma move_word_simps [simp]:
  "waiting from = x # xs \<Longrightarrow> waiting (move_word from to) = waiting to @ [x]"
  "consumed (move_word from to) = consumed to"
  "waiting from = x # xs \<Longrightarrow> written (move_word from to) = written to @ [x]"
  by (simp_all add: move_word_def)

subsection \<open>Transmitting\<close>

record tx_link =
  tl_kernel :: tx_handler
  tl_stack :: demo_tx

text \<open>The wires between the two: requests, answers and words.\<close>

definition tl_meta_wire :: "tx_link \<Rightarrow> tx_link" where
  "tl_meta_wire s =
     (if is_empty (m_axis_tcp_tx_meta (tl_kernel s)) then s else
      \<lparr>tl_kernel = (tl_kernel s)\<lparr>m_axis_tcp_tx_meta := pop (m_axis_tcp_tx_meta (tl_kernel s))\<rparr>,
       tl_stack = (tl_stack s)\<lparr>dt_tx_meta := move_word (m_axis_tcp_tx_meta (tl_kernel s)) (dt_tx_meta (tl_stack s))\<rparr>\<rparr>)"

definition tl_status_wire :: "tx_link \<Rightarrow> tx_link" where
  "tl_status_wire s =
     (if is_empty (dt_tx_status (tl_stack s)) then s else
      \<lparr>tl_kernel = (tl_kernel s)\<lparr>s_axis_tcp_tx_status := move_word (dt_tx_status (tl_stack s)) (s_axis_tcp_tx_status (tl_kernel s))\<rparr>,
       tl_stack = (tl_stack s)\<lparr>dt_tx_status := pop (dt_tx_status (tl_stack s))\<rparr>\<rparr>)"

definition tl_words_wire :: "tx_link \<Rightarrow> tx_link" where
  "tl_words_wire s =
     (if is_empty (m_axis_tcp_tx_data (tl_kernel s)) then s else
      \<lparr>tl_kernel = (tl_kernel s)\<lparr>m_axis_tcp_tx_data := pop (m_axis_tcp_tx_data (tl_kernel s))\<rparr>,
       tl_stack = (tl_stack s)\<lparr>dt_tx_data := move_word (m_axis_tcp_tx_data (tl_kernel s)) (dt_tx_data (tl_stack s))\<rparr>\<rparr>)"

text \<open>A process runs or a wire moves.\<close>

inductive tl_move :: "tx_link \<Rightarrow> tx_link \<Rightarrow> bool" where
  tl_handler: "tl_move s (s\<lparr>tl_kernel := tcp_txHandler (tl_kernel s)\<rparr>)"
| tl_demo: "tl_move s (s\<lparr>tl_stack := demo_tx_handler full junk (tl_stack s)\<rparr>)"
| tl_meta: "tl_move s (tl_meta_wire s)"
| tl_status: "tl_move s (tl_status_wire s)"
| tl_words: "tl_move s (tl_words_wire s)"

inductive_cases tl_moveE: "tl_move s s'"

text \<open>Besides, commands that can be served and words of messages arrive, and the network takes words.\<close>

inductive tl_step :: "tx_link \<Rightarrow> tx_link \<Rightarrow> bool" where
  tl_moves: "tl_move s s' \<Longrightarrow> tl_step s s'"
| tl_cmd: "good_command c \<Longrightarrow>
    tl_step s (s\<lparr>tl_kernel := (tl_kernel s)\<lparr>cmd_txHandler := push c (cmd_txHandler (tl_kernel s))\<rparr>\<rparr>)"
| tl_data: "tl_step s (s\<lparr>tl_kernel := (tl_kernel s)\<lparr>s_data_in := push w (s_data_in (tl_kernel s))\<rparr>\<rparr>)"
| tl_taken: "tl_step s (s\<lparr>tl_stack := (tl_stack s)\<lparr>net_tx := pop (net_tx (tl_stack s))\<rparr>\<rparr>)"

inductive_cases tl_stepE: "tl_step s s'"

definition demo_tx_init :: "demo_tx \<Rightarrow> bool" where
  "demo_tx_init s \<longleftrightarrow> txFsmState s = WAIT_META \<and> recvByte s = 0 \<and> dt_tx_meta s = no_data \<and>
     dt_tx_data s = no_data \<and> dt_tx_status s = no_data \<and> net_tx s = no_data"

definition tl_init :: "tx_link \<Rightarrow> bool" where
  "tl_init s \<longleftrightarrow> tx_init (tl_kernel s) \<and> demo_tx_init (tl_stack s)"

text \<open>
  The handler as it looks to a stack that takes a request when its answer arrives: a request is waiting
  until as many answers have come in.
\<close>

definition split_at :: "nat \<Rightarrow> 'a list \<Rightarrow> 'a stream" where
  "split_at n xs = \<lparr>consumed = take n xs, waiting = drop n xs\<rparr>"

lemma split_at_simps [simp]:
  "consumed (split_at n xs) = take n xs" "waiting (split_at n xs) = drop n xs" "written (split_at n xs) = xs"
  by (simp_all add: split_at_def written_def)

lemma split_at_Nil [simp]: "split_at n [] = no_data"
  by (simp add: split_at_def no_data_def)

lemma push_split_at: "n \<le> length xs \<Longrightarrow> push x (split_at n xs) = split_at n (xs @ [x])"
  by (simp add: push_def split_at_def)

lemma pop_split_at: "n < length xs \<Longrightarrow> pop (split_at n xs) = split_at (Suc n) xs"
  by (simp add: pop_def split_at_def Cons_nth_drop_Suc [symmetric] take_Suc_conv_app_nth split: list.split)

definition asked :: "tx_handler \<Rightarrow> tx_handler" where
  "asked k = k\<lparr>m_axis_tcp_tx_meta := split_at (length (written (s_axis_tcp_tx_status k))) (written (m_axis_tcp_tx_meta k))\<rparr>"

lemma asked_handler:
  assumes "length (written (s_axis_tcp_tx_status k)) \<le> length (written (m_axis_tcp_tx_meta k))"
  shows "tcp_txHandler (asked k) = asked (tcp_txHandler k)"
  using assms
  by (cases "txHandlerState k")
    (simp_all add: asked_def tcp_txHandler_def tx_wait_cmd_def tx_wait_first_data_def tx_check_req_def tx_status_read_def
      tx_write_pkg_def Let_def push_split_at)


text \<open>Requests and answers, and how many words they are for.\<close>

definition request_bytes :: "u32 \<Rightarrow> nat" where
  "request_bytes m = unat (get_range m 31 16 :: u16)"

definition request_words :: "u32 \<Rightarrow> nat" where
  "request_words m = nsegs 64 (request_bytes m)"

definition granted_words :: "u64 \<Rightarrow> nat" where
  "granted_words st = nsegs 64 (unat (get_range st 31 16 :: u16))"

definition grants :: "u64 \<Rightarrow> u32 \<Rightarrow> bool" where
  "grants st m \<longleftrightarrow> answers st m \<and> (get_range st 63 62 :: u8) = 0"

lemma granted_request: "grants st m \<Longrightarrow> granted_words st = request_words m"
  by (simp add: grants_def answers_def granted_words_def request_words_def request_bytes_def)

lemma grants_demo_status: "grants (demo_status junk (get_range m 15 0) (get_range m 31 16)) m"
proof -
  have "(get_range (demo_status junk s l) 15 0 :: u16) = s" "(get_range (demo_status junk s l) 31 16 :: u16) = l"
    "(get_range (demo_status junk s l) 63 62 :: u8) = 0" for s l
    by (rule bit_word_eqI, auto simp: demo_status_def bit_get_range bit_set_range)+
  then show ?thesis by (simp add: grants_def answers_def)
qed

definition servable :: "u32 \<Rightarrow> bool" where
  "servable m \<longleftrightarrow> 0 < request_bytes m \<and> request_bytes m \<le> 65472"

text \<open>The account of the demo stack: every request read is answered, and as many words have been passed on as it says.\<close>

definition demo_tx_inv :: "demo_tx \<Rightarrow> bool" where
  "demo_tx_inv d \<longleftrightarrow> written (net_tx d) = consumed (dt_tx_data d) \<and>
     (case txFsmState d of
        WAIT_META \<Rightarrow> recvByte d = 0 \<and> list_all2 grants (written (dt_tx_status d)) (consumed (dt_tx_meta d)) \<and>
          length (consumed (dt_tx_data d)) = sum_list (map request_words (consumed (dt_tx_meta d)))
      | WRITE_STATUS \<Rightarrow> recvByte d = 0 \<and> (\<exists>ms m. consumed (dt_tx_meta d) = ms @ [m] \<and> servable m \<and>
          dt_session d = get_range m 15 0 \<and> dt_length d = get_range m 31 16 \<and>
          list_all2 grants (written (dt_tx_status d)) ms \<and>
          length (consumed (dt_tx_data d)) = sum_list (map request_words ms))
      | TX_DATA \<Rightarrow> (\<exists>ms m r. consumed (dt_tx_meta d) = ms @ [m] \<and> servable m \<and> dt_length d = get_range m 31 16 \<and>
          list_all2 grants (written (dt_tx_status d)) (ms @ [m]) \<and>
          unat (recvByte d) = 64 * r \<and> r < request_words m \<and>
          length (consumed (dt_tx_data d)) = sum_list (map request_words ms) + r))"

lemma request_words_iff: "r < request_words m \<longleftrightarrow> 64 * r < request_bytes m"
  unfolding request_words_def using nsegs_iff [of 64 r "request_bytes m"] by (simp add: mult.commute)

lemma demo_tx_handler_inv:
  assumes "demo_tx_inv d" and "\<And>m ms. \<lbrakk> txFsmState d = WAIT_META; waiting (dt_tx_meta d) = m # ms \<rbrakk> \<Longrightarrow> servable m"
  shows "demo_tx_inv (demo_tx_handler full junk d)"
proof (cases "txFsmState d")
  case WAIT_META
  with assms show ?thesis
    by (cases "waiting (dt_tx_meta d)") (auto simp: demo_tx_inv_def demo_tx_handler_def Let_def)
next
  case WRITE_STATUS
  with assms(1) show ?thesis
    by (auto simp: demo_tx_inv_def demo_tx_handler_def servable_def request_words_iff
        intro!: list_all2_appendI grants_demo_status) (metis grants_demo_status)?
next
  case TX_DATA
  then obtain ms m r where d: "consumed (dt_tx_meta d) = ms @ [m]" "servable m" "dt_length d = get_range m 31 16"
    "list_all2 grants (written (dt_tx_status d)) (ms @ [m])" "unat (recvByte d) = 64 * r" "r < request_words m"
    "length (consumed (dt_tx_data d)) = sum_list (map request_words ms) + r" "written (net_tx d) = consumed (dt_tx_data d)"
    using assms(1) by (auto simp: demo_tx_inv_def)
  show ?thesis
  proof (cases "waiting (dt_tx_data d)")
    case Nil
    with TX_DATA assms(1) show ?thesis by (simp add: demo_tx_handler_def)
  next
    case (Cons w ws)
    have len: "unat (dt_length d) = request_bytes m" using d(3) by (simp add: request_bytes_def)
    have step: "unat (recvByte d + 64) = 64 * Suc r"
      by (rule recvByte_step [of "dt_length d"]) (use d(2,5,6) len in \<open>simp_all add: servable_def request_words_iff\<close>)
    let ?d = "d\<lparr>dt_tx_data := pop (dt_tx_data d), net_tx := push w (net_tx d), recvByte := recvByte d + 64\<rparr>"
    have over: "dt_length d \<le> recvByte d + 64 \<longleftrightarrow> \<not> Suc r < request_words m"
      by (simp only: word_le_nat_alt len step request_words_iff not_less)
    show ?thesis
    proof (cases "Suc r < request_words m")
      case True
      then have "demo_tx_handler full junk d = ?d" using TX_DATA Cons over by (simp add: demo_tx_handler_def Let_def)
      moreover have "demo_tx_inv ?d" unfolding demo_tx_inv_def using TX_DATA Cons d True step
        by (auto intro!: exI [of _ ms] exI [of _ m] exI [of _ "Suc r"] simp del: mult_Suc_right)
      ultimately show ?thesis by simp
    next
      case False
      then have last: "request_words m = Suc r" using d(6) by simp
      have "demo_tx_handler full junk d = ?d\<lparr>recvByte := 0, txFsmState := WAIT_META\<rparr>"
        using TX_DATA Cons over False by (simp add: demo_tx_handler_def Let_def)
      moreover have "demo_tx_inv (?d\<lparr>recvByte := 0, txFsmState := WAIT_META\<rparr>)"
        unfolding demo_tx_inv_def using Cons d last by simp
      ultimately show ?thesis by simp
    qed
  qed
qed

text \<open>The account of the handler: what it has written and what it has been granted.\<close>

definition tx_words :: "tx_handler \<Rightarrow> bool" where
  "tx_words k \<longleftrightarrow> length (written (m_axis_tcp_tx_data k)) +
     (if txHandlerState k = WRITE_PKG then unat (currentPkgWord k) - unat (wordCnt k) else 0) =
     sum_list (map granted_words (consumed (s_axis_tcp_tx_status k)))"

lemma asked_registers [simp]:
  "txHandlerState (asked k) = txHandlerState k" "wordCnt (asked k) = wordCnt k" "currentPkgWord (asked k) = currentPkgWord k"
  "s_data_in (asked k) = s_data_in k" "cmd_txHandler (asked k) = cmd_txHandler k"
  "m_axis_tcp_tx_data (asked k) = m_axis_tcp_tx_data k" "s_axis_tcp_tx_status (asked k) = s_axis_tcp_tx_status k"
  "sentByteCnt (asked k) = sentByteCnt k" "expectedTxByteCnt (asked k) = expectedTxByteCnt k" "maxPkgWord (asked k) = maxPkgWord k"
  "waiting (m_axis_tcp_tx_meta (asked k)) = drop (length (written (s_axis_tcp_tx_status k))) (written (m_axis_tcp_tx_meta k))"
  by (simp_all add: asked_def)

lemma asked_other [simp]:
  "asked (k\<lparr>m_axis_tcp_tx_data := f\<rparr>) = (asked k)\<lparr>m_axis_tcp_tx_data := f\<rparr>"
  "asked (k\<lparr>cmd_txHandler := c\<rparr>) = (asked k)\<lparr>cmd_txHandler := c\<rparr>"
  "asked (k\<lparr>s_data_in := d\<rparr>) = (asked k)\<lparr>s_data_in := d\<rparr>"
  by (cases k, simp add: asked_def)+

lemma tx_words_handler:
  assumes "tx_words k" and "tx_inv (asked k)" and "list_all (\<lambda>st. (get_range st 63 62 :: u8) = 0) (waiting (s_axis_tcp_tx_status k))"
  shows "tx_words (tcp_txHandler k)"
proof (cases "txHandlerState k")
  case WAIT_CMD
  with assms(1) show ?thesis
    by (simp add: tx_words_def tcp_txHandler_def tx_wait_cmd_def Let_def)
next
  case WAIT_FIRST_DATA
  with assms(1) show ?thesis
    by (simp add: tx_words_def tcp_txHandler_def tx_wait_first_data_def Let_def)
next
  case CHECK_REQ
  then have "wordCnt k = 0" using assms(2) by (auto simp: tx_inv_def tx_idle_def tx_within_def Let_def)
  with CHECK_REQ assms(1,3) show ?thesis
    by (cases "waiting (s_axis_tcp_tx_status k)")
      (simp_all add: tx_words_def tcp_txHandler_def tx_check_req_def tx_status_read_def Let_def packet_words [simplified] granted_words_def)
next
  case WRITE_PKG
  then have w: "unat (wordCnt k) < unat (currentPkgWord k)"
    using assms(2) by (auto simp: tx_inv_def tx_idle_def tx_within_def Let_def)
  then have "unat (wordCnt k + 1) = Suc (unat (wordCnt k))" by (intro unat_succ) (simp add: word_less_nat_alt)
  with WRITE_PKG assms(1) w show ?thesis
    by (cases "waiting (s_data_in k)")
      (auto simp: tx_words_def tcp_txHandler_def tx_write_pkg_def Let_def word_unat_eq_iff)
qed

lemma tx_inv_servable:
  assumes "tx_inv s" and "waiting (m_axis_tcp_tx_meta s) = m # ms"
  shows "ms = []" and "servable m" and "waiting (s_axis_tcp_tx_status s) = []" and "txHandlerState s \<noteq> WAIT_CMD"
proof -
  have "\<exists>c n. good_command c \<and> in_flight s n \<and> n \<le> 64 * cmd_packet_words c \<and> txHandlerState s \<noteq> WAIT_CMD"
  proof -
    from assms(1) consider "tx_idle s" | c j where "tx_within s c j" by (auto simp: tx_inv_def)
    then show ?thesis
    proof cases
      case 1
      with assms(2) show ?thesis by (simp add: tx_idle_def in_flight_def)
    next
      case 2
      then have "good_command c" "txHandlerState s \<noteq> WAIT_CMD"
        "in_flight s (if txHandlerState s = WAIT_FIRST_DATA then 0 else min (64 * cmd_packet_words c) (cmd_bytes c - unat (sentByteCnt s)))"
        by (auto simp: tx_within_def Let_def)
      then show ?thesis by (intro exI [of _ c]) (auto simp: min_def)
    qed
  qed
  then obtain c n where "good_command c" "in_flight s n" "n \<le> 64 * cmd_packet_words c" "txHandlerState s \<noteq> WAIT_CMD" by blast
  with assms(2) show "ms = []" "servable m" "waiting (s_axis_tcp_tx_status s) = []" "txHandlerState s \<noteq> WAIT_CMD"
    by (auto simp: in_flight_def servable_def good_command_def request_bytes_def split: if_splits)
qed


definition tl_inv :: "tx_link \<Rightarrow> bool" where
  "tl_inv s \<longleftrightarrow> (let k = tl_kernel s; d = tl_stack s in
     tx_inv (asked k) \<and> tx_words k \<and> demo_tx_inv d \<and>
     consumed (m_axis_tcp_tx_meta k) = written (dt_tx_meta d) \<and>
     consumed (dt_tx_status d) = written (s_axis_tcp_tx_status k) \<and>
     consumed (m_axis_tcp_tx_data k) = written (dt_tx_data d))"

lemma tl_invD:
  assumes "tl_inv s"
  shows "tx_inv (asked (tl_kernel s))" and "tx_words (tl_kernel s)" and "demo_tx_inv (tl_stack s)"
    and "consumed (m_axis_tcp_tx_meta (tl_kernel s)) = written (dt_tx_meta (tl_stack s))"
    and "consumed (dt_tx_status (tl_stack s)) = written (s_axis_tcp_tx_status (tl_kernel s))"
    and "consumed (m_axis_tcp_tx_data (tl_kernel s)) = written (dt_tx_data (tl_stack s))"
  using assms by (simp_all add: tl_inv_def Let_def)

lemma demo_tx_answers:
  assumes "demo_tx_inv d"
  shows "length (written (dt_tx_status d)) \<le> length (consumed (dt_tx_meta d))"
    and "n < length (written (dt_tx_status d)) \<Longrightarrow> grants (written (dt_tx_status d) ! n) (consumed (dt_tx_meta d) ! n)"
    and "txFsmState d = WAIT_META \<Longrightarrow> length (written (dt_tx_status d)) = length (consumed (dt_tx_meta d))"
  using assms
  by (cases "txFsmState d"; force simp: demo_tx_inv_def list_all2_conv_all_nth nth_append)+

lemma written_def': "written f = consumed f @ waiting f"
  by (rule written_def)

lemma tl_answered:
  assumes "tl_inv s"
  shows "length (written (s_axis_tcp_tx_status (tl_kernel s))) \<le> length (consumed (dt_tx_meta (tl_stack s)))"
    and "list_all (\<lambda>st. (get_range st 63 62 :: u8) = 0) (written (s_axis_tcp_tx_status (tl_kernel s)))"
proof -
  note D = tl_invD [OF assms]
  have pre: "written (dt_tx_status (tl_stack s)) = written (s_axis_tcp_tx_status (tl_kernel s)) @ waiting (dt_tx_status (tl_stack s))"
    using D(5) by (simp add: written_def' [of "dt_tx_status (tl_stack s)"])
  then show "length (written (s_axis_tcp_tx_status (tl_kernel s))) \<le> length (consumed (dt_tx_meta (tl_stack s)))"
    using demo_tx_answers(1) [OF D(3)] by simp
  have "list_all (\<lambda>st. (get_range st 63 62 :: u8) = 0) (written (dt_tx_status (tl_stack s)))"
    using demo_tx_answers(2) [OF D(3)] by (simp add: list_all_length grants_def)
  then show "list_all (\<lambda>st. (get_range st 63 62 :: u8) = 0) (written (s_axis_tcp_tx_status (tl_kernel s)))"
    unfolding pre by simp
qed

lemma tl_requests:
  assumes "tl_inv s"
  shows "written (m_axis_tcp_tx_meta (tl_kernel s)) =
     consumed (dt_tx_meta (tl_stack s)) @ waiting (dt_tx_meta (tl_stack s)) @ waiting (m_axis_tcp_tx_meta (tl_kernel s))"
  using tl_invD(4) [OF assms] by (simp add: written_def)

lemma txHandler_streams [simp]:
  "consumed (m_axis_tcp_tx_meta (tcp_txHandler k)) = consumed (m_axis_tcp_tx_meta k)"
  "consumed (m_axis_tcp_tx_data (tcp_txHandler k)) = consumed (m_axis_tcp_tx_data k)"
  "written (s_axis_tcp_tx_status (tcp_txHandler k)) = written (s_axis_tcp_tx_status k)"
  by (cases "txHandlerState k"; simp add: tcp_txHandler_def tx_wait_cmd_def tx_wait_first_data_def tx_check_req_def
      tx_status_read_def tx_write_pkg_def Let_def)+

lemma demo_tx_handler_streams [simp]:
  "written (dt_tx_meta (demo_tx_handler full junk d)) = written (dt_tx_meta d)"
  "written (dt_tx_data (demo_tx_handler full junk d)) = written (dt_tx_data d)"
  "consumed (dt_tx_status (demo_tx_handler full junk d)) = consumed (dt_tx_status d)"
  by (cases "txFsmState d"; simp add: demo_tx_handler_def Let_def)+

lemma tl_handler_inv:
  assumes "tl_inv s"
  shows "tl_inv (s\<lparr>tl_kernel := tcp_txHandler (tl_kernel s)\<rparr>)"
proof -
  note D = tl_invD [OF assms]
  have "length (written (s_axis_tcp_tx_status (tl_kernel s))) \<le> length (written (m_axis_tcp_tx_meta (tl_kernel s)))"
    using tl_answered(1) [OF assms] by (simp add: tl_requests [OF assms])
  then have "tx_inv (asked (tcp_txHandler (tl_kernel s)))"
    using tcp_txHandler_inv [OF D(1)] by (simp add: asked_handler)
  moreover have "tx_words (tcp_txHandler (tl_kernel s))"
    using tl_answered(2) [OF assms] by (intro tx_words_handler [OF D(2,1)]) (simp add: written_def)
  ultimately show ?thesis using D by (simp add: tl_inv_def)
qed

lemma tl_demo_inv:
  assumes "tl_inv s"
  shows "tl_inv (s\<lparr>tl_stack := demo_tx_handler full junk (tl_stack s)\<rparr>)"
proof -
  note D = tl_invD [OF assms]
  have "demo_tx_inv (demo_tx_handler full junk (tl_stack s))"
  proof (rule demo_tx_handler_inv [OF D(3)])
    fix m ms assume "txFsmState (tl_stack s) = WAIT_META" and m: "waiting (dt_tx_meta (tl_stack s)) = m # ms"
    let ?n = "length (written (s_axis_tcp_tx_status (tl_kernel s)))"
    have "waiting (m_axis_tcp_tx_meta (asked (tl_kernel s))) =
        drop ?n (consumed (dt_tx_meta (tl_stack s))) @ m # ms @ waiting (m_axis_tcp_tx_meta (tl_kernel s))"
      using tl_answered(1) [OF assms] by (simp add: tl_requests [OF assms] m)
    with tx_inv_servable(1,2) [OF D(1)] show "servable m"
      by (cases "drop ?n (consumed (dt_tx_meta (tl_stack s)))") auto
  qed
  with D show ?thesis by (simp add: tl_inv_def)
qed

lemma tl_meta_moved:
  assumes "tl_inv s" and "waiting (m_axis_tcp_tx_meta (tl_kernel s)) \<noteq> []"
  shows "tl_inv \<lparr>tl_kernel = (tl_kernel s)\<lparr>m_axis_tcp_tx_meta := pop (m_axis_tcp_tx_meta (tl_kernel s))\<rparr>,
     tl_stack = (tl_stack s)\<lparr>dt_tx_meta := move_word (m_axis_tcp_tx_meta (tl_kernel s)) (dt_tx_meta (tl_stack s))\<rparr>\<rparr>"
    (is "tl_inv \<lparr>tl_kernel = ?k, tl_stack = ?d\<rparr>")
proof -
  note D = tl_invD [OF assms(1)]
  from assms(2) obtain m ms where "waiting (m_axis_tcp_tx_meta (tl_kernel s)) = m # ms" by (auto simp: neq_Nil_conv)
  moreover have "asked ?k = asked (tl_kernel s)" by (simp add: asked_def)
  moreover have "tx_words ?k" using D(2) by (simp add: tx_words_def split: if_splits)
  moreover have "demo_tx_inv ?d" using D(3) by (cases "txFsmState (tl_stack s)") (simp_all add: demo_tx_inv_def)
  ultimately show ?thesis using D by (simp add: tl_inv_def)
qed

lemma tl_status_moved:
  assumes "tl_inv s" and "waiting (dt_tx_status (tl_stack s)) \<noteq> []"
  shows "tl_inv \<lparr>tl_kernel = (tl_kernel s)\<lparr>s_axis_tcp_tx_status := move_word (dt_tx_status (tl_stack s)) (s_axis_tcp_tx_status (tl_kernel s))\<rparr>,
     tl_stack = (tl_stack s)\<lparr>dt_tx_status := pop (dt_tx_status (tl_stack s))\<rparr>\<rparr>"
    (is "tl_inv \<lparr>tl_kernel = ?k, tl_stack = ?d\<rparr>")
proof -
  note D = tl_invD [OF assms(1)]
  from assms(2) obtain st sts where st: "waiting (dt_tx_status (tl_stack s)) = st # sts" by (auto simp: neq_Nil_conv)
  let ?n = "length (written (s_axis_tcp_tx_status (tl_kernel s)))"
  let ?metas = "written (m_axis_tcp_tx_meta (tl_kernel s))"
  have sts: "written (dt_tx_status (tl_stack s)) = written (s_axis_tcp_tx_status (tl_kernel s)) @ st # sts"
    using D(5) st by (simp add: written_def' [of "dt_tx_status (tl_stack s)"])
  then have n: "?n < length (written (dt_tx_status (tl_stack s)))" by simp
  with demo_tx_answers(1) [OF D(3)] have le: "?n < length (consumed (dt_tx_meta (tl_stack s)))" by linarith
  then have lt: "?n < length ?metas" and nth: "?metas ! ?n = consumed (dt_tx_meta (tl_stack s)) ! ?n"
    by (simp_all add: tl_requests [OF assms(1)] nth_append)
  have "answers st (?metas ! ?n)"
    using demo_tx_answers(2) [OF D(3) n] unfolding nth sts by (simp add: grants_def)
  moreover have "waiting (m_axis_tcp_tx_meta (asked (tl_kernel s))) = ?metas ! ?n # drop (Suc ?n) ?metas"
    using lt by (simp add: Cons_nth_drop_Suc)
  ultimately have "tx_inv ((asked (tl_kernel s))\<lparr>m_axis_tcp_tx_meta := pop (m_axis_tcp_tx_meta (asked (tl_kernel s))),
     s_axis_tcp_tx_status := push st (s_axis_tcp_tx_status (asked (tl_kernel s)))\<rparr>)"
    by (intro tx_answer_inv [OF D(1)])
  moreover have "asked ?k = (asked (tl_kernel s))\<lparr>m_axis_tcp_tx_meta := pop (m_axis_tcp_tx_meta (asked (tl_kernel s))),
     s_axis_tcp_tx_status := push st (s_axis_tcp_tx_status (asked (tl_kernel s)))\<rparr>"
    using lt st by (simp add: asked_def pop_split_at move_word_def)
  moreover have "tx_words ?k" using D(2) by (simp add: tx_words_def split: if_splits)
  moreover have "demo_tx_inv ?d" using D(3) by (cases "txFsmState (tl_stack s)") (simp_all add: demo_tx_inv_def)
  ultimately show ?thesis using D st by (simp add: tl_inv_def)
qed


lemma tl_words_moved:
  assumes "tl_inv s" and "waiting (m_axis_tcp_tx_data (tl_kernel s)) \<noteq> []"
  shows "tl_inv \<lparr>tl_kernel = (tl_kernel s)\<lparr>m_axis_tcp_tx_data := pop (m_axis_tcp_tx_data (tl_kernel s))\<rparr>,
     tl_stack = (tl_stack s)\<lparr>dt_tx_data := move_word (m_axis_tcp_tx_data (tl_kernel s)) (dt_tx_data (tl_stack s))\<rparr>\<rparr>"
    (is "tl_inv \<lparr>tl_kernel = ?k, tl_stack = ?d\<rparr>")
proof -
  note D = tl_invD [OF assms(1)]
  from assms(2) obtain w ws where "waiting (m_axis_tcp_tx_data (tl_kernel s)) = w # ws" by (auto simp: neq_Nil_conv)
  moreover have "tx_inv (asked ?k)"
    using tx.inv_step [OF D(1) tx_taken] by simp
  moreover have "tx_words ?k" using D(2) by (simp add: tx_words_def split: if_splits)
  moreover have "demo_tx_inv ?d" using D(3) by (cases "txFsmState (tl_stack s)") (simp_all add: demo_tx_inv_def)
  ultimately show ?thesis using D by (simp add: tl_inv_def)
qed

lemma tl_wires_inv:
  assumes "tl_inv s"
  shows tl_meta_inv: "tl_inv (tl_meta_wire s)" and tl_status_inv: "tl_inv (tl_status_wire s)"
    and tl_words_inv: "tl_inv (tl_words_wire s)"
  using assms by (simp_all add: tl_meta_wire_def tl_status_wire_def tl_words_wire_def tl_meta_moved tl_status_moved tl_words_moved)

lemma tl_move_inv:
  assumes "tl_inv s" and "tl_move s s'"
  shows "tl_inv s'"
  using assms(2) by (cases rule: tl_move.cases)
    (use assms(1) in \<open>simp_all only: tl_handler_inv tl_demo_inv tl_meta_inv tl_status_inv tl_words_inv\<close>)

lemma tl_env_inv:
  assumes "tl_inv s"
  shows "good_command c \<Longrightarrow> tl_inv (s\<lparr>tl_kernel := (tl_kernel s)\<lparr>cmd_txHandler := push c (cmd_txHandler (tl_kernel s))\<rparr>\<rparr>)"
    and "tl_inv (s\<lparr>tl_kernel := (tl_kernel s)\<lparr>s_data_in := push w (s_data_in (tl_kernel s))\<rparr>\<rparr>)"
    and "tl_inv (s\<lparr>tl_stack := (tl_stack s)\<lparr>net_tx := pop (net_tx (tl_stack s))\<rparr>\<rparr>)"
proof -
  note D = tl_invD [OF assms]
  let ?c = "(tl_kernel s)\<lparr>cmd_txHandler := push c (cmd_txHandler (tl_kernel s))\<rparr>"
  let ?d = "(tl_kernel s)\<lparr>s_data_in := push w (s_data_in (tl_kernel s))\<rparr>"
  have words: "tx_words ?c" "tx_words ?d" using D(2) by (simp_all add: tx_words_def split: if_splits)
  show "tl_inv (s\<lparr>tl_kernel := ?c\<rparr>)" if "good_command c"
    using D words tx.inv_step [OF D(1) tx_step.tx_cmd [OF that]] by (simp add: tl_inv_def)
  show "tl_inv (s\<lparr>tl_kernel := ?d\<rparr>)"
    using D words tx.inv_step [OF D(1) tx_step.tx_data] by (simp add: tl_inv_def)
  have "demo_tx_inv ((tl_stack s)\<lparr>net_tx := pop (net_tx (tl_stack s))\<rparr>)"
    using D(3) by (cases "txFsmState (tl_stack s)") (simp_all add: demo_tx_inv_def)
  then show "tl_inv (s\<lparr>tl_stack := (tl_stack s)\<lparr>net_tx := pop (net_tx (tl_stack s))\<rparr>\<rparr>)"
    using D by (simp add: tl_inv_def)
qed

lemma tl_init_inv:
  assumes "tl_init s"
  shows "tl_inv s"
proof -
  from assms have init: "tx_init (tl_kernel s)" "demo_tx_init (tl_stack s)" by (simp_all add: tl_init_def)
  moreover have "asked k = k" if "tx_init k" for k using that by (cases k) (simp add: asked_def tx_init_def)
  ultimately have "asked (tl_kernel s) = tl_kernel s" by blast
  with init tx.inv_init [OF init(1)] show ?thesis
    by (simp add: tl_inv_def tx_init_def demo_tx_init_def tx_words_def demo_tx_inv_def)
qed

subsection \<open>Systems that settle\<close>

text \<open>
  A system some of whose steps are moves of its own: when every move that changes the state brings it down in a
  well-founded order, left alone it comes to rest.
\<close>

locale settling = kernel init step inv
  for init :: "'s \<Rightarrow> bool" and step :: "'s \<Rightarrow> 's \<Rightarrow> bool" and inv :: "'s \<Rightarrow> bool" +
  fixes move :: "'s \<Rightarrow> 's \<Rightarrow> bool"
    and rank :: "'s \<Rightarrow> 'r"
    and order :: "('r \<times> 'r) set"
  assumes move_step: "move s s' \<Longrightarrow> step s s'"
    and order_wf: "wf order"
    and move_down: "\<lbrakk> inv s; move s s'; s' \<noteq> s \<rbrakk> \<Longrightarrow> (rank s', rank s) \<in> order"
begin

lemma move_inv: "\<lbrakk> inv s; move s s' \<rbrakk> \<Longrightarrow> inv s'"
  by (blast intro: inv_step move_step)

lemma moves_inv: "\<lbrakk> move\<^sup>*\<^sup>* s s'; inv s \<rbrakk> \<Longrightarrow> inv s'"
  by (induction rule: rtranclp_induct) (auto intro: move_inv)

lemma no_infinite_run:
  assumes "inv (f 0)"
  shows "\<not> (\<forall>i. move (f i) (f (Suc i)) \<and> f (Suc i) \<noteq> f i)"
proof
  assume run: "\<forall>i. move (f i) (f (Suc i)) \<and> f (Suc i) \<noteq> f i"
  have "inv (f i)" for i by (induction i) (use assms run in \<open>auto intro: move_inv\<close>)
  with run have "\<forall>i. (rank (f (Suc i)), rank (f i)) \<in> order" by (blast intro: move_down)
  then have "\<exists>g. \<forall>i. (g (Suc i), g i) \<in> order" by (rule exI [of _ "\<lambda>i. rank (f i)"])
  moreover have "\<not> (\<exists>g. \<forall>i. (g (Suc i), g i) \<in> order)"
    using order_wf unfolding wf_iff_no_infinite_down_chain .
  ultimately show False by contradiction
qed

lemma settles: "inv s \<Longrightarrow> \<exists>u. move\<^sup>*\<^sup>* s u \<and> (\<forall>u'. move u u' \<longrightarrow> u' = u)"
proof (induction "rank s" arbitrary: s rule: wf_induct_rule [OF order_wf])
  case 1
  show ?case
  proof (cases "\<forall>u'. move s u' \<longrightarrow> u' = s")
    case False
    then obtain t where t: "move s t" "t \<noteq> s" by blast
    with 1 move_down move_inv obtain u where "move\<^sup>*\<^sup>* t u" "\<forall>u'. move u u' \<longrightarrow> u' = u" by blast
    with t(1) show ?thesis by (blast intro: converse_rtranclp_into_rtranclp)
  qed blast
qed

end


subsection \<open>The transmitting side comes to rest\<close>

definition tl_rank :: "tx_link \<Rightarrow> nat \<times> nat \<times> nat \<times> nat" where
  "tl_rank s = (let k = tl_kernel s; d = tl_stack s in
     (length (waiting (s_data_in k)), length (waiting (cmd_txHandler k)),
      (case txHandlerState k of WAIT_CMD \<Rightarrow> 3 | WAIT_FIRST_DATA \<Rightarrow> 2 | CHECK_REQ \<Rightarrow> 1 | WRITE_PKG \<Rightarrow> 0),
      5 * length (waiting (m_axis_tcp_tx_meta k)) + 4 * length (waiting (dt_tx_meta d)) +
      (if txFsmState d = WRITE_STATUS then 3 else 0) + 2 * length (waiting (dt_tx_status d)) +
      length (waiting (s_axis_tcp_tx_status k)) +
      2 * length (waiting (m_axis_tcp_tx_data k)) + length (waiting (dt_tx_data d))))"

definition lex4 :: "((nat \<times> nat \<times> nat \<times> nat) \<times> (nat \<times> nat \<times> nat \<times> nat)) set" where
  "lex4 = less_than <*lex*> less_than <*lex*> less_than <*lex*> less_than"

lemma wf_lex4: "wf lex4"
  unfolding lex4_def by (intro wf_lex_prod wf_less_than)

lemma in_lex4: "((a, b, c, d), (a', b', c', d')) \<in> lex4 \<longleftrightarrow>
    a < a' \<or> a = a' \<and> (b < b' \<or> b = b' \<and> (c < c' \<or> c = c' \<and> d < d'))"
  by (simp add: lex4_def)

lemma tl_handler_down:
  assumes "tl_inv s" and "tcp_txHandler (tl_kernel s) \<noteq> tl_kernel s"
  shows "(tl_rank (s\<lparr>tl_kernel := tcp_txHandler (tl_kernel s)\<rparr>), tl_rank s) \<in> lex4"
proof (cases "txHandlerState (tl_kernel s)")
  case WAIT_CMD
  with assms(2) show ?thesis
    by (cases "waiting (cmd_txHandler (tl_kernel s))")
      (simp_all add: tl_rank_def in_lex4 Let_def tcp_txHandler_def tx_wait_cmd_def)
next
  case WAIT_FIRST_DATA
  with assms(2) show ?thesis
    by (cases "waiting (s_data_in (tl_kernel s))")
      (simp_all add: tl_rank_def in_lex4 Let_def tcp_txHandler_def tx_wait_first_data_def)
next
  case CHECK_REQ
  with assms(2) have "waiting (s_axis_tcp_tx_status (tl_kernel s)) \<noteq> []"
    by (auto simp: tcp_txHandler_def tx_check_req_def)
  then obtain st sts where "waiting (s_axis_tcp_tx_status (tl_kernel s)) = st # sts" by (auto simp: neq_Nil_conv)
  moreover from this tl_answered(2) [OF assms(1)] have "(get_range st 63 62 :: u8) = 0" by (simp add: written_def)
  ultimately show ?thesis using CHECK_REQ
    by (simp add: tl_rank_def in_lex4 Let_def tcp_txHandler_def tx_check_req_def tx_status_read_def)
next
  case WRITE_PKG
  with assms(2) show ?thesis
    by (cases "waiting (s_data_in (tl_kernel s))")
      (simp_all add: tl_rank_def in_lex4 Let_def tcp_txHandler_def tx_write_pkg_def)
qed

lemma tl_demo_down:
  assumes "demo_tx_handler full junk (tl_stack s) \<noteq> tl_stack s"
  shows "(tl_rank (s\<lparr>tl_stack := demo_tx_handler full junk (tl_stack s)\<rparr>), tl_rank s) \<in> lex4"
proof (cases "txFsmState (tl_stack s)")
  case WAIT_META
  with assms show ?thesis
    by (cases "waiting (dt_tx_meta (tl_stack s))") (simp_all add: tl_rank_def in_lex4 Let_def demo_tx_handler_def)
next
  case WRITE_STATUS
  with assms show ?thesis
    by (cases full) (simp_all add: tl_rank_def in_lex4 Let_def demo_tx_handler_def)
next
  case TX_DATA
  with assms show ?thesis
    by (cases "waiting (dt_tx_data (tl_stack s))") (simp_all add: tl_rank_def in_lex4 Let_def demo_tx_handler_def)
qed

lemma same_part:
  "s\<lparr>tl_kernel := f (tl_kernel s)\<rparr> \<noteq> s \<Longrightarrow> f (tl_kernel s) \<noteq> tl_kernel s"
  "s\<lparr>tl_stack := g (tl_stack s)\<rparr> \<noteq> s \<Longrightarrow> g (tl_stack s) \<noteq> tl_stack s"
  by (cases s, auto)+

lemma tl_wire_down:
  assumes "tl_move s s'" and "s' \<noteq> s" and "tl_inv s"
  shows "(tl_rank s', tl_rank s) \<in> lex4"
  using assms(1)
proof (cases rule: tl_move.cases)
  case tl_handler
  show ?thesis unfolding tl_handler
    by (rule tl_handler_down [OF assms(3) same_part(1) [where s = s and f = tcp_txHandler]]) (use assms(2) tl_handler in simp)
next
  case (tl_demo full junk)
  show ?thesis unfolding tl_demo
    by (rule tl_demo_down [OF same_part(2) [where s = s and g = "demo_tx_handler full junk"]]) (use assms(2) tl_demo in simp)
qed (use assms(2) in \<open>auto simp: tl_rank_def in_lex4 Let_def neq_Nil_conv tl_meta_wire_def tl_status_wire_def tl_words_wire_def split: if_splits\<close>)

interpretation tx_link: settling tl_init tl_step tl_inv tl_move tl_rank lex4
proof
  fix s s' assume "tl_inv s" and "tl_step s s'"
  then show "tl_inv s'"
    by (auto elim!: tl_stepE intro: tl_move_inv tl_env_inv)
qed (simp_all add: tl_init_inv tl_moves wf_lex4 tl_wire_down)


text \<open>At rest: nothing can move. What has then reached the network.\<close>

definition tl_settled :: "tx_link \<Rightarrow> bool" where
  "tl_settled s \<longleftrightarrow> (\<forall>s'. tl_move s s' \<longrightarrow> s' = s)"

definition tl_delivered :: "tx_link \<Rightarrow> bool" where
  "tl_delivered s \<longleftrightarrow> (let k = tl_kernel s; net = written (net_tx (tl_stack s)) in
     map (ax_last_update (\<lambda>_. True)) net = map (ax_last_update (\<lambda>_. True)) (consumed (s_data_in k)) \<and>
     prefix (map ax_last net) (concat (map cmd_flags (consumed (cmd_txHandler k)))) \<and>
     (waiting (s_data_in k) = [] \<or>
      waiting (cmd_txHandler k) = [] \<and> map ax_last net = concat (map cmd_flags (consumed (cmd_txHandler k)))))"

lemma pop_moves [simp]: "pop f = f \<longleftrightarrow> waiting f = []"
  by (cases f) (auto simp: pop_def split: list.split)

lemma tl_settledD:
  assumes "tl_settled s"
  shows "tcp_txHandler (tl_kernel s) = tl_kernel s" and "demo_tx_handler False 0 (tl_stack s) = tl_stack s"
    and "waiting (m_axis_tcp_tx_meta (tl_kernel s)) = []" and "waiting (dt_tx_status (tl_stack s)) = []"
    and "waiting (m_axis_tcp_tx_data (tl_kernel s)) = []"
proof -
  have same: "s' = s" if "tl_move s s'" for s' using assms that by (simp add: tl_settled_def)
  obtain k d where s: "s = \<lparr>tl_kernel = k, tl_stack = d\<rparr>" by (cases s)
  show "tcp_txHandler (tl_kernel s) = tl_kernel s" using same [OF tl_handler] s by simp
  show "demo_tx_handler False 0 (tl_stack s) = tl_stack s" using same [OF tl_demo [of s False 0]] s by simp
  show "waiting (m_axis_tcp_tx_meta (tl_kernel s)) = []"
    using same [OF tl_meta] s by (cases k) (force simp: tl_meta_wire_def split: if_splits)
  show "waiting (dt_tx_status (tl_stack s)) = []"
    using same [OF tl_status] s by (cases d) (force simp: tl_status_wire_def split: if_splits)
  show "waiting (m_axis_tcp_tx_data (tl_kernel s)) = []"
    using same [OF tl_words] s by (cases k) (force simp: tl_words_wire_def split: if_splits)
qed

lemma sum_grants:
  "list_all2 grants sts ms \<Longrightarrow> sum_list (map granted_words sts) = sum_list (map request_words ms)"
  by (induction rule: list_all2_induct) (simp_all add: granted_request)

lemma tl_settled_delivered:
  assumes "tl_inv s" and "tl_settled s"
  shows "tl_delivered s"
proof -
  note D = tl_invD [OF assms(1)] and S = tl_settledD [OF assms(2)]
  let ?k = "tl_kernel s" and ?d = "tl_stack s"
  have data: "written (m_axis_tcp_tx_data ?k) = written (dt_tx_data ?d)" using D(6) S(5) by (simp add: written_def)
  have sts: "written (dt_tx_status ?d) = written (s_axis_tcp_tx_status ?k)" using D(5) S(4) by (simp add: written_def)
  have net: "written (net_tx ?d) = consumed (dt_tx_data ?d)" using D(3) by (simp add: demo_tx_inv_def)
  have no_check: "txHandlerState ?k = CHECK_REQ \<Longrightarrow> waiting (s_axis_tcp_tx_status ?k) = []"
    using S(1) by (cases "waiting (s_axis_tcp_tx_status ?k)")
      (auto simp: tcp_txHandler_def tx_check_req_def tx_status_read_def Let_def dest!: arg_cong [where f = "\<lambda>k. consumed (s_axis_tcp_tx_status k)"] split: if_splits)
  have n: "length (written (s_axis_tcp_tx_status ?k)) = length (written (dt_tx_status ?d))" by (simp only: sts)
  have granted: "sum_list (map granted_words (written (dt_tx_status ?d))) =
      sum_list (map granted_words (consumed (s_axis_tcp_tx_status ?k))) + sum_list (map granted_words (waiting (s_axis_tcp_tx_status ?k)))"
    unfolding sts by (simp add: written_def)
  have all: "waiting (dt_tx_data ?d) = []"
  proof (cases "txFsmState ?d")
    case WAIT_META
    with D(3) have "length (consumed (dt_tx_data ?d)) = sum_list (map granted_words (written (dt_tx_status ?d)))"
      by (auto simp: demo_tx_inv_def dest: sum_grants)
    with granted D(2) data have "length (written (dt_tx_data ?d)) \<le> length (consumed (dt_tx_data ?d))"
      by (simp add: tx_words_def)
    then show ?thesis by (simp add: written_def)
  next
    case WRITE_STATUS
    with S(2) show ?thesis by (auto simp: demo_tx_handler_def dest!: arg_cong [where f = txFsmState])
  next
    case TX_DATA
    with S(2) show ?thesis
      by (cases "waiting (dt_tx_data ?d)") (auto simp: demo_tx_handler_def Let_def dest!: arg_cong [where f = dt_tx_data] split: if_splits)
  qed
  have "txHandlerState ?k \<noteq> CHECK_REQ"
  proof
    assume check: "txHandlerState ?k = CHECK_REQ"
    then obtain c where "good_command c" "unat (sentByteCnt ?k) < cmd_bytes c"
      "in_flight (asked ?k) (min (64 * cmd_packet_words c) (cmd_bytes c - unat (sentByteCnt ?k)))"
      using D(1) by (auto simp: tx_inv_def tx_idle_def tx_within_def Let_def)
    then have "\<exists>n > 0. in_flight (asked ?k) n"
      by (intro exI [of _ "min (64 * cmd_packet_words c) (cmd_bytes c - unat (sentByteCnt ?k))"]) (simp add: good_command_def)
    with no_check [OF check] have "drop (length (written (dt_tx_status ?d))) (written (m_axis_tcp_tx_meta ?k)) \<noteq> []"
      by (auto simp: in_flight_def n)
    moreover have written: "length (consumed (dt_tx_data ?d)) = sum_list (map granted_words (written (dt_tx_status ?d)))"
      using D(2) check no_check [OF check] granted data all
      by (simp add: tx_words_def written_def [of "dt_tx_data (tl_stack s)"])
    ultimately show False
    proof (cases "txFsmState ?d")
      case WAIT_META
      with S(2) have "waiting (dt_tx_meta ?d) = []"
        by (cases "waiting (dt_tx_meta ?d)") (auto simp: demo_tx_handler_def dest!: arg_cong [where f = txFsmState])
      then have "written (m_axis_tcp_tx_meta ?k) = consumed (dt_tx_meta ?d)" using S(3) by (simp add: tl_requests [OF assms(1)])
      with demo_tx_answers(3) [OF D(3) WAIT_META] \<open>drop _ _ \<noteq> []\<close> show False by simp
    next
      case WRITE_STATUS
      with S(2) show False by (auto simp: demo_tx_handler_def dest!: arg_cong [where f = txFsmState])
    next
      case TX_DATA
      then obtain ms m r where "list_all2 grants (written (dt_tx_status ?d)) (ms @ [m])" "r < request_words m"
        "length (consumed (dt_tx_data ?d)) = sum_list (map request_words ms) + r"
        using D(3) by (auto simp: demo_tx_inv_def)
      with written show False by (simp add: sum_grants)
    qed
  qed
  then have "waiting (s_data_in ?k) = [] \<or> txHandlerState ?k = WAIT_CMD \<and> waiting (cmd_txHandler ?k) = []"
    using S(1) by (cases "txHandlerState ?k"; cases "waiting (s_data_in ?k)"; cases "waiting (cmd_txHandler ?k)")
      (auto simp: tcp_txHandler_def tx_wait_cmd_def tx_wait_first_data_def tx_write_pkg_def Let_def
        dest!: arg_cong [where f = "\<lambda>k. (txHandlerState k, s_data_in k)"] split: if_splits)
  moreover have "written (net_tx ?d) = written (m_axis_tcp_tx_data (asked ?k))"
    using all net data by (simp add: written_def)
  ultimately show ?thesis
    using tx_packets_so_far [OF D(1)] D(1) by (auto simp: tl_delivered_def tx_inv_def Let_def)
qed


subsection \<open>Receiving\<close>

record rx_link =
  rl_stack :: demo_rx
  rl_kernel :: rx_handler

text \<open>The wires: notifications, read requests, descriptors and words.\<close>

definition rl_noti_wire :: "rx_link \<Rightarrow> rx_link" where
  "rl_noti_wire s =
     (if is_empty (dr_notification (rl_stack s)) then s else
      \<lparr>rl_stack = (rl_stack s)\<lparr>dr_notification := pop (dr_notification (rl_stack s))\<rparr>,
       rl_kernel = (rl_kernel s)\<lparr>s_axis_tcp_notification := move_word (dr_notification (rl_stack s)) (s_axis_tcp_notification (rl_kernel s))\<rparr>\<rparr>)"

definition rl_read_wire :: "rx_link \<Rightarrow> rx_link" where
  "rl_read_wire s =
     (if is_empty (m_axis_tcp_read_pkg (rl_kernel s)) then s else
      \<lparr>rl_stack = (rl_stack s)\<lparr>dr_read_pkg := move_word (m_axis_tcp_read_pkg (rl_kernel s)) (dr_read_pkg (rl_stack s))\<rparr>,
       rl_kernel = (rl_kernel s)\<lparr>m_axis_tcp_read_pkg := pop (m_axis_tcp_read_pkg (rl_kernel s))\<rparr>\<rparr>)"

definition rl_meta_wire :: "rx_link \<Rightarrow> rx_link" where
  "rl_meta_wire s =
     (if is_empty (dr_rx_meta (rl_stack s)) then s else
      \<lparr>rl_stack = (rl_stack s)\<lparr>dr_rx_meta := pop (dr_rx_meta (rl_stack s))\<rparr>,
       rl_kernel = (rl_kernel s)\<lparr>s_axis_tcp_rx_meta := move_word (dr_rx_meta (rl_stack s)) (s_axis_tcp_rx_meta (rl_kernel s))\<rparr>\<rparr>)"

definition rl_data_wire :: "rx_link \<Rightarrow> rx_link" where
  "rl_data_wire s =
     (if is_empty (dr_rx_data (rl_stack s)) then s else
      \<lparr>rl_stack = (rl_stack s)\<lparr>dr_rx_data := pop (dr_rx_data (rl_stack s))\<rparr>,
       rl_kernel = (rl_kernel s)\<lparr>s_axis_tcp_rx_data := move_word (dr_rx_data (rl_stack s)) (s_axis_tcp_rx_data (rl_kernel s))\<rparr>\<rparr>)"

inductive rl_move :: "rx_link \<Rightarrow> rx_link \<Rightarrow> bool" where
  rl_demo: "rl_move s (s\<lparr>rl_stack := demo_rx_handler full junk (rl_stack s)\<rparr>)"
| rl_count: "rl_move s (s\<lparr>rl_kernel := inflightReadHandler (rl_kernel s)\<rparr>)"
| rl_request: "rl_move s (s\<lparr>rl_kernel := requestFSM (rl_kernel s)\<rparr>)"
| rl_consume: "rl_move s (s\<lparr>rl_kernel := consumeFSM (rl_kernel s)\<rparr>)"
| rl_noti: "rl_move s (rl_noti_wire s)"
| rl_read: "rl_move s (rl_read_wire s)"
| rl_meta: "rl_move s (rl_meta_wire s)"
| rl_data: "rl_move s (rl_data_wire s)"

inductive rl_step :: "rx_link \<Rightarrow> rx_link \<Rightarrow> bool" where
  rl_moves: "rl_move s s' \<Longrightarrow> rl_step s s'"
| rl_arrive: "rl_step s (s\<lparr>rl_stack := (rl_stack s)\<lparr>net_rx := push w (net_rx (rl_stack s))\<rparr>\<rparr>)"
| rl_taken: "rl_step s (s\<lparr>rl_kernel := (rl_kernel s)\<lparr>s_data_out := pop (s_data_out (rl_kernel s))\<rparr>\<rparr>)"

definition rl_init :: "rx_link \<Rightarrow> bool" where
  "rl_init s \<longleftrightarrow> demo_rx_init (rl_stack s) \<and> rx_init (rl_kernel s)"

text \<open>Both sides see steps that they know.\<close>

lemmas rl_wire_defs = rl_noti_wire_def rl_read_wire_def rl_meta_wire_def rl_data_wire_def

lemma rl_sides:
  assumes "rl_step s s'"
  shows "demo_rx_step\<^sup>*\<^sup>* (rl_stack s) (rl_stack s')" and "rx_step\<^sup>*\<^sup>* (rl_kernel s) (rl_kernel s')"
proof -
  have "demo_rx_step\<^sup>*\<^sup>* (rl_stack s) (rl_stack s') \<and> rx_step\<^sup>*\<^sup>* (rl_kernel s) (rl_kernel s')"
    using assms
  proof (cases rule: rl_step.cases)
    case rl_moves
    then show ?thesis
      by (cases rule: rl_move.cases)
        (auto simp: move_word_def rl_wire_defs intro: r_into_rtranclp demo_rx_step.intros rx_step.intros)
  qed (auto intro: r_into_rtranclp demo_rx_step.intros rx_step.intros)
  then show "demo_rx_step\<^sup>*\<^sup>* (rl_stack s) (rl_stack s')" "rx_step\<^sup>*\<^sup>* (rl_kernel s) (rl_kernel s')" by simp_all
qed

lemma rl_reachable:
  assumes "rl_step\<^sup>*\<^sup>* s s'"
  shows "demo_rx_step\<^sup>*\<^sup>* (rl_stack s) (rl_stack s')" and "rx_step\<^sup>*\<^sup>* (rl_kernel s) (rl_kernel s')"
  using assms by (induction rule: rtranclp_induct) (auto dest: rl_sides)

text \<open>What is between the two is on the wires.\<close>

definition rl_wired :: "rx_link \<Rightarrow> bool" where
  "rl_wired s \<longleftrightarrow> (let d = rl_stack s; k = rl_kernel s in
     consumed (dr_notification d) = written (s_axis_tcp_notification k) \<and>
     consumed (m_axis_tcp_read_pkg k) = written (dr_read_pkg d) \<and>
     consumed (dr_rx_meta d) = written (s_axis_tcp_rx_meta k) \<and>
     consumed (dr_rx_data d) = written (s_axis_tcp_rx_data k))"

lemma demo_rx_handler_streams [simp]:
  "consumed (dr_notification (demo_rx_handler full junk d)) = consumed (dr_notification d)"
  "written (dr_read_pkg (demo_rx_handler full junk d)) = written (dr_read_pkg d)"
  "consumed (dr_rx_meta (demo_rx_handler full junk d)) = consumed (dr_rx_meta d)"
  "consumed (dr_rx_data (demo_rx_handler full junk d)) = consumed (dr_rx_data d)"
  by (cases "rxFsmState d"; simp add: demo_rx_handler_def Let_def)+

lemma rx_streams [simp]:
  "s_axis_tcp_notification (inflightReadHandler k) = s_axis_tcp_notification k"
  "m_axis_tcp_read_pkg (inflightReadHandler k) = m_axis_tcp_read_pkg k"
  "s_axis_tcp_rx_meta (inflightReadHandler k) = s_axis_tcp_rx_meta k"
  "s_axis_tcp_rx_data (inflightReadHandler k) = s_axis_tcp_rx_data k"
  "s_axis_tcp_notification (consumeFSM k) = s_axis_tcp_notification k"
  "m_axis_tcp_read_pkg (consumeFSM k) = m_axis_tcp_read_pkg k"
  "written (s_axis_tcp_rx_meta (consumeFSM k)) = written (s_axis_tcp_rx_meta k)"
  "written (s_axis_tcp_rx_data (consumeFSM k)) = written (s_axis_tcp_rx_data k)"
  "written (s_axis_tcp_notification (requestFSM k)) = written (s_axis_tcp_notification k)"
  "consumed (m_axis_tcp_read_pkg (requestFSM k)) = consumed (m_axis_tcp_read_pkg k)"
  "s_axis_tcp_rx_meta (requestFSM k) = s_axis_tcp_rx_meta k"
  "s_axis_tcp_rx_data (requestFSM k) = s_axis_tcp_rx_data k"
  by (cases "requestFsmState k"; cases "serverFsmState k"; simp add: inflightReadHandler_def consumeFSM_def requestFSM_def Let_def)+

lemma rl_step_wired:
  assumes "rl_step s s'" and "rl_wired s"
  shows "rl_wired s'"
  using assms(1)
proof (cases rule: rl_step.cases)
  case rl_moves
  then show ?thesis
    by (cases rule: rl_move.cases) (use assms(2) in \<open>auto simp: rl_wired_def Let_def neq_Nil_conv rl_wire_defs\<close>)
qed (use assms(2) in \<open>simp_all add: rl_wired_def Let_def\<close>)

interpretation rx_link: kernel rl_init rl_step rl_wired
proof
  fix s s' assume "rl_wired s" and "rl_step s s'"
  then show "rl_wired s'" by (rule rl_step_wired [rotated])
qed (simp add: rl_init_def demo_rx_init_def rx_init_def rl_wired_def)

text \<open>A packet is passed on for a message descriptor, and the stack writes one for every message.\<close>

lemma rl_packets:
  assumes "rl_wired s" and "rx_handler_inv (rl_kernel s)" and "demo_rx_inv msgs (rl_stack s)"
  shows "passed_on (written (s_data_out (rl_kernel s))) \<le> length msgs"
    and "prefix (written (s_data_out (rl_kernel s))) (concat msgs)"
proof -
  let ?k = "rl_kernel s" and ?d = "rl_stack s"
  from assms(2) have k: "written (s_data_out ?k) = consumed (s_axis_tcp_rx_data ?k)"
    "passed_on (consumed (s_axis_tcp_rx_data ?k)) \<le> length (consumed (s_axis_tcp_rx_meta ?k))"
    by (auto simp: rx_handler_inv_def rx_flow_inv_def)
  from assms(1) have w: "consumed (dr_rx_meta ?d) = written (s_axis_tcp_rx_meta ?k)"
    "consumed (dr_rx_data ?d) = written (s_axis_tcp_rx_data ?k)" by (simp_all add: rl_wired_def Let_def)
  from demo_rx_delivered [OF assms(3)] obtain n where d: "n \<le> length msgs" "length (written (dr_rx_meta ?d)) = length (consumed (dr_read_pkg ?d))"
    "length (consumed (dr_read_pkg ?d)) \<le> n" "prefix (written (dr_rx_data ?d)) (concat (take (length (consumed (dr_read_pkg ?d))) msgs))"
    by blast
  have "length (consumed (s_axis_tcp_rx_meta ?k)) \<le> length (written (dr_rx_meta ?d))"
    using w(1) by (simp add: written_def)
  with k(2) d(1,2,3) show "passed_on (written (s_data_out ?k)) \<le> length msgs" unfolding k(1) by linarith
  have "prefix (written (s_data_out ?k)) (written (dr_rx_data ?d))"
    using k(1) w(2) by (simp add: written_def [of "dr_rx_data ?d"] written_def [of "s_axis_tcp_rx_data ?k"])
  moreover have "prefix (concat (take i msgs)) (concat msgs)" for i
    by (metis append_take_drop_id concat_append prefixI)
  ultimately show "prefix (written (s_data_out ?k)) (concat msgs)" using d(4) by (meson prefix_order.trans)
qed


subsection \<open>The receiving side at rest\<close>

text \<open>A message that is one packet: the last flag is on its last word only.\<close>

definition one_packet :: "axis list \<Rightarrow> bool" where
  "one_packet m \<longleftrightarrow> m \<noteq> [] \<and> ax_last (last m) \<and> passed_on m = 1"

definition rl_settled :: "rx_link \<Rightarrow> bool" where
  "rl_settled s \<longleftrightarrow> (\<forall>s'. rl_move s s' \<longrightarrow> s' = s)"

lemma rl_settledD:
  assumes "rl_settled s"
  shows "demo_rx_handler False 0 (rl_stack s) = rl_stack s" and "inflightReadHandler (rl_kernel s) = rl_kernel s"
    and "requestFSM (rl_kernel s) = rl_kernel s" and "consumeFSM (rl_kernel s) = rl_kernel s"
    and "waiting (dr_notification (rl_stack s)) = []" and "waiting (m_axis_tcp_read_pkg (rl_kernel s)) = []"
    and "waiting (dr_rx_meta (rl_stack s)) = []" and "waiting (dr_rx_data (rl_stack s)) = []"
proof -
  have same: "s' = s" if "rl_move s s'" for s' using assms that by (simp add: rl_settled_def)
  obtain k d where s: "s = \<lparr>rl_stack = d, rl_kernel = k\<rparr>" by (cases s)
  show "demo_rx_handler False 0 (rl_stack s) = rl_stack s" using same [OF rl_demo [of s False 0]] s by simp
  show "inflightReadHandler (rl_kernel s) = rl_kernel s" using same [OF rl_count] s by simp
  show "requestFSM (rl_kernel s) = rl_kernel s" using same [OF rl_request] s by simp
  show "consumeFSM (rl_kernel s) = rl_kernel s" using same [OF rl_consume] s by simp
  show "waiting (dr_notification (rl_stack s)) = []" using same [OF rl_noti] s by (cases d) (force simp: rl_noti_wire_def split: if_splits)
  show "waiting (m_axis_tcp_read_pkg (rl_kernel s)) = []" using same [OF rl_read] s by (cases k) (force simp: rl_read_wire_def split: if_splits)
  show "waiting (dr_rx_meta (rl_stack s)) = []" using same [OF rl_meta] s by (cases d) (force simp: rl_meta_wire_def split: if_splits)
  show "waiting (dr_rx_data (rl_stack s)) = []" using same [OF rl_data] s by (cases d) (force simp: rl_data_wire_def split: if_splits)
qed

lemma inflight_at_rest:
  assumes "inflightReadHandler k = k" and "rx_handler_inv k"
    and "passed_on (consumed (s_axis_tcp_rx_data k)) \<le> length (written (m_axis_tcp_read_pkg k))"
  shows "waiting (incrCntReq k) = []" and "waiting (decrCntReq k) = []"
    and "waiting (inflightReadCntReq k) = [] \<or> full2 (inflightReadCntRsp k)"
proof -
  from assms(2) have cnt: "unat (inflightCnt k) + length (consumed (decrCntReq k)) = length (consumed (incrCntReq k))"
    "length (written (incrCntReq k)) = length (written (m_axis_tcp_read_pkg k))"
    "length (written (decrCntReq k)) = passed_on (consumed (s_axis_tcp_rx_data k))"
    by (auto simp: rx_handler_inv_def rx_flow_inv_def)
  have decr: "waiting (decrCntReq k) = [] \<or> inflightCnt k = 0"
    using assms(1) by (cases k) (auto simp: inflightReadHandler_def word_gt_0 split: if_splits)
  then show incr: "waiting (incrCntReq k) = []"
    using assms(1) by (cases k) (auto simp: inflightReadHandler_def split: if_splits)
  with cnt assms(3) have "unat (inflightCnt k) + length (consumed (decrCntReq k)) \<ge> length (written (decrCntReq k))"
    by (simp add: written_def [of "incrCntReq k"])
  with decr show decr': "waiting (decrCntReq k) = []" by (auto simp: written_def)
  from assms(1) incr decr' show "waiting (inflightReadCntReq k) = [] \<or> full2 (inflightReadCntRsp k)"
    by (cases k) (auto simp: inflightReadHandler_def split: if_splits)
qed

lemma request_at_rest:
  assumes "requestFSM k = k" and "rx_handler_inv k" and "waiting (incrCntReq k) = []"
    and "waiting (inflightReadCntReq k) = [] \<or> full2 (inflightReadCntRsp k)"
  shows "waiting (s_axis_tcp_notification k) = []"
proof (cases "requestFsmState k")
  case WAIT_NOTI
  with assms(2) have "\<not> full2 (inflightReadCntReq k)" by (simp add: rx_handler_inv_def rx_count_inv_def full2_def)
  with WAIT_NOTI assms(1) show ?thesis
    by (auto simp: requestFSM_def dest!: arg_cong [where f = requestFsmState] split: if_splits)
next
  case CHECK_IN_FLIGHT
  with assms(2,4) obtain v where "waiting (inflightReadCntRsp k) = [v]"
    by (auto simp: rx_handler_inv_def rx_count_inv_def full2_def)
  with CHECK_IN_FLIGHT assms(1) show ?thesis
    by (auto simp: requestFSM_def dest!: arg_cong [where f = inflightReadCntRsp] split: if_splits)
next
  case BACK_OFF
  with assms(1) show ?thesis
    by (auto simp: requestFSM_def dest!: arg_cong [where f = "\<lambda>k. (requestFsmState k, rx_counter k)"] split: if_splits)
next
  case REQUEST
  with assms(1,3) show ?thesis
    by (auto simp: requestFSM_def full2_def Let_def dest!: arg_cong [where f = s_axis_tcp_notification] split: if_splits)
qed


lemma demo_rx_at_rest:
  assumes "demo_rx_handler False 0 d = d" and "demo_rx_inv msgs d" and "written (net_rx d) = concat msgs"
    and "list_all demo_message msgs"
  shows "rxFsmState d = BUFFER_HEADER \<and> written (dr_rx_data d) = concat msgs \<and> length (written (dr_rx_meta d)) = length msgs \<or>
     rxFsmState d = WAIT_REQ \<and> waiting (dr_read_pkg d) = [] \<and>
       length (consumed (dr_read_pkg d)) < length (written (dr_notification d))"
proof -
  from assms(2) obtain before m i j where at: "demo_rx_at d before m i j"
    and pre: "prefix (if rxFsmState d = BUFFER_HEADER then before else before @ [m]) msgs" by (auto simp: demo_rx_inv_def)
  from pre obtain rest where rest: "msgs = (if rxFsmState d = BUFFER_HEADER then before else before @ [m]) @ rest"
    by (auto simp: prefix_def)
  show ?thesis
  proof (cases "rxFsmState d")
    case BUFFER_HEADER
    with at have w: "waiting (rxDataBuffer d) = []" "consumed (net_rx d) = concat before" "written (dr_rx_data d) = concat before"
      "length (written (dr_rx_meta d)) = length before" by (auto simp: demo_rx_at_def)
    with BUFFER_HEADER assms(1) have "waiting (net_rx d) = []"
      by (cases "waiting (net_rx d)") (auto simp: demo_rx_handler_def buffer_full_def Let_def dest!: arg_cong [where f = rxFsmState])
    with w(2) rest BUFFER_HEADER assms(3) have "concat rest = []" by (simp add: written_def)
    with assms(4) rest have "rest = []" by (cases rest) (auto simp: demo_message_def)
    with rest w BUFFER_HEADER show ?thesis by simp
  next
    case BUFFER_DATA
    with at have d: "consumed (net_rx d) = concat before @ take i m" "waiting (rxDataBuffer d) = take i m"
      "i < length m" "demo_message m" by (auto simp: demo_rx_at_def)
    with demo_message_length(4) [OF d(4)] have "\<not> buffer_full d" by (simp add: buffer_full_def)
    with BUFFER_DATA assms(1) have "waiting (net_rx d) = []"
      by (cases "waiting (net_rx d)") (auto simp: demo_rx_handler_def Let_def dest!: arg_cong [where f = net_rx] split: if_splits)
    with d rest BUFFER_DATA assms(3) have "take i m = m @ concat rest" by (simp add: written_def)
    then have "length (take i m) = length (m @ concat rest)" by (rule arg_cong)
    with d(3) show ?thesis by simp
  next
    case SEND_NOTI
    with assms(1) show ?thesis by (auto simp: demo_rx_handler_def dest!: arg_cong [where f = rxFsmState])
  next
    case WAIT_REQ
    with assms(1) have "waiting (dr_read_pkg d) = []"
      by (cases "waiting (dr_read_pkg d)") (auto simp: demo_rx_handler_def dest!: arg_cong [where f = rxFsmState])
    moreover from WAIT_REQ at have "map (\<lambda>n. unat (noti_length n)) (written (dr_notification d)) = map (\<lambda>m. notified m mod 2 ^ 16) (before @ [m])"
      by (simp add: demo_rx_at_def)
    then have "length (written (dr_notification d)) = Suc (length before)" by (auto dest: arg_cong [where f = length])
    with WAIT_REQ at have "length (consumed (dr_read_pkg d)) < length (written (dr_notification d))"
      by (simp add: demo_rx_at_def)
    ultimately show ?thesis using WAIT_REQ by simp
  next
    case SEND_MSG
    with at have "waiting (rxDataBuffer d) \<noteq> []" by (auto simp: demo_rx_at_def)
    with SEND_MSG assms(1) show ?thesis
      by (auto simp: demo_rx_handler_def Let_def dest!: arg_cong [where f = rxDataBuffer] split: if_splits)
  qed
qed

lemma passed_on_append [simp]: "passed_on (xs @ ys) = passed_on xs + passed_on ys"
  by (simp add: passed_on_def)

lemma passed_on_concat: "list_all one_packet msgs \<Longrightarrow> passed_on (concat msgs) = length msgs"
  by (induction msgs) (auto simp: one_packet_def, simp add: passed_on_def)

lemma last_of_messages: "list_all one_packet msgs \<Longrightarrow> concat msgs = xs @ ys \<Longrightarrow> ys \<noteq> [] \<Longrightarrow> ax_last (last ys)"
proof -
  assume msgs: "list_all one_packet msgs" and xs: "concat msgs = xs @ ys" "ys \<noteq> []"
  then have "concat msgs \<noteq> []" by simp
  then obtain ms m where "msgs = ms @ [m]" by (cases msgs rule: rev_cases) auto
  with msgs have "m \<noteq> []" "ax_last (last m)" by (auto simp: one_packet_def)
  with \<open>msgs = ms @ [m]\<close> have "ax_last (last (concat msgs))" by simp
  with xs show "ax_last (last ys)" by simp
qed

lemma rl_settled_delivered:
  assumes "rl_wired s" and "rx_handler_inv (rl_kernel s)" and "demo_rx_inv msgs (rl_stack s)" and "rl_settled s"
    and "written (net_rx (rl_stack s)) = concat msgs" and "list_all demo_message msgs" and "list_all one_packet msgs"
  shows "written (s_data_out (rl_kernel s)) = concat msgs"
proof -
  let ?k = "rl_kernel s" and ?d = "rl_stack s"
  note S = rl_settledD [OF assms(4)]
  from assms(2) have k: "written (s_data_out ?k) = consumed (s_axis_tcp_rx_data ?k)"
    "length (consumed (s_axis_tcp_rx_meta ?k)) =
       passed_on (consumed (s_axis_tcp_rx_data ?k)) + (if serverFsmState ?k = CONSUME then 1 else 0)"
    "written (m_axis_tcp_read_pkg ?k) = map read_request (filter (\<lambda>n. noti_length n \<noteq> 0) (consumed (s_axis_tcp_notification ?k)))"
    by (auto simp: rx_handler_inv_def rx_flow_inv_def)
  from assms(1) S(5-8) have w: "written (dr_notification ?d) = written (s_axis_tcp_notification ?k)"
    "written (m_axis_tcp_read_pkg ?k) = written (dr_read_pkg ?d)"
    "written (dr_rx_meta ?d) = written (s_axis_tcp_rx_meta ?k)"
    "written (dr_rx_data ?d) = written (s_axis_tcp_rx_data ?k)"
    by (simp_all add: rl_wired_def Let_def written_def)
  from demo_rx_delivered [OF assms(3)] obtain n where d: "n \<le> length msgs"
    "map (\<lambda>n. unat (noti_length n)) (written (dr_notification ?d)) = map (\<lambda>m. notified m mod 2 ^ 16) (take n msgs)"
    "length (written (dr_rx_meta ?d)) = length (consumed (dr_read_pkg ?d))" by blast
  have "length (consumed (s_axis_tcp_rx_meta ?k)) \<le> length (written (dr_rx_meta ?d))" using w(3) by (simp add: written_def)
  also have "\<dots> \<le> length (written (m_axis_tcp_read_pkg ?k))" using d(3) w(2) by (simp add: written_def)
  finally have few: "passed_on (consumed (s_axis_tcp_rx_data ?k)) \<le> length (written (m_axis_tcp_read_pkg ?k))" using k(2) by simp
  note I = inflight_at_rest [OF S(2) assms(2) few]
  have notis: "consumed (s_axis_tcp_notification ?k) = written (dr_notification ?d)"
    using request_at_rest [OF S(3) assms(2) I(1,3)] w(1) by (simp add: written_def)
  have "noti_length x \<noteq> 0" if "x \<in> set (written (dr_notification ?d))" for x
  proof -
    have "unat (noti_length x) \<in> set (map (\<lambda>m. notified m mod 2 ^ 16) (take n msgs))"
      using that unfolding d(2) [symmetric] by (auto intro: imageI)
    then obtain m where "m \<in> set msgs" "unat (noti_length x) = notified m mod 2 ^ 16" by (auto dest: in_set_takeD)
    moreover from this assms(6) have "demo_message m" by (simp add: list_all_iff)
    ultimately show ?thesis using demo_message_length(2) [of m] by (auto simp: notified_def)
  qed
  then have reads: "length (written (dr_read_pkg ?d)) = length (written (dr_notification ?d))"
    using k(3) notis w(2) by (simp add: filter_True)
  from demo_rx_at_rest [OF S(1) assms(3,5,6)] reads
  have all: "written (dr_rx_data ?d) = concat msgs" "length (written (dr_rx_meta ?d)) = length msgs"
    by (auto simp: written_def)
  have split: "concat msgs = consumed (s_axis_tcp_rx_data ?k) @ waiting (s_axis_tcp_rx_data ?k)"
    using all(1) w(4) by (simp add: written_def)
  have "waiting (s_axis_tcp_rx_data ?k) = []"
  proof (rule ccontr)
    assume more: "waiting (s_axis_tcp_rx_data ?k) \<noteq> []"
    have "1 \<le> passed_on (waiting (s_axis_tcp_rx_data ?k))"
      using last_of_messages [OF assms(7) split more] last_in_set [OF more]
      by (auto simp: passed_on_def Suc_le_eq length_greater_0_conv filter_empty_conv)
    then have "passed_on (consumed (s_axis_tcp_rx_data ?k)) < length msgs"
      using arg_cong [OF split, of passed_on] passed_on_concat [OF assms(7)] by simp
    moreover have "\<not> full2 (decrCntReq ?k)" using I(2) by (simp add: full2_def)
    moreover obtain w ws where "waiting (s_axis_tcp_rx_data ?k) = w # ws" using more by (auto simp: neq_Nil_conv)
    moreover have "length (written (s_axis_tcp_rx_meta ?k)) = length msgs" using all(2) w(3) by simp
    ultimately show False
      using S(4) k(2)
      by (cases "serverFsmState ?k"; cases "waiting (s_axis_tcp_rx_meta ?k)")
        (auto simp: consumeFSM_def Let_def written_def dest!: arg_cong [where f = s_axis_tcp_rx_data] split: if_splits)
  qed
  with split k(1) show ?thesis by simp
qed


subsection \<open>A schedule\<close>

text \<open>One turn in which every process runs and every wire moves once.\<close>

definition rl_turn :: "rx_link \<Rightarrow> rx_link" where
  "rl_turn s = rl_data_wire (rl_meta_wire (rl_read_wire (rl_noti_wire
     (s\<lparr>rl_stack := demo_rx_handler False 0 (rl_stack s), rl_kernel := tcp_rxHandler (rl_kernel s)\<rparr>))))"

lemma rl_turn_steps: "rl_step\<^sup>*\<^sup>* s (rl_turn s)"
proof -
  have one: "rl_step t u \<Longrightarrow> rl_step\<^sup>*\<^sup>* u v \<Longrightarrow> rl_step\<^sup>*\<^sup>* t v" for t u v by (rule converse_rtranclp_into_rtranclp)
  note rl_demo' = rl_demo [of s False 0] and
    rl_request' = rl_request [of "s\<lparr>rl_stack := demo_rx_handler False 0 (rl_stack s)\<rparr>"] and
    rl_count' = rl_count [of "s\<lparr>rl_stack := demo_rx_handler False 0 (rl_stack s), rl_kernel := requestFSM (rl_kernel s)\<rparr>"] and
    rl_consume' = rl_consume [of "s\<lparr>rl_stack := demo_rx_handler False 0 (rl_stack s),
      rl_kernel := inflightReadHandler (requestFSM (rl_kernel s))\<rparr>"]
  show ?thesis unfolding rl_turn_def tcp_rxHandler_def
    by (rule one [OF rl_moves [OF rl_demo']], rule one [OF rl_moves [OF rl_request', simplified]],
        rule one [OF rl_moves [OF rl_count', simplified]], rule one [OF rl_moves [OF rl_consume', simplified]],
        rule one [OF rl_moves [OF rl_noti]], rule one [OF rl_moves [OF rl_read]], rule one [OF rl_moves [OF rl_meta]],
        rule one [OF rl_moves [OF rl_data]]) simp
qed

primrec rl_turns :: "nat \<Rightarrow> rx_link \<Rightarrow> rx_link" where
  "rl_turns 0 s = s"
| "rl_turns (Suc n) s = rl_turns n (rl_turn s)"

lemma rl_turns_steps: "rl_step\<^sup>*\<^sup>* s (rl_turns n s)"
  by (induction n arbitrary: s) (auto intro: rtranclp_trans rl_turn_steps)


subsection \<open>Properties\<close>

text \<open>C25: the transmit handler and the demo stack, connected: from every state they can reach, left alone they come to rest
after finitely many moves, in every schedule, and at rest every word the handler has taken is on the network, in order and cut into the packets of
the commands; unless the handler is out of words, every command it has been given has been carried out.\<close>

theorem demo_tx_delivers:
  assumes "tl_init s" and "tl_step\<^sup>*\<^sup>* s s'"
  shows "(\<nexists>f. f 0 = s' \<and> (\<forall>i. tl_move (f i) (f (Suc i)) \<and> f (Suc i) \<noteq> f i)) \<and>
     (\<exists>u. tl_move\<^sup>*\<^sup>* s' u \<and> tl_settled u) \<and> (\<forall>u. tl_move\<^sup>*\<^sup>* s' u \<and> tl_settled u \<longrightarrow> tl_delivered u)"
proof -
  have inv: "tl_inv s'" by (rule tx_link.inv_reachable [OF assms])
  then have "\<exists>u. tl_move\<^sup>*\<^sup>* s' u \<and> tl_settled u" using tx_link.settles by (simp only: tl_settled_def)
  moreover have "tl_delivered u" if "tl_move\<^sup>*\<^sup>* s' u" "tl_settled u" for u
    using that inv by (blast intro: tl_settled_delivered tx_link.moves_inv)
  moreover have "\<nexists>f. f 0 = s' \<and> (\<forall>i. tl_move (f i) (f (Suc i)) \<and> f (Suc i) \<noteq> f i)"
    using tx_link.no_infinite_run inv by metis
  ultimately show ?thesis by blast
qed

definition demo_tx_quiet :: demo_tx where
  "demo_tx_quiet = \<lparr>txFsmState = WAIT_META, dt_session = 0, dt_length = 0, recvByte = 0, dt_tx_meta = no_data,
     dt_tx_data = no_data, dt_tx_status = no_data, net_tx = no_data\<rparr>"

definition tl_loaded :: tx_link where
  "tl_loaded = \<lparr>tl_kernel = tx_quiet\<lparr>cmd_txHandler := push (tx_command 7 64 24 0) no_data,
      s_data_in := push (demo_word 5 False) no_data\<rparr>, tl_stack = demo_tx_quiet\<rparr>"

theorem demo_tx_delivers_witness:
  "\<exists>u. tl_move\<^sup>*\<^sup>* tl_loaded u \<and> tl_settled u \<and> tl_delivered u"
proof -
  let ?q = "\<lparr>tl_kernel = tx_quiet, tl_stack = demo_tx_quiet\<rparr> :: tx_link"
  let ?c = "\<lparr>tl_kernel = tx_quiet\<lparr>cmd_txHandler := push (tx_command 7 64 24 0) no_data\<rparr>, tl_stack = demo_tx_quiet\<rparr> :: tx_link"
  have "good_command (tx_command 7 64 24 0)" by (simp add: good_command_def tx_command_fields)
  from tl_cmd [OF this, of ?q] have "tl_step ?q ?c" by (simp add: tx_quiet_def)
  moreover have "tl_step ?c tl_loaded" using tl_data [of ?c "demo_word 5 False"] by (simp add: tl_loaded_def tx_quiet_def)
  ultimately have steps: "tl_step\<^sup>*\<^sup>* ?q tl_loaded" by simp
  have "tl_init ?q" by (simp add: tl_init_def tx_init_def demo_tx_init_def tx_quiet_def demo_tx_quiet_def)
  from demo_tx_delivers [OF this steps] show ?thesis by blast
qed

text \<open>C26: the demo stack and the receive handler, connected, with messages of one packet each: when everything has arrived and
nothing can move any more, the handler has put out exactly the words of the messages; there is no deadlock before.\<close>

theorem demo_rx_delivers:
  assumes "rl_init s" and "rl_step\<^sup>*\<^sup>* s s'" and "list_all demo_message msgs" and "list_all one_packet msgs"
    and "written (net_rx (rl_stack s')) = concat msgs" and "rl_settled s'"
  shows "written (s_data_out (rl_kernel s')) = concat msgs"
proof -
  from assms(1) have init: "demo_rx_init (rl_stack s)" "rx_init (rl_kernel s)" by (simp_all add: rl_init_def)
  have pre: "prefix (written (net_rx (rl_stack s'))) (concat msgs)" by (simp add: assms(5))
  show ?thesis
    by (rule rl_settled_delivered [OF rx_link.inv_reachable [OF assms(1,2)] rx.inv_reachable [OF init(2) rl_reachable(2) [OF assms(2)]]
          demo_rx_reachable [OF rl_reachable(1) [OF assms(2)] init(1) pre assms(3)] assms(6,5,3,4)])
qed

definition rx_quiet :: rx_handler where
  "rx_quiet = \<lparr>inflightCnt = 0, requestFsmState = WAIT_NOTI, rx_counter = 0, serverFsmState = WAIT_PKG,
     s_axis_tcp_notification = no_data, m_axis_tcp_read_pkg = no_data, s_axis_tcp_rx_meta = no_data,
     s_axis_tcp_rx_data = no_data, s_data_out = no_data, inflightReadCntReq = no_data, inflightReadCntRsp = no_data,
     incrCntReq = no_data, decrCntReq = no_data\<rparr>"

definition rl_quiet :: rx_link where
  "rl_quiet = \<lparr>rl_stack = demo_rx_quiet, rl_kernel = rx_quiet\<rparr>"

primrec rl_load :: "axis list \<Rightarrow> rx_link \<Rightarrow> rx_link" where
  "rl_load [] s = s"
| "rl_load (w # ws) s = rl_load ws (s\<lparr>rl_stack := (rl_stack s)\<lparr>net_rx := push w (net_rx (rl_stack s))\<rparr>\<rparr>)"

lemma rl_load_steps: "rl_step\<^sup>*\<^sup>* s (rl_load ws s)"
  by (induction ws arbitrary: s) (auto intro: converse_rtranclp_into_rtranclp rl_arrive)

lemma rl_quiet_init: "rl_init rl_quiet"
  by (simp add: rl_init_def rl_quiet_def demo_rx_quiet_init rx_init_def rx_quiet_def)

lemma rl_played: "rl_step\<^sup>*\<^sup>* rl_quiet (rl_turns n (rl_load ws rl_quiet))"
  by (rule rtranclp_trans [OF rl_load_steps rl_turns_steps])

text \<open>At rest, as a test: no process moves and nothing is on the wires.\<close>

definition rl_at_rest :: "rx_link \<Rightarrow> bool" where
  "rl_at_rest s \<longleftrightarrow> (let d = rl_stack s; k = rl_kernel s in
     rxFsmState d = BUFFER_HEADER \<and> is_empty (net_rx d) \<and> inflightReadHandler k = k \<and> requestFSM k = k \<and> consumeFSM k = k \<and>
     is_empty (dr_notification d) \<and> is_empty (m_axis_tcp_read_pkg k) \<and> is_empty (dr_rx_meta d) \<and> is_empty (dr_rx_data d))"

lemma rl_at_rest_settled:
  assumes "rl_at_rest s"
  shows "rl_settled s"
  unfolding rl_settled_def
proof (intro allI impI)
  fix s' assume "rl_move s s'"
  then show "s' = s"
    by (cases rule: rl_move.cases) (use assms in \<open>simp_all add: rl_at_rest_def Let_def demo_rx_handler_def rl_wire_defs\<close>)
qed

theorem demo_rx_delivers_witness:
  "rl_settled (rl_turns 14 (rl_load [demo_word 64 False, demo_word 5 True] rl_quiet)) \<and>
   written (s_data_out (rl_kernel (rl_turns 14 (rl_load [demo_word 64 False, demo_word 5 True] rl_quiet)))) =
     [demo_word 64 False, demo_word 5 True]"
proof -
  let ?t = "rl_turns 14 (rl_load [demo_word 64 False, demo_word 5 True] rl_quiet)"
  let ?msgs = "[[demo_word 64 False, demo_word 5 True]]"
  have "rl_at_rest ?t" by code_simp
  then have rest: "rl_settled ?t" by (rule rl_at_rest_settled)
  have msgs: "list_all demo_message ?msgs" "list_all one_packet ?msgs" by code_simp+
  have "written (net_rx (rl_stack (rl_turns n s))) = written (net_rx (rl_stack s))" for n s
    by (induction n arbitrary: s) (simp_all add: rl_turn_def rl_wire_defs)
  then have "written (net_rx (rl_stack ?t)) = concat ?msgs" by (simp add: rl_quiet_def demo_rx_quiet_def)
  from demo_rx_delivers [OF rl_quiet_init rl_played msgs this rest] rest show ?thesis by simp
qed


lemma rl_turns_net: "written (net_rx (rl_stack (rl_turns n s))) = written (net_rx (rl_stack s))"
  by (induction n arbitrary: s) (simp_all add: rl_turn_def rl_wire_defs)


end
