(* ===== verification/Hls_Arith.thy ===== *)
theory Hls_Arith
  imports Hls_Stream
begin

text \<open>
  \<open>reduce_arith.cpp\<close>: the elementwise sum of two 512-bit streams, with lanes of the width of the element
  type. The sums of \<open>float\<close> and \<open>double\<close> are parameters; those of \<open>int\<close> and \<open>long\<close> are sums of words (the
  hardware wraps around). The width of a lane is the length of the word type.
\<close>

subsection \<open>The kernel\<close>

definition lane :: "512 word \<Rightarrow> nat \<Rightarrow> 'b::len word" where
  "lane op j = get_range op ((j + 1) * LENGTH('b) - 1) (j * LENGTH('b))"

definition simd_sum :: "('b::len word \<Rightarrow> 'b word \<Rightarrow> 'b word) \<Rightarrow> 512 word \<Rightarrow> 512 word \<Rightarrow> 512 word \<Rightarrow> 512 word" where
  "simd_sum add res op1 op2 =
     foldl (\<lambda>r j. set_range r ((j + 1) * LENGTH('b) - 1) (j * LENGTH('b)) (add (lane op1 j) (lane op2 j)))
       res [0..<512 div LENGTH('b)]"

text \<open>One turn of the loop: \<open>res\<close> is what the uninitialised result held.\<close>

definition sum_word :: "('b::len word \<Rightarrow> 'b word \<Rightarrow> 'b word) \<Rightarrow> 512 word \<Rightarrow> axis \<Rightarrow> axis \<Rightarrow> axis" where
  "sum_word add res op1_word op2_word =
     \<lparr>ax_data = simd_sum add res (ax_data op1_word) (ax_data op2_word),
      ax_keep = ax_keep op1_word AND ax_keep op2_word, ax_last = (ax_last op1_word \<and> ax_last op2_word)\<rparr>"

text \<open>The loop, with \<open>n\<close> turns left: the words written and what is left of the inputs; \<open>None\<close> while blocked.\<close>

primrec elementwise_sum :: "('b::len word \<Rightarrow> 'b word \<Rightarrow> 'b word) \<Rightarrow> 512 word \<Rightarrow> nat \<Rightarrow> axis list \<Rightarrow> axis list \<Rightarrow>
     (axis list \<times> axis list \<times> axis list) option" where
  "elementwise_sum add res 0 in1 in2 = Some ([], in1, in2)"
| "elementwise_sum add res (Suc n) in1 in2 =
     (case take_one in1 of None \<Rightarrow> None
      | Some (w1, in1') \<Rightarrow> (case take_one in2 of None \<Rightarrow> None
          | Some (w2, in2') \<Rightarrow> (case elementwise_sum add res n in1' in2' of None \<Rightarrow> None
              | Some (out, rest) \<Rightarrow> Some (sum_word add res w1 w2 # out, rest))))"

definition reduce_arith :: "(u32 \<Rightarrow> u32 \<Rightarrow> u32) \<Rightarrow> (u64 \<Rightarrow> u64 \<Rightarrow> u64) \<Rightarrow> 512 word \<Rightarrow> u32 \<Rightarrow> u32 \<Rightarrow> axis list \<Rightarrow> axis list \<Rightarrow>
     (axis list \<times> axis list \<times> axis list) option" where
  "reduce_arith float_add double_add res function count in1 in2 =
     (if function = 0 then elementwise_sum float_add res (unat count) in1 in2
      else if function = 1 then elementwise_sum double_add res (unat count) in1 in2
      else if function = 2 then elementwise_sum ((+) :: u32 \<Rightarrow> u32 \<Rightarrow> u32) res (unat count) in1 in2
      else elementwise_sum ((+) :: u64 \<Rightarrow> u64 \<Rightarrow> u64) res (unat count) in1 in2)"

subsection \<open>The reference: lists of elements\<close>

definition lanes :: "512 word \<Rightarrow> 'b::len word list" where
  "lanes op = map (lane op) [0..<512 div LENGTH('b)]"

lemma lane_range:
  assumes "j < 512 div LENGTH('b::len)"
  shows "(j + 1) * LENGTH('b) - 1 < 512" and "Suc ((j + 1) * LENGTH('b) - 1) - j * LENGTH('b) = LENGTH('b)"
    and "j * LENGTH('b) \<le> (j + 1) * LENGTH('b) - 1"
proof -
  have "(j + 1) * LENGTH('b) \<le> 512 div LENGTH('b) * LENGTH('b)"
    using assms by (intro mult_le_mono1) simp
  also have "\<dots> \<le> 512" by (rule div_times_less_eq_dividend)
  finally have "(j + 1) * LENGTH('b) \<le> 512" .
  moreover have "0 < LENGTH('b)" by simp
  ultimately show "(j + 1) * LENGTH('b) - 1 < 512" by linarith
  have "j * LENGTH('b) + LENGTH('b) = (j + 1) * LENGTH('b)" by simp
  with \<open>0 < LENGTH('b)\<close> show "Suc ((j + 1) * LENGTH('b) - 1) - j * LENGTH('b) = LENGTH('b)"
    "j * LENGTH('b) \<le> (j + 1) * LENGTH('b) - 1" by linarith+
qed

lemma lane_set_same:
  assumes "j < 512 div LENGTH('b::len)"
  shows "lane (set_range r ((j + 1) * LENGTH('b) - 1) (j * LENGTH('b)) v) j = (v :: 'b word)"
  unfolding lane_def by (rule get_set_range_same) (use lane_range [OF assms] in simp_all)

lemma lane_set_other:
  assumes "i < j"
  shows "(lane (set_range r ((j + 1) * LENGTH('b::len) - 1) (j * LENGTH('b)) (v :: 'b word)) i :: 'b word) = lane r i"
proof -
  have "(i + 1) * LENGTH('b) \<le> j * LENGTH('b)" using assms by (intro mult_le_mono1) simp
  moreover have "0 < (i + 1) * LENGTH('b)" by simp
  ultimately have "(i + 1) * LENGTH('b) - 1 < j * LENGTH('b)" by linarith
  then show ?thesis unfolding lane_def by (intro get_set_range_other) simp
qed

lemma lane_simd_sum:
  assumes "i < 512 div LENGTH('b::len)"
  shows "lane (simd_sum add res op1 op2) i = (add (lane op1 i) (lane op2 i) :: 'b word)"
proof -
  let ?f = "\<lambda>r j. set_range r ((j + 1) * LENGTH('b) - 1) (j * LENGTH('b)) (add (lane op1 j) (lane op2 j) :: 'b word)"
  have "i < n \<longrightarrow> lane (foldl ?f res [0..<n]) i = (add (lane op1 i) (lane op2 i) :: 'b word)"
    if "n \<le> 512 div LENGTH('b)" for n
    using that
  proof (induction n)
    case (Suc n)
    then show ?case
      using lane_set_same [of n, where 'b = 'b] lane_set_other [of i n, where 'b = 'b] by (auto simp: less_Suc_eq)
  qed simp
  with assms show ?thesis by (simp add: simd_sum_def)
qed

lemma lanes_simd_sum:
  fixes add :: "'b::len word \<Rightarrow> 'b word \<Rightarrow> 'b word"
  shows "lanes (simd_sum add res op1 op2) = map2 add (lanes op1) (lanes op2)"
  by (rule nth_equalityI) (simp_all add: lanes_def lane_simd_sum)

text \<open>The elements of a stream.\<close>

definition elements :: "axis list \<Rightarrow> 'b::len word list" where
  "elements ws = concat (map (lanes \<circ> ax_data) ws)"

lemma map2_append: "length xs = length xs' \<Longrightarrow> map2 f (xs @ ys) (xs' @ ys') = map2 f xs xs' @ map2 f ys ys'"
  by simp

lemma elementwise_sum_run:
  fixes add :: "'b::len word \<Rightarrow> 'b word \<Rightarrow> 'b word"
  assumes "length ws1 = n" and "length ws2 = n"
  shows "elementwise_sum add res n (ws1 @ rest1) (ws2 @ rest2) = Some (map2 (sum_word add res) ws1 ws2, rest1, rest2)"
  using assms
proof (induction n arbitrary: ws1 ws2)
  case (Suc n)
  then obtain w1 v1 w2 v2 where "ws1 = w1 # v1" "ws2 = w2 # v2" by (metis length_Suc_conv)
  with Suc show ?case by simp
qed simp

lemma elements_sum:
  fixes add :: "'b::len word \<Rightarrow> 'b word \<Rightarrow> 'b word"
  assumes "length ws1 = length ws2"
  shows "elements (map2 (sum_word add res) ws1 ws2) = map2 add (elements ws1) (elements ws2)"
  using assms
proof (induction ws1 ws2 rule: list_induct2)
  case (Cons w1 ws1 w2 ws2)
  then show ?case by (simp add: elements_def sum_word_def lanes_simd_sum) (simp add: lanes_def)
qed (simp add: elements_def)

lemma elementwise_sum_blocked:
  fixes add :: "'b::len word \<Rightarrow> 'b word \<Rightarrow> 'b word"
  shows "length in1 < n \<or> length in2 < n \<Longrightarrow> elementwise_sum add res n in1 in2 = None"
proof (induction n arbitrary: in1 in2)
  case (Suc n)
  then show ?case by (cases in1; cases in2) auto
qed simp

subsection \<open>Properties\<close>

lemma lasts_sum:
  fixes add :: "'b::len word \<Rightarrow> 'b word \<Rightarrow> 'b word"
  shows "map ax_last (map2 (sum_word add res) ws1 ws2) = map2 (\<and>) (map ax_last ws1) (map ax_last ws2)"
  by (simp add: sum_word_def zip_map_map case_prod_beta comp_def)

lemma elementwise_sum_spec:
  fixes add :: "'b::len word \<Rightarrow> 'b word \<Rightarrow> 'b word"
  assumes "length ws1 = n" and "length ws2 = n"
  shows "\<exists>out. elementwise_sum add res n (ws1 @ rest1) (ws2 @ rest2) = Some (out, rest1, rest2) \<and>
     map ax_last out = map2 (\<and>) (map ax_last ws1) (map ax_last ws2) \<and>
     elements out = map2 add (elements ws1) (elements ws2)"
  using elementwise_sum_run [OF assms, of add res rest1 rest2] lasts_sum [of add res ws1 ws2]
    elements_sum [of ws1 ws2 add res] assms by simp

text \<open>C15: the reduction kernel, given \<open>count\<close> words on both inputs, gives the elementwise sums of the two lists of
elements (32-bit or 64-bit lanes, floating point or integer, as the function code says), takes just those words, and ends
the stream where both inputs end.\<close>

theorem reduce_arith_sums:
  assumes "length ws1 = unat count" and "length ws2 = unat count"
  shows "\<exists>out. reduce_arith float_add double_add res function count (ws1 @ rest1) (ws2 @ rest2) = Some (out, rest1, rest2) \<and>
     map ax_last out = map2 (\<and>) (map ax_last ws1) (map ax_last ws2) \<and>
     (if function = 0 then elements out = map2 float_add (elements ws1) (elements ws2)
      else if function = 1 then elements out = map2 double_add (elements ws1) (elements ws2)
      else if function = 2 then (elements out :: u32 list) = map2 (+) (elements ws1) (elements ws2)
      else (elements out :: u64 list) = map2 (+) (elements ws1) (elements ws2))"
  unfolding reduce_arith_def
  using elementwise_sum_spec [OF assms, where 'b = 32] elementwise_sum_spec [OF assms, where 'b = 64]
  by (cases "function = 0"; cases "function = 1"; cases "function = 2") simp_all

text \<open>An example: two words of eight 64-bit elements.\<close>

definition ones :: "512 word" where
  "ones = 0x70000000000000006000000000000000500000000000000040000000000000003000000000000000200000000000000010000000000000000"

definition tens :: "512 word" where
  "tens = 0x46000000000000003C00000000000000320000000000000028000000000000001E0000000000000014000000000000000A0000000000000000"

theorem reduce_arith_sums_witness:
  "\<exists>out. reduce_arith (\<lambda>a b. a) (\<lambda>a b. a) 0 3 1 [\<lparr>ax_data = ones, ax_keep = - 1, ax_last = True\<rparr>]
       [\<lparr>ax_data = tens, ax_keep = - 1, ax_last = True\<rparr>] = Some (out, [], []) \<and>
     (elements out :: u64 list) = [0, 11, 22, 33, 44, 55, 66, 77]"
proof -
  let ?x = "[\<lparr>ax_data = ones, ax_keep = - 1, ax_last = True\<rparr>] :: axis list"
  let ?y = "[\<lparr>ax_data = tens, ax_keep = - 1, ax_last = True\<rparr>] :: axis list"
  from reduce_arith_sums [of ?x 1 ?y "\<lambda>a b. a" "\<lambda>a b. a" 0 3 "[]" "[]"]
  obtain out where out: "reduce_arith (\<lambda>a b. a) (\<lambda>a b. a) 0 3 1 ?x ?y = Some (out, [], [])"
    "(elements out :: u64 list) = map2 (+) (elements ?x) (elements ?y)" by auto
  have "(map2 (+) (elements ?x) (elements ?y) :: u64 list) = [0, 11, 22, 33, 44, 55, 66, 77]" by code_simp
  with out show ?thesis by (intro exI [of _ out]) simp
qed

end
