(* ===== verification/Demo_Kernels.thy ===== *)
theory Demo_Kernels
  imports Hls_Links Hls_Arith
begin

text \<open>
  Two kernels of the demo design: \<open>src/demo/build/hls/loopback/vnx_loopback.cpp\<close>, which sends a message back as it
  came, and \<open>src/demo/build/hls/arith/reduce_arith.cpp\<close>, the reduction kernel with a last flag of its own.
\<close>

subsection \<open>Loopback\<close>

text \<open>The words behind the header: \<open>count\<close> is an \<open>int\<close>.\<close>

function loopback_loop :: "u32 \<Rightarrow> axis_dest list \<Rightarrow> (axis_dest list \<times> axis_dest list) option" where
  "loopback_loop count ins =
     (if 0 <s count then
        (case take_one ins of None \<Rightarrow> None
         | Some (inword, ins') \<Rightarrow>
             (case loopback_loop (count - bytes_per_word) ins' of None \<Rightarrow> None
              | Some (out, rest) \<Rightarrow> Some (inword # out, rest)))
      else Some ([], ins))"
  by pat_completeness auto

termination
  by (relation "measure (\<lambda>(count, _). nat (sint count))")
    (auto simp: depacketizer_measure word_sless_alt)

declare loopback_loop.simps [simp del]

text \<open>A run: the words written and what is left of the input.\<close>

definition vnx_loopback :: "axis_dest list \<Rightarrow> (axis_dest list \<times> axis_dest list) option" where
  "vnx_loopback ins =
     (case take_one ins of None \<Rightarrow> None
      | Some (tmp, ins') \<Rightarrow>
          (case loopback_loop (get_range (ax_data tmp) 31 0) ins' of None \<Rightarrow> None
           | Some (out, rest) \<Rightarrow> Some (tmp # out, rest)))"

text \<open>It takes the words that the depacketizer takes, and gives them back.\<close>

lemma loopback_loop_depacketizer:
  "depacketizer_loop count ins = Some (out, rest) \<Longrightarrow> \<exists>ws. ins = ws @ rest \<and> loopback_loop count ins = Some (ws, rest)"
proof (induction count ins arbitrary: out rest rule: depacketizer_loop.induct)
  case (1 count ins)
  show ?case
  proof (cases "0 <s count")
    case False
    with "1.prems" show ?thesis by (subst loopback_loop.simps) (simp add: depacketizer_loop.simps [of count])
  next
    case True
    with "1.prems" obtain w ins' where ins: "ins = w # ins'"
      by (cases ins) (simp_all add: depacketizer_loop.simps [of count])
    with True "1.prems" obtain out' where rec: "depacketizer_loop (count - bytes_per_word) ins' = Some (out', rest)"
      by (auto simp: depacketizer_loop.simps [of count] Let_def split: option.splits prod.splits)
    from "1.IH" [OF True _ refl refl this] ins obtain ws where "ins' = ws @ rest" "loopback_loop (count - bytes_per_word) ins' = Some (ws, rest)"
      by auto
    with True ins show ?thesis by (subst loopback_loop.simps) auto
  qed
qed

lemma vnx_loopback_depacketizer:
  assumes "vnx_depacketizer ins = Some (out, sts, rest)"
  shows "\<exists>ws. ins = ws @ rest \<and> vnx_loopback ins = Some (ws, rest)"
proof -
  from assms obtain w ins' where ins: "ins = w # ins'" by (cases ins) auto
  with assms have "depacketizer_loop (header_count (ax_data w)) ins' = Some (out, rest)"
    by (auto simp: Let_def split: option.splits)
  from loopback_loop_depacketizer [OF this] ins show ?thesis
    by (auto simp: vnx_loopback_def header_count_def header_fields)
qed

lemma vnx_loopback_message:
  assumes "whole msg"
  shows "vnx_loopback (vnx_send junk m msg @ ws) = Some (vnx_send junk m msg, ws)"
proof -
  have "vnx_receive (vnx_send junk m msg @ ws) = Some (delivered msg, ws)" using assms by (rule vnx.unpack_pack)
  then obtain out sts where "vnx_depacketizer (vnx_send junk m msg @ ws) = Some (out, sts, ws)"
    by (auto simp: vnx_receive_def received_def)
  from vnx_loopback_depacketizer [OF this] show ?thesis by auto
qed

interpretation looped: link "vnx_send junk m" vnx_loopback "vnx_send junk m" whole
  by unfold_locales (rule vnx_loopback_message)

subsection \<open>The reduction kernel\<close>

text \<open>As in the kernel tree, but the last flag goes on the last word counted.\<close>

definition demo_sum_word :: "('b::len word \<Rightarrow> 'b word \<Rightarrow> 'b word) \<Rightarrow> 512 word \<Rightarrow> bool \<Rightarrow> axis \<Rightarrow> axis \<Rightarrow> axis" where
  "demo_sum_word add res final op1_word op2_word =
     \<lparr>ax_data = simd_sum add res (ax_data op1_word) (ax_data op2_word),
      ax_keep = ax_keep op1_word AND ax_keep op2_word, ax_last = final\<rparr>"

text \<open>With \<open>n\<close> turns left.\<close>

primrec demo_elementwise_sum :: "('b::len word \<Rightarrow> 'b word \<Rightarrow> 'b word) \<Rightarrow> 512 word \<Rightarrow> nat \<Rightarrow> axis list \<Rightarrow> axis list \<Rightarrow>
     (axis list \<times> axis list \<times> axis list) option" where
  "demo_elementwise_sum add res 0 in1 in2 = Some ([], in1, in2)"
| "demo_elementwise_sum add res (Suc n) in1 in2 =
     (case take_one in1 of None \<Rightarrow> None
      | Some (w1, in1') \<Rightarrow> (case take_one in2 of None \<Rightarrow> None
          | Some (w2, in2') \<Rightarrow> (case demo_elementwise_sum add res n in1' in2' of None \<Rightarrow> None
              | Some (out, rest) \<Rightarrow> Some (demo_sum_word add res (n = 0) w1 w2 # out, rest))))"

definition demo_reduce_arith :: "(u32 \<Rightarrow> u32 \<Rightarrow> u32) \<Rightarrow> (u64 \<Rightarrow> u64 \<Rightarrow> u64) \<Rightarrow> 512 word \<Rightarrow> u32 \<Rightarrow> u32 \<Rightarrow> axis list \<Rightarrow> axis list \<Rightarrow>
     (axis list \<times> axis list \<times> axis list) option" where
  "demo_reduce_arith float_add double_add res count function in1 in2 =
     (if function = 0 then demo_elementwise_sum float_add res (unat count) in1 in2
      else if function = 1 then demo_elementwise_sum double_add res (unat count) in1 in2
      else if function = 2 then demo_elementwise_sum ((+) :: u32 \<Rightarrow> u32 \<Rightarrow> u32) res (unat count) in1 in2
      else demo_elementwise_sum ((+) :: u64 \<Rightarrow> u64 \<Rightarrow> u64) res (unat count) in1 in2)"

text \<open>The stream with one last flag, at its end.\<close>

primrec flag_end :: "axis list \<Rightarrow> axis list" where
  "flag_end [] = []"
| "flag_end (w # ws) = w\<lparr>ax_last := ws = []\<rparr> # flag_end ws"

lemma elementwise_sum_length:
  fixes add :: "'b::len word \<Rightarrow> 'b word \<Rightarrow> 'b word"
  shows "elementwise_sum add res n in1 in2 = Some (out, rest) \<Longrightarrow> length out = n"
  by (induction n arbitrary: in1 in2 out) (auto split: option.splits)

lemma demo_elementwise_sum_flagged:
  fixes add :: "'b::len word \<Rightarrow> 'b word \<Rightarrow> 'b word"
  shows "demo_elementwise_sum add res n in1 in2 = map_option (map_prod flag_end id) (elementwise_sum add res n in1 in2)"
proof (induction n arbitrary: in1 in2)
  case (Suc n)
  then show ?case
    by (cases in1; cases in2) (auto simp: sum_word_def demo_sum_word_def dest: elementwise_sum_length split: option.split)
qed simp

subsection \<open>Properties\<close>

text \<open>C29: messages that \<open>vnx_packetizer\<close> sends come back from the loopback kernel word for word: one run per message writes exactly the
words of that message, with data, keep mask, last flag and destination as they came, takes nothing behind them, and all the runs together
give the stream that went in; \<open>vnx_depacketizer\<close> unpacks what comes back into the messages that were sent.\<close>

theorem vnx_loopback_transparent:
  assumes "list_all whole ms"
  shows "unpack_n vnx_loopback (length ms) (pack_all (vnx_send junk max_pktsize) ms @ ws) = Some (map (vnx_send junk max_pktsize) ms, ws) \<and>
     concat (map (vnx_send junk max_pktsize) ms) = pack_all (vnx_send junk max_pktsize) ms \<and>
     unpack_n vnx_receive (length ms) (concat (map (vnx_send junk max_pktsize) ms) @ ws') = Some (map delivered ms, ws')"
proof -
  have "pack_all f ms = concat (map f ms)" for f :: "message \<Rightarrow> axis_dest list" by (induction ms) simp_all
  with looped.unpack_all [OF assms, of junk max_pktsize ws] vnx.unpack_all [OF assms, of junk max_pktsize ws'] show ?thesis
    by simp
qed

theorem vnx_loopback_transparent_witness:
  "unpack_n vnx_loopback 2 (pack_all (vnx_send 0 1) [two_words, two_words] @ []) = Some ([vnx_send 0 1 two_words, vnx_send 0 1 two_words], []) \<and>
     unpack_n vnx_receive 2 (vnx_send 0 1 two_words @ vnx_send 0 1 two_words) = Some ([delivered two_words, delivered two_words], [])"
  using vnx_loopback_transparent [of "[two_words, two_words]" 0 1 "[]" "[]"] two_words_whole by (simp add: numeral_2_eq_2)

text \<open>C33: the reduction kernel of the demo is the one of the kernel tree with the last flag moved to the last word counted, on all
inputs, also those on which it stays blocked.\<close>

theorem demo_reduce_arith_equivalent:
  "demo_reduce_arith float_add double_add res count function in1 in2 =
     map_option (map_prod flag_end id) (reduce_arith float_add double_add res function count in1 in2)"
  by (simp add: demo_reduce_arith_def reduce_arith_def demo_elementwise_sum_flagged)

end
