(* ===== verification/Demo_Utils.thy ===== *)
theory Demo_Utils
  imports Hls_Stream "HOL-Library.Numeral_Type" "HOL-Library.Sublist"
begin

text \<open>
  The stream utilities of \<open>src/demo/build/hls/dummy_tcp_stack/axi_utils.hpp\<close>: byte and bit reversal, the
  converters between streams of words of a width and of twice that width, and the mergers of two streams.
  The template parameters for the width of data and keep mask are the lengths \<open>'w\<close> and \<open>'k\<close>; one call of a function
  is one step on its static variables and streams.
\<close>

record ('d, 'k) net_axis =
  na_data :: "'d"
  na_keep :: "'k"
  na_last :: bool

subsection \<open>Reversal\<close>

text \<open>\<open>junk\<close> is what the uninitialised result held.\<close>

definition reverse :: "'d::len word \<Rightarrow> 'd word \<Rightarrow> 'd word" where
  "reverse junk w = fold (\<lambda>i temp. set_range temp (i * 8 + 7) (i * 8)
     (get_range w (LENGTH('d) - i * 8 - 1) (LENGTH('d) - i * 8 - 8) :: u8)) [0..<LENGTH('d) div 8] junk"

definition reverse_bits :: "'d::len word \<Rightarrow> 'd word \<Rightarrow> 'd word" where
  "reverse_bits junk w = fold (\<lambda>i temp. set_range temp i i (get_range w (LENGTH('d) - i - 1) (LENGTH('d) - i - 1) :: 1 word))
     [0..<LENGTH('d)] junk"

lemma bit_fold_set_range:
  assumes "\<And>i. v i = get_range w (hi i) (lo i)" and "k \<noteq> 0" and "\<And>i. i < n \<Longrightarrow> hi i = lo i + (k - 1)" and "k \<le> LENGTH('v)"
  shows "bit (fold (\<lambda>i temp. set_range temp (i * k + (k - 1)) (i * k) (v i :: 'v::len word)) [0..<n] (junk :: 'd::len word)) m \<longleftrightarrow>
     m < LENGTH('d) \<and> (if m div k < n then bit (w :: 'd word) (lo (m div k) + m mod k) else bit junk m)"
proof (use assms(3) in \<open>induction n\<close>)
  case 0
  then show ?case by (auto dest: bit_imp_le_length)
next
  case (Suc n)
  have in_chunk: "(n * k \<le> m \<and> m \<le> n * k + (k - 1)) \<longleftrightarrow> m div k = n"
  proof
    assume "n * k \<le> m \<and> m \<le> n * k + (k - 1)"
    then have "n * k \<le> m" and "m < n * k + k" using assms(2) by linarith+
    then show "m div k = n" by (intro div_nat_eqI) (simp_all add: mult.commute add.commute)
  next
    assume "m div k = n"
    moreover have "m mod k \<le> k - 1" using assms(2) by (simp add: less_Suc_eq_le [symmetric])
    moreover have "m = m div k * k + m mod k" by simp
    ultimately show "n * k \<le> m \<and> m \<le> n * k + (k - 1)" by (metis add_left_mono le_add1)
  qed
  have off: "m - n * k = m mod k" if "m div k = n" using that by (metis minus_div_mult_eq_mod)
  let ?F = "fold (\<lambda>i temp. set_range temp (i * k + (k - 1)) (i * k) (v i)) [0..<n] junk"
  have mod: "m mod k < k" using assms(2) by simp
  have "bit (set_range ?F (n * k + (k - 1)) (n * k) (v n)) m \<longleftrightarrow>
      m < LENGTH('d) \<and> (if m div k = n then bit (v n) (m mod k) else bit ?F m)"
    unfolding bit_set_range in_chunk using off by auto
  moreover have "bit (v n) (m mod k) \<longleftrightarrow> bit w (lo n + m mod k)"
    using mod assms(4) Suc.prems [of n] by (auto simp: assms(1) bit_get_range)
  moreover have "bit ?F m \<longleftrightarrow> m < LENGTH('d) \<and> (if m div k < n then bit w (lo (m div k) + m mod k) else bit junk m)"
    using Suc by simp
  ultimately show ?case by (auto simp: less_Suc_eq)
qed

lemma bit_reverse:
  "bit (reverse junk (w :: 'd::len word)) m \<longleftrightarrow> m < LENGTH('d) \<and>
     (if m div 8 < LENGTH('d) div 8 then bit w (LENGTH('d) - m div 8 * 8 - 8 + m mod 8) else bit junk m)"
proof -
  have "LENGTH('d) - i * 8 - 1 = LENGTH('d) - i * 8 - 8 + (8 - 1)" if "i < LENGTH('d) div 8" for i using that by linarith
  from bit_fold_set_range [OF refl _ this, where w = w and 'v = 8 and junk = junk and m = m] show ?thesis
    unfolding reverse_def by simp
qed

lemma bit_reverse_bits: "bit (reverse_bits junk (w :: 'd::len word)) m \<longleftrightarrow> m < LENGTH('d) \<and> bit w (LENGTH('d) - m - 1)"
  unfolding reverse_bits_def
  using bit_fold_set_range [where k = 1 and n = "LENGTH('d)" and hi = "\<lambda>i. LENGTH('d) - i - 1"
      and lo = "\<lambda>i. LENGTH('d) - i - 1" and w = w and 'v = 1 and junk = junk and m = m, OF refl]
  by auto

lemma reverse_reverse:
  assumes "8 dvd LENGTH('d)"
  shows "reverse junk' (reverse junk (w :: 'd::len word)) = w"
proof (rule bit_word_eqI)
  fix m assume m: "m < LENGTH('d)"
  from assms obtain e where e: "LENGTH('d) = 8 * e" by blast
  define q r where "q = m div 8" and "r = m mod 8"
  have mqr: "m = 8 * q + r" and r: "r < 8" and q: "q < e" using m e by (simp_all add: q_def r_def less_mult_imp_div_less mult.commute)
  let ?m = "8 * (e - q - 1) + r"
  have "LENGTH('d) - m div 8 * 8 - 8 + m mod 8 = ?m" using q e by (simp add: q_def r_def algebra_simps)
  moreover have "?m div 8 = e - q - 1" "?m mod 8 = r" using r by (simp_all add: div_mult2_eq)
  moreover have "8 * e - (e - q - 1) * 8 - 8 + r = m" using q mqr by (simp add: algebra_simps)
  moreover have "?m < 8 * e" using q r by linarith
  ultimately show "bit (reverse junk' (reverse junk w)) m = bit w m"
    using m q e by (simp add: bit_reverse q_def [symmetric])
qed

lemma reverse_bits_reverse_bits: "reverse_bits junk' (reverse_bits junk w) = w"
  by (rule bit_word_eqI) (simp add: bit_reverse_bits)

subsection \<open>Converting the width of a stream\<close>

type_synonym ('w, 'k) beat = "('w word, 'k word) net_axis"

text \<open>\<open>even\<close> of the source says that a first half is held in \<open>temp\<close>.\<close>

record ('n, 'd) widen =
  wd_even :: bool
  wd_temp :: 'd
  wd_in :: "'n stream"
  wd_out :: "'d stream"

type_synonym ('w, 'k) widening = "(('w, 'k) beat, ('w bit0, 'k bit0) beat) widen"

definition convertStreamToDoubleWidth :: "('w::len, 'k::len) widening \<Rightarrow> ('w, 'k) widening" where
  "convertStreamToDoubleWidth s =
     (if is_empty (wd_in s) then s
      else let currWord = front (wd_in s); s' = s\<lparr>wd_in := pop (wd_in s)\<rparr>; temp = wd_temp s in
        (if \<not> wd_even s then
           let temp1 = temp\<lparr>na_data := set_range (na_data temp) (LENGTH('w) - 1) 0 (na_data currWord),
                 na_keep := set_range (set_range (na_keep temp) (LENGTH('k) - 1) 0 (na_keep currWord))
                              (LENGTH('k) * 2 - 1) LENGTH('k) (0 :: 'k word),
                 na_last := na_last currWord\<rparr>
           in (if na_last currWord then
                 let temp2 = temp1\<lparr>na_data := set_range (na_data temp1) (LENGTH('w) * 2 - 1) LENGTH('w) (0 :: 'w word),
                       na_keep := set_range (na_keep temp1) (LENGTH('k) * 2 - 1) LENGTH('k) (0 :: 'k word)\<rparr>
                 in s'\<lparr>wd_temp := temp2, wd_even := False, wd_out := push temp2 (wd_out s)\<rparr>
               else s'\<lparr>wd_temp := temp1, wd_even := True\<rparr>)
         else
           let temp1 = temp\<lparr>na_data := set_range (na_data temp) (LENGTH('w) * 2 - 1) LENGTH('w) (na_data currWord),
                 na_keep := set_range (na_keep temp) (LENGTH('k) * 2 - 1) LENGTH('k) (na_keep currWord),
                 na_last := na_last currWord\<rparr>
           in s'\<lparr>wd_temp := temp1, wd_out := push temp1 (wd_out s), wd_even := False\<rparr>))"

datatype halveStateType = FIRST | SECOND

record ('d, 'n) halve =
  hf_state :: halveStateType
  hf_word :: 'd
  hf_in :: "'d stream"
  hf_out :: "'n stream"

type_synonym ('w, 'k) halving = "(('w bit0, 'k bit0) beat, ('w, 'k) beat) halve"

definition convertStreamToHalfWidth :: "('w::len, 'k::len) halving \<Rightarrow> ('w, 'k) halving" where
  "convertStreamToHalfWidth s =
     (case hf_state s of
        FIRST \<Rightarrow>
          (if is_empty (hf_in s) then s
           else let currWord = front (hf_in s); s' = s\<lparr>hf_in := pop (hf_in s), hf_word := currWord\<rparr>;
                    temp = \<lparr>na_data = get_range (na_data currWord) (LENGTH('w) - 1) 0,
                            na_keep = get_range (na_keep currWord) (LENGTH('k) - 1) 0,
                            na_last = \<not> bit (na_keep currWord) LENGTH('k)\<rparr>
             in s'\<lparr>hf_out := push temp (hf_out s), hf_state := (if bit (na_keep currWord) LENGTH('k) then SECOND else FIRST)\<rparr>)
      | SECOND \<Rightarrow>
          let temp = \<lparr>na_data = get_range (na_data (hf_word s)) (LENGTH('w) * 2 - 1) LENGTH('w),
                      na_keep = get_range (na_keep (hf_word s)) (LENGTH('k) * 2 - 1) LENGTH('k), na_last = na_last (hf_word s)\<rparr>
          in s\<lparr>hf_out := push temp (hf_out s), hf_state := FIRST\<rparr>)"

text \<open>The halves of a wide word, as the second converter puts them out.\<close>

definition low_half :: "('w::len bit0, 'k::len bit0) beat \<Rightarrow> bool \<Rightarrow> ('w, 'k) beat" where
  "low_half w l = \<lparr>na_data = get_range (na_data w) (LENGTH('w) - 1) 0, na_keep = get_range (na_keep w) (LENGTH('k) - 1) 0, na_last = l\<rparr>"

definition high_half :: "('w::len bit0, 'k::len bit0) beat \<Rightarrow> ('w, 'k) beat" where
  "high_half w = \<lparr>na_data = get_range (na_data w) (LENGTH('w) * 2 - 1) LENGTH('w),
     na_keep = get_range (na_keep w) (LENGTH('k) * 2 - 1) LENGTH('k), na_last = na_last w\<rparr>"

definition halves :: "('w::len bit0, 'k::len bit0) beat \<Rightarrow> ('w, 'k) beat list" where
  "halves w = (if bit (na_keep w) LENGTH('k) then [low_half w False, high_half w] else [low_half w True])"

text \<open>The two converters, one behind the other. Every word that arrives has a first byte.\<close>

record ('n, 'd) width_link =
  wl_wide :: "('n, 'd) widen"
  wl_half :: "('d, 'n) halve"

type_synonym ('w, 'k) widths = "(('w, 'k) beat, ('w bit0, 'k bit0) beat) width_link"

definition wl_wire :: "('n, 'd) width_link \<Rightarrow> ('n, 'd) width_link" where
  "wl_wire s = (if is_empty (wd_out (wl_wide s)) then s
     else s\<lparr>wl_wide := (wl_wide s)\<lparr>wd_out := pop (wd_out (wl_wide s))\<rparr>,
            wl_half := (wl_half s)\<lparr>hf_in := push (front (wd_out (wl_wide s))) (hf_in (wl_half s))\<rparr>\<rparr>)"

inductive wl_step :: "('w::len, 'k::len) widths \<Rightarrow> ('w, 'k) widths \<Rightarrow> bool" where
  wl_arrive: "bit (na_keep w) 0 \<Longrightarrow> wl_step s (s\<lparr>wl_wide := (wl_wide s)\<lparr>wd_in := push w (wd_in (wl_wide s))\<rparr>\<rparr>)"
| wl_widen: "wl_step s (s\<lparr>wl_wide := convertStreamToDoubleWidth (wl_wide s)\<rparr>)"
| wl_wire: "wl_step s (wl_wire s)"
| wl_halve: "wl_step s (s\<lparr>wl_half := convertStreamToHalfWidth (wl_half s)\<rparr>)"
| wl_taken: "wl_step s (s\<lparr>wl_half := (wl_half s)\<lparr>hf_out := pop (hf_out (wl_half s))\<rparr>\<rparr>)"

inductive_cases wl_stepE: "wl_step s s'"

definition wl_init :: "('n, 'd) width_link \<Rightarrow> bool" where
  "wl_init s \<longleftrightarrow> \<not> wd_even (wl_wide s) \<and> wd_in (wl_wide s) = no_data \<and> wd_out (wl_wide s) = no_data \<and>
     hf_state (wl_half s) = FIRST \<and> hf_in (wl_half s) = no_data \<and> hf_out (wl_half s) = no_data"

definition widen_ok :: "('w::len, 'k::len) widening \<Rightarrow> bool" where
  "widen_ok s \<longleftrightarrow> list_all (\<lambda>w. bit (na_keep w) 0) (waiting (wd_in s)) \<and>
     concat (map halves (written (wd_out s))) @ (if wd_even s then [low_half (wd_temp s) False] else []) = consumed (wd_in s)"

definition halve_ok :: "('w::len, 'k::len) halving \<Rightarrow> bool" where
  "halve_ok s \<longleftrightarrow> written (hf_out s) @ (if hf_state s = SECOND then [high_half (hf_word s)] else []) =
     concat (map halves (consumed (hf_in s)))"

definition wl_inv :: "('w::len, 'k::len) widths \<Rightarrow> bool" where
  "wl_inv s \<longleftrightarrow> widen_ok (wl_wide s) \<and> halve_ok (wl_half s) \<and> consumed (wd_out (wl_wide s)) = written (hf_in (wl_half s))"

lemma halve_ok_step: "halve_ok s \<Longrightarrow> halve_ok (convertStreamToHalfWidth s)"
  by (cases "hf_state s"; cases "waiting (hf_in s)")
    (auto simp: halve_ok_def convertStreamToHalfWidth_def Let_def halves_def low_half_def high_half_def)

lemma upper_half [simp]:
  fixes v :: "'v::len word"
  shows "get_range (set_range (w :: 'v bit0 word) (LENGTH('v) * 2 - Suc 0) LENGTH('v) v) (LENGTH('v) * 2 - Suc 0) LENGTH('v) = v"
proof (rule get_set_range_same)
  have "0 < LENGTH('v)" by simp
  then have "LENGTH('v) * 2 - Suc 0 < 2 * LENGTH('v)" by linarith
  then show "LENGTH('v) * 2 - Suc 0 < LENGTH('v bit0)" by simp
qed simp_all

lemma widen_ok_step: "widen_ok s \<Longrightarrow> widen_ok (convertStreamToDoubleWidth s)"
  by (cases "waiting (wd_in s)")
    (auto simp: widen_ok_def convertStreamToDoubleWidth_def Let_def halves_def low_half_def high_half_def bit_set_range
      get_set_range_same get_set_range_other intro!: net_axis.equality)

lemma converter_wires:
  "consumed (wd_out (convertStreamToDoubleWidth w)) = consumed (wd_out w)"
  "written (hf_in (convertStreamToHalfWidth h)) = written (hf_in h)"
  by (simp_all add: convertStreamToDoubleWidth_def convertStreamToHalfWidth_def Let_def split: halveStateType.split)

interpretation width_link: kernel wl_init wl_step wl_inv
proof
  fix s s' :: "('w::len, 'k::len) widths"
  assume inv: "wl_inv s" and "wl_step s s'"
  from this(2) show "wl_inv s'"
  proof cases
    case wl_widen
    with inv show ?thesis by (simp add: wl_inv_def widen_ok_step converter_wires)
  next
    case wl_halve
    with inv show ?thesis by (simp add: wl_inv_def halve_ok_step converter_wires)
  next
    case wl_wire
    with inv show ?thesis
      by (cases "waiting (wd_out (wl_wide s))")
        (auto simp: wl_inv_def wl_wire_def widen_ok_def halve_ok_def written_def)
  qed (use inv in \<open>auto simp: wl_inv_def widen_ok_def halve_ok_def\<close>)
qed (simp add: wl_init_def wl_inv_def widen_ok_def halve_ok_def)

text \<open>Nothing is on the way between the two.\<close>

definition wl_settled :: "('n, 'd) width_link \<Rightarrow> bool" where
  "wl_settled s \<longleftrightarrow> waiting (wd_in (wl_wide s)) = [] \<and> waiting (wd_out (wl_wide s)) = [] \<and>
     waiting (hf_in (wl_half s)) = [] \<and> hf_state (wl_half s) = FIRST"

lemma widths_delivered:
  assumes "wl_inv s"
  shows "prefix (written (hf_out (wl_half s))) (written (wd_in (wl_wide s)))"
    and "wl_settled s \<Longrightarrow> written (wd_in (wl_wide s)) \<noteq> [] \<Longrightarrow> na_last (last (written (wd_in (wl_wide s)))) \<Longrightarrow>
      written (hf_out (wl_half s)) = written (wd_in (wl_wide s))"
proof -
  from assms have w: "widen_ok (wl_wide s)" and h: "halve_ok (wl_half s)"
    and wire: "consumed (wd_out (wl_wide s)) = written (hf_in (wl_half s))" by (simp_all add: wl_inv_def)
  have "prefix (written (hf_out (wl_half s))) (concat (map halves (consumed (hf_in (wl_half s)))))"
    using h by (auto simp: halve_ok_def prefix_def split: if_splits) (metis append.right_neutral)+
  moreover have "prefix (concat (map halves (consumed (hf_in (wl_half s))))) (concat (map halves (written (wd_out (wl_wide s)))))"
    using wire by (auto simp: written_def [of "hf_in _"] written_def [of "wd_out _"] prefix_def)
  moreover have "prefix (concat (map halves (written (wd_out (wl_wide s))))) (consumed (wd_in (wl_wide s)))"
    using w by (auto simp: widen_ok_def prefix_def split: if_splits) (metis append.right_neutral)+
  moreover have "prefix (consumed (wd_in (wl_wide s))) (written (wd_in (wl_wide s)))" by (simp add: written_def)
  ultimately show "prefix (written (hf_out (wl_half s))) (written (wd_in (wl_wide s)))" by (meson prefix_order.trans)
  assume st: "wl_settled s" and ne: "written (wd_in (wl_wide s)) \<noteq> []" and l: "na_last (last (written (wd_in (wl_wide s))))"
  have in_all: "written (wd_in (wl_wide s)) = consumed (wd_in (wl_wide s))" using st by (simp add: written_def wl_settled_def)
  have "\<not> wd_even (wl_wide s)"
  proof
    assume "wd_even (wl_wide s)"
    with w have "consumed (wd_in (wl_wide s)) = concat (map halves (written (wd_out (wl_wide s)))) @ [low_half (wd_temp (wl_wide s)) False]"
      by (simp add: widen_ok_def)
    then have "last (consumed (wd_in (wl_wide s))) = low_half (wd_temp (wl_wide s)) False" by simp
    with l in_all show False by (simp add: low_half_def)
  qed
  with w h wire st show "written (hf_out (wl_half s)) = written (wd_in (wl_wide s))"
    by (simp add: widen_ok_def halve_ok_def wl_settled_def written_def)
qed

subsection \<open>Merging two streams\<close>

definition stream_merger :: "'a stream \<times> 'a stream \<times> 'a stream \<Rightarrow> 'a stream \<times> 'a stream \<times> 'a stream" where
  "stream_merger = (\<lambda>(in1, in2, out).
     if \<not> is_empty in1 then (pop in1, in2, push (front in1) out)
     else if \<not> is_empty in2 then (in1, pop in2, push (front in2) out)
     else (in1, in2, out))"

record 'a merger =
  merge_pref :: bool
  mg_in0 :: "'a stream"
  mg_in1 :: "'a stream"
  mg_out :: "'a stream"

definition mg_take0 :: "'a merger \<Rightarrow> 'a merger" where
  "mg_take0 s = s\<lparr>mg_in0 := pop (mg_in0 s), mg_out := push (front (mg_in0 s)) (mg_out s)\<rparr>"

definition mg_take1 :: "'a merger \<Rightarrow> 'a merger" where
  "mg_take1 s = s\<lparr>mg_in1 := pop (mg_in1 s), mg_out := push (front (mg_in1 s)) (mg_out s)\<rparr>"

definition fair_merger :: "'a merger \<Rightarrow> 'a merger" where
  "fair_merger s =
     (if merge_pref s then
        (if \<not> is_empty (mg_in0 s) then (mg_take0 s)\<lparr>merge_pref := False\<rparr>
         else if \<not> is_empty (mg_in1 s) then mg_take1 s else s)
      else
        (if \<not> is_empty (mg_in1 s) then (mg_take1 s)\<lparr>merge_pref := True\<rparr>
         else if \<not> is_empty (mg_in0 s) then mg_take0 s else s))"

datatype fpmStateType = IDLE | FWD0 | FWD1

record 'a pkg_merger = "'a merger" +
  fpm_state :: fpmStateType

text \<open>\<open>last\<close> of the word read; the local variable starts with 0.\<close>

definition fair_pkg_merger :: "('d, 'k) net_axis pkg_merger \<Rightarrow> ('d, 'k) net_axis pkg_merger" where
  "fair_pkg_merger s =
     (let take0 = s\<lparr>mg_in0 := pop (mg_in0 s), mg_out := push (front (mg_in0 s)) (mg_out s)\<rparr>;
          take1 = s\<lparr>mg_in1 := pop (mg_in1 s), mg_out := push (front (mg_in1 s)) (mg_out s)\<rparr>;
          last0 = na_last (front (mg_in0 s)); last1 = na_last (front (mg_in1 s)) in
      case fpm_state s of
        IDLE \<Rightarrow>
          (if merge_pref s then
             (if \<not> is_empty (mg_in0 s) then take0\<lparr>fpm_state := (if last0 then IDLE else FWD1)\<rparr>
              else if \<not> is_empty (mg_in1 s) then take1\<lparr>fpm_state := (if last1 then IDLE else FWD1)\<rparr>
              else s)
           else
             (if \<not> is_empty (mg_in1 s) then take1\<lparr>fpm_state := (if last1 then IDLE else FWD1)\<rparr>
              else if \<not> is_empty (mg_in0 s) then take0\<lparr>fpm_state := (if last0 then IDLE else FWD0)\<rparr>
              else s))
      | FWD0 \<Rightarrow>
          (if is_empty (mg_in0 s) then s
           else if last0 then take0\<lparr>merge_pref := False, fpm_state := IDLE\<rparr> else take0)
      | FWD1 \<Rightarrow>
          (if is_empty (mg_in1 s) then s
           else if last1 then take1\<lparr>merge_pref := True, fpm_state := IDLE\<rparr> else take1))"

text \<open>A merger, two writers and a reader.\<close>

inductive mg_env :: "('a, 'z) merger_scheme \<Rightarrow> ('a, 'z) merger_scheme \<Rightarrow> bool" where
  mg_arrive0: "mg_env s (s\<lparr>mg_in0 := push w (mg_in0 s)\<rparr>)"
| mg_arrive1: "mg_env s (s\<lparr>mg_in1 := push w (mg_in1 s)\<rparr>)"
| mg_taken: "mg_env s (s\<lparr>mg_out := pop (mg_out s)\<rparr>)"

inductive_cases mg_envE: "mg_env s s'"

definition fm_step :: "'a merger \<Rightarrow> 'a merger \<Rightarrow> bool" where
  "fm_step s s' \<longleftrightarrow> s' = fair_merger s \<or> mg_env s s'"

definition fm_init :: "'a merger \<Rightarrow> bool" where
  "fm_init s \<longleftrightarrow> mg_in0 s = no_data \<and> mg_in1 s = no_data \<and> mg_out s = no_data"

definition fm_inv :: "'a merger \<Rightarrow> bool" where
  "fm_inv s \<longleftrightarrow> written (mg_out s) \<in> shuffles (consumed (mg_in0 s)) (consumed (mg_in1 s))"

lemma shuffles_snoc:
  "zs \<in> shuffles xs ys \<Longrightarrow> zs @ [z] \<in> shuffles (xs @ [z]) ys" "zs \<in> shuffles xs ys \<Longrightarrow> zs @ [z] \<in> shuffles xs (ys @ [z])"
proof -
  have left: "zs @ [z] \<in> shuffles (xs @ [z]) ys" if "zs \<in> shuffles xs ys" for xs ys zs :: "'b list" and z
    using that
  proof (induction xs ys arbitrary: zs rule: shuffles.induct)
    case (1 ys)
    then show ?case by (induction ys arbitrary: zs) (auto intro: Cons_in_shuffles_rightI)
  qed (auto intro: Cons_in_shuffles_leftI Cons_in_shuffles_rightI)
  then show "zs \<in> shuffles xs ys \<Longrightarrow> zs @ [z] \<in> shuffles (xs @ [z]) ys" .
  show "zs \<in> shuffles xs ys \<Longrightarrow> zs @ [z] \<in> shuffles xs (ys @ [z])" using left by (metis shuffles_commutes)
qed

interpretation fair_merge: kernel fm_init fm_step fm_inv
proof
  fix s s' :: "'a merger"
  assume inv: "fm_inv s" and step: "fm_step s s'"
  show "fm_inv s'"
  proof (cases "mg_env s s'")
    case False
    with step have "s' = fair_merger s" by (simp add: fm_step_def)
    with inv show ?thesis
      by (cases "waiting (mg_in0 s)"; cases "waiting (mg_in1 s)")
        (simp_all add: fm_inv_def fair_merger_def mg_take0_def mg_take1_def shuffles_snoc)
  qed (use inv in \<open>auto simp: fm_inv_def elim!: mg_envE\<close>)
qed (simp add: fm_init_def fm_inv_def)

lemma fair_merger_twice:
  "waiting (mg_in0 s) \<noteq> [] \<Longrightarrow> length (consumed (mg_in0 s)) < length (consumed (mg_in0 (fair_merger (fair_merger s))))"
  "waiting (mg_in1 s) \<noteq> [] \<Longrightarrow> length (consumed (mg_in1 s)) < length (consumed (mg_in1 (fair_merger (fair_merger s))))"
  by (auto simp: neq_Nil_conv; cases "waiting (mg_in0 s)"; cases "waiting (mg_in1 s)";
      simp add: fair_merger_def mg_take0_def mg_take1_def pop_def split: list.split)+

text \<open>The package merger with a packet of more than one word on its first input.\<close>

definition fp_step :: "('d, 'k) net_axis pkg_merger \<Rightarrow> ('d, 'k) net_axis pkg_merger \<Rightarrow> bool" where
  "fp_step s s' \<longleftrightarrow> s' = fair_pkg_merger s \<or> mg_env s s'"

definition fp_init :: "('d, 'k) net_axis \<Rightarrow> ('d, 'k) net_axis pkg_merger \<Rightarrow> bool" where
  "fp_init a s \<longleftrightarrow> fpm_state s = IDLE \<and> merge_pref s \<and> consumed (mg_in0 s) = [] \<and> waiting (mg_in0 s) \<noteq> [] \<and>
     hd (waiting (mg_in0 s)) = a \<and> \<not> na_last a \<and> consumed (mg_in1 s) = [] \<and> mg_out s = no_data"

definition fp_inv :: "('d, 'k) net_axis \<Rightarrow> ('d, 'k) net_axis pkg_merger \<Rightarrow> bool" where
  "fp_inv a s \<longleftrightarrow> fp_init a s \<or> \<not> list_all (\<lambda>w. \<not> na_last w) (consumed (mg_in1 s)) \<or>
     fpm_state s = FWD1 \<and> consumed (mg_in0 s) = [a] \<and> written (mg_out s) = a # consumed (mg_in1 s)"

lemma fp_inv_call:
  assumes "fp_inv a s"
  shows "fp_inv a (fair_pkg_merger s)"
proof (cases "fp_init a s")
  case True
  then show ?thesis by (auto simp: neq_Nil_conv fp_inv_def fp_init_def fair_pkg_merger_def Let_def)
next
  case False
  with assms show ?thesis
    by (cases "waiting (mg_in0 s)"; cases "waiting (mg_in1 s)"; cases "fpm_state s")
      (auto simp: fp_inv_def fair_pkg_merger_def Let_def)
qed

lemma fp_inv_env:
  assumes "fp_inv a s" and "mg_env s s'"
  shows "fp_inv a s'"
  using assms(2,1) by cases (auto simp: fp_inv_def fp_init_def hd_append, auto simp: no_data_def pop_def)

interpretation pkg_merge: kernel "fp_init a" fp_step "fp_inv a"
  by standard (auto simp: fp_step_def fp_inv_call fp_inv_env, simp add: fp_inv_def)

subsection \<open>Properties\<close>

text \<open>C30: The two width converters, one behind the other: however their calls, arriving words and reads interleave, what comes out are the
words that went in, in order, with data, keep mask and last flag, and none is made up; and when nothing is on the way and the last word in
ended a packet, all of them have come out.  Every word is supposed to keep its first byte.\<close>

theorem width_conversion_round_trip:
  assumes "wl_init s" and "wl_step\<^sup>*\<^sup>* s s'"
  shows "prefix (written (hf_out (wl_half s'))) (written (wd_in (wl_wide s'))) \<and>
     (wl_settled s' \<and> written (wd_in (wl_wide s')) \<noteq> [] \<and> na_last (last (written (wd_in (wl_wide s')))) \<longrightarrow>
        written (hf_out (wl_half s')) = written (wd_in (wl_wide s')))"
  using widths_delivered [OF width_link.inv_reachable [OF assms]] by blast

text \<open>A packet of three words of one byte.\<close>

definition wl_quiet :: "(8, 1) widths" where
  "wl_quiet = \<lparr>wl_wide = \<lparr>wd_even = False, wd_temp = \<lparr>na_data = 0, na_keep = 0, na_last = False\<rparr>, wd_in = no_data, wd_out = no_data\<rparr>,
     wl_half = \<lparr>hf_state = FIRST, hf_word = \<lparr>na_data = 0, na_keep = 0, na_last = False\<rparr>, hf_in = no_data, hf_out = no_data\<rparr>\<rparr>"

definition wl_put :: "8 word \<Rightarrow> bool \<Rightarrow> (8, 1) widths \<Rightarrow> (8, 1) widths" where
  "wl_put d l s = s\<lparr>wl_wide := (wl_wide s)\<lparr>wd_in := push \<lparr>na_data = d, na_keep = 1, na_last = l\<rparr> (wd_in (wl_wide s))\<rparr>\<rparr>"

definition wl_turn :: "(8, 1) widths \<Rightarrow> (8, 1) widths" where
  "wl_turn s = (let s1 = s\<lparr>wl_wide := convertStreamToDoubleWidth (wl_wide s)\<rparr>; s2 = Demo_Utils.wl_wire s1
     in s2\<lparr>wl_half := convertStreamToHalfWidth (wl_half s2)\<rparr>)"

primrec wl_turns :: "nat \<Rightarrow> (8, 1) widths \<Rightarrow> (8, 1) widths" where
  "wl_turns 0 s = s"
| "wl_turns (Suc n) s = wl_turns n (wl_turn s)"

lemma wl_turn_steps: "wl_step\<^sup>*\<^sup>* s (wl_turn s)"
proof -
  let ?s1 = "s\<lparr>wl_wide := convertStreamToDoubleWidth (wl_wide s)\<rparr>"
  have "wl_step\<^sup>*\<^sup>* s ?s1" by (rule r_into_rtranclp, rule wl_widen)
  also have "wl_step\<^sup>*\<^sup>* ?s1 (Demo_Utils.wl_wire ?s1)" by (rule r_into_rtranclp, rule wl_step.wl_wire)
  also have "wl_step\<^sup>*\<^sup>* (Demo_Utils.wl_wire ?s1) (wl_turn s)" unfolding wl_turn_def Let_def by (rule r_into_rtranclp, rule wl_halve)
  finally show ?thesis .
qed

lemma wl_turns_steps: "wl_step\<^sup>*\<^sup>* s (wl_turns n s)"
  by (induction n arbitrary: s) (auto intro: rtranclp_trans [OF wl_turn_steps])

lemma wl_put_step: "wl_step s (wl_put d l s)"
  unfolding wl_put_def by (rule wl_arrive) simp

definition wl_three :: "(8, 1) widths" where
  "wl_three = wl_turns 4 (wl_put 3 True (wl_put 2 False (wl_put 1 False wl_quiet)))"

theorem width_conversion_round_trip_witness:
  "wl_step\<^sup>*\<^sup>* wl_quiet wl_three \<and> written (hf_out (wl_half wl_three)) = written (wd_in (wl_wide wl_three)) \<and>
     map na_data (written (hf_out (wl_half wl_three))) = [1, 2, 3]"
proof -
  have "wl_step\<^sup>*\<^sup>* wl_quiet (wl_put 3 True (wl_put 2 False (wl_put 1 False wl_quiet)))"
    by (meson rtranclp.rtrancl_into_rtrancl rtranclp.rtrancl_refl wl_put_step)
  then have steps: "wl_step\<^sup>*\<^sup>* wl_quiet wl_three" unfolding wl_three_def by (rule rtranclp_trans [OF _ wl_turns_steps])
  have init: "wl_init wl_quiet" by (simp add: wl_init_def wl_quiet_def)
  have settled: "wl_settled wl_three" unfolding wl_settled_def by (intro conjI; code_simp)
  have "map na_data (written (wd_in (wl_wide wl_three))) = [1, 2, 3]" and l: "na_last (last (written (wd_in (wl_wide wl_three))))" by code_simp+
  moreover from this have "written (wd_in (wl_wide wl_three)) \<noteq> []" by auto
  ultimately show ?thesis using width_conversion_round_trip [OF init steps] steps settled by simp
qed

text \<open>The fair merger, in every interleaving with two writers and a reader: what it puts out is a merge of what it has taken from
its inputs, each in its own order; and an input on which a word waits is served by one of any two calls in a row, whatever the
other input does.\<close>

lemma fair_merger_serves_both:
  assumes "fm_init s" and "fm_step\<^sup>*\<^sup>* s s'"
  shows "written (mg_out s') \<in> shuffles (consumed (mg_in0 s')) (consumed (mg_in1 s')) \<and>
     (waiting (mg_in0 s') \<noteq> [] \<longrightarrow> length (consumed (mg_in0 s')) < length (consumed (mg_in0 (fair_merger (fair_merger s'))))) \<and>
     (waiting (mg_in1 s') \<noteq> [] \<longrightarrow> length (consumed (mg_in1 s')) < length (consumed (mg_in1 (fair_merger (fair_merger s')))))"
  using fair_merge.inv_reachable [OF assms] fair_merger_twice [of s'] by (simp add: fm_inv_def)

text \<open>The package merger mixes packets.  When a packet of more than one word stands first on its first input, then, however calls
and arrivals go on, and until a packet on the second input has ended, the first input is not read again: behind the first word of
the packet come the words of the second input.\<close>

lemma fair_pkg_merger_mixes:
  assumes "fp_init a s" and "fp_step\<^sup>*\<^sup>* s s'" and "list_all (\<lambda>w. \<not> na_last w) (consumed (mg_in1 s'))" and "written (mg_out s') \<noteq> []"
  shows "consumed (mg_in0 s') = [a] \<and> written (mg_out s') = a # consumed (mg_in1 s')"
  using pkg_merge.inv_reachable [OF assms(1,2)] assms(3,4) by (auto simp: fp_inv_def fp_init_def)

end
