(* ===== verification/Demo_Shift.thy ===== *)
theory Demo_Shift
  imports Demo_Utils
begin

text \<open>
  The shifts by octets of \<open>axi_utils.hpp\<close>: \<open>lshiftWordByOctet\<close> puts \<open>offset\<close> bytes in front of every packet of a stream,
  \<open>rshiftWordByOctet\<close> takes them away. The streams have words of 64 bits (\<open>axiWord\<close>); an uninitialised word is a parameter.
\<close>

type_synonym axiWord = "(u64, u8) net_axis"

subsection \<open>The two processes\<close>

record rshift =
  rs_remainder :: bool
  rs_firstWord :: bool
  rs_prevWord :: axiWord
  rs_in :: "axiWord stream"
  rs_out :: "axiWord stream"

text \<open>The words the code puts together from the previous and the current one, and from the previous one alone.\<close>

definition rs_join :: "nat \<Rightarrow> axiWord \<Rightarrow> axiWord \<Rightarrow> axiWord \<Rightarrow> axiWord" where
  "rs_join offset junk pre cur =
     \<lparr>na_data = set_range (set_range (na_data junk) (63 - 8 * offset) 0 (get_range (na_data pre) 63 (8 * offset) :: u64))
        63 (64 - 8 * offset) (get_range (na_data cur) (8 * offset - 1) 0 :: u64),
      na_keep = set_range (set_range (na_keep junk) (7 - offset) 0 (get_range (na_keep pre) 7 offset :: u8))
        7 (8 - offset) (get_range (na_keep cur) (offset - 1) 0 :: u8),
      na_last = ((get_range (na_keep cur) 7 offset :: u8) = 0)\<rparr>"

definition rs_rest :: "nat \<Rightarrow> axiWord \<Rightarrow> axiWord \<Rightarrow> axiWord" where
  "rs_rest offset junk pre =
     \<lparr>na_data = set_range (set_range (na_data junk) (63 - 8 * offset) 0 (get_range (na_data pre) 63 (8 * offset) :: u64))
        63 (64 - 8 * offset) (0 :: u64),
      na_keep = set_range (set_range (na_keep junk) (7 - offset) 0 (get_range (na_keep pre) 7 offset :: u8))
        7 (8 - offset) (0 :: u8),
      na_last = True\<rparr>"

definition rshiftWordByOctet :: "nat \<Rightarrow> axiWord \<Rightarrow> rshift \<Rightarrow> rshift" where
  "rshiftWordByOctet offset junk s =
     (if \<not> rs_remainder s then
        (if is_empty (rs_in s) then s
         else let currWord = front (rs_in s);
                  sendWord = (if rs_firstWord s then junk\<lparr>na_last := False\<rparr>
                    else if offset = 0 then currWord else rs_join offset junk (rs_prevWord s) currWord);
                  s' = s\<lparr>rs_in := pop (rs_in s), rs_prevWord := currWord,
                    rs_out := (if rs_firstWord s then rs_out s else push sendWord (rs_out s)), rs_firstWord := False\<rparr>
              in (if na_last currWord then s'\<lparr>rs_firstWord := True, rs_remainder := \<not> na_last sendWord\<rparr> else s'))
      else s\<lparr>rs_out := push (rs_rest offset junk (rs_prevWord s)) (rs_out s), rs_remainder := False\<rparr>)"

record lshift =
  ls_firstWord :: bool
  ls_writeRemainder :: bool
  ls_prevWord :: axiWord
  ls_in :: "axiWord stream"
  ls_out :: "axiWord stream"

definition ls_rest :: "nat \<Rightarrow> axiWord \<Rightarrow> axiWord \<Rightarrow> axiWord" where
  "ls_rest offset junk pre =
     \<lparr>na_data = set_range (set_range (na_data junk) (8 * offset - 1) 0 (get_range (na_data pre) 63 (64 - 8 * offset) :: u64))
        63 (8 * offset) (0 :: u64),
      na_keep = set_range (set_range (na_keep junk) (offset - 1) 0 (get_range (na_keep pre) 7 (8 - offset) :: u8)) 7 offset (0 :: u8),
      na_last = True\<rparr>"

definition ls_join :: "nat \<Rightarrow> axiWord \<Rightarrow> axiWord option \<Rightarrow> axiWord \<Rightarrow> axiWord" where
  "ls_join offset junk pre cur =
     \<lparr>na_data = set_range (set_range (na_data junk) (8 * offset - 1) 0
          (case pre of None \<Rightarrow> (0 :: u64) | Some p \<Rightarrow> get_range (na_data p) 63 (64 - 8 * offset)))
        63 (8 * offset) (get_range (na_data cur) (63 - 8 * offset) 0 :: u64),
      na_keep = set_range (case pre of None \<Rightarrow> set_range (na_keep junk) (offset - 1) 0 (0xFFFFFFFF :: u32)
          | Some p \<Rightarrow> set_range (na_keep junk) (offset - 1) 0 (get_range (na_keep p) 7 (8 - offset) :: u8))
        7 offset (get_range (na_keep cur) (7 - offset) 0 :: u8),
      na_last = ((get_range (na_keep cur) 7 (8 - offset) :: u8) = 0)\<rparr>"

definition lshiftWordByOctet :: "nat \<Rightarrow> axiWord \<Rightarrow> lshift \<Rightarrow> lshift" where
  "lshiftWordByOctet offset junk s =
     (if ls_writeRemainder s then
        s\<lparr>ls_out := push (ls_rest offset junk (ls_prevWord s)) (ls_out s), ls_writeRemainder := False\<rparr>
      else if is_empty (ls_in s) then s
      else let currWord = front (ls_in s); s' = s\<lparr>ls_in := pop (ls_in s)\<rparr> in
        (if offset = 0 then s'\<lparr>ls_out := push currWord (ls_out s)\<rparr>
         else let sendWord = ls_join offset junk (if ls_firstWord s then None else Some (ls_prevWord s)) currWord;
                  s2 = s'\<lparr>ls_out := push sendWord (ls_out s), ls_prevWord := currWord, ls_firstWord := False\<rparr>
              in (if na_last currWord then s2\<lparr>ls_firstWord := True, ls_writeRemainder := \<not> na_last sendWord\<rparr> else s2)))"

subsection \<open>What they do to packets\<close>

text \<open>The streams put out, of words that have been taken: \<open>p\<close> is the word before within the packet.\<close>

abbreviation (input) blank :: axiWord where "blank \<equiv> \<lparr>na_data = 0, na_keep = 0, na_last = False\<rparr>"

primrec lshifted :: "nat \<Rightarrow> axiWord option \<Rightarrow> axiWord list \<Rightarrow> axiWord list" where
  "lshifted n p [] = []"
| "lshifted n p (w # ws) = ls_join n blank p w #
     (if na_last w then (if na_last (ls_join n blank p w) then [] else [ls_rest n blank w]) @ lshifted n None ws else lshifted n (Some w) ws)"

primrec rshifted :: "nat \<Rightarrow> axiWord option \<Rightarrow> axiWord list \<Rightarrow> axiWord list" where
  "rshifted n p [] = []"
| "rshifted n p (v # vs) =
     (case p of None \<Rightarrow> if na_last v then [rs_rest n blank v] else []
      | Some q \<Rightarrow> rs_join n blank q v # (if na_last v \<and> \<not> na_last (rs_join n blank q v) then [rs_rest n blank v] else [])) @
     rshifted n (if na_last v then None else Some v) vs"

lemma bit_two_parts:
  assumes "0 < c" and "h = c - 1"
  shows "bit (set_range (set_range (junk :: 'a::len word) h 0 (lo :: 'b::len word)) up c (hi :: 'c::len word)) i \<longleftrightarrow>
     i < LENGTH('a) \<and> (if i < c then bit lo i else if i \<le> up then bit hi (i - c) else bit junk i)"
  using assms by (auto simp: bit_set_range)

lemma shift_bits:
  assumes "0 < n" and "n < 8"
  shows "bit (na_data (rs_join n junk p c)) i \<longleftrightarrow> i < 64 \<and> (if i < 64 - 8 * n then bit (na_data p) (8 * n + i) else bit (na_data c) (i - (64 - 8 * n)))"
    and "bit (na_keep (rs_join n junk p c)) i \<longleftrightarrow> i < 8 \<and> (if i < 8 - n then bit (na_keep p) (n + i) else bit (na_keep c) (i - (8 - n)))"
    and "bit (na_data (rs_rest n junk p)) i \<longleftrightarrow> i < 64 - 8 * n \<and> bit (na_data p) (8 * n + i)"
    and "bit (na_keep (rs_rest n junk p)) i \<longleftrightarrow> i < 8 - n \<and> bit (na_keep p) (n + i)"
    and "bit (na_data (ls_join n junk q c)) i \<longleftrightarrow> i < 64 \<and>
      (if i < 8 * n then (case q of None \<Rightarrow> False | Some p \<Rightarrow> bit (na_data p) (64 - 8 * n + i)) else bit (na_data c) (i - 8 * n))"
    and "bit (na_keep (ls_join n junk q c)) i \<longleftrightarrow> i < 8 \<and>
      (if i < n then (case q of None \<Rightarrow> True | Some p \<Rightarrow> bit (na_keep p) (8 - n + i)) else bit (na_keep c) (i - n))"
    and "bit (na_data (ls_rest n junk p)) i \<longleftrightarrow> i < 8 * n \<and> bit (na_data p) (64 - 8 * n + i)"
    and "bit (na_keep (ls_rest n junk p)) i \<longleftrightarrow> i < n \<and> bit (na_keep p) (8 - n + i)"
proof -
  have ones: "bit (0xFFFFFFFF :: int) j" if "j < 32" for j
  proof -
    have "(0xFFFFFFFF :: int) = mask 32" by (simp add: mask_eq_exp_minus_1)
    then show ?thesis using that by (simp only: bit_mask_iff) simp
  qed
  have cuts: "63 - 8 * n = 64 - 8 * n - 1" "7 - n = 8 - n - 1" "0 < 64 - 8 * n" "0 < 8 - n" "0 < 8 * n" "8 * n - Suc 0 = 8 * n - 1" "n - Suc 0 = n - 1" using assms by simp_all
  show "bit (na_data (rs_join n junk p c)) i \<longleftrightarrow> i < 64 \<and> (if i < 64 - 8 * n then bit (na_data p) (8 * n + i) else bit (na_data c) (i - (64 - 8 * n)))"
    using assms by (simp add: rs_join_def bit_two_parts [OF cuts(3,1)] bit_get_range) linarith
  show "bit (na_keep (rs_join n junk p c)) i \<longleftrightarrow> i < 8 \<and> (if i < 8 - n then bit (na_keep p) (n + i) else bit (na_keep c) (i - (8 - n)))"
    using assms by (simp add: rs_join_def bit_two_parts [OF cuts(4,2)] bit_get_range) linarith
  show "bit (na_data (rs_rest n junk p)) i \<longleftrightarrow> i < 64 - 8 * n \<and> bit (na_data p) (8 * n + i)"
    using assms by (simp add: rs_rest_def bit_two_parts [OF cuts(3,1)] bit_get_range) linarith
  show "bit (na_keep (rs_rest n junk p)) i \<longleftrightarrow> i < 8 - n \<and> bit (na_keep p) (n + i)"
    using assms by (simp add: rs_rest_def bit_two_parts [OF cuts(4,2)] bit_get_range) linarith
  show "bit (na_data (ls_join n junk q c)) i \<longleftrightarrow> i < 64 \<and>
      (if i < 8 * n then (case q of None \<Rightarrow> False | Some p \<Rightarrow> bit (na_data p) (64 - 8 * n + i)) else bit (na_data c) (i - 8 * n))"
    using assms by (cases q) (auto simp: ls_join_def bit_two_parts [OF cuts(5,6)] bit_get_range)
  show "bit (na_keep (ls_join n junk q c)) i \<longleftrightarrow> i < 8 \<and>
      (if i < n then (case q of None \<Rightarrow> True | Some p \<Rightarrow> bit (na_keep p) (8 - n + i)) else bit (na_keep c) (i - n))"
    using assms by (cases q) (auto simp: ls_join_def bit_two_parts [OF assms(1) cuts(7)] bit_get_range ones)
  show "bit (na_data (ls_rest n junk p)) i \<longleftrightarrow> i < 8 * n \<and> bit (na_data p) (64 - 8 * n + i)"
    using assms by (auto simp: ls_rest_def bit_two_parts [OF cuts(5,6)] bit_get_range)
  show "bit (na_keep (ls_rest n junk p)) i \<longleftrightarrow> i < n \<and> bit (na_keep p) (8 - n + i)"
    using assms by (auto simp: ls_rest_def bit_two_parts [OF assms(1) cuts(7)] bit_get_range)
qed

text \<open>The uninitialised word does not show.\<close>

lemma shift_junk:
  assumes "0 < n" and "n < 8"
  shows "rs_join n junk p c = rs_join n blank p c" and "rs_rest n junk p = rs_rest n blank p"
    and "ls_join n junk q c = ls_join n blank q c" and "ls_rest n junk p = ls_rest n blank p"
  by (auto intro!: net_axis.equality bit_word_eqI simp: shift_bits [OF assms])
    (simp_all add: rs_join_def rs_rest_def ls_join_def ls_rest_def)

text \<open>The last flags: what is left of a word is nothing.\<close>

lemma shift_last:
  assumes "0 < n" and "n < 8"
  shows "na_last (ls_join n junk q w) \<longleftrightarrow> (\<forall>i < n. \<not> bit (na_keep w) (8 - n + i))"
    and "na_last (rs_join n junk p v) \<longleftrightarrow> (\<forall>i < 8 - n. \<not> bit (na_keep v) (n + i))"
proof -
  show "na_last (ls_join n junk q w) \<longleftrightarrow> (\<forall>i < n. \<not> bit (na_keep w) (8 - n + i))"
    using assms by (auto simp: ls_join_def bit_eq_iff bit_get_range possible_bit_word)
  show "na_last (rs_join n junk p v) \<longleftrightarrow> (\<forall>i < 8 - n. \<not> bit (na_keep v) (n + i))"
    using assms by (auto simp: rs_join_def bit_eq_iff bit_get_range possible_bit_word)
qed

subsection \<open>There and back\<close>

text \<open>Words that keep their first byte, and their last one unless they end the packet.\<close>

definition steady :: "axiWord \<Rightarrow> bool" where
  "steady w \<longleftrightarrow> bit (na_keep w) 0 \<and> (\<not> na_last w \<longrightarrow> bit (na_keep w) 7)"

text \<open>What a word looks like afterwards: when nothing of it is kept in the last \<open>n\<close> bytes, they are cleared.\<close>

definition trimmed :: "nat \<Rightarrow> axiWord \<Rightarrow> axiWord" where
  "trimmed n w = (if na_last (ls_join n blank None w) then w\<lparr>na_data := take_bit (64 - 8 * n) (na_data w)\<rparr> else w)"

text \<open>The last word taken is held back unless it ends a packet.\<close>

primrec finished :: "axiWord list \<Rightarrow> axiWord list" where
  "finished [] = []"
| "finished (w # ws) = (if na_last w \<or> ws \<noteq> [] then w # finished ws else [])"

lemma shift_words:
  assumes n: "0 < n" "n < 8"
  shows "\<lbrakk> steady w; \<not> na_last w; steady w' \<rbrakk> \<Longrightarrow> rs_join n blank (ls_join n blank q w) (ls_join n blank (Some w) w') = trimmed n w"
    and "na_last w \<Longrightarrow> \<not> na_last (ls_join n blank q w) \<Longrightarrow> rs_join n blank (ls_join n blank q w) (ls_rest n blank w) = trimmed n w"
    and "na_last w \<Longrightarrow> na_last (ls_join n blank q w) \<Longrightarrow> rs_rest n blank (ls_join n blank q w) = trimmed n w"
    and "steady w \<Longrightarrow> \<not> na_last w \<Longrightarrow> \<not> na_last (ls_join n blank q w)"
    and "steady w \<Longrightarrow> \<not> na_last (rs_join n blank v (ls_join n blank q w))"
    and "na_last (rs_join n blank v (ls_rest n blank w))"
proof -
  have top: "\<not> na_last (ls_join n blank q w)" if "steady w" "\<not> na_last w" for q w
  proof -
    have "bit (na_keep w) (8 - n + (n - 1))" using that n by (simp add: steady_def)
    then show ?thesis using n by (auto simp: shift_last [OF n] intro!: exI [of _ "n - 1"])
  qed
  then show "steady w \<Longrightarrow> \<not> na_last w \<Longrightarrow> \<not> na_last (ls_join n blank q w)" .
  have low: "\<not> na_last (rs_join n blank v (ls_join n blank q w))" if "steady w" for q v w
    using that n by (auto simp: shift_last [OF n] shift_bits [OF n] steady_def intro!: exI [of _ 0])
  then show "steady w \<Longrightarrow> \<not> na_last (rs_join n blank v (ls_join n blank q w))" .
  show "na_last (rs_join n blank v (ls_rest n blank w))" using n by (simp add: shift_last [OF n] shift_bits [OF n])
  have data: "na_data (rs_join n blank (ls_join n blank q w) v) = na_data w" "na_keep (rs_join n blank (ls_join n blank q w) v) = na_keep w"
    if "v = ls_rest n blank w \<or> (\<exists>w'. v = ls_join n blank (Some w) w')" for v
    using that n by (auto intro!: bit_word_eqI simp: shift_bits [OF n] cong: if_cong split: if_splits)
  show "rs_join n blank (ls_join n blank q w) (ls_join n blank (Some w) w') = trimmed n w" if "steady w" "\<not> na_last w" "steady w'"
    using data [of "ls_join n blank (Some w) w'"] top [OF that(1,2)] low [OF that(3)] that(2)
    by (auto intro!: net_axis.equality simp: trimmed_def)
  have same: "na_last (ls_join n blank q w) \<longleftrightarrow> na_last (ls_join n blank None w)" by (simp add: shift_last [OF n])
  show "rs_join n blank (ls_join n blank q w) (ls_rest n blank w) = trimmed n w" if "na_last w" "\<not> na_last (ls_join n blank q w)"
    using data [of "ls_rest n blank w"] that \<open>na_last (rs_join n blank _ (ls_rest n blank w))\<close> same
    by (auto intro!: net_axis.equality simp: trimmed_def shift_last [OF n] shift_bits [OF n])
  show "rs_rest n blank (ls_join n blank q w) = trimmed n w" if "na_last w" "na_last (ls_join n blank q w)"
  proof -
    have low: "i < 8 - n \<and> n + i < 8" if "bit (na_keep w) i" "i < 8" for i
      using \<open>na_last (ls_join n blank q w)\<close> that n
      by (cases "i < 8 - n") (auto simp: shift_last [OF n] dest!: spec [of _ "i - (8 - n)"])
    then have "na_keep (rs_rest n blank (ls_join n blank q w)) = na_keep w"
      using n by (intro bit_word_eqI) (auto simp: shift_bits [OF n] dest: low)
    moreover have "na_data (rs_rest n blank (ls_join n blank q w)) = take_bit (64 - 8 * n) (na_data w)"
      using n by (intro bit_word_eqI) (auto simp: shift_bits [OF n] bit_take_bit_iff)
    ultimately show ?thesis using that same by (auto intro!: net_axis.equality simp: trimmed_def rs_rest_def)
  qed
qed

lemma shifted_back:
  assumes n: "0 < n" "n < 8" and "list_all steady ws"
  shows "rshifted n None (lshifted n None ws) = map (trimmed n) (finished ws) \<and>
     (\<forall>w q. steady w \<and> \<not> na_last w \<longrightarrow>
        rshifted n (Some (ls_join n blank q w)) (lshifted n (Some w) ws) = map (trimmed n) (finished (w # ws)))"
  using assms(3)
proof (induction ws)
  case (Cons w' ws)
  then have IH: "rshifted n None (lshifted n None ws) = map (trimmed n) (finished ws)"
    "\<And>w q. steady w \<Longrightarrow> \<not> na_last w \<Longrightarrow>
        rshifted n (Some (ls_join n blank q w)) (lshifted n (Some w) ws) = map (trimmed n) (finished (w # ws))"
    and w': "steady w'" by auto
  have rest: "na_last (ls_rest n j v)" for j v by (simp add: ls_rest_def)
  have trimmed: "na_last (trimmed n v) = na_last v" for v by (simp add: trimmed_def)
  note words = shift_words [OF n] and rest = rest trimmed
  have a: "rshifted n None (lshifted n None (w' # ws)) = map (trimmed n) (finished (w' # ws))"
    using w' IH words(2,3,4,6) [of w'] rest by (cases "na_last w'"; cases "na_last (ls_join n blank None w')") simp_all
  have b: "rshifted n (Some (ls_join n blank q w)) (lshifted n (Some w) (w' # ws)) = map (trimmed n) (finished (w # w' # ws))"
    if "steady w" "\<not> na_last w" for w q
    using that w' IH words(1) [OF that w'] words(2,3,4,5,6) [of w'] rest
    by (cases "na_last w'"; cases "na_last (ls_join n blank (Some w) w')") simp_all
  from a b show ?case by blast
qed simp

subsection \<open>The processes put out these streams\<close>

text \<open>The word before, within the packet.\<close>

definition before :: "axiWord option \<Rightarrow> axiWord list \<Rightarrow> axiWord option" where
  "before p ws = fold (\<lambda>w _. if na_last w then None else Some w) ws p"

lemma before_simps [simp]:
  "before p [] = p"
  "before p (w # ws) = before (if na_last w then None else Some w) ws"
  "before p (ws @ [w]) = (if na_last w then None else Some w)"
  by (simp_all add: before_def)

lemma lshifted_append [simp]: "lshifted n p (ws @ vs) = lshifted n p ws @ lshifted n (before p ws) vs"
  by (induction ws arbitrary: p) auto

lemma rshifted_append [simp]: "rshifted n p (ws @ vs) = rshifted n p ws @ rshifted n (before p ws) vs"
  by (induction ws arbitrary: p) auto

definition ls_ok :: "nat \<Rightarrow> lshift \<Rightarrow> bool" where
  "ls_ok n s \<longleftrightarrow> list_all steady (written (ls_in s)) \<and>
     before None (consumed (ls_in s)) = (if ls_firstWord s then None else Some (ls_prevWord s)) \<and>
     written (ls_out s) @ (if ls_writeRemainder s then [ls_rest n blank (ls_prevWord s)] else []) = lshifted n None (consumed (ls_in s))"

definition rs_ok :: "nat \<Rightarrow> rshift \<Rightarrow> bool" where
  "rs_ok n s \<longleftrightarrow>
     before None (consumed (rs_in s)) = (if rs_firstWord s then None else Some (rs_prevWord s)) \<and>
     written (rs_out s) @ (if rs_remainder s then [rs_rest n blank (rs_prevWord s)] else []) = rshifted n None (consumed (rs_in s))"

lemma ls_ok_step:
  assumes n: "0 < n" "n < 8" and "ls_ok n s"
  shows "ls_ok n (lshiftWordByOctet n junk s)"
  using assms
  by (cases "waiting (ls_in s)"; cases "ls_writeRemainder s"; cases "ls_firstWord s")
    (auto simp: ls_ok_def lshiftWordByOctet_def Let_def shift_junk [OF n, of junk])

lemma rs_ok_step:
  assumes n: "0 < n" "n < 8" and "rs_ok n s"
  shows "rs_ok n (rshiftWordByOctet n junk s)"
  using assms
  by (cases "waiting (rs_in s)"; cases "rs_remainder s"; cases "rs_firstWord s")
    (auto simp: rs_ok_def rshiftWordByOctet_def Let_def shift_junk [OF n, of junk])

subsection \<open>One behind the other\<close>

record shift_link =
  sl_left :: lshift
  sl_right :: rshift

definition sl_wire :: "shift_link \<Rightarrow> shift_link" where
  "sl_wire s = (if is_empty (ls_out (sl_left s)) then s
     else s\<lparr>sl_left := (sl_left s)\<lparr>ls_out := pop (ls_out (sl_left s))\<rparr>,
            sl_right := (sl_right s)\<lparr>rs_in := push (front (ls_out (sl_left s))) (rs_in (sl_right s))\<rparr>\<rparr>)"

inductive sl_step :: "nat \<Rightarrow> shift_link \<Rightarrow> shift_link \<Rightarrow> bool" for n where
  sl_arrive: "steady w \<Longrightarrow> sl_step n s (s\<lparr>sl_left := (sl_left s)\<lparr>ls_in := push w (ls_in (sl_left s))\<rparr>\<rparr>)"
| sl_lshift: "sl_step n s (s\<lparr>sl_left := lshiftWordByOctet n junk (sl_left s)\<rparr>)"
| sl_wire: "sl_step n s (sl_wire s)"
| sl_rshift: "sl_step n s (s\<lparr>sl_right := rshiftWordByOctet n junk (sl_right s)\<rparr>)"
| sl_taken: "sl_step n s (s\<lparr>sl_right := (sl_right s)\<lparr>rs_out := pop (rs_out (sl_right s))\<rparr>\<rparr>)"

definition sl_init :: "shift_link \<Rightarrow> bool" where
  "sl_init s \<longleftrightarrow> ls_firstWord (sl_left s) \<and> \<not> ls_writeRemainder (sl_left s) \<and> ls_in (sl_left s) = no_data \<and> ls_out (sl_left s) = no_data \<and>
     rs_firstWord (sl_right s) \<and> \<not> rs_remainder (sl_right s) \<and> rs_in (sl_right s) = no_data \<and> rs_out (sl_right s) = no_data"

definition sl_inv :: "nat \<Rightarrow> shift_link \<Rightarrow> bool" where
  "sl_inv n s \<longleftrightarrow> (0 < n \<and> n < 8 \<longrightarrow> ls_ok n (sl_left s) \<and> rs_ok n (sl_right s)) \<and> consumed (ls_out (sl_left s)) = written (rs_in (sl_right s))"

lemma shift_wires:
  "consumed (ls_out (lshiftWordByOctet n junk l)) = consumed (ls_out l)"
  "written (rs_in (rshiftWordByOctet n junk r)) = written (rs_in r)"
  by (simp_all add: lshiftWordByOctet_def rshiftWordByOctet_def Let_def)

interpretation shift_link: kernel sl_init "sl_step n" "sl_inv n" for n
proof
  fix s s'
  assume inv: "sl_inv n s" and "sl_step n s s'"
  from this(2) show "sl_inv n s'"
  proof cases
    case (sl_lshift junk)
    with inv show ?thesis by (simp add: sl_inv_def ls_ok_step shift_wires)
  next
    case (sl_rshift junk)
    with inv show ?thesis by (simp add: sl_inv_def rs_ok_step shift_wires)
  next
    case sl_wire
    with inv show ?thesis
      by (cases "waiting (ls_out (sl_left s))") (auto simp: sl_inv_def sl_wire_def ls_ok_def rs_ok_def written_def)
  qed (use inv in \<open>auto simp: sl_inv_def ls_ok_def rs_ok_def\<close>)
qed (auto simp: sl_init_def sl_inv_def ls_ok_def rs_ok_def)

definition sl_settled :: "shift_link \<Rightarrow> bool" where
  "sl_settled s \<longleftrightarrow> waiting (ls_in (sl_left s)) = [] \<and> \<not> ls_writeRemainder (sl_left s) \<and> waiting (ls_out (sl_left s)) = [] \<and>
     waiting (rs_in (sl_right s)) = [] \<and> \<not> rs_remainder (sl_right s)"

lemma finished_prefix: "prefix (finished ws) ws"
  by (induction ws) auto

lemma finished_all: "ws = [] \<or> na_last (last ws) \<Longrightarrow> finished ws = ws"
  by (induction ws) (auto split: if_splits)

text \<open>What comes out behind the two is what came in, but that the last word of a packet has lost data that is not kept.\<close>

lemma shift_round_trip:
  assumes "0 < n" and "n < 8" and "sl_init s" and "(sl_step n)\<^sup>*\<^sup>* s s'"
  shows "prefix (written (rs_out (sl_right s'))) (map (trimmed n) (written (ls_in (sl_left s')))) \<and>
     (sl_settled s' \<and> written (ls_in (sl_left s')) \<noteq> [] \<and> na_last (last (written (ls_in (sl_left s')))) \<longrightarrow>
        written (rs_out (sl_right s')) = map (trimmed n) (written (ls_in (sl_left s'))))"
proof -
  let ?l = "sl_left s'" and ?r = "sl_right s'"
  have l: "ls_ok n ?l" and r: "rs_ok n ?r" and wire: "consumed (ls_out ?l) = written (rs_in ?r)"
    using shift_link.inv_reachable [OF assms(3,4)] assms(1,2) by (simp_all add: sl_inv_def)
  have steady: "list_all steady (consumed (ls_in ?l))" using l by (simp add: ls_ok_def written_def)
  note there = shifted_back [OF assms(1,2) steady, THEN conjunct1]
  obtain t1 where t1: "written (rs_out ?r) @ t1 = rshifted n None (consumed (rs_in ?r))" "\<not> rs_remainder ?r \<longrightarrow> t1 = []"
    using r by (auto simp: rs_ok_def)
  obtain t2 where t2: "written (ls_out ?l) @ t2 = lshifted n None (consumed (ls_in ?l))" "\<not> ls_writeRemainder ?l \<longrightarrow> t2 = []"
    using l by (auto simp: ls_ok_def)
  let ?more = "waiting (rs_in ?r) @ waiting (ls_out ?l) @ t2"
  have way: "lshifted n None (consumed (ls_in ?l)) = consumed (rs_in ?r) @ ?more"
    using t2(1) [symmetric] wire by (simp add: written_def)
  have "map (trimmed n) (finished (consumed (ls_in ?l))) = rshifted n None (consumed (rs_in ?r) @ ?more)"
    unfolding way [symmetric] by (rule there [symmetric])
  also have "\<dots> = (written (rs_out ?r) @ t1) @ rshifted n (before None (consumed (rs_in ?r))) ?more"
    unfolding t1(1) by (rule rshifted_append)
  finally have sum: "map (trimmed n) (finished (consumed (ls_in ?l))) =
      written (rs_out ?r) @ t1 @ rshifted n (before None (consumed (rs_in ?r))) ?more" unfolding append_assoc .
  have "prefix (written (rs_out ?r)) (map (trimmed n) (finished (consumed (ls_in ?l))))"
    unfolding sum by (rule prefixI) (rule refl)
  moreover have "written (rs_out ?r) = map (trimmed n) (finished (consumed (ls_in ?l)))" if "sl_settled s'"
    unfolding sum using t1(2) t2(2) that by (simp add: sl_settled_def)
  moreover have "prefix (map (trimmed n) (finished (consumed (ls_in ?l)))) (map (trimmed n) (written (ls_in ?l)))"
    by (intro map_mono_prefix prefix_order.trans [OF finished_prefix]) (simp add: written_def)
  moreover have "finished (consumed (ls_in ?l)) = written (ls_in ?l)"
    if "sl_settled s'" "na_last (last (written (ls_in ?l)))"
    using that finished_all [of "consumed (ls_in ?l)"] by (simp add: sl_settled_def written_def)
  ultimately show ?thesis by (simp add: prefix_order.trans)
qed

text \<open>The shift to the right by no octets loses the first word of every packet of more than one word: what is put out for it is
the second one.\<close>

lemma rshift_zero_loses_first_word:
  assumes "rs_firstWord s" and "\<not> rs_remainder s" and "waiting (rs_in s) = w # v # ws" and "\<not> na_last w"
  shows "written (rs_out (rshiftWordByOctet 0 j' (rshiftWordByOctet 0 j s))) = written (rs_out s) @ [v]"
  using assms by (simp add: rshiftWordByOctet_def Let_def)

end
