(* ===== verification/Demo_Packet.thy ===== *)
theory Demo_Packet
  imports Demo_Utils
begin

text \<open>
  The class \<open>packetHeader\<close> of \<open>src/demo/build/hls/dummy_tcp_stack/packet.hpp\<close>, which takes a header of \<open>HEADER_SIZE\<close> bits (\<open>'h\<close>)
  from the words of \<open>W\<close> bits (\<open>'w\<close>) of a stream or hands it out as such words.
\<close>

record 'h packetHeader =
  ph_ready :: bool
  ph_idx :: u16
  ph_header :: 'h

text \<open>The constructor leaves the header as it is in memory.\<close>

definition packetHeader_new :: "'h \<Rightarrow> 'h packetHeader" where
  "packetHeader_new junk = \<lparr>ph_ready = False, ph_idx = 0, ph_header = junk\<rparr>"

definition parseWord :: "'w::len word \<Rightarrow> 'h::len word packetHeader \<Rightarrow> 'h word packetHeader" where
  "parseWord w s =
     (if ph_ready s then s
      else let at = unat (ph_idx s) * LENGTH('w) in
        (if at + LENGTH('w) < LENGTH('h)
         then s\<lparr>ph_header := set_range (ph_header s) (at + LENGTH('w) - 1) at w, ph_idx := ph_idx s + 1\<rparr>
         else s\<lparr>ph_header := set_range (ph_header s) (LENGTH('h) - 1) at w, ph_ready := True, ph_idx := ph_idx s + 1\<rparr>))"

text \<open>The value returned, the word as the caller finds it afterwards, and the state.\<close>

definition consumeWord :: "'w::len word \<Rightarrow> 'h::len word packetHeader \<Rightarrow> u8 \<times> 'w word \<times> 'h word packetHeader" where
  "consumeWord w s =
     (let idx = unat (ph_idx s); s' = s\<lparr>ph_idx := ph_idx s + 1\<rparr> in
      if (idx + 1) * LENGTH('w) \<le> LENGTH('h)
      then (of_nat ((LENGTH('h) - unat (ph_idx s') * LENGTH('w)) div 8), get_range (ph_header s) ((idx + 1) * LENGTH('w) - 1) (idx * LENGTH('w)), s')
      else if idx * LENGTH('w) < LENGTH('h)
      then (0, set_range w (LENGTH('h) mod LENGTH('w) - 1) 0 (get_range (ph_header s) (LENGTH('h) - 1) (idx * LENGTH('w)) :: 'h word), s')
      else (0, w, s))"

definition setRawHeader :: "'h \<Rightarrow> 'h packetHeader \<Rightarrow> 'h packetHeader" where
  "setRawHeader h s = s\<lparr>ph_header := h\<rparr>"

definition getRawHeader :: "'h packetHeader \<Rightarrow> 'h" where
  "getRawHeader s = ph_header s"

definition isReady :: "'h packetHeader \<Rightarrow> bool" where
  "isReady s = ph_ready s"

definition clear_header :: "'h packetHeader \<Rightarrow> 'h packetHeader" where
  "clear_header s = s\<lparr>ph_ready := False, ph_idx := 0\<rparr>"

text \<open>The words handed out one after the other into the same variable.\<close>

primrec consumed_words :: "nat \<Rightarrow> 'w::len word \<Rightarrow> 'h::len word packetHeader \<Rightarrow> 'w word list" where
  "consumed_words 0 w s = []"
| "consumed_words (Suc n) w s = (let (left, w', s') = consumeWord w s in w' # consumed_words n w' s')"

lemma next_index: "unat (i :: u16) < 65535 \<Longrightarrow> unat (i + 1) = unat i + 1"
  by (simp add: unat_word_ariths)

lemma parse_consumed:
  fixes s t :: "'h::len word packetHeader" and w :: "'w::len word"
  assumes "unat (ph_idx s) = k" and "unat (ph_idx t) = k" and "ph_ready t \<longleftrightarrow> LENGTH('h) \<le> k * LENGTH('w)"
    and "\<And>i. i < k * LENGTH('w) \<Longrightarrow> i < LENGTH('h) \<Longrightarrow> bit (ph_header t) i = bit (ph_header s) i"
    and "LENGTH('h) \<le> (k + n) * LENGTH('w)" and "k + n < 65536"
  shows "ph_ready (fold parseWord (consumed_words n w s) t) \<and> ph_header (fold parseWord (consumed_words n w s) t) = ph_header s"
  using assms
proof (induction n arbitrary: k w s t)
  case 0
  then show ?case by (auto intro: bit_word_eqI)
next
  case (Suc n)
  show ?case
  proof (cases "LENGTH('h) \<le> k * LENGTH('w)")
    case True
    moreover have "k * LENGTH('w) \<le> (k + n) * LENGTH('w)" by simp
    ultimately have "LENGTH('h) \<le> (k + n) * LENGTH('w)" by linarith
    moreover have "\<not> (k + 1) * LENGTH('w) \<le> LENGTH('h)"
    proof -
      have "0 < LENGTH('w)" by simp
      then show ?thesis using True by (simp only: distrib_right mult_1 not_le)
    qed
    then have "consumeWord w s = (0, w, s)" and "parseWord w t = t"
      using True Suc.prems(1,3) by (simp_all add: consumeWord_def parseWord_def)
    ultimately show ?thesis using Suc.IH [OF Suc.prems(1-4)] Suc.prems(6) by simp
  next
    case False
    obtain left w' s' where c: "consumeWord w s = (left, w', s')" by (cases "consumeWord w s")
    with False Suc.prems(1,6) have s': "ph_header s' = ph_header s" "unat (ph_idx s') = k + 1"
      by (auto simp: consumeWord_def Let_def next_index split: if_splits)
    have w': "bit w' i \<longleftrightarrow> bit (ph_header s) (k * LENGTH('w) + i)" if "i < LENGTH('w)" "k * LENGTH('w) + i < LENGTH('h)" for i
    proof (cases "(k + 1) * LENGTH('w) \<le> LENGTH('h)")
      case True
      with c Suc.prems(1) that show ?thesis by (auto simp: consumeWord_def Let_def bit_get_range)
    next
      case above: False
      have "LENGTH('h) mod LENGTH('w) = LENGTH('h) - k * LENGTH('w)"
        using False above by (intro mod_nat_eqI) (auto simp: algebra_simps)
      with False above c Suc.prems(1) that show ?thesis
        by (auto simp: consumeWord_def Let_def bit_get_range bit_set_range cong: if_cong split: if_splits)
    qed
    have t': "ph_ready (parseWord w' t) \<longleftrightarrow> LENGTH('h) \<le> (k + 1) * LENGTH('w)" "unat (ph_idx (parseWord w' t)) = k + 1"
      using False Suc.prems(2,3,6) by (auto simp: parseWord_def Let_def next_index)
    have "bit (ph_header (parseWord w' t)) i = bit (ph_header s') i" if "i < (k + 1) * LENGTH('w)" "i < LENGTH('h)" for i
      using False Suc.prems(2-4) s' w' [of "i - k * LENGTH('w)"] that
      by (auto simp: parseWord_def Let_def bit_set_range)
    from Suc.IH [OF s'(2) t'(2,1) this] Suc.prems(5,6) s' c show ?thesis by simp
  qed
qed

text \<open>A header set and handed out in words, with whatever in the last word behind it, is the header that arrives.\<close>

lemma packetHeader_round_trip:
  fixes s t :: "'h::len word packetHeader" and w :: "'w::len word"
  assumes "LENGTH('h) \<le> n * LENGTH('w)" and "n < 65536"
  shows "let t' = fold parseWord (consumed_words n w (setRawHeader h (clear_header s))) (clear_header t)
    in isReady t' \<and> getRawHeader t' = h"
  using parse_consumed [of "setRawHeader h (clear_header s)" 0 "clear_header t" n w] assms
  by (simp add: setRawHeader_def getRawHeader_def isReady_def clear_header_def Let_def)

end
