(* ===== verification/Fw_Main.thy ===== *)
theory Fw_Main
  imports Fw_Collectives
begin

text \<open>
  Start-up, soft reset, and the loop of \<open>main\<close>: wait for a call, read its fifteen words,
  dispatch it, and respond.  \<open>setjmp\<close> makes every \<open>longjmp\<close> of the firmware a response too.
\<close>

subsection \<open>Start-up and reset\<close>

definition check_hwid :: "u32 \<Rightarrow> unit fw" where
  "check_hwid gpio = bnd (xil_in32 (GPIO2_DATA_REG gpio)) (\<lambda>hwid. xil_out32 HWID_OFFSET hwid)"

definition clear_step :: "u32 \<Rightarrow> (u32 + unit) fw" where
  "clear_step myoffset =
     (if myoffset < END_OF_EXCHMEM then bnd (xil_out32 myoffset 0) (\<lambda>_. ret (Inl (myoffset + 4)))
      else ret (Inr ()))"

definition clear_exchmem :: "unit fw" where
  "clear_exchmem = loop clear_step EXCHMEM_BASEADDR"

definition clear_lookup :: "unit fw" where
  "clear_lookup = modf (\<lambda>s. s\<lparr>dma_tag_lookup := replicate (unat MAX_DMA_TAGS) (- 1)\<rparr>)"

definition init :: "u32 \<Rightarrow> unit fw" where
  "init gpio = blk [
     microblaze_enable_interrupts,
     clear_exchmem,
     check_hwid gpio,
     modf (\<lambda>s. s\<lparr>dma_tag := 0\<rparr>),
     clear_lookup,
     set_bits (GPIO_DATA_REG gpio) GPIO_SWRST_MASK,
     set_bits (GPIO_DATA_REG gpio) GPIO_READY_MASK]"

definition encore_soft_reset :: "u32 \<Rightarrow> unit fw" where
  "encore_soft_reset gpio = blk [
     microblaze_disable_interrupts,
     setup_irq 0,
     clr_bits (GPIO_DATA_REG gpio) GPIO_SWRST_MASK,
     clear_exchmem,
     modf (\<lambda>s. s\<lparr>num_rx_enqueued := 0, dma_tag := 0\<rparr>),
     clear_lookup,
     check_hwid gpio,
     set_bits (GPIO_DATA_REG gpio) GPIO_SWRST_MASK]"

subsection \<open>Calls\<close>

definition wait_for_call_step :: "unit \<Rightarrow> (unit + unit) fw" where
  "wait_for_call_step x =
     bnd interrupt_window (\<lambda>_.
     bnd (tngetd CMD_HOST) (\<lambda>invalid. ret (if invalid \<noteq> 0 then Inl () else Inr ())))"

definition wait_for_call :: "unit fw" where
  "wait_for_call = loop wait_for_call_step ()"

definition finalize_call :: "u32 \<Rightarrow> unit fw" where
  "finalize_call retval = blk [xil_out32 RETVAL_OFFSET retval, putd STS_HOST retval]"

record call =
  c_scenario :: u32
  c_len :: u32
  c_comm :: u32
  c_root_src_dst :: u32
  c_func :: u32
  c_msg_tag :: u32
  c_buf0_type :: u32
  c_buf1_type :: u32
  c_buf2_type :: u32
  c_buf0_addr :: u64
  c_buf1_addr :: u64
  c_buf2_addr :: u64

definition mk_addr :: "u32 \<Rightarrow> u32 \<Rightarrow> u64" where
  "mk_addr addrh addrl = push_bit 32 (ucast addrh) OR ucast addrl"

definition read_call :: "call fw" where
  "read_call =
     bnd (getd CMD_HOST) (\<lambda>scenario. bnd (getd CMD_HOST) (\<lambda>len. bnd (getd CMD_HOST) (\<lambda>comm.
     bnd (getd CMD_HOST) (\<lambda>root. bnd (getd CMD_HOST) (\<lambda>func. bnd (getd CMD_HOST) (\<lambda>msg_tag.
     bnd (getd CMD_HOST) (\<lambda>buf0_type. bnd (getd CMD_HOST) (\<lambda>buf1_type. bnd (getd CMD_HOST) (\<lambda>buf2_type.
     bnd (getd CMD_HOST) (\<lambda>buf0_addrl. bnd (getd CMD_HOST) (\<lambda>buf0_addrh.
     bnd (getd CMD_HOST) (\<lambda>buf1_addrl. bnd (getd CMD_HOST) (\<lambda>buf1_addrh.
     bnd (getd CMD_HOST) (\<lambda>buf2_addrl. bnd (getd CMD_HOST) (\<lambda>buf2_addrh.
     ret \<lparr>c_scenario = scenario, c_len = len, c_comm = comm, c_root_src_dst = root, c_func = func, c_msg_tag = msg_tag,
          c_buf0_type = buf0_type, c_buf1_type = buf1_type, c_buf2_type = buf2_type,
          c_buf0_addr = mk_addr buf0_addrh buf0_addrl, c_buf1_addr = mk_addr buf1_addrh buf1_addrl,
          c_buf2_addr = mk_addr buf2_addrh buf2_addrl\<rparr>)))))))))))))))"

text \<open>The \<open>XCCL_CONFIG\<close> functions; the value is the \<open>retval\<close> left by the case.\<close>

definition do_config :: "u32 \<Rightarrow> call \<Rightarrow> u32 fw" where
  "do_config gpio c =
     (let f = c_func c in
      if f = HOUSEKEEP_IRQEN then
        bnd (getf use_tcp) (\<lambda>tcp.
        bnd (setup_irq (if tcp \<noteq> 0 then IRQCTRL_DMA2_CMD_QUEUE_EMPTY OR IRQCTRL_DMA2_STS_QUEUE_NON_EMPTY
                        else IRQCTRL_DMA0_CMD_QUEUE_EMPTY OR IRQCTRL_DMA0_STS_QUEUE_NON_EMPTY)) (\<lambda>_.
        bnd microblaze_enable_interrupts (\<lambda>_. ret 0)))
      else if f = HOUSEKEEP_IRQDIS then
        bnd (blk [microblaze_disable_interrupts, setup_irq 0, clear_timer_interrupt]) (\<lambda>_. ret 0)
      else if f = HOUSEKEEP_SWRST then bnd (encore_soft_reset gpio) (\<lambda>_. ret 0)
      else if f = HOUSEKEEP_PKTEN then
        bnd (blk [start_depacketizer UDP_RXPKT_BASEADDR, start_depacketizer TCP_RXPKT_BASEADDR,
                  start_packetizer UDP_TXPKT_BASEADDR MAX_PACKETSIZE,
                  start_packetizer TCP_TXPKT_BASEADDR MAX_PACKETSIZE]) (\<lambda>_. ret 0)
      else if f = HOUSEKEEP_TIMEOUT then bnd (modf (\<lambda>s. s\<lparr>timeout := c_len c\<rparr>)) (\<lambda>_. ret 0)
      else if f = INIT_CONNECTION then init_connection (c_comm c)
      else if f = OPEN_PORT then openPort (c_comm c)
      else if f = OPEN_CON then openCon (c_comm c)
      else if f = USE_TCP_STACK then bnd (modf (\<lambda>s. s\<lparr>use_tcp := 1\<rparr>)) (\<lambda>_. ret 0)
      else if f = USE_UDP_STACK then bnd (modf (\<lambda>s. s\<lparr>use_tcp := 0\<rparr>)) (\<lambda>_. ret 0)
      else if f = SET_DMA_TRANSACTION_SIZE then
        (if c_len c \<le> DMA_MAX_BTT then
           bnd (modf (\<lambda>s. s\<lparr>dma_transaction_size := c_len c\<rparr>)) (\<lambda>_.
           bnd start_timer1 (\<lambda>_.
           bnd (bnd read_timer1 (xil_out32 TIME_TO_ACCESS_EXCH_MEM)) (\<lambda>_. ret COLLECTIVE_OP_SUCCESS)))
         else ret DMA_NOT_EXPECTED_BTT_ERROR)
      else if f = SET_MAX_DMA_TRANSACTIONS then
        (if c_len c \<le> DMA_MAX_TRANSACTIONS then
           bnd (modf (\<lambda>s. s\<lparr>max_dma_in_flight := c_len c\<rparr>)) (\<lambda>_. ret COLLECTIVE_OP_SUCCESS)
         else ret DMA_NOT_OKAY_ERROR)
      else ret 0)"

definition do_call :: "u32 \<Rightarrow> call \<Rightarrow> u32 fw" where
  "do_call gpio c =
     (let sc = c_scenario c in
      if sc = XCCL_CONFIG then do_config gpio c
      else if sc = XCCL_SEND then send (c_comm c) (c_len c) (c_msg_tag c) (c_root_src_dst c) (c_buf0_addr c)
      else if sc = XCCL_RECV then recv (c_comm c) (c_len c) (c_msg_tag c) (c_root_src_dst c) (c_buf0_addr c)
      else if sc = XCCL_BCAST then broadcast_round_robin (c_comm c) (c_len c) (c_root_src_dst c) (c_buf0_addr c)
      else if sc = XCCL_SCATTER then scatter_rr (c_comm c) (c_len c) (c_root_src_dst c) (c_buf0_addr c) (c_buf1_addr c)
      else if sc = XCCL_GATHER then gather_ring (c_comm c) (c_len c) (c_root_src_dst c) (c_buf0_addr c) (c_buf1_addr c)
      else if sc = XCCL_REDUCE then
        reduce_ring_streaming (c_comm c) (c_len c) (c_func c) (c_root_src_dst c) (c_buf0_addr c) (c_buf1_addr c)
      else if sc = XCCL_ALLGATHER then allgather_ring (c_comm c) (c_len c) (c_buf0_addr c) (c_buf1_addr c)
      else if sc = XCCL_ALLREDUCE then all_reduce_share (c_comm c) (c_len c) (c_func c) (c_buf0_addr c) (c_buf1_addr c)
      else if sc = XCCL_ACC then accumulate (c_len c) (c_func c) (c_buf0_addr c) (c_buf1_addr c) (c_buf1_addr c)
      else if sc = XCCL_COPY then copy (c_len c) (c_buf0_addr c) (c_buf1_addr c)
      else if sc = XCCL_EXT_STREAM_KRNL then ext_kernel_stream (c_len c) (c_buf0_addr c) (c_buf1_addr c)
      else if sc = XCCL_EXT_REDUCE then reduce_ext (c_len c) (c_buf0_addr c) (c_buf1_addr c) (c_buf2_addr c)
      else if sc = XCCL_REDUCE_SCATTER then scatter_reduce (c_comm c) (c_len c) (c_func c) (c_buf0_addr c) (c_buf1_addr c)
      else ret COLLECTIVE_OP_SUCCESS)"

text \<open>One turn of the loop of \<open>main\<close>; a jump goes to the handler, which responds with its code.\<close>

definition main_body :: "u32 \<Rightarrow> unit fw" where
  "main_body gpio =
     bnd wait_for_call (\<lambda>_.
     bnd read_call (\<lambda>c.
     bnd (do_call gpio c) (\<lambda>retval. finalize_call retval)))"

definition setjmp :: "(u32 \<Rightarrow> unit fw) \<Rightarrow> unit fw \<Rightarrow> unit fw" where
  "setjmp handler m s = (case m s of
      Some (Longjmp c, s') \<Rightarrow> handler (if c = 0 then 1 else c) s'
    | r \<Rightarrow> r)"

definition serve_call :: "u32 \<Rightarrow> unit fw" where
  "serve_call gpio = setjmp finalize_call (main_body gpio)"

definition main_step :: "u32 \<Rightarrow> unit \<Rightarrow> (unit + unit) fw" where
  "main_step gpio x = bnd (serve_call gpio) (\<lambda>_. ret (Inl ()))"

text \<open>A jump during \<open>init\<close>, before \<open>setjmp\<close> has run, is undefined.\<close>

definition main :: "u32 \<Rightarrow> unit fw" where
  "main gpio = bnd (setjmp (\<lambda>_. undef) (init gpio)) (\<lambda>_. loop (main_step gpio) ())"

end
