(* ===== verification/Fw_Effects.thy ===== *)
theory Fw_Effects
  imports Fw_Main
begin

text \<open>
  What no function of the firmware but \<open>finalize_call\<close> and the configuration calls can do.  The
  locale \<open>effects_but\<close> takes any reflexive and transitive relation on states that allows the effects of
  the primitives (memory writes, stream reads, stream writes except to the host, tag and buffer
  bookkeeping, interrupt flags, and writes of the registers \<open>free\<close>, among them all that do not set up the stream
  switches and the arithmetic unit), and shows that every function that uses only those stays within it, for
  every outcome and whatever the hardware delivers.  The locale \<open>effects\<close> extends it: with all registers free, every function does.
\<close>

subsection \<open>Words sent to the host\<close>

definition host_responses :: "event list \<Rightarrow> u32 list" where
  "host_responses es = concat (map (\<lambda>e. case e of Put ch v \<Rightarrow> if ch = STS_HOST then [v] else []
     | CPut ch v \<Rightarrow> if ch = STS_HOST then [v] else [] | _ \<Rightarrow> []) es)"

lemma host_responses_append [simp]: "host_responses (xs @ ys) = host_responses xs @ host_responses ys"
  by (simp add: host_responses_def)

lemma host_responses_simps [simp]:
  "host_responses [] = []"
  "host_responses (Put ch v # es) = (if ch = STS_HOST then [v] else []) @ host_responses es"
  "host_responses (CPut ch v # es) = (if ch = STS_HOST then [v] else []) @ host_responses es"
  "host_responses (Got ch v # es) = host_responses es"
  "host_responses (Wr a v # es) = host_responses es"
  by (simp_all add: host_responses_def)

definition to_host :: "event \<Rightarrow> bool" where
  "to_host e \<longleftrightarrow> host_responses [e] \<noteq> []"

lemma to_host_simps [simp]:
  "to_host (Put ch v) \<longleftrightarrow> ch = STS_HOST" "to_host (CPut ch v) \<longleftrightarrow> ch = STS_HOST"
  "\<not> to_host (Got ch v)" "\<not> to_host (Wr a v)"
  by (simp_all add: to_host_def)

subsection \<open>Relations that the primitives respect\<close>

text \<open>The codes the firmware jumps with; 0 is not among them.\<close>

definition jump_code :: "u32 \<Rightarrow> bool" where
  "jump_code c \<longleftrightarrow> c \<in> {DMA_MISMATCH_ERROR, DMA_INTERNAL_ERROR, DMA_DECODE_ERROR, DMA_SLAVE_ERROR,
     DMA_NOT_OKAY_ERROR, DMA_NOT_END_OF_PACKET_ERROR, DMA_NOT_EXPECTED_BTT_ERROR, DMA_TIMEOUT_ERROR,
     CONFIG_SWITCH_ERROR, DEQUEUE_BUFFER_TIMEOUT_ERROR, DEQUEUE_BUFFER_SPARE_BUFFER_STATUS_ERROR,
     RECEIVE_TIMEOUT_ERROR, DEQUEUE_BUFFER_SPARE_BUFFER_DMATAG_MISMATCH,
     DEQUEUE_BUFFER_SPARE_BUFFER_INDEX_ERROR, ARITH_ERROR, PACK_TIMEOUT_STS_ERROR, PACK_SEQ_NUMBER_ERROR}"

fun jumps_ok :: "'a outcome \<Rightarrow> bool" where
  "jumps_ok (Longjmp c) = jump_code c"
| "jumps_ok _ = True"

definition kept :: "(fw_state \<Rightarrow> fw_state \<Rightarrow> bool) \<Rightarrow> 'a fw \<Rightarrow> bool" where
  "kept R m \<longleftrightarrow> (\<forall>s r s'. m s = Some (r, s') \<longrightarrow> R s s' \<and> jumps_ok r)"

named_theorems kept_intros "functions that respect the relation"

lemma jump_codes [kept_intros]:
  "jump_code 1" "jump_code 2" "jump_code 3" "jump_code 4" "jump_code 5" "jump_code 6" "jump_code 7"
  "jump_code 8" "jump_code 9" "jump_code 10" "jump_code 11" "jump_code 12" "jump_code 13"
  "jump_code 14" "jump_code 20" "jump_code 21" "jump_code 22"
  by (simp_all add: jump_code_def)

lemma keptD: "kept R m \<Longrightarrow> m s = Some (r, s') \<Longrightarrow> R s s' \<and> jumps_ok r"
  by (simp add: kept_def)

lemma keptI: "(\<And>s r s'. m s = Some (r, s') \<Longrightarrow> R s s' \<and> jumps_ok r) \<Longrightarrow> kept R m"
  by (simp add: kept_def)

text \<open>The registers by which the streams are routed and the arithmetic unit is started.\<close>

definition on_control :: "u32 \<Rightarrow> bool" where
  "on_control a \<longleftrightarrow> a \<in> {ARITH_BASEADDR, ARITH_BASEADDR + 0x10, ARITH_BASEADDR + 0x18} \<or>
     MAIN_SWITCH_BASEADDR \<le> a \<and> a < MAIN_SWITCH_BASEADDR + 0x10000 \<or> ARITH_SWITCH_BASEADDR \<le> a \<and> a < ARITH_SWITCH_BASEADDR + 0x10000"

declare TrueI [kept_intros]

locale effects_but =
  fixes R :: "fw_state \<Rightarrow> fw_state \<Rightarrow> bool" and free :: "u32 \<Rightarrow> bool"
  assumes free_other: "\<not> on_control a \<Longrightarrow> free a"
    and R_refl: "R s s"
    and R_trans: "R s t \<Longrightarrow> R t u \<Longrightarrow> R s u"
    and R_mem: "R s (s\<lparr>mem := m\<rparr>)"
    and R_reg: "R s (s\<lparr>reg_script := g\<rparr>)"
    and R_stream: "R s (s\<lparr>stream_in := si\<rparr>)"
    and R_trace: "\<lbrakk> \<not> to_host e; \<And>a v. e = Wr a v \<Longrightarrow> free a \<rbrakk> \<Longrightarrow> R s (s\<lparr>trace := trace s @ [e]\<rparr>)"
    and R_irqs: "R s (s\<lparr>irqs := q\<rparr>)"
    and R_ie: "R s (s\<lparr>ie := b\<rparr>)"
    and R_tag: "R s (s\<lparr>dma_tag := t'\<rparr>)"
    and R_num: "R s (s\<lparr>num_rx_enqueued := n\<rparr>)"
    and R_lookup: "R s (s\<lparr>dma_tag_lookup := l\<rparr>)"
begin

lemma kept_bnd [kept_intros]:
  assumes "kept R m" and "\<And>a. kept R (f a)"
  shows "kept R (bnd m f)"
proof (rule keptI)
  fix s r s' assume "bnd m f s = Some (r, s')"
  then show "R s s' \<and> jumps_ok r"
  proof (cases rule: bnd_SomeE)
    case (ret a t)
    with assms show ?thesis by (blast dest: keptD intro: R_trans)
  next
    case (jmp c)
    with keptD [OF assms(1) jmp(1)] show ?thesis by simp
  next
    case undef
    with keptD [OF assms(1) undef(1)] show ?thesis by simp
  qed
qed

lemma kept_ret [kept_intros]: "kept R (ret a)"
  by (rule keptI) (simp add: prim_run R_refl)

lemma kept_longjmp [kept_intros]: "jump_code c \<Longrightarrow> kept R (longjmp c)"
  by (rule keptI) (auto simp: prim_run R_refl)

lemma kept_undef [kept_intros]: "kept R undef"
  by (rule keptI) (simp add: prim_run R_refl)

lemma kept_getf [kept_intros]: "kept R (getf h)"
  by (rule keptI) (simp add: prim_run R_refl)

lemma kept_if [kept_intros]: "(b \<Longrightarrow> kept R m) \<Longrightarrow> (\<not> b \<Longrightarrow> kept R m') \<Longrightarrow> kept R (if b then m else m')"
  by simp

lemma kept_whenM [kept_intros]: "(b \<Longrightarrow> kept R m) \<Longrightarrow> kept R (whenM b m)"
  by (simp add: whenM_def kept_ret)

lemma kept_blk_Nil [kept_intros]: "kept R (blk [])"
  by (simp add: kept_ret)

lemma kept_blk_Cons [kept_intros]: "kept R m \<Longrightarrow> kept R (blk ms) \<Longrightarrow> kept R (blk (m # ms))"
  by (simp add: kept_bnd)

lemma kept_loop [kept_intros]:
  assumes "\<And>x. kept R (body x)"
  shows "kept R (loop body x)"
proof (rule keptI)
  fix s r t assume "loop body x s = Some (r, t)"
  then show "R s t \<and> jumps_ok r"
  proof (rule loop_any [where I = "\<lambda>_ u. R s u" and Q = "\<lambda>r t. R s t \<and> jumps_ok r"])
    show "R s s" by (rule R_refl)
    fix x u z v assume "R s u" and "body x u = Some (z, v)"
    then have "R s v \<and> jumps_ok z" using assms by (blast dest: keptD intro: R_trans)
    then show "case z of Ret (Inl y) \<Rightarrow> R s v | Ret (Inr w) \<Rightarrow> R s v \<and> jumps_ok (Ret w)
       | Longjmp c \<Rightarrow> R s v \<and> jumps_ok (Longjmp c) | Undef \<Rightarrow> R s v \<and> jumps_ok Undef"
      by (auto split: outcome.split sum.split)
  qed
qed

lemma kept_out [kept_intros]:
  assumes "free a"
  shows "kept R (xil_out32 a v)"
proof (rule keptI)
  fix s r s' assume "xil_out32 a v s = Some (r, s')"
  then have "s' = s\<lparr>mem := (mem s)(a := v)\<rparr>\<lparr>trace := trace (s\<lparr>mem := (mem s)(a := v)\<rparr>) @ [Wr a v]\<rparr>"
    and "r = Ret ()"
    by (simp_all add: xil_out32_run)
  moreover have "R t (t\<lparr>trace := trace t @ [Wr a v]\<rparr>)" for t by (rule R_trace) (use assms in auto)
  from this [of "s\<lparr>mem := (mem s)(a := v)\<rparr>"] have "R s (s\<lparr>mem := (mem s)(a := v), trace := trace s @ [Wr a v]\<rparr>)"
    using R_trans [OF R_mem] by simp
  ultimately show "R s s' \<and> jumps_ok r" by simp
qed

lemma kept_in [kept_intros]: "kept R (xil_in32 a)"
  by (rule keptI) (auto simp: xil_in32_def R_refl R_reg split: if_splits list.splits)

lemma kept_putd [kept_intros]: "ch \<noteq> STS_HOST \<Longrightarrow> kept R (putd ch v)"
  by (rule keptI) (auto simp: putd_run intro!: R_trace)

lemma kept_cputd [kept_intros]: "ch \<noteq> STS_HOST \<Longrightarrow> kept R (cputd ch v)"
  by (rule keptI) (auto simp: putd_run intro!: R_trace)

lemma kept_tngetd [kept_intros]: "kept R (tngetd ch)"
  by (rule keptI) (auto simp: tngetd_def R_refl R_stream split: list.splits prod.splits nat.splits)

lemma kept_getd [kept_intros]: "kept R (getd ch)"
proof (rule keptI)
  fix s r s' assume "getd ch s = Some (r, s')"
  then obtain v ws where "s' = (s\<lparr>stream_in := (stream_in s)(ch := ws)\<rparr>)\<lparr>trace :=
      trace (s\<lparr>stream_in := (stream_in s)(ch := ws)\<rparr>) @ [Got ch v]\<rparr>" and "r = Ret v"
    by (auto simp: getd_def split: list.splits prod.splits)
  then show "R s s' \<and> jumps_ok r" using R_trans [OF R_stream R_trace, of "Got ch v"] by simp
qed

lemma kept_modf_fields [kept_intros]:
  "kept R (modf (\<lambda>s. s\<lparr>irqs := q\<rparr>))" "kept R (modf (\<lambda>s. s\<lparr>ie := b\<rparr>))"
  "kept R (modf (\<lambda>s. s\<lparr>dma_tag := t s\<rparr>))" "kept R (modf (\<lambda>s. s\<lparr>num_rx_enqueued := n s\<rparr>))"
  "kept R (modf (\<lambda>s. s\<lparr>dma_tag_lookup := l s\<rparr>))" "kept R (modf (\<lambda>s. s\<lparr>mem := m s\<rparr>))"
  "kept R (modf (\<lambda>s. s\<lparr>num_rx_enqueued := n s, dma_tag := t s\<rparr>))"
  using R_trans [OF R_num R_tag]
  by (auto simp: kept_def prim_run R_irqs R_ie R_tag R_num R_lookup R_mem)

lemma kept_load [kept_intros]: "kept R (load a)"
  by (simp add: load_def kept_getf)

lemma kept_store [kept_intros]: "kept R (store a v)"
  unfolding store_def by (rule kept_modf_fields)

lemma kept_c_mod [kept_intros]: "kept R (c_mod a b)"
  by (simp add: c_mod_def kept_ret kept_undef)

lemma kept_c_div [kept_intros]: "kept R (c_div a b)"
  by (simp add: c_div_def kept_ret kept_undef)

lemma kept_prod [kept_intros]: "(\<And>a b. x = (a, b) \<Longrightarrow> kept R (f a b)) \<Longrightarrow> kept R (case x of (a, b) \<Rightarrow> f a b)"
  by (cases x) simp

lemma kept_option [kept_intros]:
  "kept R m \<Longrightarrow> (\<And>a. kept R (f a)) \<Longrightarrow> kept R (case x of None \<Rightarrow> m | Some a \<Rightarrow> f a)"
  by (cases x) simp_all

lemma kept_list [kept_intros]:
  "kept R m \<Longrightarrow> (\<And>a as. kept R (f a as)) \<Longrightarrow> kept R (case x of [] \<Rightarrow> m | a # as \<Rightarrow> f a as)"
  by (cases x) simp_all

lemma kept_set_bits [kept_intros]: "free a \<Longrightarrow> kept R (set_bits a m)"
  unfolding set_bits_def by (intro kept_intros)

lemma kept_clr_bits [kept_intros]: "free a \<Longrightarrow> kept R (clr_bits a m)"
  unfolding clr_bits_def by (intro kept_intros)

subsection \<open>Peripherals\<close>

lemma kept_periph [kept_intros]:
  "kept R enable_irq" "kept R disable_irq" "kept R (set_irq v)" "kept R (ack_irq v)" "kept R get_irq"
  "kept R (start_timeout v)" "kept R cancel_timeout" "kept R clear_timer_interrupt" "kept R start_timer1"
  "kept R read_timer1" "kept R wait_arith"
  unfolding enable_irq_def disable_irq_def set_irq_def ack_irq_def get_irq_def start_timeout_def
    cancel_timeout_def clear_timer_interrupt_def start_timer1_def read_timer1_def
    wait_arith_def wait_arith_step_def arith_is_idle_def Let_def
  by (intro kept_intros free_other; simp add: on_control_def)+

lemma kept_setup_irq [kept_intros]: "kept R (setup_irq v)"
  unfolding setup_irq_def by (intro kept_intros)

subsection \<open>Transfers\<close>

lemma kept_dma_cmd [kept_intros]:
  "ch \<noteq> STS_HOST \<Longrightarrow> kept R (dma_cmd_addrh_addrl ch b h l t)"
  "ch \<noteq> STS_HOST \<Longrightarrow> kept R (dma_cmd ch b a t)"
  "ch \<noteq> STS_HOST \<Longrightarrow> kept R (dma_cmd_without_EOF ch b a t)"
  unfolding dma_cmd_def dma_cmd_without_EOF_def dma_cmd_addrh_addrl_def Let_def
  by (intro kept_intros, assumption+)+

lemma kept_check_status [kept_intros]: "kept R (check_DMA_status a b c d)"
  unfolding check_DMA_status_def by (intro kept_intros)

lemma kept_start_one [kept_intros]: "(\<And>t. kept R (cmd t)) \<Longrightarrow> kept R (start_one used cmd tag)"
  unfolding start_one_def Let_def by (intro kept_intros) simp

lemma kept_start_dma [kept_intros]: "kept R (start_dma a b c d e f g)"
  unfolding start_dma_def by (intro kept_intros) simp_all

lemma kept_ack_dma [kept_intros]: "kept R (ack_dma a b)"
  unfolding ack_dma_def ack_dma_poll_def ack_one_def probe_def
  by (intro kept_intros)

lemma kept_dma_movement_single [kept_intros]: "kept R (dma_movement_single a b c d e f)"
  unfolding dma_movement_single_def by (intro kept_intros)

lemma kept_rank [kept_intros]: "kept R (rank_get w k f)" "kept R (rank_set w k f v)"
  unfolding rank_get_def rank_set_def by (intro kept_intros)+

lemma kept_find_comm [kept_intros]: "kept R (find_comm a)"
  unfolding find_comm_def by (intro kept_intros)

lemma kept_packetizer_step [kept_intros]: "net \<noteq> STS_HOST \<Longrightarrow> kept R (packetizer_step net dst tag src x)"
  unfolding packetizer_step_def Let_def by (intro kept_intros)

lemma kept_start_message [kept_intros]: "kept R (start_packetizer_message w a b c d)"
  unfolding start_packetizer_message_def Let_def by (intro kept_intros) (simp split: if_splits)

lemma kept_ack_packetizer [kept_intros]: "kept R (ack_packetizer w a b)"
  unfolding ack_packetizer_def ack_packetizer_step_def packetizer_poll_def by (intro kept_intros)

lemma kept_connections [kept_intros]: "kept R (openCon a)" "kept R (openPort a)" "kept R (init_connection a)"
  unfolding init_connection_def openCon_def openPort_def openCon_request_def openCon_response_def
    openCon_store_def
  by (intro kept_intros; simp)+

lemma kept_pipelined [kept_intros]:
  assumes "\<And>c l. kept R (issue1 c l)" and "\<And>c l. kept R (issue2 c l)" and "\<And>c l. kept R (ack c l)"
  shows "kept R (pipelined issue1 issue2 ack len l)"
  unfolding pipelined_def fill_step_def steady_step_def drain_step_def Let_def
  by (intro kept_intros assms)

lemma kept_dma_movement [kept_intros]: "kept R (dma_movement a b c d e f)"
  unfolding dma_movement_def move_issue_def move_ack_def by (intro kept_intros)

lemma kept_dma_movement_and_packetizer [kept_intros]: "kept R (dma_movement_and_packetizer w a b c d e f g h)"
  unfolding dma_movement_and_packetizer_def move_issue_def pkt_issue_def pkt_ack_def
  by (intro kept_intros)

subsection \<open>Receive buffers and interrupts\<close>

lemma kept_buf [kept_intros]:
  "kept R (buf_get i f)" "kept R (buf_set i f v)" "kept R (lookup_get t)" "kept R (lookup_set t v)"
  unfolding buf_get_def buf_set_def lookup_get_def lookup_set_def by (intro kept_intros; simp)+

lemma kept_enqueue_one [kept_intros]: "q \<noteq> STS_HOST \<Longrightarrow> kept R (enqueue_one q i t)"
  unfolding enqueue_one_def by (intro kept_intros) simp_all

lemma kept_enqueue [kept_intros]: "kept R enqueue_rx_buffers"
  unfolding enqueue_rx_buffers_def enqueue_step_def find_tag_step_def
  by (intro kept_intros) (simp split: if_splits)

lemma kept_dequeue [kept_intros]: "kept R dequeue_rx_buffers"
  unfolding dequeue_rx_buffers_def dequeue_step_def dequeue_one_def dequeue_record_def Let_def
  by (intro kept_intros)

lemma kept_isr [kept_intros]: "kept R stream_isr"
  unfolding stream_isr_def Let_def by (intro kept_intros free_other) (simp_all add: on_control_def)

lemma kept_window [kept_intros]:
  "kept R interrupt_window" "kept R microblaze_enable_interrupts" "kept R microblaze_disable_interrupts"
  unfolding microblaze_enable_interrupts_def microblaze_disable_interrupts_def interrupt_window_def
  by (intro kept_intros; simp)+

lemma kept_wait_receive [kept_intros]: "kept R (wait_receive_world_i w a b c)"
  unfolding wait_receive_world_i_def wait_receive_step_def t_wait_receive_world_i_def t_wait_receive_step_def
    rx_match_def
  by (intro kept_intros)

lemma kept_ring [kept_intros]:
  "kept R (rx_locals0 a b)" "kept R (ring_put i l)" "kept R (ring_take l)"
  unfolding rx_locals0_def ring_put_def ring_take_def ring_next_def by (intro kept_intros)+

lemma kept_rx_segment [kept_intros]: "kept R (rx_segment w a b c l)" "kept R (rx_release l)"
  unfolding rx_segment_def rx_release_def by (intro kept_intros)+

lemma kept_rx_steps [kept_intros]:
  "kept R (receive_issue w a b c l)" "kept R (accumulate_issue w a b c l)" "kept R (reduce_issue x w a b c d l)"
  "kept R (relay_issue x w a b c d l)" "kept R (receive_ack e c l)" "kept R (forward_ack w a e c l)"
  unfolding receive_issue_def accumulate_issue_def reduce_issue_def relay_issue_def receive_ack_def forward_ack_def rx_header_def
  by (intro kept_intros)+

lemma kept_each_other [kept_intros]: "(\<And>i. kept R (body i)) \<Longrightarrow> kept R (each_other w body)"
  unfolding each_other_def other_step_def by (intro kept_intros)

lemma kept_ring_ops [kept_intros]: "kept R (next_in_ring w)" "kept R (prev_in_ring w)" "kept R (ring_before w k)"
  unfolding next_in_ring_def prev_in_ring_def ring_before_def by (intro kept_intros)+

lemma kept_wait_for_call [kept_intros]: "kept R wait_for_call"
  unfolding wait_for_call_def wait_for_call_step_def by (intro kept_intros)

lemma kept_read_call [kept_intros]: "kept R read_call"
  unfolding read_call_def by (intro kept_intros)

end

subsection \<open>Collectives and calls\<close>

locale effects = effects_but R "\<lambda>_. True" for R
begin

lemma kept_control [kept_intros]:
  "kept R (start_arith a b c)" "kept R (set_switch_datapath a b c)" "kept R (disable_switch_datapath a b)"
  "kept R (apply_switch_config a)" "kept R (start_packetizer a b)" "kept R (start_depacketizer a)"
  unfolding start_arith_def set_switch_datapath_def disable_switch_datapath_def apply_switch_config_def
    apply_switch_step_def start_packetizer_def start_depacketizer_def Let_def
  by (intro kept_intros)+

lemma kept_cfg_arith [kept_intros]: "kept R (cfg_arith_switch a)"
  unfolding cfg_arith_switch_def Let_def by (intro kept_intros)

lemma kept_cfg_switch [kept_intros]: "kept R (cfg_switch sc a)"
proof -
  have "kept R w" if "cfg_main_switch sc = Some w" for w
    using that unfolding cfg_main_switch_def Let_def
    by (auto split: if_splits simp del: blk.simps intro!: kept_intros)
  then show ?thesis
    unfolding cfg_switch_def by (auto split: option.split simp del: blk.simps intro!: kept_intros)
qed

lemma kept_receive [kept_intros]:
  "kept R (receive_offchip_world w a b c d)" "kept R (receive_and_accumulate w a b e c f d)"
  "kept R (receive_and_reduce_offchip w a g b e c d)" "kept R (relay_to_other_rank w a g b d)"
  unfolding receive_offchip_world_def receive_and_accumulate_def receive_and_reduce_offchip_def relay_to_other_rank_def
  by (intro kept_intros)+

lemma kept_primitives [kept_intros]:
  "kept R (copy a b c)" "kept R (accumulate a d b c e)" "kept R (transmit_offchip_world w f a b d)"
  "kept R (send g a d f b)" "kept R (recv g a d f b)" "kept R (ext_kernel_stream a b c)"
  "kept R (reduce_ext a b c e)"
  unfolding copy_def dma_loopback_def accumulate_def reduce_loopback_def send_def transmit_offchip_def
    transmit_offchip_world_def recv_def ext_kernel_stream_def reduce_ext_def
  by (intro kept_intros)+

lemma kept_rooted [kept_intros]:
  "kept R (broadcast_round_robin a b c d)" "kept R (scatter_rr a b c d e)"
  unfolding broadcast_round_robin_def broadcast_step_def scatter_rr_def scatter_step_def
    scatter_send_step_def send_segment_def cfg_tx_def Let_def
  by (intro kept_intros)+

lemma kept_scatter_reduce [kept_intros]: "kept R (scatter_reduce a b c d e)"
  unfolding scatter_reduce_def scatter_reduce_step_def by (intro kept_intros)

lemma kept_rings [kept_intros]:
  "kept R (gather_ring a b c d e)" "kept R (allgather_ring a b d e)"
  "kept R (reduce_ring_streaming a b f c d e)" "kept R (all_reduce_share a b f d e)"
  unfolding gather_ring_def gather_root_step_def gather_relay_step_def allgather_ring_def
    allgather_step_def reduce_ring_streaming_def all_reduce_share_def all_reduce_step_def chunk_len_def Let_def
  by (intro kept_intros)+

lemma kept_reset [kept_intros]: "kept R (encore_soft_reset g)"
  unfolding encore_soft_reset_def clear_exchmem_def clear_step_def clear_lookup_def check_hwid_def
  by (intro kept_intros)

end

end
