(* ===== verification/Fw_Service.thy ===== *)
theory Fw_Service
  imports Fw_Effects Fw_Primitives
begin

text \<open>
  What the host can rely on: one response per call and its value, the bounds on the two transfer
  settings, who may change a setting, and that start-up and soft reset leave the receive buffers
  consistent.
\<close>

subsection \<open>The relations\<close>

definition silent :: "fw_state \<Rightarrow> fw_state \<Rightarrow> bool" where
  "silent s s' \<longleftrightarrow> (\<exists>es. trace s' = trace s @ es \<and> host_responses es = [])"

definition limits :: "fw_state \<Rightarrow> bool" where
  "limits s \<longleftrightarrow> dma_transaction_size s \<le> DMA_MAX_BTT \<and> max_dma_in_flight s \<le> DMA_MAX_TRANSACTIONS \<and> use_tcp s \<le> 1"

definition limits_kept :: "fw_state \<Rightarrow> fw_state \<Rightarrow> bool" where
  "limits_kept s s' \<longleftrightarrow> (limits s \<longrightarrow> limits s')"

definition config_same :: "fw_state \<Rightarrow> fw_state \<Rightarrow> bool" where
  "config_same s s' \<longleftrightarrow> use_tcp s' = use_tcp s \<and> timeout s' = timeout s \<and>
     dma_transaction_size s' = dma_transaction_size s \<and> max_dma_in_flight s' = max_dma_in_flight s"

lemma silentI: "trace s' = trace s @ es \<Longrightarrow> host_responses es = [] \<Longrightarrow> silent s s'"
  unfolding silent_def by blast

lemma silent_refl: "trace s' = trace s \<Longrightarrow> silent s s'"
  by (rule silentI [of _ _ "[]"]) simp_all

interpretation host: effects silent
proof
  fix s t u assume "silent s t" and "silent t u"
  then show "silent s u" unfolding silent_def by fastforce
next
  fix e s assume "\<not> to_host e"
  then show "silent s (s\<lparr>trace := trace s @ [e]\<rparr>)" by (intro silentI [of _ _ "[e]"]) (simp_all add: to_host_def)
qed (simp_all add: silent_refl)

interpretation lim: effects limits_kept
  by unfold_locales (simp_all add: limits_kept_def limits_def)

interpretation cfg: effects config_same
  by unfold_locales (simp_all add: config_same_def)

subsection \<open>Calls\<close>

lemma kept_modf_silent: "(\<And>s. trace (k s) = trace s) \<Longrightarrow> kept silent (modf k)"
  by (rule keptI) (auto simp: prim_run silent_refl)

lemma silent_do_config: "kept silent (do_config g c)"
  unfolding do_config_def Let_def
  by (intro kept_intros kept_modf_silent) simp_all

lemma limits_do_config: "kept limits_kept (do_config g c)"
proof -
  have "kept limits_kept (modf k)" if "\<And>s. limits s \<Longrightarrow> limits (k s)" for k
    by (rule keptI) (use that in \<open>auto simp: prim_run limits_kept_def\<close>)
  then show ?thesis
    unfolding do_config_def Let_def
    by (intro kept_intros) (simp_all add: limits_def)
qed

lemma silent_do_call: "kept silent (do_call g c)"
  unfolding do_call_def Let_def by (intro kept_intros silent_do_config)

lemma limits_do_call: "kept limits_kept (do_call g c)"
  unfolding do_call_def Let_def by (intro kept_intros limits_do_config)

lemma config_do_call: "c_scenario c \<noteq> XCCL_CONFIG \<Longrightarrow> kept config_same (do_call g c)"
  unfolding do_call_def Let_def by (intro kept_intros) simp

definition responded :: "u32 \<Rightarrow> fw_state \<Rightarrow> fw_state \<Rightarrow> bool" where
  "responded v s s' \<longleftrightarrow> mem s' RETVAL_OFFSET = v \<and>
     (\<exists>es. trace s' = trace s @ es \<and> host_responses es = [v])"

lemma finalize_call_run:
  "finalize_call v s = Some (Ret (), s\<lparr>mem := (mem s)(RETVAL_OFFSET := v),
     trace := trace s @ [Wr RETVAL_OFFSET v, Put STS_HOST v]\<rparr>)"
  by (simp add: finalize_call_def prim_run)

lemma finalize_responds:
  assumes "silent s t" and "finalize_call v t = Some (r, s')"
  shows "r = Ret () \<and> responded v s s'"
proof -
  obtain es where "trace t = trace s @ es" and "host_responses es = []"
    using assms(1) by (auto simp: silent_def)
  moreover have "s' = t\<lparr>mem := (mem t)(RETVAL_OFFSET := v), trace := trace t @ [Wr RETVAL_OFFSET v, Put STS_HOST v]\<rparr>"
    and "r = Ret ()" using assms(2) by (simp_all add: finalize_call_run)
  ultimately show ?thesis
    by (auto simp: responded_def intro!: exI [of _ "es @ [Wr RETVAL_OFFSET v, Put STS_HOST v]"])
qed

text \<open>The part of a turn before the response.\<close>

definition turn :: "u32 \<Rightarrow> u32 fw" where
  "turn g = bnd wait_for_call (\<lambda>_. bnd read_call (do_call g))"

lemma main_body_turn: "main_body g = bnd (turn g) finalize_call"
  by (simp add: main_body_def turn_def bnd_assoc)

lemma silent_turn: "kept silent (turn g)"
  unfolding turn_def by (intro kept_intros silent_do_call)

lemma serve_call_outcomes:
  assumes "serve_call g s = Some (r, s')"
  shows "(\<exists>v t. turn g s = Some (Ret v, t) \<and> r = Ret () \<and> responded v s s') \<or>
    (\<exists>c t. turn g s = Some (Longjmp c, t) \<and> jump_code c \<and> r = Ret () \<and> responded c s s') \<or>
    turn g s = Some (Undef, s') \<and> r = Undef"
proof -
  obtain q t where run: "turn g s = Some (q, t)"
    using assms by (cases "turn g s") (auto simp: serve_call_def setjmp_def main_body_turn bnd_def)
  with keptD [OF silent_turn] have st: "silent s t" and q: "jumps_ok q" by auto
  show ?thesis
  proof (cases q)
    case (Ret v)
    with run assms have "finalize_call v t = Some (r, s')"
      by (auto simp: serve_call_def setjmp_def main_body_turn bnd_def finalize_call_run
          split: option.splits outcome.splits)
    from finalize_responds [OF st this] show ?thesis using run Ret by auto
  next
    case (Longjmp c)
    with q have c: "jump_code c" "c \<noteq> 0" by (auto simp: jump_code_def)
    with run Longjmp assms have "finalize_call c t = Some (r, s')"
      by (simp add: serve_call_def setjmp_def main_body_turn bnd_def)
    from finalize_responds [OF st this] show ?thesis using run Longjmp c by auto
  next
    case Undef
    with run assms show ?thesis by (simp add: serve_call_def setjmp_def main_body_turn bnd_def)
  qed
qed

lemma kept_setjmp:
  assumes "kept R m" and "\<And>c. kept R (h c)" and "\<And>s t u. R s t \<Longrightarrow> R t u \<Longrightarrow> R s u"
  shows "kept R (setjmp h m)"
proof (rule keptI)
  fix s r s' assume run: "setjmp h m s = Some (r, s')"
  then obtain q t where m: "m s = Some (q, t)" by (cases "m s") (auto simp: setjmp_def)
  from keptD [OF assms(1) m] have st: "R s t" "jumps_ok q" by auto
  show "R s s' \<and> jumps_ok r"
  proof (cases q)
    case (Longjmp c)
    then have "h (if c = 0 then 1 else c) t = Some (r, s')" using run m by (simp add: setjmp_def)
    from keptD [OF assms(2) this] show ?thesis using st assms(3) by blast
  qed (use run m st in \<open>auto simp: setjmp_def\<close>)
qed

lemma limits_serve_call: "kept limits_kept (serve_call g)"
proof -
  have f: "kept limits_kept (finalize_call c)" for c
    by (rule keptI) (auto simp: finalize_call_run limits_kept_def limits_def)
  have "kept limits_kept (main_body g)"
    unfolding main_body_def by (intro kept_intros limits_do_call f)
  then show ?thesis
    unfolding serve_call_def by (rule kept_setjmp [OF _ f]) (simp add: limits_kept_def)
qed

subsection \<open>Start-up and soft reset\<close>

lemma clear_exchmem_ends:
  "ends clear_exchmem s (\<lambda>_ s'. mem s' RX_BUFFER_COUNT_OFFSET = 0 \<and> same_settings s s' \<and>
     dma_tag s' = dma_tag s \<and> stream_in s' = stream_in s \<and>
     (\<forall>k<1024. mem s' (EXCHMEM_BASEADDR + 4 * of_nat k) = 0)) E"
proof -
  let ?I = "\<lambda>off s'. \<exists>n\<le>1024. off = EXCHMEM_BASEADDR + 4 * of_nat n \<and> same_settings s s' \<and>
     dma_tag s' = dma_tag s \<and> stream_in s' = stream_in s \<and>
     (\<forall>k<n. mem s' (EXCHMEM_BASEADDR + 4 * of_nat k) = 0)"
  let ?R = "measure (\<lambda>(off :: u32, s :: fw_state). 0x2000 - unat off)"
  have addr: "unat (EXCHMEM_BASEADDR + 4 * of_nat n :: u32) = 0x1000 + 4 * n" if "n \<le> 1024" for n
  proof -
    have "(EXCHMEM_BASEADDR + 4 * of_nat n :: u32) = of_nat (0x1000 + 4 * n)" by simp
    moreover have "unat (of_nat (0x1000 + 4 * n) :: u32) = 0x1000 + 4 * n"
      by (rule unat_of_nat_le [of _ "0x2000"]) (use that in simp)
    ultimately show ?thesis by simp
  qed
  show ?thesis
    unfolding clear_exchmem_def
  proof (rule loop_ends [where I = ?I and R = ?R])
    show "?I EXCHMEM_BASEADDR s" by (auto intro!: exI [of _ 0])
  next
    fix off t assume "?I off t"
    then obtain n where n: "n \<le> 1024" and off: "off = EXCHMEM_BASEADDR + 4 * of_nat n"
      and st: "same_settings s t" "dma_tag t = dma_tag s" "stream_in t = stream_in s"
      and z: "\<forall>k<n. mem t (EXCHMEM_BASEADDR + 4 * of_nat k) = 0" by blast
    have u: "unat off = 0x1000 + 4 * n" unfolding off by (rule addr [OF n])
    show "ends (clear_step off) t (\<lambda>z s'. case z of Inl y \<Rightarrow> ?I y s' \<and> ((y, s'), (off, t)) \<in> ?R
       | Inr v \<Rightarrow> mem s' RX_BUFFER_COUNT_OFFSET = 0 \<and> same_settings s s' \<and>
     dma_tag s' = dma_tag s \<and> stream_in s' = stream_in s \<and>
     (\<forall>k<1024. mem s' (EXCHMEM_BASEADDR + 4 * of_nat k) = 0)) E"
    proof (cases "n < 1024")
      case True
      let ?t = "t\<lparr>mem := (mem t)(off := 0), trace := trace t @ [Wr off 0]\<rparr>"
      have "?I (off + 4) ?t"
        by (rule exI [of _ "Suc n"]) (use True st z off in \<open>auto simp: same_settings_def less_Suc_eq\<close>)
      moreover have "unat (off + 4) = 0x1000 + 4 * Suc n"
        using addr [of "Suc n"] True off by (simp add: algebra_simps)
      moreover have "off < 0x2000" using u True by (simp add: word_less_nat_alt)
      ultimately show ?thesis using u True by (simp add: clear_step_def)
    next
      case False
      with n have n1: "n = 1024" by simp
      then have "\<not> off < 0x2000" using u by (simp add: word_less_nat_alt)
      moreover have "mem t RX_BUFFER_COUNT_OFFSET = 0"
        using z n1 by (auto dest!: spec [of _ 0])
      ultimately show ?thesis using st z n1 by (simp add: clear_step_def)
    qed
  qed simp
qed

lemma ends_bits:
  assumes "\<not> a < 0x2000"
  shows "ends (set_bits a m) s (\<lambda>_ s'. periph_only s s') E" and "ends (clr_bits a m) s (\<lambda>_ s'. periph_only s s') E"
proof -
  have step: "ends (bnd (xil_in32 a) (\<lambda>v. xil_out32 a (f v))) s (\<lambda>_ s'. periph_only s s') E" for f
  proof (rule ends_bndI [OF ends_weaken [OF xil_in32_ends]])
    fix v t assume "reg_reads s t"
    then have "periph_only s t" by (rule reg_reads_periph)
    then show "ends (xil_out32 a (f v)) t (\<lambda>_ s'. periph_only s s') E"
      by (auto simp: ends_def xil_out32_run intro: periph_only_trans periph_only_write [OF assms])
  qed auto
  show "ends (set_bits a m) s (\<lambda>_ s'. periph_only s s') E" and "ends (clr_bits a m) s (\<lambda>_ s'. periph_only s s') E"
    unfolding set_bits_def clr_bits_def by (rule step)+
qed

text \<open>
  \<open>fresh s tag s'\<close>: no buffers, no tags in use, and the settings of \<open>s\<close>.
\<close>

definition fresh :: "fw_state \<Rightarrow> fw_state \<Rightarrow> bool" where
  "fresh s s' \<longleftrightarrow> mem s' RX_BUFFER_COUNT_OFFSET = 0 \<and> dma_tag s' = 0 \<and> num_rx_enqueued s' = 0 \<and>
     dma_tag_lookup s' = replicate 16 (- 1) \<and> ie s' = ie s \<and> irqs s' = irqs s \<and> config_same s s' \<and>
     stream_in s' = stream_in s"

lemma fresh_rx_inv: "fresh s s' \<Longrightarrow> rx_inv s'"
  by (simp add: fresh_def rx_inv_def nbufs_def tag_ok_def buf_ok_def used_tags_def Let_def sum_list_replicate)

lemma fresh_periph: "fresh s t \<Longrightarrow> periph_only t u \<Longrightarrow> fresh s u"
  by (simp add: fresh_def periph_only_fields config_same_def)

lemma fresh_bits:
  assumes "fresh s t" and "\<not> a < 0x2000"
  shows "ends (set_bits a m) t (\<lambda>_ s'. fresh s s') E"
  by (rule ends_weaken [OF ends_bits(1) [OF assms(2)]]) (auto intro: fresh_periph [OF assms(1)])

lemma check_hwid_ends:
  "ends (check_hwid g) s (\<lambda>_ s'. \<exists>t. reg_reads s t \<and>
      (\<exists>v. s' = t\<lparr>mem := (mem t)(HWID_OFFSET := v), trace := trace t @ [Wr HWID_OFFSET v]\<rparr>)) E"
  unfolding check_hwid_def
  by (rule ends_bndI [OF ends_weaken [OF xil_in32_ends]]) (auto simp: ends_def xil_out32_run)

lemma fresh_hwid:
  assumes "fresh s t"
  shows "ends (check_hwid g) t (\<lambda>_ s'. fresh s s') E"
proof (rule ends_weaken [OF check_hwid_ends])
  fix a u assume "\<exists>v. reg_reads t v \<and>
      (\<exists>w. u = v\<lparr>mem := (mem v)(HWID_OFFSET := w), trace := trace v @ [Wr HWID_OFFSET w]\<rparr>)"
  then obtain v w where "reg_reads t v"
    and u: "u = v\<lparr>mem := (mem v)(HWID_OFFSET := w), trace := trace v @ [Wr HWID_OFFSET w]\<rparr>" by blast
  then have "fresh s v" using fresh_periph [OF assms] reg_reads_periph by blast
  then show "fresh s u" by (simp add: u fresh_def config_same_def)
qed

lemma encore_soft_reset_ends:
  assumes "\<not> gpio < 0x2000"
  shows "ends (encore_soft_reset gpio) s (\<lambda>_ s'. fresh (s\<lparr>ie := False\<rparr>) s') E"
proof -
  let ?s = "s\<lparr>ie := False\<rparr>"
  have tail: "ends (bnd (modf (\<lambda>s. s\<lparr>num_rx_enqueued := 0, dma_tag := 0\<rparr>)) (\<lambda>_.
      bnd clear_lookup (\<lambda>_. bnd (check_hwid gpio) (\<lambda>_. set_bits gpio GPIO_SWRST_MASK)))) t (\<lambda>_ s'. fresh ?s s') E"
    if t: "mem t RX_BUFFER_COUNT_OFFSET = 0" "same_settings ?s t" "stream_in t = stream_in s" for t
  proof -
    let ?t = "t\<lparr>num_rx_enqueued := 0, dma_tag := 0, dma_tag_lookup := replicate 16 (- 1)\<rparr>"
    have "fresh ?s ?t" using t by (simp add: fresh_def same_settings_def config_same_def)
    from ends_bndI [OF fresh_hwid [OF this] fresh_bits [OF _ assms]] show ?thesis
      by (simp add: clear_lookup_def)
  qed
  have clr: "ends (bnd (clr_bits gpio GPIO_SWRST_MASK) (\<lambda>_. bnd clear_exchmem (\<lambda>_.
      bnd (modf (\<lambda>s. s\<lparr>num_rx_enqueued := 0, dma_tag := 0\<rparr>)) (\<lambda>_.
      bnd clear_lookup (\<lambda>_. bnd (check_hwid gpio) (\<lambda>_. set_bits gpio GPIO_SWRST_MASK)))))) t (\<lambda>_ s'. fresh ?s s') E"
    if t: "same_settings ?s t" "stream_in t = stream_in s" for t
  proof (rule ends_bndI [OF ends_bits(2) [OF assms]])
    fix x u assume u: "periph_only t u"
    have su: "same_settings ?s u" "stream_in u = stream_in s"
      using t u by (simp_all add: same_settings_def periph_only_fields)
    show "ends (bnd clear_exchmem (\<lambda>_. bnd (modf (\<lambda>s. s\<lparr>num_rx_enqueued := 0, dma_tag := 0\<rparr>)) (\<lambda>_.
      bnd clear_lookup (\<lambda>_. bnd (check_hwid gpio) (\<lambda>_. set_bits gpio GPIO_SWRST_MASK))))) u (\<lambda>_ s'. fresh ?s s') E"
      by (rule ends_bndI [OF clear_exchmem_ends], rule tail) (use su in \<open>auto intro: same_settings_trans\<close>)
  qed
  show ?thesis
    using clr by (simp add: encore_soft_reset_def microblaze_disable_interrupts_def setup_irq_def disable_irq_def
        set_irq_def enable_irq_def bnd_ret_right bnd_assoc same_settings_def)
qed

lemma init_ends:
  assumes "\<not> gpio < 0x2000"
  shows "ends (init gpio) (boot_state m g si []) (\<lambda>_ s'. fresh ((boot_state m g si [])\<lparr>ie := True\<rparr>) s') E"
proof -
  let ?s = "(boot_state m g si [])\<lparr>ie := True\<rparr>"
  have tail: "ends (bnd (check_hwid gpio) (\<lambda>_. bnd (modf (\<lambda>s. s\<lparr>dma_tag := 0\<rparr>)) (\<lambda>_.
      bnd clear_lookup (\<lambda>_. bnd (set_bits gpio GPIO_SWRST_MASK) (\<lambda>_. set_bits gpio GPIO_READY_MASK))))) t
      (\<lambda>_ s'. fresh ?s s') E"
    if t: "mem t RX_BUFFER_COUNT_OFFSET = 0" "same_settings ?s t" "stream_in t = si" for t
  proof (rule ends_bndI [OF check_hwid_ends])
    fix a u assume "\<exists>v. reg_reads t v \<and>
      (\<exists>w. u = v\<lparr>mem := (mem v)(HWID_OFFSET := w), trace := trace v @ [Wr HWID_OFFSET w]\<rparr>)"
    then obtain v w r where "v = t\<lparr>reg_script := r\<rparr>"
      and u: "u = v\<lparr>mem := (mem v)(HWID_OFFSET := w), trace := trace v @ [Wr HWID_OFFSET w]\<rparr>"
      by (auto elim!: reg_readsE)
    then have fr: "fresh ?s (u\<lparr>dma_tag := 0, dma_tag_lookup := replicate 16 (- 1)\<rparr>)"
      using t by (simp add: fresh_def same_settings_def config_same_def boot_state_def)
    show "ends (bnd (modf (\<lambda>s. s\<lparr>dma_tag := 0\<rparr>)) (\<lambda>_.
      bnd clear_lookup (\<lambda>_. bnd (set_bits gpio GPIO_SWRST_MASK) (\<lambda>_. set_bits gpio GPIO_READY_MASK)))) u
      (\<lambda>_ s'. fresh ?s s') E"
      using ends_bndI [OF fresh_bits [OF fr assms] fresh_bits [OF _ assms]] by (simp add: clear_lookup_def)
  qed
  have "ends (bnd clear_exchmem (\<lambda>_. bnd (check_hwid gpio) (\<lambda>_. bnd (modf (\<lambda>s. s\<lparr>dma_tag := 0\<rparr>)) (\<lambda>_.
      bnd clear_lookup (\<lambda>_. bnd (set_bits gpio GPIO_SWRST_MASK) (\<lambda>_. set_bits gpio GPIO_READY_MASK)))))) ?s
      (\<lambda>_ s'. fresh ?s s') E"
    by (rule ends_bndI [OF clear_exchmem_ends], rule tail) (auto simp: boot_state_def)
  then show ?thesis
    by (simp add: init_def microblaze_enable_interrupts_def interrupt_window_def bnd_ret_right bnd_assoc boot_state_def)
qed

subsection \<open>Reachable states\<close>

text \<open>
  The states between calls: after start-up and any number of served calls, the host and the hardware being free to
  change memory, streams, registers and pending interrupts in between.
\<close>

inductive service :: "u32 \<Rightarrow> fw_state \<Rightarrow> bool" for gpio where
  started: "init gpio (boot_state m g si q) = Some (Ret (), s) \<Longrightarrow> service gpio s"
| served: "service gpio s \<Longrightarrow> serve_call gpio s = Some (Ret (), s') \<Longrightarrow> service gpio s'"
| outside: "service gpio s \<Longrightarrow> service gpio (s\<lparr>mem := m, stream_in := si, reg_script := g, irqs := q\<rparr>)"

inductive_cases serviceE: "service gpio s"

lemma kept_init: "kept limits_kept (init gpio)"
  unfolding init_def clear_lookup_def check_hwid_def clear_exchmem_def clear_step_def
  by (intro kept_intros)

lemma service_limits: "service gpio s \<Longrightarrow> limits s"
proof (induction rule: service.induct)
  case (started m g si q s)
  have "limits (boot_state m g si q)" by (simp add: limits_def)
  with keptD [OF kept_init started] show ?case by (simp add: limits_kept_def)
next
  case (served s s')
  with keptD [OF limits_serve_call] show ?case by (auto simp: limits_kept_def)
qed (simp add: limits_def)

subsection \<open>Properties\<close>

text \<open>C14: one turn of the service loop answers the host exactly once, whatever the call: with the value the call returned, or,
when any part of it (or an interrupt handler it let in) jumped, with the non-zero code of that jump; the same value is left in
the exchange memory.  The only other end is a computation the C standard leaves undefined.\<close>

theorem serve_call_responds_once:
  assumes "serve_call gpio s = Some (r, s')"
  shows "(\<exists>v t es. turn gpio s = Some (Ret v, t) \<and> r = Ret () \<and> mem s' RETVAL_OFFSET = v \<and>
       trace s' = trace s @ es \<and> host_responses es = [v]) \<or>
     (\<exists>c t es. turn gpio s = Some (Longjmp c, t) \<and> jump_code c \<and> c \<noteq> 0 \<and> r = Ret () \<and> mem s' RETVAL_OFFSET = c \<and>
       trace s' = trace s @ es \<and> host_responses es = [c]) \<or>
     turn gpio s = Some (Undef, s') \<and> r = Undef"
  using serve_call_outcomes [OF assms] by (auto simp: responded_def jump_code_def)

text \<open>A call for an unknown scenario on the host stream.\<close>

definition unknown_call :: fw_state where
  "unknown_call = boot_state (\<lambda>_. 0) (\<lambda>_. []) ((\<lambda>_. [])(CMD_HOST := replicate 15 (0, 99))) []"

lemma unknown_call_turn:
  "\<exists>t. turn gpio unknown_call = Some (Ret 0, t)"
proof -
  have w: "wait_for_call unknown_call = Some (Ret (), unknown_call)"
    unfolding wait_for_call_def
    by (subst loop.simps) (simp add: wait_for_call_step_def interrupt_window_def tngetd_def bnd_def prim_run unknown_call_def numeral_eq_Suc)
  have "\<exists>c t. read_call unknown_call = Some (Ret c, t) \<and> c_scenario c = 99"
    by (simp add: read_call_def bnd_def getd_def unknown_call_def prim_run numeral_eq_Suc)
  then obtain c t where r: "read_call unknown_call = Some (Ret c, t)" and c: "c_scenario c = 99" by blast
  have "do_call gpio c t = Some (Ret 0, t)" by (simp add: do_call_def c prim_run)
  then show ?thesis by (simp add: turn_def bnd_def w r)
qed

theorem serve_call_responds_once_witness:
  "\<exists>s' es. serve_call 0x40000000 unknown_call = Some (Ret (), s') \<and> mem s' RETVAL_OFFSET = 0 \<and>
     trace s' = trace unknown_call @ es \<and> host_responses es = [0]"
proof -
  obtain t where t: "turn 0x40000000 unknown_call = Some (Ret 0, t)" using unknown_call_turn by blast
  then obtain s' where "serve_call 0x40000000 unknown_call = Some (Ret (), s')"
    by (auto simp: serve_call_def setjmp_def main_body_turn bnd_def finalize_call_run)
  from serve_call_responds_once [OF this] this t show ?thesis by auto
qed

text \<open>C22: in every reachable state, whatever the host asked for before, the transaction size is within the byte count field of
the data movers, at most \<open>DMA_MAX_TRANSACTIONS\<close> are in flight, and the stack selector is 0 or 1.\<close>

theorem service_keeps_limits:
  assumes "service gpio s"
  shows "dma_transaction_size s \<le> DMA_MAX_BTT \<and> max_dma_in_flight s \<le> DMA_MAX_TRANSACTIONS \<and> use_tcp s \<le> 1"
  using service_limits [OF assms] by (simp add: limits_def)

lemma service_start: "\<exists>s. service 0x40000000 s"
proof -
  have "ends (init 0x40000000) quiet (\<lambda>_ s'. fresh (quiet\<lparr>ie := True\<rparr>) s') (\<lambda>_ _. False)"
    unfolding quiet_def by (rule init_ends) simp
  then obtain s where "init 0x40000000 quiet = Some (Ret (), s)"
    by (fastforce simp: ends_def elim: sat.elims)
  then show ?thesis unfolding quiet_def by (blast intro: service.started)
qed

theorem service_keeps_limits_witness:
  "\<exists>s. service 0x40000000 s \<and> dma_transaction_size s \<le> DMA_MAX_BTT \<and> max_dma_in_flight s \<le> DMA_MAX_TRANSACTIONS \<and> use_tcp s \<le> 1"
  using service_start service_keeps_limits by blast

text \<open>C24: no call other than a configuration call changes the stack, the time-out or the transfer settings, not even one that
is aborted.\<close>

theorem calls_keep_configuration:
  assumes "c_scenario c \<noteq> XCCL_CONFIG" and "do_call gpio c s = Some (r, s')"
  shows "use_tcp s' = use_tcp s \<and> timeout s' = timeout s \<and>
     dma_transaction_size s' = dma_transaction_size s \<and> max_dma_in_flight s' = max_dma_in_flight s"
  using keptD [OF config_do_call [OF assms(1)] assms(2)] by (simp add: config_same_def)

text \<open>The call \<open>copy\<close> of 4096 bytes.\<close>

definition copy_call :: call where
  "copy_call = \<lparr>c_scenario = XCCL_COPY, c_len = 4096, c_comm = 0, c_root_src_dst = 0, c_func = 0, c_msg_tag = 0,
     c_buf0_type = 0, c_buf1_type = 0, c_buf2_type = 0, c_buf0_addr = 0x10000, c_buf1_addr = 0x20000, c_buf2_addr = 0\<rparr>"

lemma copy_call_runs: "\<exists>r s'. do_call gpio copy_call quiet = Some (r, s')"
proof -
  have "ends (do_call gpio copy_call) quiet (\<lambda>_ _. True) (\<lambda>_ _. True)"
    using ends_weaken [OF routed_transfer_ends [OF ready_quiet, of "USE_DMA1_RX OR USE_DMA1_TX" DATAPATH_DMA_LOOPBACK]]
    by (simp add: do_call_def copy_call_def copy_def dma_loopback_def dmas_ok_def uses_def)
  then show ?thesis by (auto simp: ends_def)
qed

theorem calls_keep_configuration_witness:
  "\<exists>r s'. do_call 0x40000000 copy_call quiet = Some (r, s') \<and> use_tcp s' = use_tcp quiet \<and> timeout s' = timeout quiet \<and>
     dma_transaction_size s' = dma_transaction_size quiet \<and> max_dma_in_flight s' = max_dma_in_flight quiet"
proof -
  obtain r s' where "do_call 0x40000000 copy_call quiet = Some (r, s')" using copy_call_runs by blast
  moreover from calls_keep_configuration [OF _ this]
  have "use_tcp s' = use_tcp quiet \<and> timeout s' = timeout quiet \<and>
     dma_transaction_size s' = dma_transaction_size quiet \<and> max_dma_in_flight s' = max_dma_in_flight quiet"
    by (simp add: copy_call_def)
  ultimately show ?thesis by blast
qed

text \<open>C23: a soft reset from any state, however inconsistent its buffers, leaves no receive buffers, no tag in use and
interrupts disabled, so the receive bookkeeping is consistent again, and keeps the transfer settings.\<close>

theorem encore_soft_reset_recovers:
  assumes "\<not> gpio < 0x2000"
  shows "ends (encore_soft_reset gpio) s
     (\<lambda>_ s'. rx_inv s' \<and> nbufs s' = 0 \<and> dma_tag_lookup s' = replicate 16 (- 1) \<and> \<not> ie s' \<and> config_same s s')
     (\<lambda>_ _. False)"
  by (rule ends_weaken [OF encore_soft_reset_ends [OF assms]])
    (auto simp: fresh_rx_inv, auto simp: fresh_def nbufs_def config_same_def)

theorem encore_soft_reset_recovers_witness:
  "ends (encore_soft_reset 0x40000000) quiet
     (\<lambda>_ s'. rx_inv s' \<and> nbufs s' = 0 \<and> dma_tag_lookup s' = replicate 16 (- 1) \<and> \<not> ie s' \<and> config_same quiet s')
     (\<lambda>_ _. False)"
  by (rule encore_soft_reset_recovers) simp

text \<open>Start-up ends in a consistent state with interrupts enabled, when none is pending before it.\<close>

lemma init_consistent:
  assumes "\<not> gpio < 0x2000"
  shows "ends (init gpio) (boot_state m g si [])
     (\<lambda>_ s'. rx_inv s' \<and> ie s' \<and> dma_tag s' = 0 \<and> limits s')
     (\<lambda>_ _. False)"
  by (rule ends_weaken [OF init_ends [OF assms]])
    (auto simp: fresh_rx_inv, auto simp: fresh_def config_same_def limits_def)

lemma set_size_ends:
  assumes "c_func c = SET_DMA_TRANSACTION_SIZE" and "c_len c \<le> DMA_MAX_BTT"
  shows "ends (do_config gpio c) s (\<lambda>r s'. r = COLLECTIVE_OP_SUCCESS \<and> config_same (s\<lparr>dma_transaction_size := c_len c\<rparr>) s')
     (\<lambda>_ _. False)"
proof -
  have r: "ends (bnd read_timer1 (\<lambda>v x. bnd (xil_out32 TIME_TO_ACCESS_EXCH_MEM v) (\<lambda>_. ret COLLECTIVE_OP_SUCCESS) x)) t Q E"
    if "\<And>s'. config_same t s' \<Longrightarrow> Q COLLECTIVE_OP_SUCCESS s'" for t Q E
    unfolding read_timer1_def
    by (rule ends_bndI [OF ends_weaken [OF xil_in32_ends]])
      (auto simp: ends_def prim_run config_same_def elim!: reg_readsE intro!: that)
  show ?thesis
    using assms by (simp add: do_config_def Let_def start_timer1_def bnd_assoc)
      (rule r, simp add: config_same_def)
qed

text \<open>\<open>SET_DMA_TRANSACTION_SIZE\<close> and \<open>SET_MAX_DMA_TRANSACTIONS\<close> store a value within the limit and report success, and
refuse a larger one with their error code and no change of any setting.\<close>

lemma set_limits_guarded:
  "ends (do_config gpio (c\<lparr>c_func := SET_DMA_TRANSACTION_SIZE\<rparr>)) s
     (\<lambda>r s'. if c_len c \<le> DMA_MAX_BTT
        then r = COLLECTIVE_OP_SUCCESS \<and> config_same (s\<lparr>dma_transaction_size := c_len c\<rparr>) s'
        else r = DMA_NOT_EXPECTED_BTT_ERROR \<and> s' = s) (\<lambda>_ _. False) \<and>
   ends (do_config gpio (c\<lparr>c_func := SET_MAX_DMA_TRANSACTIONS\<rparr>)) s
     (\<lambda>r s'. if c_len c \<le> DMA_MAX_TRANSACTIONS
        then r = COLLECTIVE_OP_SUCCESS \<and> s' = s\<lparr>max_dma_in_flight := c_len c\<rparr>
        else r = DMA_NOT_OKAY_ERROR \<and> s' = s) (\<lambda>_ _. False)"
proof (rule conjI)
  show "ends (do_config gpio (c\<lparr>c_func := SET_DMA_TRANSACTION_SIZE\<rparr>)) s
     (\<lambda>r s'. if c_len c \<le> DMA_MAX_BTT
        then r = COLLECTIVE_OP_SUCCESS \<and> config_same (s\<lparr>dma_transaction_size := c_len c\<rparr>) s'
        else r = DMA_NOT_EXPECTED_BTT_ERROR \<and> s' = s) (\<lambda>_ _. False)"
  proof (cases "c_len c \<le> DMA_MAX_BTT")
    case True
    with set_size_ends [of "c\<lparr>c_func := SET_DMA_TRANSACTION_SIZE\<rparr>"] show ?thesis by simp
  next
    case False
    then show ?thesis by (simp add: do_config_def)
  qed
qed (simp add: do_config_def)

text \<open>A transaction size of 0 passes that guard, and the next reduction then divides by it: \<open>start_arith\<close> is undefined.\<close>

lemma zero_transaction_size_accepted:
  "ends (do_config gpio (c\<lparr>c_func := SET_DMA_TRANSACTION_SIZE, c_len := 0\<rparr>)) s
     (\<lambda>r s'. r = COLLECTIVE_OP_SUCCESS \<and> start_arith len func rep s' = Some (Undef, s')) (\<lambda>_ _. False)"
  by (rule ends_weaken [OF set_size_ends])
    (auto simp: config_same_def start_arith_def c_div_def prim_run)

end
