(* ===== verification/Fw_Paths.thy ===== *)
theory Fw_Paths
  imports Fw_Effects Fw_Messages
begin

text \<open>
  The datapaths: which routes the switches are given and what the arithmetic unit is started with, as the list of the writes to the
  registers that control them. Every transfer of a collective sets up one datapath, with exactly the writes its kind of transfer needs,
  and nothing else the firmware does, the interrupt handler included, writes to those registers.
\<close>

subsection \<open>Writes to the controlling registers\<close>

text \<open>Of a write to the control register of the arithmetic unit, the start bit counts.\<close>

definition control_of :: "event \<Rightarrow> (u32 \<times> u32) list" where
  "control_of e = (case e of
     Wr a v \<Rightarrow> if on_control a then [(a, if a = ARITH_BASEADDR then v AND CONTROL_START_MASK else v)] else []
   | _ \<Rightarrow> [])"

definition controls :: "event list \<Rightarrow> (u32 \<times> u32) list" where
  "controls es = concat (map control_of es)"

lemma controls_simps [simp]: "controls [] = []" "controls (e # es) = control_of e @ controls es" "controls (es @ fs) = controls es @ controls fs"
  by (simp_all add: controls_def)

definition unmoved :: "fw_state \<Rightarrow> fw_state \<Rightarrow> bool" where
  "unmoved s t \<longleftrightarrow> controls (trace t) = controls (trace s) \<and> use_tcp t = use_tcp s \<and> dma_transaction_size t = dma_transaction_size s"

interpretation route: effects_but unmoved "\<lambda>a. \<not> on_control a"
proof
  fix e s assume "\<And>a v. e = Wr a v \<Longrightarrow> \<not> on_control a"
  then show "unmoved s (s\<lparr>trace := trace s @ [e]\<rparr>)" by (cases e) (simp_all add: unmoved_def control_of_def)
qed (simp_all add: unmoved_def)

subsection \<open>The datapaths\<close>

text \<open>Memory to memory, memory to network, and the same two with the arithmetic unit in between, by its function.\<close>

datatype datapath = Moved | Sent | Combined u32 | Combined_sent u32

text \<open>The given routes, the other master ports disabled, and the commit.\<close>

definition switch_writes :: "u32 \<Rightarrow> u32 list \<Rightarrow> (u32 \<times> u32) list \<Rightarrow> (u32 \<times> u32) list" where
  "switch_writes base ports routes =
     map (\<lambda>(dst, src). (base + 0x40 + 4 * dst, src)) (routes @ map (\<lambda>dst. (dst, 0x80000000)) (filter (\<lambda>dst. dst \<notin> fst ` set routes) ports))
       @ [(base, 2)]"

definition path_scenario :: "u32 \<Rightarrow> datapath \<Rightarrow> u32" where
  "path_scenario tcp p = (case p of
     Moved \<Rightarrow> DATAPATH_DMA_LOOPBACK
   | Sent \<Rightarrow> if tcp \<noteq> 0 then DATAPATH_OFFCHIP_TX_TCP else DATAPATH_OFFCHIP_TX_UDP
   | Combined f \<Rightarrow> DATAPATH_DMA_REDUCTION
   | Combined_sent f \<Rightarrow> if tcp \<noteq> 0 then DATAPATH_OFFCHIP_TCP_REDUCTION else DATAPATH_OFFCHIP_UDP_REDUCTION)"

definition main_writes :: "u32 \<Rightarrow> (u32 \<times> u32) list" where
  "main_writes scenario = switch_writes MAIN_SWITCH_BASEADDR
     [MAIN_SWITCH_M_ARITH_OP0, MAIN_SWITCH_M_ARITH_OP1, MAIN_SWITCH_M_DMA1_TX, MAIN_SWITCH_M_UDP_TX, MAIN_SWITCH_M_TCP_TX,
      MAIN_SWITCH_M_EXT_KRNL] (documented_routes scenario)"

text \<open>The unit inside, on the beats of a message of \<open>len\<close> bytes cut into transactions.\<close>

definition arith_writes :: "u32 \<Rightarrow> u32 \<Rightarrow> u32 \<Rightarrow> (u32 \<times> u32) list" where
  "arith_writes dts len func =
     switch_writes ARITH_SWITCH_BASEADDR
       [ARITH_SWITCH_M_INT_OP0, ARITH_SWITCH_M_INT_OP1, ARITH_SWITCH_M_EXT_OP0, ARITH_SWITCH_M_EXT_OP1, ARITH_SWITCH_M_RES]
       [(ARITH_SWITCH_M_INT_OP0, ARITH_SWITCH_S_OP0), (ARITH_SWITCH_M_INT_OP1, ARITH_SWITCH_S_OP1), (ARITH_SWITCH_M_RES, ARITH_SWITCH_S_INT_RES)] @
     [(ARITH_BASEADDR + 0x10, len div dts * ((dts + 63) div 64) + (len mod dts + 63) div 64), (ARITH_BASEADDR + 0x18, func),
      (ARITH_BASEADDR, CONTROL_START_MASK)]"

definition path_controls :: "u32 \<Rightarrow> u32 \<Rightarrow> u32 \<Rightarrow> datapath \<Rightarrow> (u32 \<times> u32) list" where
  "path_controls tcp dts len p = main_writes (path_scenario tcp p) @
     (case p of Combined f \<Rightarrow> arith_writes dts len f | Combined_sent f \<Rightarrow> arith_writes dts len f | _ \<Rightarrow> [])"

text \<open>Whatever the registers held before, these writes leave the documented routes and the arithmetic unit with its function and the
beats of the message.\<close>

definition after_writes :: "(u32 \<times> u32) list \<Rightarrow> (u32 \<Rightarrow> u32) \<Rightarrow> u32 \<Rightarrow> u32" where
  "after_writes ws m = fold (\<lambda>(a, v) m. m(a := v)) ws m"

lemma after_writes_append: "after_writes (ws @ vs) m = after_writes vs (after_writes ws m)"
  by (simp add: after_writes_def)

lemma after_writes_other: "a \<notin> fst ` set ws \<Longrightarrow> after_writes ws m a = m a"
  by (induction ws arbitrary: m) (auto simp: after_writes_def)

lemma arith_writes_routes: "routes_as table (after_writes (arith_writes dts len f) m) = routes_as table m"
proof -
  have to: "fst ` set (arith_writes dts len f) =
      {0x44B00040, 0x44B00044, 0x44B00050, 0x44B00048, 0x44B0004C, 0x44B00000, 0x20010, 0x20018, 0x20000}"
    by (simp add: arith_writes_def switch_writes_def)
  have "\<forall>x \<in> fst ` set (arith_writes dts len f). x < 0x44A00000 \<or> 0x44A10000 \<le> x" unfolding to by simp
  then have "after_writes (arith_writes dts len f) m a = m a" if "0x44A00000 \<le> a" "a < 0x44A10000" for a
    using that by (intro after_writes_other) (meson leD)
  then show ?thesis by (simp add: routes_as_def switch_route_def main_ports_def)
qed

lemma main_writes_routes:
  assumes "sc \<in> {1, 2, 3, 4, 5, 6}"
  shows "routes_as (documented_routes sc) (after_writes (main_writes sc) m)"
  using assms
  by (simp only: insert_iff empty_iff, elim disjE FalseE)
    (hypsubst, simp add: main_writes_def switch_writes_def documented_routes_def, simp add: routes_as_def switch_route_def main_ports_def after_writes_def)+

lemma path_controls_routes:
  "routes_as (documented_routes (path_scenario tcp p)) (after_writes (path_controls tcp dts len p) m)"
proof -
  have "path_scenario tcp p \<in> {1, 2, 3, 4, 5, 6}" by (cases p) (simp_all add: path_scenario_def)
  from main_writes_routes [OF this] show ?thesis
    by (cases p) (simp_all add: path_controls_def after_writes_append arith_writes_routes)
qed

lemma path_controls_arith:
  assumes "0 < dts" and "dts \<le> DMA_MAX_BTT" and "p = Combined f \<or> p = Combined_sent f"
  shows "after_writes (path_controls tcp dts len p) m (ARITH_BASEADDR + 0x18) = f"
    and "unat (after_writes (path_controls tcp dts len p) m (ARITH_BASEADDR + 0x10)) = sum_list (map words64 (segs (unat dts) (unat len)))"
  using assms(3) start_arith_count [OF assms(1,2), of len]
  by (auto simp: after_writes_def path_controls_def main_writes_def arith_writes_def switch_writes_def Let_def)

subsection \<open>What sets up a datapath\<close>

text \<open>\<open>steers tcp dts m ws\<close>: with this stack and transaction size, when \<open>m\<close> returns it has written \<open>ws\<close>, and kept both settings.\<close>

definition steers :: "u32 \<Rightarrow> u32 \<Rightarrow> 'a fw \<Rightarrow> (u32 \<times> u32) list \<Rightarrow> bool" where
  "steers tcp dts m ws \<longleftrightarrow> (\<forall>s a t. use_tcp s = tcp \<longrightarrow> dma_transaction_size s = dts \<longrightarrow> m s = Some (Ret a, t) \<longrightarrow>
     controls (trace t) = controls (trace s) @ ws \<and> use_tcp t = tcp \<and> dma_transaction_size t = dts)"

named_theorems steers_intros "what sets up a datapath"

lemma steersD:
  assumes "steers tcp dts m ws" and "m s = Some (Ret a, t)" and "use_tcp s = tcp" and "dma_transaction_size s = dts"
  shows "controls (trace t) = controls (trace s) @ ws"
  using assms unfolding steers_def by blast

lemma steers_kept: "kept unmoved m \<Longrightarrow> steers tcp dts m []"
  unfolding steers_def by (auto dest!: keptD simp: unmoved_def)

lemma steers_bnd [steers_intros]:
  assumes "steers tcp dts m ws" and "\<And>a. steers tcp dts (f a) vs"
  shows "steers tcp dts (bnd m f) (ws @ vs)"
  unfolding steers_def
proof (intro allI impI)
  fix s b u assume s: "use_tcp s = tcp" "dma_transaction_size s = dts" and run: "bnd m f s = Some (Ret b, u)"
  from run obtain a t where "m s = Some (Ret a, t)" "f a t = Some (Ret b, u)" by (auto elim: bnd_SomeE)
  with s assms show "controls (trace u) = controls (trace s) @ ws @ vs \<and> use_tcp u = tcp \<and> dma_transaction_size u = dts"
    unfolding steers_def by (metis append.assoc)
qed

lemma steers_then: "kept unmoved m \<Longrightarrow> (\<And>a. steers tcp dts (f a) ws) \<Longrightarrow> steers tcp dts (bnd m f) ws"
  by (rule steers_bnd [OF steers_kept, of m tcp dts f ws, unfolded append_Nil])

lemma steers_last: "steers tcp dts m ws \<Longrightarrow> (\<And>a. kept unmoved (f a)) \<Longrightarrow> steers tcp dts (bnd m f) ws"
  by (rule steers_bnd [OF _ steers_kept, of tcp dts m ws f, unfolded append_Nil2])

lemma steers_tcp: "steers tcp dts (f tcp) ws \<Longrightarrow> steers tcp dts (bnd (getf use_tcp) f) ws"
  unfolding steers_def bnd_getf by blast

lemma steers_size: "steers tcp dts (f dts) ws \<Longrightarrow> steers tcp dts (bnd (getf dma_transaction_size) f) ws"
  unfolding steers_def bnd_getf by blast

lemma steers_undef: "steers tcp dts (bnd undef f) ws"
  by (auto simp: steers_def bnd_def prim_run)

lemma steers_division:
  "steers tcp dts (f (x div y)) ws \<Longrightarrow> steers tcp dts (bnd (c_div x y) f) ws"
  "steers tcp dts (f (x mod y)) ws \<Longrightarrow> steers tcp dts (bnd (c_mod x y) f) ws"
  by (cases "y = 0"; simp only: c_div_def c_mod_def if_True if_False steers_undef ret_bnd)+

lemma steers_out: "on_control a \<Longrightarrow> steers tcp dts (xil_out32 a v) (control_of (Wr a v))"
  by (simp add: steers_def xil_out32_run)

lemma steers_ret: "steers tcp dts (ret a) []"
  by (simp add: steers_def prim_run)

lemma steers_commit:
  assumes "on_control base" and "base \<noteq> ARITH_BASEADDR"
  shows "steers tcp dts (apply_switch_config base) [(base, 2)]"
proof -
  have "kept unmoved (loop (apply_switch_step base) 0)" unfolding apply_switch_step_def by (intro kept_intros)
  from steers_last [OF steers_out [OF assms(1)] this] assms show ?thesis
    by (simp add: apply_switch_config_def control_of_def)
qed

lemma steers_blk: "steers tcp dts (blk []) []" "steers tcp dts m ws \<Longrightarrow> steers tcp dts (blk ms) vs \<Longrightarrow> steers tcp dts (blk (m # ms)) (ws @ vs)"
  by (simp_all only: blk.simps steers_ret steers_bnd)

lemma word_less_6:
  fixes x :: u32
  assumes "x < 6"
  obtains "x = 0" | "x = 1" | "x = 2" | "x = 3" | "x = 4" | "x = 5"
proof -
  have "unat x < 6" using assms by (simp add: word_less_nat_alt)
  then have "unat x \<in> {0, 1, 2, 3, 4, 5}" by auto
  then have "x \<in> {0, 1, 2, 3, 4, 5}" by (auto simp: word_unat_eq_iff)
  then show ?thesis using that by blast
qed

lemma steers_set:
  "base \<in> {MAIN_SWITCH_BASEADDR, ARITH_SWITCH_BASEADDR} \<Longrightarrow> dst < 6 \<Longrightarrow>
     steers tcp dts (set_switch_datapath base src dst) [(base + 0x40 + 4 * dst, src)]"
  "base \<in> {MAIN_SWITCH_BASEADDR, ARITH_SWITCH_BASEADDR} \<Longrightarrow> dst < 6 \<Longrightarrow>
     steers tcp dts (disable_switch_datapath base dst) [(base + 0x40 + 4 * dst, 0x80000000)]"
proof -
  assume b: "base \<in> {MAIN_SWITCH_BASEADDR, ARITH_SWITCH_BASEADDR}" and d: "dst < 6"
  from d consider "dst = 0" | "dst = 1" | "dst = 2" | "dst = 3" | "dst = 4" | "dst = 5" by (rule word_less_6)
  then have "on_control (base + 0x40 + 4 * dst) \<and> base + 0x40 + 4 * dst \<noteq> ARITH_BASEADDR"
    using b by cases (auto simp: on_control_def)
  with steers_out [of "base + 0x40 + 4 * dst" tcp dts]
  show "steers tcp dts (set_switch_datapath base src dst) [(base + 0x40 + 4 * dst, src)]"
    "steers tcp dts (disable_switch_datapath base dst) [(base + 0x40 + 4 * dst, 0x80000000)]"
    by (simp_all add: set_switch_datapath_def disable_switch_datapath_def control_of_def)
qed

lemmas steers_switch = steers_blk steers_set steers_commit

lemma steers_eq: "steers tcp dts m ws \<Longrightarrow> ws = vs \<Longrightarrow> steers tcp dts m vs"
  by simp

lemma steers_main:
  assumes "sc \<in> {1, 2, 3, 4, 5, 6}" and "steers tcp dts (cfg_arith_switch ar) ws"
  shows "steers tcp dts (cfg_switch sc ar) (main_writes sc @ ws)"
proof -
  from assms(1) have "\<exists>m. cfg_main_switch sc = Some m \<and> steers tcp dts m (butlast (main_writes sc))"
    by (simp only: insert_iff empty_iff, elim disjE FalseE)
      (hypsubst, simp del: blk.simps add: cfg_main_switch_def Let_def, rule steers_eq,
        (rule steers_blk(2), rule steers_set, simp, simp)+, rule steers_blk(1), simp add: main_writes_def switch_writes_def documented_routes_def)+
  then obtain m where m: "cfg_main_switch sc = Some m" "steers tcp dts m (butlast (main_writes sc))" by blast
  have "main_writes sc = butlast (main_writes sc) @ [(MAIN_SWITCH_BASEADDR, 2)]" unfolding main_writes_def switch_writes_def by (simp only: butlast_snoc)
  moreover have "steers tcp dts (cfg_switch sc ar) (butlast (main_writes sc) @ [(MAIN_SWITCH_BASEADDR, 2)] @ ws @ [])"
    unfolding cfg_switch_def m(1) option.case
    by (rule steers_blk(2), rule m(2), rule steers_blk(2), rule steers_commit, simp add: on_control_def, simp, rule steers_blk(2), rule assms(2), rule steers_blk(1))
  ultimately show ?thesis by (metis append.assoc append_Nil2)
qed

lemma steers_arith_none: "steers tcp dts (cfg_arith_switch ARITH_NONE) []"
  by (simp add: cfg_arith_switch_def steers_ret)

lemma steers_arith_internal:
  "steers tcp dts (cfg_arith_switch ARITH_INTERNAL) (take 6 (arith_writes dts len func))"
  by (simp del: blk.simps add: cfg_arith_switch_def Let_def, rule steers_eq,
    (rule steers_blk(2), rule steers_set, simp, simp)+, rule steers_blk(2), rule steers_commit, simp add: on_control_def, simp, rule steers_blk(1),
    simp add: arith_writes_def switch_writes_def)

lemma steers_start: "steers tcp dts (set_bits ARITH_BASEADDR CONTROL_START_MASK) [(ARITH_BASEADDR, CONTROL_START_MASK)]"
  unfolding set_bits_def
proof (rule steers_then)
  fix v :: u32
  have "(v OR 1) AND 1 = 1" by (rule bit_word_eqI) (auto simp: bit_simps)
  then show "steers tcp dts (xil_out32 ARITH_BASEADDR (v OR CONTROL_START_MASK)) [(ARITH_BASEADDR, CONTROL_START_MASK)]"
    using steers_out [of ARITH_BASEADDR tcp dts "v OR CONTROL_START_MASK"] by (simp add: on_control_def control_of_def)
qed (intro kept_intros)

lemma steers_start_arith: "steers tcp dts (start_arith len func 0) (drop 6 (arith_writes dts len func))"
  unfolding start_arith_def Let_def
  by (rule steers_size, rule steers_division, rule steers_division, rule steers_eq, (rule steers_blk(2), rule steers_out, simp add: on_control_def)+,
      rule steers_blk(2), simp, rule steers_start, rule steers_blk(1), simp add: control_of_def on_control_def arith_writes_def switch_writes_def)

lemma steers_combine:
  assumes "sc \<in> {1, 2, 3, 4, 5, 6}" and "\<And>a. kept unmoved (f a)"
  shows "steers tcp dts (bnd (cfg_switch sc ARITH_INTERNAL) (\<lambda>_. bnd (start_arith len func 0) f)) (main_writes sc @ arith_writes dts len func)"
  using steers_bnd [OF steers_main [OF assms(1) steers_arith_internal [of tcp dts len func]] steers_last [OF steers_start_arith [of tcp dts len func] assms(2)]]
  by simp

lemma steers_route:
  assumes "sc \<in> {1, 2, 3, 4, 5, 6}" and "\<And>a. kept unmoved (f a)"
  shows "steers tcp dts (bnd (cfg_switch sc ARITH_NONE) f) (main_writes sc)"
  using steers_last [OF steers_main [OF assms(1) steers_arith_none] assms(2)] by simp

lemma steers_copy: "steers tcp dts (copy len src dst) (path_controls tcp dts len Moved)"
  unfolding copy_def dma_loopback_def path_controls_def path_scenario_def datapath.case append_Nil2
  by (intro steers_route kept_intros) simp

lemma steers_transmit: "steers tcp dts (transmit_offchip_world world dst len src tag) (path_controls tcp dts len Sent)"
  unfolding transmit_offchip_world_def path_controls_def path_scenario_def datapath.case append_Nil2
  by (intro steers_tcp steers_route kept_intros) simp

lemma steers_receive: "steers tcp dts (receive_offchip_world world src len dst tag) (path_controls tcp dts len Moved)"
  unfolding receive_offchip_world_def path_controls_def path_scenario_def datapath.case append_Nil2
  by (rule steers_then; intro steers_route kept_intros; simp)

lemma steers_relay: "steers tcp dts (relay_to_other_rank world src dst len tag) (path_controls tcp dts len Sent)"
  unfolding relay_to_other_rank_def path_controls_def path_scenario_def datapath.case append_Nil2
  by (rule steers_then; intro steers_tcp steers_route kept_intros; simp)

lemma steers_accumulate:
  "steers tcp dts (receive_and_accumulate world src len func op0 dst tag) (path_controls tcp dts len (Combined func))"
  unfolding receive_and_accumulate_def path_controls_def path_scenario_def datapath.case
  by (rule steers_then; intro steers_combine kept_intros; simp)

lemma steers_reduce:
  "steers tcp dts (receive_and_reduce_offchip world src dst len func op0 tag) (path_controls tcp dts len (Combined_sent func))"
  unfolding receive_and_reduce_offchip_def path_controls_def path_scenario_def datapath.case
  by (rule steers_then; intro steers_tcp steers_combine kept_intros; simp)

lemma ends_steers:
  assumes "steers (use_tcp s) (dma_transaction_size s) m ws" and "ends m s Q E"
  shows "ends m s (\<lambda>a s'. Q a s' \<and> controls (trace s') = controls (trace s) @ ws) E"
proof -
  from assms(2) obtain r s' where m: "m s = Some (r, s')" and r: "sat Q E r s'" by (auto simp: ends_def)
  have "sat (\<lambda>a s'. Q a s' \<and> controls (trace s') = controls (trace s) @ ws) E r s'"
    using r steersD [OF assms(1), of s _ s'] m by (cases r) auto
  with m show ?thesis by (auto simp: ends_def)
qed

end
