(* ===== verification/Fw_Ring.thy ===== *)
theory Fw_Ring
  imports Fw_Paths
begin

text \<open>
  Collectives over the ring of ranks: what sending, receiving and copying do one after the other, and the
  collectives composed of them.
\<close>

subsection \<open>Sending and copying leave the handler's input alone\<close>

lemma leaves_rx_reg:
  "leaves_rx (xil_out32 a' v)" "leaves_rx (xil_in32 a')" "leaves_rx (putd c w)" "leaves_rx (cputd c w)"
  "leaves_rx (c_div x y)" "leaves_rx (c_mod x y)"
  by (auto simp: leaves_rx_def xil_out32_def xil_in32_def putd_def cputd_def c_div_def c_mod_def prim_run
      intro: same_rx_stream split: if_splits list.splits)

lemma leaves_rx_blk: "(\<And>m. m \<in> set ms \<Longrightarrow> leaves_rx m) \<Longrightarrow> leaves_rx (blk ms)"
  by (induction ms) (auto intro: leaves_rx_rules)

lemma leaves_rx_cfg_switch: "leaves_rx (cfg_switch sc arith)"
proof -
  have w: "leaves_rx (apply_switch_config b)" for b
    unfolding apply_switch_config_def apply_switch_step_def by (intro leaves_rx_rules leaves_rx_reg)
  have "leaves_rx m" if "cfg_main_switch sc = Some m" for m
    using that by (auto simp: cfg_main_switch_def Let_def set_switch_datapath_def disable_switch_datapath_def
        split: if_splits intro!: leaves_rx_rules leaves_rx_reg)
  then show ?thesis
    unfolding cfg_switch_def cfg_arith_switch_def
    by (auto simp: Let_def set_switch_datapath_def disable_switch_datapath_def split: option.split
        intro!: leaves_rx_rules leaves_rx_reg w)
qed

lemma leaves_rx_case: "(\<And>a b. leaves_rx (f a b)) \<Longrightarrow> leaves_rx (case p of (a, b) \<Rightarrow> f a b)"
  by (cases p) simp

lemmas leaves_rx_all = leaves_rx_case leaves_rx_rules leaves_rx_reg

lemma leaves_rx_pipelined:
  assumes "\<And>c l. leaves_rx (issue1 c l)" and "\<And>c l. leaves_rx (issue2 c l)" and "\<And>c l. leaves_rx (ack c l)"
  shows "leaves_rx (pipelined issue1 issue2 ack len l)"
  unfolding pipelined_def fill_step_def steady_step_def drain_step_def Let_def
  by (intro leaves_rx_all assms)

lemma leaves_rx_start_dma: "leaves_rx (start_dma len a0 a1 t1 a2 what t)"
  unfolding start_dma_def start_one_def dma_cmd_def dma_cmd_without_EOF_def dma_cmd_addrh_addrl_def Let_def blk.simps
  by (intro leaves_rx_all)

lemma leaves_rx_start_packetizer: "leaves_rx (start_packetizer_message world dst len tag off)"
  unfolding start_packetizer_message_def packetizer_step_def rank_get_def Let_def blk.simps
  by (intro leaves_rx_all)

lemma leaves_rx_move:
  "leaves_rx (move_issue what c l)" "leaves_rx (move_ack what c l)"
  "leaves_rx (pkt_issue world dst tag what c l)" "leaves_rx (pkt_ack world dst what c l)"
  unfolding move_issue_def move_ack_def pkt_issue_def pkt_ack_def
  by (intro leaves_rx_all leaves_rx_start_dma leaves_rx_ack_dma leaves_rx_ack_packetizer leaves_rx_start_packetizer)+

lemma leaves_rx_copy: "leaves_rx (copy len src dst)"
  unfolding copy_def dma_loopback_def dma_movement_def
  by (intro leaves_rx_all leaves_rx_cfg_switch leaves_rx_pipelined leaves_rx_move)

lemma leaves_rx_transmit: "leaves_rx (transmit_offchip_world world dst len src tag)"
  unfolding transmit_offchip_world_def dma_movement_and_packetizer_def
  by (intro leaves_rx_all leaves_rx_cfg_switch leaves_rx_pipelined leaves_rx_move leaves_rx_start_packetizer)

subsection \<open>What a sequence of steps has done\<close>

text \<open>
  A ring as one rank sees it: it receives from \<open>g_prev\<close>, sends to \<open>g_next\<close>, and every message has \<open>g_len\<close> bytes.
\<close>

record ring =
  g_world :: communicator
  g_prev :: u32
  g_next :: u32
  g_len :: u32

text \<open>
  Work: messages received and sent; the buffers of \<open>g_len\<close> bytes that DMA0 read and that DMA1 wrote; what DMA1 read, a buffer
  or the receive buffers a message was found in; and the datapaths that were set up for it.
\<close>

datatype source = At u64 | Msg

record work =
  w_in :: nat
  w_out :: nat
  w_rx0 :: "u64 list"
  w_rx1 :: "source list"
  w_tx1 :: "u64 list"
  w_paths :: "datapath list"

abbreviation (input) no_work :: work where
  "no_work \<equiv> \<lparr>w_in = 0, w_out = 0, w_rx0 = [], w_rx1 = [], w_tx1 = [], w_paths = []\<rparr>"

definition after :: "work \<Rightarrow> work \<Rightarrow> work" where
  "after w v = \<lparr>w_in = w_in w + w_in v, w_out = w_out w + w_out v, w_rx0 = w_rx0 w @ w_rx0 v,
     w_rx1 = w_rx1 w @ w_rx1 v, w_tx1 = w_tx1 w @ w_tx1 v,
     w_paths = w_paths w @ w_paths v\<rparr>"

lemma after_fields [simp]:
  "w_in (after w v) = w_in w + w_in v" "w_out (after w v) = w_out w + w_out v" "w_rx0 (after w v) = w_rx0 w @ w_rx0 v"
  "w_rx1 (after w v) = w_rx1 w @ w_rx1 v" "w_tx1 (after w v) = w_tx1 w @ w_tx1 v"
  "w_paths (after w v) = w_paths w @ w_paths v"
  by (simp_all add: after_def)

lemma after_no_work [simp]: "after w no_work = w" "after no_work w = w"
  by (simp_all add: after_def)

primrec works :: "(nat \<Rightarrow> work) \<Rightarrow> nat \<Rightarrow> work" where
  "works w 0 = no_work"
| "works w (Suc k) = after (works w k) (w k)"

lemma works_fields:
  "w_in (works w n) = (\<Sum>k<n. w_in (w k))" "w_out (works w n) = (\<Sum>k<n. w_out (w k))"
  "w_rx0 (works w n) = concat (map (\<lambda>k. w_rx0 (w k)) [0..<n])"
  "w_rx1 (works w n) = concat (map (\<lambda>k. w_rx1 (w k)) [0..<n])"
  "w_tx1 (works w n) = concat (map (\<lambda>k. w_tx1 (w k)) [0..<n])"
  "w_paths (works w n) = concat (map (\<lambda>k. w_paths (w k)) [0..<n])"
  by (induction n) simp_all

definition g_segs :: "ring \<Rightarrow> fw_state \<Rightarrow> nat" where
  "g_segs g s = nsegs (unat (dma_transaction_size s)) (unat (g_len g))"

definition g_seg :: "ring \<Rightarrow> fw_state \<Rightarrow> nat \<Rightarrow> u32" where
  "g_seg g s k = of_nat (seg (unat (dma_transaction_size s)) (unat (g_len g)) k)"

abbreviation (input) g_in :: "ring \<Rightarrow> fw_state \<Rightarrow> u32" where "g_in g \<equiv> in_seq (g_world g) (g_prev g)"
abbreviation (input) g_out :: "ring \<Rightarrow> fw_state \<Rightarrow> u32" where "g_out g \<equiv> out_seq (g_world g) (g_next g)"

text \<open>The headers of the \<open>m\<close>-th message sent after \<open>s\<close>, and that the segments of the \<open>m\<close>-th one received came.\<close>

definition headers_of :: "ring \<Rightarrow> fw_state \<Rightarrow> nat \<Rightarrow> u32 list" where
  "headers_of g s m = concat (map (\<lambda>k. [pkt_dst (g_world g) (g_next g) s, g_seg g s k, TAG_ANY, local_rank (g_world g),
     g_out g s + of_nat (m * g_segs g s + k) + 1]) [0..<g_segs g s])"

definition segments_came :: "ring \<Rightarrow> fw_state \<Rightarrow> nat \<Rightarrow> fw_state \<Rightarrow> bool" where
  "segments_came g s m s' \<longleftrightarrow> (\<forall>k<g_segs g s. \<exists>t. came s s'
     [g_seg g s k, t, g_prev g, g_in g s + of_nat (m * g_segs g s + k) + 1])"

definition ring_words :: "ring \<Rightarrow> u32 set" where
  "ring_words g = peripherals \<union> forward_words (g_world g) (g_prev g) (g_next g)"

lemma ring_words_sub:
  "peripherals \<subseteq> ring_words g"
  "peripherals \<union> {rank_addr (g_world g) (g_next g) outbound_seq} \<subseteq> ring_words g"
  "peripherals \<union> in_word (g_world g) (g_prev g) \<subseteq> ring_words g"
  by (auto simp: ring_words_def)

definition in_ring :: "ring \<Rightarrow> fw_state \<Rightarrow> bool" where
  "in_ring g s \<longleftrightarrow> can_forward s (g_world g) (g_prev g) (g_next g)"

text \<open>The addresses of the buffers \<open>bs\<close>, as far as the segments of a message reach.\<close>

definition taken :: "ring \<Rightarrow> fw_state \<Rightarrow> u32 list \<Rightarrow> u64 list" where
  "taken g s bs = concat (map (\<lambda>k. bytes_of (g_seg g s k, buffer_addr s (bs ! k))) [0..<g_segs g s])"

definition taken_ok :: "ring \<Rightarrow> fw_state \<Rightarrow> u32 list \<Rightarrow> bool" where
  "taken_ok g s bs \<longleftrightarrow> length bs = g_segs g s \<and> (\<forall>b\<in>set bs. unat b < nbufs s)"

fun reads :: "ring \<Rightarrow> fw_state \<Rightarrow> source list \<Rightarrow> u64 list \<Rightarrow> bool" where
  "reads g s [] as \<longleftrightarrow> as = []"
| "reads g s (At a # xs) as \<longleftrightarrow> (\<exists>as'. as = buffer a (g_len g) @ as' \<and> reads g s xs as')"
| "reads g s (Msg # xs) as \<longleftrightarrow> (\<exists>bs as'. taken_ok g s bs \<and> as = taken g s bs @ as' \<and> reads g s xs as')"

abbreviation (input) buffers :: "ring \<Rightarrow> u64 list \<Rightarrow> u64 list" where
  "buffers g as \<equiv> concat (map (\<lambda>a. buffer a (g_len g)) as)"

lemma reads_append: "reads g s xs as \<Longrightarrow> reads g s ys bs \<Longrightarrow> reads g s (xs @ ys) (as @ bs)"
  by (induction g s xs as rule: reads.induct) auto

text \<open>The writes to the controlling registers that the datapaths \<open>ps\<close> of the ring's messages need, one after the other.\<close>

definition paths_set :: "ring \<Rightarrow> fw_state \<Rightarrow> datapath list \<Rightarrow> (u32 \<times> u32) list" where
  "paths_set g s ps = concat (map (path_controls (use_tcp s) (dma_transaction_size s) (g_len g)) ps)"

definition ran :: "ring \<Rightarrow> work \<Rightarrow> fw_state \<Rightarrow> fw_state \<Rightarrow> bool" where
  "ran g w s s' \<longleftrightarrow> rx_kept (ring_words g) s s' \<and>
     g_in g s' = g_in g s + of_nat (w_in w * g_segs g s) \<and> (\<forall>m<w_in w. segments_came g s m s') \<and>
     g_out g s' = g_out g s + of_nat (w_out w * g_segs g s) \<and>
     words_on (pkt_net s) (trace s') = words_on (pkt_net s) (trace s) @ concat (map (headers_of g s) [0..<w_out w]) \<and>
     controls (trace s') = controls (trace s) @ paths_set g s (w_paths w) \<and>
     (\<exists>es. trace s' = trace s @ es \<and> whole_commands es \<and> accessed CMD_DMA0_RX es = buffers g (w_rx0 w) \<and>
        reads g s (w_rx1 w) (accessed CMD_DMA1_RX es) \<and> accessed CMD_DMA1_TX es = buffers g (w_tx1 w) \<and>
        accessed CMD_DMA2_RX es = [])"

lemma ran_kept: "ran g w s t \<Longrightarrow> rx_kept (ring_words g) s t"
  by (simp add: ran_def)

lemma ran_refl: "in_ring g s \<Longrightarrow> ran g no_work s s"
  by (auto simp: ran_def in_ring_def can_forward_def can_receive_def accessed_def whole_commands_def paths_set_def
      intro: rx_kept_refl)

lemma ring_kept:
  assumes "in_ring g s" and "rx_kept (ring_words g) s t"
  shows "in_ring g t" and "pkt_dst (g_world g) (g_next g) t = pkt_dst (g_world g) (g_next g) s"
    and "g_segs g t = g_segs g s" and "g_seg g t k = g_seg g s k" and "pkt_net t = pkt_net s" and "paths_set g t ps = paths_set g s ps"
proof -
  note k = rx_kept_inv [OF assms(2)]
  from k show "g_segs g t = g_segs g s" "g_seg g t k = g_seg g s k" "pkt_net t = pkt_net s" "paths_set g t ps = paths_set g s ps"
    by (simp_all add: g_segs_def g_seg_def pkt_net_def paths_set_def)
  have c: "can_receive s (g_world g) (g_prev g)" using assms(1) by (simp add: in_ring_def can_forward_def)
  then have "can_receive t (g_world g) (g_prev g)"
    using k rx_world_kept [OF assms(2)] by (simp add: can_receive_def ready_def)
  with assms(1) k(3) show "in_ring g t" by (simp add: in_ring_def can_forward_def)
  let ?a = "rank_addr (g_world g) (g_next g) (if use_tcp s \<noteq> 0 then session else port)"
  have "?a < 0x2000" "?a \<notin> isr_words (nbufs s)" "?a \<noteq> rank_addr (g_world g) (g_prev g) inbound_seq"
    using assms(1) by (auto simp: in_ring_def can_forward_def rank_in_exchmem_def)
  moreover have "?a \<noteq> rank_addr (g_world g) (g_next g) outbound_seq"
    by (simp add: rank_addr_def field_offset_def)
  ultimately have "mem t ?a = mem s ?a" using assms(2) by (simp add: rx_kept_def ring_words_def)
  then show "pkt_dst (g_world g) (g_next g) t = pkt_dst (g_world g) (g_next g) s"
    using k by (simp add: pkt_dst_def)
qed

lemma taken_kept:
  assumes "in_ring g s" and "rx_kept (ring_words g) s t" and "taken_ok g t bs"
  shows "taken_ok g s bs" and "taken g t bs = taken g s bs"
proof -
  note same = ring_kept [OF assms(1,2)] and n = rx_kept_inv(3) [OF assms(2)]
  show ok: "taken_ok g s bs" using assms(3) by (simp add: taken_ok_def same(3) n)
  have "buffer_addr t (bs ! k) = buffer_addr s (bs ! k)" if "k < g_segs g s" for k
    using assms(2) ok that by (simp add: rx_kept_def buffer_addr_def taken_ok_def)
  then show "taken g t bs = taken g s bs"
    unfolding taken_def same(3,4) by (intro arg_cong [where f = concat] map_cong) simp_all
qed

lemma reads_kept:
  assumes "in_ring g s" and "rx_kept (ring_words g) s t"
  shows "reads g t xs as \<Longrightarrow> reads g s xs as"
  using taken_kept [OF assms] by (induction g t xs as rule: reads.induct) (auto, blast+)

lemma upt_map_add: "map f [0..<n + m] = map f [0..<n] @ map (\<lambda>i. f (n + i)) [0..<m]"
  by (induction m) simp_all

lemma ran_trans:
  assumes r: "in_ring g s" and st: "ran g w s t" and tu: "ran g v t u"
  shows "ran g (after w v) s u"
proof -
  note kt = ran_kept [OF st] and ku = ran_kept [OF tu]
  note same = ring_kept [OF r kt]
  note ku' = rx_kept_trans [OF kt ku]
  have pu: "prefix (trace t) (trace u)" using ku by (simp add: rx_kept_def)
  have gi: "g_in g t = g_in g s + of_nat (w_in w * g_segs g s)" and go: "g_out g t = g_out g s + of_nat (w_out w * g_segs g s)"
    using st by (simp_all add: ran_def)
  have came: "segments_came g s m u" if "m < w_in w" for m
    using st that came_mono [OF _ pu] unfolding ran_def segments_came_def by blast
  have came': "segments_came g s (w_in w + m) u" if m: "m < w_in v" for m
    unfolding segments_came_def
  proof (intro allI impI)
    fix k assume "k < g_segs g s"
    with tu m same(3) obtain x where "came t u [g_seg g t k, x, g_prev g, g_in g t + of_nat (m * g_segs g t + k) + 1]"
      unfolding ran_def segments_came_def by metis
    from came_trans [OF kt pu this] have "came s u [g_seg g s k, x, g_prev g, g_in g s + of_nat ((w_in w + m) * g_segs g s + k) + 1]"
      unfolding same(3,4) gi by (simp add: algebra_simps)
    then show "\<exists>x. came s u [g_seg g s k, x, g_prev g, g_in g s + of_nat ((w_in w + m) * g_segs g s + k) + 1]" ..
  qed
  have all: "segments_came g s m u" if "m < w_in w + w_in v" for m
  proof (cases "m < w_in w")
    case False
    with that have "m = w_in w + (m - w_in w)" "m - w_in w < w_in v" by simp_all
    with came' show ?thesis by metis
  qed (rule came)
  have hd: "headers_of g t m = headers_of g s (w_out w + m)" for m
    unfolding headers_of_def same(2-4) go by (simp add: algebra_simps)
  then have hd: "headers_of g t = (\<lambda>m. headers_of g s (w_out w + m))" by blast
  have net: "words_on (pkt_net s) (trace u) = words_on (pkt_net s) (trace s) @ concat (map (headers_of g s) [0..<w_out w + w_out v])"
    using st tu by (simp add: ran_def same(5) hd upt_map_add)
  have ctl: "controls (trace u) = controls (trace s) @ paths_set g s (w_paths w @ w_paths v)"
    using st tu by (simp add: ran_def same(6)) (simp add: paths_set_def)
  from st obtain es where es: "trace t = trace s @ es" "whole_commands es" "accessed CMD_DMA0_RX es = buffers g (w_rx0 w)"
    "reads g s (w_rx1 w) (accessed CMD_DMA1_RX es)" "accessed CMD_DMA1_TX es = buffers g (w_tx1 w)" "accessed CMD_DMA2_RX es = []"
    by (auto simp: ran_def)
  from tu obtain fs where fs: "trace u = trace t @ fs" "whole_commands fs" "accessed CMD_DMA0_RX fs = buffers g (w_rx0 v)"
    "reads g t (w_rx1 v) (accessed CMD_DMA1_RX fs)" "accessed CMD_DMA1_TX fs = buffers g (w_tx1 v)" "accessed CMD_DMA2_RX fs = []"
    by (auto simp: ran_def)
  have "trace u = trace s @ (es @ fs)" "whole_commands (es @ fs)" by (simp_all add: es fs whole_append)
  moreover have "reads g s (w_rx1 w @ w_rx1 v) (accessed CMD_DMA1_RX (es @ fs))"
    using reads_append [OF es(4) reads_kept [OF r kt fs(4)]] by (simp add: accessed_append es(2))
  moreover have "accessed CMD_DMA0_RX (es @ fs) = buffers g (w_rx0 w @ w_rx0 v)"
    "accessed CMD_DMA1_TX (es @ fs) = buffers g (w_tx1 w @ w_tx1 v)" "accessed CMD_DMA2_RX (es @ fs) = []"
    by (simp_all add: accessed_append es fs)
  ultimately have "\<exists>es. trace u = trace s @ es \<and> whole_commands es \<and> accessed CMD_DMA0_RX es = buffers g (w_rx0 w @ w_rx0 v) \<and>
      reads g s (w_rx1 w @ w_rx1 v) (accessed CMD_DMA1_RX es) \<and> accessed CMD_DMA1_TX es = buffers g (w_tx1 w @ w_tx1 v) \<and>
      accessed CMD_DMA2_RX es = []" by blast
  moreover have "g_in g u = g_in g s + of_nat ((w_in w + w_in v) * g_segs g s)"
    "g_out g u = g_out g s + of_nat ((w_out w + w_out v) * g_segs g s)"
    using tu by (simp_all add: ran_def same(3) gi go algebra_simps)
  ultimately show ?thesis using ku' all net ctl by (simp add: ran_def)
qed

subsection \<open>The steps of a collective\<close>

definition ring_error :: "u32 \<Rightarrow> bool" where
  "ring_error c \<longleftrightarrow> forward_error c \<or> prim_error c \<or> c = ARITH_ERROR"

lemma in_ringD:
  assumes "in_ring g s"
  shows "can_receive s (g_world g) (g_prev g)" and "can_forward s (g_world g) (g_prev g) (g_next g)"
    and "ready s" and "rx_inv s" and "fed s" and "ranks (g_world g) \<noteq> 0" and "rank_in_exchmem (g_world g) (g_next g)"
    and "free_words (nbufs s) (ring_words g)"
    and "rank_addr (g_world g) (g_prev g) inbound_seq < 0x2000" and "rank_addr (g_world g) (g_next g) outbound_seq < 0x2000"
proof -
  show f: "can_forward s (g_world g) (g_prev g) (g_next g)" using assms by (simp add: in_ring_def)
  show c: "can_receive s (g_world g) (g_prev g)" using f by (simp add: can_forward_def)
  show "ready s" "rx_inv s" "fed s" "ranks (g_world g) \<noteq> 0" "rank_in_exchmem (g_world g) (g_next g)"
    "rank_addr (g_world g) (g_prev g) inbound_seq < 0x2000" "rank_addr (g_world g) (g_next g) outbound_seq < 0x2000"
    using f c by (simp_all add: can_forward_def can_receive_def rx_world_def rank_in_exchmem_def)
  have "free_words (nbufs s) peripherals" using c by (intro periphs_free) (simp add: can_receive_def rx_inv_def)
  with f c show "free_words (nbufs s) (ring_words g)"
    by (auto simp: ring_words_def can_forward_def can_receive_def rx_world_def free_words_def isr_words_def)
qed

lemma frame_rx_kept:
  assumes "in_ring g s" and "frame A s t" and "A \<subseteq> ring_words g" and "same_rx s t"
  shows "rx_kept (ring_words g) s t"
  by (rule rx_kept_frame(1) [OF in_ringD(4,5) [OF assms(1)] frame_mono [OF assms(2,3)] in_ringD(8) [OF assms(1)] assms(4)])

lemma headers_of_0: "concat (map (headers_of g s) [0..<Suc 0]) = message_headers s (g_world g) (g_next g) TAG_ANY (g_len g)"
  by (simp add: headers_of_def message_headers_def g_segs_def g_seg_def Let_def)

text \<open>
  \<open>does g m a w\<close>: from every state of the ring, \<open>m\<close> ends; when it returns, it returns \<open>a\<close> and has done \<open>w\<close>.
\<close>

definition does :: "ring \<Rightarrow> 'a fw \<Rightarrow> 'a \<Rightarrow> work \<Rightarrow> bool" where
  "does g m a w \<longleftrightarrow> (\<forall>s. in_ring g s \<longrightarrow>
     ends m s (\<lambda>r s'. r = a \<and> ran g w s s') (\<lambda>c s'. ring_error c \<and> rx_kept (ring_words g) s s'))"

lemma copy_ran:
  assumes g: "in_ring g s"
  shows "ends (copy (g_len g) src dst) s
     (\<lambda>r s'. r = COLLECTIVE_OP_SUCCESS \<and> ran g \<lparr>w_in = 0, w_out = 0, w_rx0 = [], w_rx1 = [At src], w_tx1 = [dst], w_paths = [Moved]\<rparr> s s')
     (\<lambda>c s'. ring_error c \<and> rx_kept (ring_words g) s s')"
proof -
  have ok: "dmas_ok (USE_DMA1_RX OR USE_DMA1_TX)" "1 \<in> {1, 2, 3, 4, 5, 6, 7 :: u32}" by (simp_all add: dmas_ok_def uses_def)
  note e = routed_transfer_ends [OF in_ringD(3) [OF g] ok(1) ok(2), of ARITH_NONE "g_len g" 0 src dst 0]
  show ?thesis
    unfolding copy_def dma_loopback_def
  proof (rule ends_weaken [OF ends_steers [OF steers_copy [unfolded copy_def dma_loopback_def]
        ends_leaves_rx [OF leaves_rx_copy [unfolded copy_def dma_loopback_def] e]]], goal_cases)
    case (1 r t)
    then have t: "r = COLLECTIVE_OP_SUCCESS" "frame peripherals s t" "same_rx s t" "unsent s t"
      "transferred s (g_len g) 0 src dst 0 (USE_DMA1_RX OR USE_DMA1_TX) t"
      "controls (trace t) = controls (trace s) @ paths_set g s [Moved]" by (simp_all add: paths_set_def)
    have "mem t a = mem s a" if "a < 0x2000" for a using frame_mem [OF t(2)] that by simp
    then have "g_in g t = g_in g s" "g_out g t = g_out g s"
      using in_ringD(9,10) [OF g] by (simp_all add: in_seq_def out_seq_def)
    with t frame_rx_kept [OF g t(2) ring_words_sub(1) t(3)] show ?case
      by (auto simp: ran_def unsent_def transferred_def touches_def uses_def)
  next
    case (2 c t)
    then show ?case using frame_rx_kept [OF g _ ring_words_sub(1), of t] by (auto simp: ring_error_def)
  qed
qed

lemma transmit_ran:
  assumes g: "in_ring g s"
  shows "ends (transmit_offchip_world (g_world g) (g_next g) (g_len g) src TAG_ANY) s
     (\<lambda>r s'. r = COLLECTIVE_OP_SUCCESS \<and> ran g \<lparr>w_in = 0, w_out = 1, w_rx0 = [], w_rx1 = [At src], w_tx1 = [], w_paths = [Sent]\<rparr> s s')
     (\<lambda>c s'. ring_error c \<and> rx_kept (ring_words g) s s')"
proof -
  let ?A = "peripherals \<union> {rank_addr (g_world g) (g_next g) outbound_seq}"
  note e = transmit_ends [OF in_ringD(3,6,7) [OF g], of "g_len g" src TAG_ANY]
  show ?thesis
  proof (rule ends_weaken [OF ends_steers [OF steers_transmit ends_leaves_rx [OF leaves_rx_transmit e]]], goal_cases)
    case (1 r t)
    then have t: "r = COLLECTIVE_OP_SUCCESS" "messaged (g_world g) (g_next g) TAG_ANY (g_len g) src s t" "same_rx s t"
      "controls (trace t) = controls (trace s) @ paths_set g s [Sent]" by (simp_all add: paths_set_def)
    then have fr: "frame ?A s t" by (simp add: messaged_def)
    have "rank_addr (g_world g) (g_prev g) inbound_seq \<noteq> rank_addr (g_world g) (g_next g) outbound_seq"
      using in_ringD(2) [OF g] by (auto simp: can_forward_def)
    then have "g_in g t = g_in g s"
      using frame_mem [OF fr] in_ringD(9) [OF g] by (simp add: in_seq_def)
    moreover have "rx_kept (ring_words g) s t" by (rule frame_rx_kept [OF g fr ring_words_sub(2) t(3)])
    ultimately show ?case
      using t(1,2,4) headers_of_0 [of g s]
      by (auto simp: ran_def messaged_def headers_put_def transferred_def touches_def uses_def g_segs_def)
  next
    case (2 c t)
    then show ?case using frame_rx_kept [OF g _ ring_words_sub(2), of t] by (auto simp: ring_error_def forward_error_def)
  qed
qed

lemma consumed_work:
  assumes "consumed s (g_world g) (g_prev g) TAG_ANY (g_len g) op0 dst what t"
  shows "\<exists>bs es. taken_ok g s bs \<and> trace t = trace s @ es \<and> whole_commands es \<and>
     g_in g t = g_in g s + of_nat (g_segs g s) \<and> segments_came g s 0 t \<and>
     accessed CMD_DMA0_RX es = (if uses what USE_DMA0_RX then buffer op0 (g_len g) else []) \<and>
     accessed CMD_DMA1_RX es = taken g s bs \<and>
     accessed CMD_DMA1_TX es = (if uses what USE_DMA1_TX then buffer dst (g_len g) else []) \<and>
     accessed CMD_DMA2_RX es = []"
proof -
  from assms obtain bs es where "length bs = g_segs g s" "trace t = trace s @ es" "whole_commands es"
    and came: "\<And>k. k < g_segs g s \<Longrightarrow> unat (bs ! k) < nbufs s \<and> (\<exists>x. came s t [g_seg g s k, x, g_prev g, g_in g s + of_nat k + 1])"
    and "g_in g t = g_in g s + of_nat (g_segs g s)"
    "accessed CMD_DMA0_RX es = (if uses what USE_DMA0_RX then buffer op0 (g_len g) else [])"
    "accessed CMD_DMA1_RX es = taken g s bs"
    "accessed CMD_DMA1_TX es = (if uses what USE_DMA1_TX then buffer dst (g_len g) else [])"
    "accessed CMD_DMA2_RX es = []"
    unfolding consumed_def Let_def taken_def g_segs_def [symmetric] g_seg_def [symmetric] by blast
  moreover have "taken_ok g s bs"
    using calculation(1) came by (auto simp: taken_ok_def in_set_conv_nth)
  moreover have "segments_came g s 0 t" using came by (simp add: segments_came_def)
  ultimately show ?thesis by blast
qed

lemma receive_ran:
  assumes g: "in_ring g s"
  shows "ends (receive_offchip_world (g_world g) (g_prev g) (g_len g) dst TAG_ANY) s
     (\<lambda>r s'. r = COLLECTIVE_OP_SUCCESS \<and> ran g \<lparr>w_in = 1, w_out = 0, w_rx0 = [], w_rx1 = [Msg], w_tx1 = [dst], w_paths = [Moved]\<rparr> s s')
     (\<lambda>c s'. ring_error c \<and> rx_kept (ring_words g) s s')"
proof (rule ends_weaken [OF ends_steers [OF steers_receive receive_ends [OF in_ringD(1) [OF g]]]], goal_cases)
  case (1 r t)
  then have k: "rx_kept (peripherals \<union> in_word (g_world g) (g_prev g)) s t" by simp
  have kept: "rx_kept (ring_words g) s t" by (rule rx_kept_mono [OF k ring_words_sub(3)])
  let ?o = "rank_addr (g_world g) (g_next g) outbound_seq"
  have "?o < 0x2000" "?o \<notin> isr_words (nbufs s)" "?o \<noteq> rank_addr (g_world g) (g_prev g) inbound_seq"
    using in_ringD(2,10) [OF g] by (auto simp: can_forward_def)
  then have "g_out g t = g_out g s" using k by (simp add: out_seq_def rx_kept_def)
  with 1 kept consumed_work [of s g 0 dst RECEIVE_DMAS t] show ?case
    by (auto simp: ran_def stored_def unsent_def uses_def paths_set_def)
next
  case (2 c t)
  then show ?case
    using rx_kept_mono [OF _ ring_words_sub(3), of g s t]
    by (auto simp: ring_error_def forward_error_def recv_error_def)
qed

lemma accumulate_ran:
  assumes g: "in_ring g s"
  shows "ends (receive_and_accumulate (g_world g) (g_prev g) (g_len g) func op0 dst TAG_ANY) s
     (\<lambda>r s'. r = COLLECTIVE_OP_SUCCESS \<and> reduced (g_len g) func s s' \<and> 
        ran g \<lparr>w_in = 1, w_out = 0, w_rx0 = [op0], w_rx1 = [Msg], w_tx1 = [dst], w_paths = [Combined func]\<rparr> s s')
     (\<lambda>c s'. ring_error c \<and> rx_kept (ring_words g) s s')"
proof (rule ends_weaken [OF ends_steers [OF steers_accumulate accumulate_ends [OF in_ringD(1) [OF g]]]], goal_cases)
  case (1 r t)
  then have k: "rx_kept (peripherals \<union> in_word (g_world g) (g_prev g)) s t" by simp
  have kept: "rx_kept (ring_words g) s t" by (rule rx_kept_mono [OF k ring_words_sub(3)])
  let ?o = "rank_addr (g_world g) (g_next g) outbound_seq"
  have "?o < 0x2000" "?o \<notin> isr_words (nbufs s)" "?o \<noteq> rank_addr (g_world g) (g_prev g) inbound_seq"
    using in_ringD(2,10) [OF g] by (auto simp: can_forward_def)
  then have "g_out g t = g_out g s" using k by (simp add: out_seq_def rx_kept_def)
  with 1 kept consumed_work [of s g op0 dst ACCUMULATE_DMAS t] show ?case
    by (auto simp: ran_def stored_def unsent_def uses_def paths_set_def)
next
  case (2 c t)
  then show ?case
    using rx_kept_mono [OF _ ring_words_sub(3), of g s t]
    by (auto simp: ring_error_def forward_error_def recv_error_def)
qed

lemma forwarded_ran:
  assumes "rx_kept (ring_words g) s t" and "forwarded s (g_world g) (g_prev g) (g_next g) TAG_ANY (g_len g) op0 what t"
    and "\<not> uses what USE_DMA1_TX" and "controls (trace t) = controls (trace s) @ paths_set g s ps"
  shows "ran g \<lparr>w_in = 1, w_out = 1, w_rx0 = (if uses what USE_DMA0_RX then [op0] else []), w_rx1 = [Msg], w_tx1 = [], w_paths = ps\<rparr> s t"
  using assms consumed_work [of s g op0 0 what t] headers_of_0 [of g s]
  by (auto simp: ran_def forwarded_def headers_put_def g_segs_def)

lemma relay_ran:
  assumes g: "in_ring g s"
  shows "ends (relay_to_other_rank (g_world g) (g_prev g) (g_next g) (g_len g) TAG_ANY) s
     (\<lambda>r s'. r = COLLECTIVE_OP_SUCCESS \<and> ran g \<lparr>w_in = 1, w_out = 1, w_rx0 = [], w_rx1 = [Msg], w_tx1 = [], w_paths = [Sent]\<rparr> s s')
     (\<lambda>c s'. ring_error c \<and> rx_kept (ring_words g) s s')"
  by (rule ends_weaken [OF ends_steers [OF steers_relay relay_ends [OF in_ringD(2) [OF g], folded ring_words_def]]])
    (use forwarded_ran [of g s _ 0 RELAY_DMAS "[Sent]"] in \<open>auto simp: uses_def ring_error_def paths_set_def\<close>)

lemma reduce_ran:
  assumes g: "in_ring g s"
  shows "ends (receive_and_reduce_offchip (g_world g) (g_prev g) (g_next g) (g_len g) func op0 TAG_ANY) s
     (\<lambda>r s'. r = COLLECTIVE_OP_SUCCESS \<and> reduced (g_len g) func s s' \<and> 
        ran g \<lparr>w_in = 1, w_out = 1, w_rx0 = [op0], w_rx1 = [Msg], w_tx1 = [], w_paths = [Combined_sent func]\<rparr> s s')
     (\<lambda>c s'. ring_error c \<and> rx_kept (ring_words g) s s')"
  by (rule ends_weaken [OF ends_steers [OF steers_reduce receive_reduce_ends [OF in_ringD(2) [OF g], folded ring_words_def]]])
    (use forwarded_ran [of g s _ op0 REDUCE_DMAS "[Combined_sent func]"] in \<open>auto simp: uses_def ring_error_def paths_set_def\<close>)

subsection \<open>Rings of a communicator\<close>

text \<open>The communicator at an address of exchange memory; the bound keeps the additions of two ranks from wrapping.\<close>

definition comm_at :: "fw_state \<Rightarrow> u32 \<Rightarrow> communicator \<Rightarrow> bool" where
  "comm_at s comm world \<longleftrightarrow> comm < 0x1FF8 \<and> local_rank world < size' world \<and> size' world \<le> 0x80000000 \<and>
     world = \<lparr>size' = mem s comm, local_rank = mem s (comm + 4), ranks = comm + 8\<rparr>"

abbreviation (input) prev_rank :: "communicator \<Rightarrow> u32" where
  "prev_rank world \<equiv> (local_rank world + size' world - 1) mod size' world"

abbreviation (input) next_rank :: "communicator \<Rightarrow> u32" where
  "next_rank world \<equiv> (local_rank world + 1) mod size' world"

definition ring_of :: "communicator \<Rightarrow> u32 \<Rightarrow> ring" where
  "ring_of world len = \<lparr>g_world = world, g_prev = prev_rank world, g_next = next_rank world, g_len = len\<rparr>"

lemma ring_of_fields [simp]:
  "g_world (ring_of world len) = world" "g_prev (ring_of world len) = prev_rank world"
  "g_next (ring_of world len) = next_rank world" "g_len (ring_of world len) = len"
  by (simp_all add: ring_of_def)

lemma comm_run:
  assumes "comm_at s comm world"
  shows "find_comm comm s = Some (Ret world, s)"
    and "next_in_ring world s = Some (Ret (next_rank world), s)" and "prev_in_ring world s = Some (Ret (prev_rank world), s)"
proof -
  have "size' world \<noteq> 0" using assms by (auto simp: comm_at_def)
  then show "next_in_ring world s = Some (Ret (next_rank world), s)" "prev_in_ring world s = Some (Ret (prev_rank world), s)"
    by (simp_all add: next_in_ring_def prev_in_ring_def c_mod_def prim_run)
  show "find_comm comm s = Some (Ret world, s)"
  proof -
    have w: "world = \<lparr>size' = mem s comm, local_rank = mem s (comm + 4), ranks = comm + 8\<rparr>" and "comm < 0x1FF8"
      and "local_rank world < size' world" using assms unfolding comm_at_def by blast+
    then have "mem s (comm + 4) < mem s comm" by simp
    from find_comm_run [OF \<open>comm < 0x1FF8\<close> refl refl this] show ?thesis by (simp only: w)
  qed
qed

text \<open>Every ring collective starts by finding the communicator and its neighbours.\<close>

lemma ends_ring:
  assumes "comm_at s comm world" and "ends (f world (next_rank world) (prev_rank world)) s Q E"
  shows "ends (bnd (find_comm comm) (\<lambda>world. bnd (next_in_ring world) (\<lambda>nxt. bnd (prev_in_ring world) (f world nxt)))) s Q E"
  using assms(2) by (simp add: ends_def bnd_def comm_run [OF assms(1)])

text \<open>The rank \<open>k\<close> places before the local one: the order in which the buffers of all ranks come by.\<close>

definition slot :: "communicator \<Rightarrow> nat \<Rightarrow> u32" where
  "slot world k = of_nat ((unat (local_rank world) + k * (unat (size' world) - 1)) mod unat (size' world))"

definition world_ok :: "communicator \<Rightarrow> bool" where
  "world_ok world \<longleftrightarrow> local_rank world < size' world \<and> size' world \<le> 0x80000000"

lemma comm_world_ok: "comm_at s comm world \<Longrightarrow> world_ok world"
  unfolding comm_at_def world_ok_def by blast

lemma world_okD:
  assumes "world_ok world"
  shows "unat (local_rank world) < unat (size' world)" and "unat (size' world) \<le> 2 ^ 31" and "size' world \<noteq> 0"
  using assms by (auto simp: world_ok_def word_less_nat_alt word_le_nat_alt)

lemma unat_slot:
  assumes "world_ok world"
  shows "unat (slot world k) = (unat (local_rank world) + k * (unat (size' world) - 1)) mod unat (size' world)"
proof -
  have "(unat (local_rank world) + k * (unat (size' world) - 1)) mod unat (size' world) \<le> unat (size' world)"
    using world_okD(1) [OF assms] by (simp add: order_less_imp_le)
  then show ?thesis unfolding slot_def by (rule unat_of_nat_le)
qed

lemma unat_slot_back:
  assumes "world_ok world" and "k \<le> unat (size' world)"
  shows "unat (slot world k) = (unat (local_rank world) + (unat (size' world) - k)) mod unat (size' world)"
proof -
  let ?n = "unat (size' world)" and ?l = "unat (local_rank world)"
  have "k + k * (?n - 1) = k * ?n" using world_okD(1) [OF assms(1)] by (cases ?n) simp_all
  then have "?l + k * (?n - 1) + ?n = (?l + (?n - k)) + k * ?n" using assms(2) by linarith
  then have "(?l + k * (?n - 1) + ?n) mod ?n = ((?l + (?n - k)) + k * ?n) mod ?n" by (simp only:)
  then show ?thesis by (simp add: unat_slot [OF assms(1)])
qed

lemma slot_0: "world_ok world \<Longrightarrow> slot world 0 = local_rank world"
  using world_okD(1) [of world] by (simp add: word_unat_eq_iff unat_slot)

lemma slot_size: "world_ok world \<Longrightarrow> slot world (unat (size' world)) = local_rank world"
  using world_okD(1) [of world] by (simp add: word_unat_eq_iff unat_slot_back)

lemma slot_inj:
  assumes "world_ok world" and "slot world i = slot world k" and "i < unat (size' world)" and "k < unat (size' world)"
  shows "i = k"
proof -
  let ?n = "unat (size' world)" and ?l = "unat (local_rank world)"
  have l: "?l < ?n" by (rule world_okD(1) [OF assms(1)])
  have e: "(?l + (?n - x)) mod ?n = (if x \<le> ?l then ?l - x else ?l + (?n - x))" if "x < ?n" for x
  proof (cases "x \<le> ?l")
    case True
    with that have "?l + (?n - x) = (?l - x) + ?n" by simp
    then have "(?l + (?n - x)) mod ?n = (?l - x) mod ?n" by (simp only: mod_add_self2)
    with True l show ?thesis by simp
  qed (use l that in simp)
  have "unat (slot world i) = unat (slot world k)" using assms(2) by simp
  then have "(if i \<le> ?l then ?l - i else ?l + (?n - i)) = (if k \<le> ?l then ?l - k else ?l + (?n - k))"
    by (simp only: unat_slot_back [OF assms(1) less_imp_le] assms(3,4) e)
  then show ?thesis using l assms(3,4) by (auto split: if_splits)
qed

lemma slot_before:
  assumes "world_ok world"
  shows "ring_before world (slot world k) s = Some (Ret (slot world (Suc k)), s)"
proof -
  let ?n = "unat (size' world)" and ?l = "unat (local_rank world)"
  note ok = world_okD [OF assms]
  let ?a = "unat (slot world k)"
  have a: "?a < ?n" using ok(1) by (simp add: unat_slot [OF assms])
  have "unat (slot world k + size' world) = ?a + ?n" using a ok(2) by (simp add: unat_word_ariths)
  then have "unat (slot world k + size' world - 1) = ?a + (?n - 1)"
    using a by (subst unat_sub) (simp_all add: word_le_nat_alt)
  then have "unat ((slot world k + size' world - 1) mod size' world) = (?a + (?n - 1)) mod ?n"
    by (simp add: unat_mod)
  also have "\<dots> = (?l + k * (?n - 1) + (?n - 1)) mod ?n" by (simp only: unat_slot [OF assms] mod_add_left_eq)
  also have "\<dots> = unat (slot world (Suc k))" by (simp add: unat_slot [OF assms] ac_simps)
  finally have "(slot world k + size' world - 1) mod size' world = slot world (Suc k)"
    by (simp add: word_unat_eq_iff)
  with ok(3) show ?thesis by (simp add: ring_before_def c_mod_def prim_run)
qed

lemma prev_slot:
  assumes "world_ok world"
  shows "prev_rank world = slot world 1"
  using slot_before [OF assms, of 0] slot_0 [OF assms] world_okD(3) [OF assms]
  by (simp add: ring_before_def c_mod_def prim_run)

text \<open>A loop that runs through the states \<open>x 0, x 1, \<dots>, x n\<close> of its variables.\<close>

lemma loop_unfold: "loop body x = bnd (body x) (\<lambda>z. case z of Inl y \<Rightarrow> loop body y | Inr r \<Rightarrow> ret r)"
  by (rule ext, subst loop.simps) (simp add: bnd_def prim_run split: option.split prod.split outcome.split sum.split)

lemma steps_ends:
  assumes go: "\<And>k s. k < n \<Longrightarrow> I k s \<Longrightarrow> ends (body (x k)) s (\<lambda>z s'. z = Inl (x (Suc k)) \<and> I (Suc k) s') E"
    and stop: "\<And>s. I n s \<Longrightarrow> ends (body (x n)) s (\<lambda>z s'. \<exists>r. z = Inr r \<and> Q r s') E"
    and "I 0 s"
  shows "ends (loop body (x 0)) s Q E"
proof -
  have "ends (loop body (x k)) s Q E" if "k \<le> n" "I k s" for k s
    using that
  proof (induction k arbitrary: s rule: inc_induct)
    case base
    show ?case
      unfolding loop_unfold [of body "x n"] by (rule ends_bndI [OF stop [OF base]]) auto
  next
    case (step k)
    show ?case
      unfolding loop_unfold [of body "x k"] by (rule ends_bndI [OF go [OF step(2) step.prems]]) (use step.IH in auto)
  qed
  with \<open>I 0 s\<close> show ?thesis by simp
qed

subsection \<open>Composing steps\<close>

lemma does_steps:
  "does g (copy (g_len g) src dst) COLLECTIVE_OP_SUCCESS \<lparr>w_in = 0, w_out = 0, w_rx0 = [], w_rx1 = [At src], w_tx1 = [dst], w_paths = [Moved]\<rparr>"
  "does g (transmit_offchip_world (g_world g) (g_next g) (g_len g) src TAG_ANY) COLLECTIVE_OP_SUCCESS
     \<lparr>w_in = 0, w_out = 1, w_rx0 = [], w_rx1 = [At src], w_tx1 = [], w_paths = [Sent]\<rparr>"
  "does g (receive_offchip_world (g_world g) (g_prev g) (g_len g) dst TAG_ANY) COLLECTIVE_OP_SUCCESS
     \<lparr>w_in = 1, w_out = 0, w_rx0 = [], w_rx1 = [Msg], w_tx1 = [dst], w_paths = [Moved]\<rparr>"
  "does g (relay_to_other_rank (g_world g) (g_prev g) (g_next g) (g_len g) TAG_ANY) COLLECTIVE_OP_SUCCESS
     \<lparr>w_in = 1, w_out = 1, w_rx0 = [], w_rx1 = [Msg], w_tx1 = [], w_paths = [Sent]\<rparr>"
  "does g (receive_and_reduce_offchip (g_world g) (g_prev g) (g_next g) (g_len g) func op0 TAG_ANY) COLLECTIVE_OP_SUCCESS
     \<lparr>w_in = 1, w_out = 1, w_rx0 = [op0], w_rx1 = [Msg], w_tx1 = [], w_paths = [Combined_sent func]\<rparr>"
  "does g (receive_and_accumulate (g_world g) (g_prev g) (g_len g) func op0 dst TAG_ANY) COLLECTIVE_OP_SUCCESS
     \<lparr>w_in = 1, w_out = 0, w_rx0 = [op0], w_rx1 = [Msg], w_tx1 = [dst], w_paths = [Combined func]\<rparr>"
  unfolding does_def
  by (intro allI impI copy_ran transmit_ran receive_ran relay_ran ends_weaken [OF reduce_ran] ends_weaken [OF accumulate_ran]; simp)+

lemma does_pure: "(\<And>s. m s = Some (Ret a, s)) \<Longrightarrow> does g m a no_work"
  by (simp add: does_def ends_def ran_refl)

lemma does_ret: "does g (ret a) a no_work"
  by (rule does_pure) (simp add: prim_run)

lemma does_bnd:
  assumes "does g m a w" and "does g (f a) b v"
  shows "does g (bnd m f) b (after w v)"
  unfolding does_def
proof (intro allI impI)
  fix s assume s: "in_ring g s"
  show "ends (bnd m f) s (\<lambda>r s'. r = b \<and> ran g (after w v) s s') (\<lambda>c s'. ring_error c \<and> rx_kept (ring_words g) s s')"
  proof (rule ends_bndI [OF assms(1) [unfolded does_def, rule_format, OF s]])
    fix r t assume t: "r = a \<and> ran g w s t"
    then have k: "rx_kept (ring_words g) s t" using ran_kept by blast
    from assms(2) ring_kept(1) [OF s k]
    have "ends (f a) t (\<lambda>r s'. r = b \<and> ran g v t s') (\<lambda>c s'. ring_error c \<and> rx_kept (ring_words g) t s')"
      by (simp add: does_def)
    then show "ends (f r) t (\<lambda>r s'. r = b \<and> ran g (after w v) s s') (\<lambda>c s'. ring_error c \<and> rx_kept (ring_words g) s s')"
      using t ran_trans [OF s] rx_kept_trans [OF k] by (auto elim: ends_weaken)
  qed
qed

lemma does_seq: "does g m a w \<Longrightarrow> does g (f a) b v \<Longrightarrow> after w v = x \<Longrightarrow> does g (bnd m f) b x"
  by (blast dest: does_bnd)

lemma does_weaken: "does g m a w \<Longrightarrow> w = v \<Longrightarrow> a = b \<Longrightarrow> does g m b v"
  by simp

text \<open>A loop whose variables run through \<open>x 0, x 1, \<dots>, x n\<close>.\<close>

lemma does_loop:
  assumes go: "\<And>k. k < n \<Longrightarrow> does g (body (x k)) (Inl (x (Suc k))) (w k)"
    and stop: "does g (body (x n)) (Inr r) no_work"
  shows "does g (loop body (x 0)) r (works w n)"
  unfolding does_def
proof (intro allI impI)
  fix s assume s: "in_ring g s"
  show "ends (loop body (x 0)) s (\<lambda>r' s'. r' = r \<and> ran g (works w n) s s') (\<lambda>c s'. ring_error c \<and> rx_kept (ring_words g) s s')"
  proof (rule steps_ends [where n = n and I = "\<lambda>k t. ran g (works w k) s t"])
    fix k t assume k: "k < n" and t: "ran g (works w k) s t"
    note kt = ran_kept [OF t]
    from go [OF k] ring_kept(1) [OF s kt]
    have "ends (body (x k)) t (\<lambda>z u. z = Inl (x (Suc k)) \<and> ran g (w k) t u) (\<lambda>c s'. ring_error c \<and> rx_kept (ring_words g) t s')"
      by (simp add: does_def)
    then show "ends (body (x k)) t (\<lambda>z u. z = Inl (x (Suc k)) \<and> ran g (works w (Suc k)) s u)
       (\<lambda>c s'. ring_error c \<and> rx_kept (ring_words g) s s')"
      by (rule ends_weaken) (use ran_trans [OF s t] rx_kept_trans [OF kt] in auto)
  next
    fix t assume t: "ran g (works w n) s t"
    note kt = ran_kept [OF t]
    from stop ring_kept(1) [OF s kt]
    have "ends (body (x n)) t (\<lambda>z u. z = Inr r \<and> ran g no_work t u) (\<lambda>c s'. ring_error c \<and> rx_kept (ring_words g) t s')"
      by (simp add: does_def)
    then show "ends (body (x n)) t (\<lambda>z s'. \<exists>q. z = Inr q \<and> q = r \<and> ran g (works w n) s s')
       (\<lambda>c s'. ring_error c \<and> rx_kept (ring_words g) s s')"
      by (rule ends_weaken) (use ran_trans [OF s t, of no_work] rx_kept_trans [OF kt] in auto)
  qed (use ran_refl [OF s] in simp)
qed

lemma does_run:
  assumes "does g m a w" and "in_ring g s"
  shows "ends m s (\<lambda>r s'. r = a \<and> ran g w s s') (\<lambda>c s'. ring_error c \<and> rx_kept (ring_words g) s s')"
  using assms by (simp add: does_def)

lemma slot_first: "world_ok world \<Longrightarrow> k < unat (size' world) \<Longrightarrow> slot world k = local_rank world \<longleftrightarrow> k = 0"
  using slot_inj [of world k 0] slot_0 [of world] world_okD(1) [of world] by auto

lemma rank_index_lt:
  assumes "k \<le> unat (size' world)"
  shows "(of_nat k :: u32) < size' world \<longleftrightarrow> k < unat (size' world)"
  using unat_of_nat_le [OF assms] by (simp add: word_less_nat_alt)

lemma does_before:
  assumes "world_ok world" and "does g (f (slot world (Suc k))) a w"
  shows "does g (bnd (ring_before world (slot world k)) f) a w"
  by (rule does_weaken, rule does_bnd, rule does_pure, rule slot_before [OF assms(1)], rule assms(2)) simp_all

subsection \<open>All-gather\<close>

text \<open>Where the buffer of the rank \<open>k\<close> places before the local one goes.\<close>

definition slot_addr :: "communicator \<Rightarrow> u32 \<Rightarrow> u64 \<Rightarrow> nat \<Rightarrow> u64" where
  "slot_addr world len dst k = dst + ucast (len * slot world k)"

lemma allgather_does_step:
  fixes len :: u32 and dst :: u64
  assumes w: "world_ok world" and k: "k < unat (size' world)"
  defines "a \<equiv> slot_addr world len dst k"
  shows "does (ring_of world len)
     (allgather_step world len src dst (prev_rank world) (next_rank world) (of_nat k, slot world k, COLLECTIVE_OP_SUCCESS))
     (Inl (of_nat (Suc k), slot world (Suc k), COLLECTIVE_OP_SUCCESS))
     (if k = 0 then \<lparr>w_in = 0, w_out = 0, w_rx0 = [], w_rx1 = [At src], w_tx1 = [a], w_paths = [Moved]\<rparr>
      else if Suc k < unat (size' world) then \<lparr>w_in = 1, w_out = 1, w_rx0 = [], w_rx1 = [Msg, At a], w_tx1 = [a], w_paths = [Moved, Sent]\<rparr>
      else \<lparr>w_in = 1, w_out = 0, w_rx0 = [], w_rx1 = [Msg], w_tx1 = [a], w_paths = [Moved]\<rparr>)"
proof -
  let ?g = "ring_of world len"
  note st = does_steps [of ?g, unfolded ring_of_fields]
  have i: "(of_nat k :: u32) < size' world" "(of_nat k + 1 < size' world) = (Suc k < unat (size' world))"
    using rank_index_lt [of k world] rank_index_lt [of "Suc k" world] k by (simp_all add: add.commute)
  let ?move = "if k = 0 then copy len src a
     else bnd (receive_offchip_world world (prev_rank world) len a TAG_ANY) (\<lambda>r.
       if Suc k < unat (size' world) then transmit_offchip_world world (next_rank world) len a TAG_ANY else ret r)"
  let ?next = "\<lambda>r. bnd (ring_before world (slot world k)) (\<lambda>c. ret (Inl (of_nat k + 1, c, r)))"
  have run: "allgather_step world len src dst (prev_rank world) (next_rank world) (of_nat k, slot world k, COLLECTIVE_OP_SUCCESS)
     = bnd ?move ?next"
    by (simp add: allgather_step_def a_def slot_addr_def Let_def i slot_first [OF w k] slot_0 [OF w] cong: if_cong)
  have nx: "does ?g (?next COLLECTIVE_OP_SUCCESS) (Inl (of_nat (Suc k), slot world (Suc k), COLLECTIVE_OP_SUCCESS)) no_work"
    by (rule does_before [OF w], rule does_weaken [OF does_ret]) (simp_all add: add.commute)
  have one: "does ?g (bnd m ?next) (Inl (of_nat (Suc k), slot world (Suc k), COLLECTIVE_OP_SUCCESS)) v"
    if "does ?g m COLLECTIVE_OP_SUCCESS v" for m v
    by (rule does_weaken, rule does_bnd, rule that, rule nx) simp_all
  have "does ?g (bnd (receive_offchip_world world (prev_rank world) len a TAG_ANY) (\<lambda>r.
       transmit_offchip_world world (next_rank world) len a TAG_ANY)) COLLECTIVE_OP_SUCCESS
      \<lparr>w_in = 1, w_out = 1, w_rx0 = [], w_rx1 = [Msg, At a], w_tx1 = [a], w_paths = [Moved, Sent]\<rparr>"
    by (rule does_weaken, rule does_bnd, rule st(3), rule st(2)) (simp_all add: after_def)
  moreover have "does ?g (bnd (receive_offchip_world world (prev_rank world) len a TAG_ANY) (\<lambda>r. ret r)) COLLECTIVE_OP_SUCCESS
      \<lparr>w_in = 1, w_out = 0, w_rx0 = [], w_rx1 = [Msg], w_tx1 = [a], w_paths = [Moved]\<rparr>"
    by (rule does_weaken, rule does_bnd, rule st(3), rule does_ret) simp_all
  ultimately show ?thesis
    unfolding run using st(1) by (intro one) simp
qed

text \<open>The work of the steps, written out.\<close>

definition allgather_work :: "communicator \<Rightarrow> u32 \<Rightarrow> u64 \<Rightarrow> u64 \<Rightarrow> work" where
  "allgather_work world len src dst =
     (let n = unat (size' world); a = slot_addr world len dst in
      \<lparr>w_in = n - 1, w_out = 1 + (n - 2), w_rx0 = [],
       w_rx1 = At src # concat (map (\<lambda>k. if k = 0 then [At src] else if Suc k < n then [Msg, At (a k)] else [Msg]) [0..<n]),
       w_tx1 = map a [0..<n],
       w_paths = Sent # concat (map (\<lambda>k. if k = 0 then [Moved] else if Suc k < n then [Moved, Sent] else [Moved]) [0..<n])\<rparr>)"

lemma sum_but_first: "(\<Sum>k<n. if k = 0 then 0 else (1 :: nat)) = n - 1"
  by (induction n) (auto simp: Suc_diff_le)

lemma sum_inner: "(\<Sum>k<n. if k = 0 then 0 else if Suc k < m then (1 :: nat) else 0) = min (n - 1) (m - 2)"
  by (induction n) (auto simp: min_def)

lemma allgather_does:
  assumes w: "world_ok world"
  shows "does (ring_of world len)
     (bnd (transmit_offchip_world world (next_rank world) len src TAG_ANY) (\<lambda>r.
        loop (allgather_step world len src dst (prev_rank world) (next_rank world)) (0, local_rank world, COLLECTIVE_OP_SUCCESS + r)))
     COLLECTIVE_OP_SUCCESS (allgather_work world len src dst)"
proof -
  let ?g = "ring_of world len" and ?n = "unat (size' world)"
  let ?x = "\<lambda>k. (of_nat k :: u32, slot world k, COLLECTIVE_OP_SUCCESS)"
  have stop: "does ?g (allgather_step world len src dst (prev_rank world) (next_rank world) (?x ?n)) (Inr COLLECTIVE_OP_SUCCESS) no_work"
    by (simp add: allgather_step_def does_ret)
  let ?a = "slot_addr world len dst"
  let ?w = "\<lambda>k. if k = 0 then \<lparr>w_in = 0, w_out = 0, w_rx0 = [], w_rx1 = [At src], w_tx1 = [?a k], w_paths = [Moved]\<rparr>
      else if Suc k < ?n then \<lparr>w_in = 1, w_out = 1, w_rx0 = [], w_rx1 = [Msg, At (?a k)], w_tx1 = [?a k], w_paths = [Moved, Sent]\<rparr>
      else \<lparr>w_in = 1, w_out = 0, w_rx0 = [], w_rx1 = [Msg], w_tx1 = [?a k], w_paths = [Moved]\<rparr>"
  have loop: "does ?g (loop (allgather_step world len src dst (prev_rank world) (next_rank world)) (0, local_rank world, COLLECTIVE_OP_SUCCESS + COLLECTIVE_OP_SUCCESS))
     COLLECTIVE_OP_SUCCESS (works ?w ?n)"
    using does_loop [where x = ?x and n = ?n and w = ?w, OF allgather_does_step [OF w] stop] by (simp add: slot_0 [OF w])
  have "w_in (works ?w ?n) = ?n - 1" "w_out (works ?w ?n) = ?n - 2" "w_rx0 (works ?w ?n) = []"
    "w_rx1 (works ?w ?n) = concat (map (\<lambda>k. if k = 0 then [At src] else if Suc k < ?n then [Msg, At (?a k)] else [Msg]) [0..<?n])"
    "w_paths (works ?w ?n) = concat (map (\<lambda>k. if k = 0 then [Moved] else if Suc k < ?n then [Moved, Sent] else [Moved]) [0..<?n])"
    using sum_but_first [of ?n] sum_inner [of ?n ?n]
    by (simp_all add: works_fields if_distrib [of w_in] if_distrib [of w_out] if_distrib [of w_rx0] if_distrib [of w_rx1]
        if_distrib [of w_paths] cong: if_cong)
  moreover have "w_tx1 (?w k) = [?a k]" for k by simp
  then have "w_tx1 (works ?w ?n) = map ?a [0..<?n]" unfolding works_fields by (simp only: concat_map_singleton)
  ultimately have "after \<lparr>w_in = 0, w_out = 1, w_rx0 = [], w_rx1 = [At src], w_tx1 = [], w_paths = [Sent]\<rparr> (works ?w ?n) = allgather_work world len src dst"
    by (simp add: after_def allgather_work_def Let_def)
  then show ?thesis
    by (rule does_seq [rotated 2]) (rule does_steps(2) [of ?g, unfolded ring_of_fields], rule loop)
qed

subsection \<open>Gather\<close>

lemma gather_root_step:
  assumes w: "world_ok world" and k: "k < unat (size' world)"
  shows "does (ring_of world len)
     (gather_root_step world len src dst (prev_rank world) (of_nat k, slot world (Suc k), COLLECTIVE_OP_SUCCESS))
     (Inl (of_nat (Suc k), slot world (Suc (Suc k)), COLLECTIVE_OP_SUCCESS))
     \<lparr>w_in = (if Suc k = unat (size' world) then 0 else 1), w_out = 0, w_rx0 = [],
       w_rx1 = [if Suc k = unat (size' world) then At src else Msg], w_tx1 = [slot_addr world len dst (Suc k)], w_paths = [Moved]\<rparr>"
proof -
  let ?g = "ring_of world len" and ?n = "unat (size' world)" and ?a = "slot_addr world len dst (Suc k)"
  note st = does_steps [of ?g, unfolded ring_of_fields]
  have i: "(of_nat k :: u32) < size' world" using rank_index_lt [of k world] k by simp
  have own: "slot world (Suc k) = local_rank world \<longleftrightarrow> Suc k = ?n"
    using slot_first [OF w, of "Suc k"] slot_size [OF w] k by (cases "Suc k = ?n") auto
  let ?move = "if Suc k = ?n then copy len src ?a else receive_offchip_world world (prev_rank world) len ?a TAG_ANY"
  let ?next = "\<lambda>r. bnd (ring_before world (slot world (Suc k))) (\<lambda>c. ret (Inl (of_nat k + 1, c, r)))"
  have run: "gather_root_step world len src dst (prev_rank world) (of_nat k, slot world (Suc k), COLLECTIVE_OP_SUCCESS) = bnd ?move ?next"
    by (simp add: gather_root_step_def slot_addr_def Let_def i own slot_size [OF w] cong: if_cong)
  have nx: "does ?g (?next COLLECTIVE_OP_SUCCESS) (Inl (of_nat (Suc k), slot world (Suc (Suc k)), COLLECTIVE_OP_SUCCESS)) no_work"
    by (rule does_before [OF w], rule does_weaken [OF does_ret]) (simp_all add: add.commute)
  show ?thesis
    unfolding run by (rule does_seq [rotated], rule nx, rule after_no_work) (use st(1,3) in simp)
qed

definition gather_root_work :: "communicator \<Rightarrow> u32 \<Rightarrow> u64 \<Rightarrow> u64 \<Rightarrow> work" where
  "gather_root_work world len src dst =
     (let n = unat (size' world) in
      \<lparr>w_in = n - 1, w_out = 0, w_rx0 = [], w_rx1 = replicate (n - 1) Msg @ [At src],
       w_tx1 = map (slot_addr world len dst) [1..<Suc n], w_paths = replicate n Moved\<rparr>)"

lemma works_root:
  assumes "0 < n"
  shows "works (\<lambda>k. \<lparr>w_in = (if Suc k = n then 0 else 1), w_out = 0, w_rx0 = [],
       w_rx1 = [if Suc k = n then At src else Msg], w_tx1 = [a (Suc k)], w_paths = [Moved]\<rparr>) n
     = \<lparr>w_in = n - 1, w_out = 0, w_rx0 = [], w_rx1 = replicate (n - 1) Msg @ [At src], w_tx1 = map a [1..<Suc n], w_paths = replicate n Moved\<rparr>"
    (is "works ?w n = _")
proof -
  have "works ?w k = \<lparr>w_in = k, w_out = 0, w_rx0 = [], w_rx1 = replicate k Msg, w_tx1 = map a [1..<Suc k], w_paths = replicate k Moved\<rparr>" if "k < n" for k
    using that by (induction k) (simp_all add: after_def replicate_append_same)
  from this [of "n - 1"] assms show ?thesis by (cases n) (simp_all add: after_def replicate_append_same)
qed

lemma gather_root_does:
  assumes w: "world_ok world"
  shows "does (ring_of world len)
     (loop (gather_root_step world len src dst (prev_rank world)) (0, prev_rank world, COLLECTIVE_OP_SUCCESS))
     COLLECTIVE_OP_SUCCESS (gather_root_work world len src dst)"
proof -
  let ?n = "unat (size' world)"
  let ?x = "\<lambda>k. (of_nat k :: u32, slot world (Suc k), COLLECTIVE_OP_SUCCESS)"
  have stop: "does (ring_of world len) (gather_root_step world len src dst (prev_rank world) (?x ?n)) (Inr COLLECTIVE_OP_SUCCESS) no_work"
    by (simp add: gather_root_step_def does_ret)
  have n: "0 < ?n" using world_okD(1) [OF w] by simp
  have "does (ring_of world len) (loop (gather_root_step world len src dst (prev_rank world)) (?x 0))
     COLLECTIVE_OP_SUCCESS (gather_root_work world len src dst)"
    unfolding gather_root_work_def Let_def works_root [OF n, symmetric]
    by (rule does_loop [where x = ?x, OF gather_root_step [OF w] stop])
  then show ?thesis by (simp add: prev_slot [OF w])
qed

text \<open>The other ranks send their own buffer and pass on those of the ranks between the root and them.\<close>

definition gather_relay_work :: "u64 \<Rightarrow> nat \<Rightarrow> work" where
  "gather_relay_work src m = \<lparr>w_in = m, w_out = Suc m, w_rx0 = [], w_rx1 = At src # replicate m Msg, w_tx1 = [],
     w_paths = replicate (Suc m) Sent\<rparr>"

lemma works_relay:
  "works (\<lambda>_. \<lparr>w_in = 1, w_out = 1, w_rx0 = [], w_rx1 = [Msg], w_tx1 = [], w_paths = [Sent]\<rparr>) n
     = \<lparr>w_in = n, w_out = n, w_rx0 = [], w_rx1 = replicate n Msg, w_tx1 = [], w_paths = replicate n Sent\<rparr>"
  by (induction n) (simp_all add: after_def replicate_append_same)

lemma relay_loop_does:
  "does (ring_of world len) (loop (gather_relay_step world len (prev_rank world) (next_rank world) m) 0) ()
     \<lparr>w_in = unat m, w_out = unat m, w_rx0 = [], w_rx1 = replicate (unat m) Msg, w_tx1 = [], w_paths = replicate (unat m) Sent\<rparr>"
proof -
  let ?g = "ring_of world len" and ?step = "gather_relay_step world len (prev_rank world) (next_rank world) m"
  have go: "does ?g (?step (of_nat k)) (Inl (of_nat (Suc k))) \<lparr>w_in = 1, w_out = 1, w_rx0 = [], w_rx1 = [Msg], w_tx1 = [], w_paths = [Sent]\<rparr>"
    if k: "k < unat m" for k
  proof -
    have "(of_nat k :: u32) < m" using k unat_of_nat_le [of k m] by (simp add: word_less_nat_alt)
    then have "?step (of_nat k) = bnd (relay_to_other_rank world (prev_rank world) (next_rank world) len TAG_ANY) (\<lambda>_. ret (Inl (of_nat k + 1)))"
      by (simp add: gather_relay_step_def)
    then show ?thesis
      using does_seq [OF does_steps(4) [of ?g, unfolded ring_of_fields] does_ret after_no_work(1), of "\<lambda>_. Inl (of_nat k + 1)"]
      by (simp add: add.commute)
  qed
  have stop: "does ?g (?step (of_nat (unat m))) (Inr ()) no_work" by (simp add: gather_relay_step_def does_ret)
  have "does ?g (loop ?step (of_nat 0)) () (works (\<lambda>_. \<lparr>w_in = 1, w_out = 1, w_rx0 = [], w_rx1 = [Msg], w_tx1 = [], w_paths = [Sent]\<rparr>) (unat m))"
    by (rule does_loop [where x = of_nat and body = ?step, OF go stop])
  then show ?thesis unfolding works_relay by simp
qed

lemma gather_relay_does:
  "does (ring_of world len)
     (bnd (transmit_offchip_world world (next_rank world) len src TAG_ANY) (\<lambda>r.
      bnd (loop (gather_relay_step world len (prev_rank world) (next_rank world) m) 0) (\<lambda>_. ret (COLLECTIVE_OP_SUCCESS + r))))
     COLLECTIVE_OP_SUCCESS (gather_relay_work src (unat m))"
proof (rule does_seq, rule does_steps(2) [of "ring_of world len", unfolded ring_of_fields])
  show "does (ring_of world len)
     (bnd (loop (gather_relay_step world len (prev_rank world) (next_rank world) m) 0) (\<lambda>_. ret (COLLECTIVE_OP_SUCCESS + COLLECTIVE_OP_SUCCESS)))
     COLLECTIVE_OP_SUCCESS \<lparr>w_in = unat m, w_out = unat m, w_rx0 = [], w_rx1 = replicate (unat m) Msg, w_tx1 = [], w_paths = replicate (unat m) Sent\<rparr>"
    by (rule does_seq, rule relay_loop_does, rule does_weaken [OF does_ret], rule refl, simp, rule after_no_work(1))
qed (simp add: gather_relay_work_def after_def)

subsection \<open>Reduce-scatter and all-reduce\<close>

text \<open>
  The chunk that a rank sends first is the one before its own; each chunk it receives it adds to its own copy and passes on, and
  the last one, which is its own, it stores.
\<close>

definition scatter_reduce_work :: "communicator \<Rightarrow> u32 \<Rightarrow> u32 \<Rightarrow> u64 \<Rightarrow> u64 \<Rightarrow> work" where
  "scatter_reduce_work world len func src dst =
     (let n = unat (size' world); a = slot_addr world len src in
      \<lparr>w_in = n - 1, w_out = n - 1, w_rx0 = map a [2..<Suc n], w_rx1 = At (a 1) # replicate (n - 1) Msg,
       w_tx1 = [slot_addr world len dst n], w_paths = Sent # replicate (n - 2) (Combined_sent func) @ [Combined func]\<rparr>)"

lemma size_minus:
  assumes "2 \<le> unat (size' world)" and "k \<le> unat (size' world)"
  shows "(of_nat k :: u32) < size' world - 2 \<longleftrightarrow> k < unat (size' world) - 2"
    and "(of_nat k :: u32) < size' world - 1 \<longleftrightarrow> k < unat (size' world) - 1"
    and "1 < size' world"
proof -
  have "unat (size' world - 2) = unat (size' world) - 2" "unat (size' world - 1) = unat (size' world) - 1"
    using assms(1) by (simp_all add: unat_sub word_le_nat_alt)
  then show "(of_nat k :: u32) < size' world - 2 \<longleftrightarrow> k < unat (size' world) - 2"
    "(of_nat k :: u32) < size' world - 1 \<longleftrightarrow> k < unat (size' world) - 1"
    using unat_of_nat_le [OF assms(2)] by (simp_all add: word_less_nat_alt)
  show "1 < size' world" using assms(1) by (simp add: word_less_nat_alt)
qed

lemma scatter_reduce_does_step:
  assumes w: "world_ok world" and n: "2 \<le> unat (size' world)" and k: "k < unat (size' world) - 2"
  shows "does (ring_of world len)
     (scatter_reduce_step world len func src (prev_rank world) (next_rank world) (of_nat k, slot world (Suc (Suc k))))
     (Inl (of_nat (Suc k), slot world (Suc (Suc (Suc k)))))
     \<lparr>w_in = 1, w_out = 1, w_rx0 = [slot_addr world len src (Suc (Suc k))], w_rx1 = [Msg], w_tx1 = [], w_paths = [Combined_sent func]\<rparr>"
proof -
  let ?g = "ring_of world len"
  have "(of_nat k :: u32) < size' world - 2" using size_minus(1) [OF n] k by simp
  then have run: "scatter_reduce_step world len func src (prev_rank world) (next_rank world) (of_nat k, slot world (Suc (Suc k)))
     = bnd (receive_and_reduce_offchip world (prev_rank world) (next_rank world) len func (slot_addr world len src (Suc (Suc k))) TAG_ANY) (\<lambda>r.
         if r \<noteq> COLLECTIVE_OP_SUCCESS then ret (Inr (r, slot world (Suc (Suc k))))
         else bnd (ring_before world (slot world (Suc (Suc k)))) (\<lambda>c. ret (Inl (of_nat k + 1, c))))"
    by (simp add: scatter_reduce_step_def slot_addr_def)
  have nx: "does ?g (bnd (ring_before world (slot world (Suc (Suc k)))) (\<lambda>c. ret (Inl (of_nat k + 1, c)))) (Inl (of_nat (Suc k), slot world (Suc (Suc (Suc k))))) no_work"
    by (rule does_before [OF w], rule does_weaken [OF does_ret]) (simp_all add: add.commute)
  show ?thesis
    unfolding run
    by (rule does_seq, rule does_steps(5) [of ?g, unfolded ring_of_fields], subst if_not_P, simp, rule nx, rule after_no_work(1))
qed

lemma works_reduce:
  "works (\<lambda>k. \<lparr>w_in = 1, w_out = 1, w_rx0 = [a (Suc (Suc k))], w_rx1 = [Msg], w_tx1 = [], w_paths = [p]\<rparr>) n
     = \<lparr>w_in = n, w_out = n, w_rx0 = map a [2..<Suc (Suc n)], w_rx1 = replicate n Msg, w_tx1 = [], w_paths = replicate n p\<rparr>"
  by (induction n) (simp_all add: after_def replicate_append_same)

lemma scatter_reduce_loop_does:
  assumes w: "world_ok world" and n: "2 \<le> unat (size' world)"
  shows "does (ring_of world len)
     (loop (scatter_reduce_step world len func src (prev_rank world) (next_rank world)) (0, slot world (Suc (Suc 0))))
     (COLLECTIVE_OP_SUCCESS, local_rank world)
     \<lparr>w_in = unat (size' world) - 2, w_out = unat (size' world) - 2, w_rx0 = map (slot_addr world len src) [2..<unat (size' world)],
       w_rx1 = replicate (unat (size' world) - 2) Msg, w_tx1 = [], w_paths = replicate (unat (size' world) - 2) (Combined_sent func)\<rparr>"
proof -
  let ?n = "unat (size' world)" and ?step = "scatter_reduce_step world len func src (prev_rank world) (next_rank world)"
  let ?x = "\<lambda>k. (of_nat k :: u32, slot world (Suc (Suc k)))"
  have "\<not> (of_nat (?n - 2) :: u32) < size' world - 2" using size_minus(1) [OF n, of "?n - 2"] by simp
  then have stop: "does (ring_of world len) (?step (?x (?n - 2))) (Inr (COLLECTIVE_OP_SUCCESS, local_rank world)) no_work"
  proof -
    have "Suc (Suc (?n - 2)) = ?n" using n by simp
    then show ?thesis
      using slot_size [OF w] \<open>\<not> _\<close> by (simp add: scatter_reduce_step_def does_ret)
  qed
  have "does (ring_of world len) (loop ?step (?x 0)) (COLLECTIVE_OP_SUCCESS, local_rank world)
     (works (\<lambda>k. \<lparr>w_in = 1, w_out = 1, w_rx0 = [slot_addr world len src (Suc (Suc k))], w_rx1 = [Msg], w_tx1 = [],
        w_paths = [Combined_sent func]\<rparr>) (?n - 2))"
    by (rule does_loop [where x = ?x and body = ?step, OF scatter_reduce_does_step [OF w n] stop])
  moreover have "Suc (Suc (?n - 2)) = ?n" using n by simp
  ultimately show ?thesis by (simp only: works_reduce semiring_1_class.of_nat_0)
qed

lemma scatter_reduce_does:
  assumes w: "world_ok world" and n: "2 \<le> unat (size' world)"
  shows "does (ring_of world len)
     (bnd (ring_before world (prev_rank world)) (\<lambda>curr_recv_chunk.
      bnd (transmit_offchip_world world (next_rank world) len (src + ucast (len * prev_rank world)) TAG_ANY) (\<lambda>r.
      if r \<noteq> COLLECTIVE_OP_SUCCESS then ret r
      else bnd (loop (scatter_reduce_step world len func src (prev_rank world) (next_rank world)) (0, curr_recv_chunk))
         (\<lambda>(r, curr_recv_chunk).
       if r \<noteq> COLLECTIVE_OP_SUCCESS then ret r
       else if 1 < size' world then
         bnd (receive_and_accumulate world (prev_rank world) len func (src + ucast (len * curr_recv_chunk))
                (dst + ucast (len * curr_recv_chunk)) TAG_ANY) (\<lambda>r.
         if r \<noteq> COLLECTIVE_OP_SUCCESS then ret r else ret COLLECTIVE_OP_SUCCESS)
       else ret COLLECTIVE_OP_SUCCESS))))
     COLLECTIVE_OP_SUCCESS (scatter_reduce_work world len func src dst)"
proof -
  let ?g = "ring_of world len" and ?n = "unat (size' world)"
  let ?own = "\<lambda>base :: u64. base + ucast (len * local_rank world)"
  note st = does_steps [of ?g, unfolded ring_of_fields]
  have own: "?own base = slot_addr world len base ?n" for base by (simp add: slot_addr_def slot_size [OF w])
  have 1: "does ?g (bnd (receive_and_accumulate world (prev_rank world) len func (?own src) (?own dst) TAG_ANY) (\<lambda>r.
         if r \<noteq> COLLECTIVE_OP_SUCCESS then ret r else ret COLLECTIVE_OP_SUCCESS)) COLLECTIVE_OP_SUCCESS
      \<lparr>w_in = 1, w_out = 0, w_rx0 = [?own src], w_rx1 = [Msg], w_tx1 = [?own dst], w_paths = [Combined func]\<rparr>"
    by (rule does_seq, rule st(6), subst if_not_P, simp, rule does_ret, rule after_no_work(1))
  let ?tail = "\<lambda>(r, curr_recv_chunk). if r \<noteq> COLLECTIVE_OP_SUCCESS then ret r else if 1 < size' world then
         bnd (receive_and_accumulate world (prev_rank world) len func (src + ucast (len * curr_recv_chunk))
                (dst + ucast (len * curr_recv_chunk)) TAG_ANY) (\<lambda>r.
         if r \<noteq> COLLECTIVE_OP_SUCCESS then ret r else ret COLLECTIVE_OP_SUCCESS)
       else ret COLLECTIVE_OP_SUCCESS"
  have tail: "?tail (COLLECTIVE_OP_SUCCESS, local_rank world) = bnd (receive_and_accumulate world (prev_rank world) len func (?own src) (?own dst) TAG_ANY) (\<lambda>r.
         if r \<noteq> COLLECTIVE_OP_SUCCESS then ret r else ret COLLECTIVE_OP_SUCCESS)"
    using size_minus(3) [OF n le0] by simp
  have 2: "does ?g (bnd (loop (scatter_reduce_step world len func src (prev_rank world) (next_rank world)) (0, slot world (Suc (Suc 0)))) ?tail)
      COLLECTIVE_OP_SUCCESS \<lparr>w_in = ?n - 1, w_out = ?n - 2, w_rx0 = map (slot_addr world len src) [2..<Suc ?n],
        w_rx1 = replicate (?n - 1) Msg, w_tx1 = [slot_addr world len dst ?n],
        w_paths = replicate (?n - 2) (Combined_sent func) @ [Combined func]\<rparr>"
  proof (rule does_seq, rule scatter_reduce_loop_does [OF w n], unfold tail, rule 1)
    have "replicate (?n - 2) Msg @ [Msg] = replicate (?n - 1) Msg"
      using n by (simp add: replicate_append_same) (simp flip: replicate_Suc)
    then show "after \<lparr>w_in = ?n - 2, w_out = ?n - 2, w_rx0 = map (slot_addr world len src) [2..<?n],
       w_rx1 = replicate (?n - 2) Msg, w_tx1 = [], w_paths = replicate (?n - 2) (Combined_sent func)\<rparr>
       \<lparr>w_in = 1, w_out = 0, w_rx0 = [?own src], w_rx1 = [Msg], w_tx1 = [?own dst], w_paths = [Combined func]\<rparr>
      = \<lparr>w_in = ?n - 1, w_out = ?n - 2, w_rx0 = map (slot_addr world len src) [2..<Suc ?n],
        w_rx1 = replicate (?n - 1) Msg, w_tx1 = [slot_addr world len dst ?n],
        w_paths = replicate (?n - 2) (Combined_sent func) @ [Combined func]\<rparr>"
      using n by (simp add: after_def own)
  qed
  have before: "does ?g (bnd (ring_before world (prev_rank world)) f) a v" if "does ?g (f (slot world (Suc (Suc 0)))) a v"
    for f and a :: u32 and v
    unfolding prev_slot [OF w] One_nat_def by (rule does_before [OF w], rule that)
  show ?thesis
  proof (rule before, rule does_seq, rule st(2), subst if_not_P, simp, rule 2)
    show "after \<lparr>w_in = 0, w_out = 1, w_rx0 = [], w_rx1 = [At (src + ucast (len * prev_rank world))], w_tx1 = [], w_paths = [Sent]\<rparr>
        \<lparr>w_in = ?n - 1, w_out = ?n - 2, w_rx0 = map (slot_addr world len src) [2..<Suc ?n],
          w_rx1 = replicate (?n - 1) Msg, w_tx1 = [slot_addr world len dst ?n],
          w_paths = replicate (?n - 2) (Combined_sent func) @ [Combined func]\<rparr> = scatter_reduce_work world len func src dst"
      unfolding prev_slot [OF w] using n by (simp add: after_def scatter_reduce_work_def Let_def slot_addr_def)
  qed
qed

lemma all_reduce_does_step:
  assumes w: "world_ok world" and n: "2 \<le> unat (size' world)" and k: "k < unat (size' world) - 1"
  shows "does (ring_of world len)
     (all_reduce_step world len dst (prev_rank world) (next_rank world) (of_nat k, slot world k))
     (Inl (of_nat (Suc k), slot world (Suc k)))
     \<lparr>w_in = 1, w_out = 1, w_rx0 = [], w_rx1 = [At (slot_addr world len dst k), Msg], w_tx1 = [slot_addr world len dst (Suc k)],
       w_paths = [Sent, Moved]\<rparr>"
proof -
  let ?g = "ring_of world len"
  note st = does_steps [of ?g, unfolded ring_of_fields]
  have "(of_nat k :: u32) < size' world - 1" using size_minus(2) [OF n] k by simp
  then have run: "all_reduce_step world len dst (prev_rank world) (next_rank world) (of_nat k, slot world k)
     = bnd (ring_before world (slot world k)) (\<lambda>c.
        bnd (transmit_offchip_world world (next_rank world) len (slot_addr world len dst k) TAG_ANY) (\<lambda>r.
        if r \<noteq> COLLECTIVE_OP_SUCCESS then ret (Inr r)
        else bnd (receive_offchip_world world (prev_rank world) len (dst + ucast (len * c)) TAG_ANY) (\<lambda>r.
        if r \<noteq> COLLECTIVE_OP_SUCCESS then ret (Inr r) else ret (Inl (of_nat k + 1, c)))))"
    by (simp add: all_reduce_step_def slot_addr_def Let_def)
  have 1: "does ?g (bnd (receive_offchip_world world (prev_rank world) len (dst + ucast (len * slot world (Suc k))) TAG_ANY) (\<lambda>r.
        if r \<noteq> COLLECTIVE_OP_SUCCESS then ret (Inr r) else ret (Inl (of_nat k + 1, slot world (Suc k)))))
      (Inl (of_nat (Suc k), slot world (Suc k)))
      \<lparr>w_in = 1, w_out = 0, w_rx0 = [], w_rx1 = [Msg], w_tx1 = [slot_addr world len dst (Suc k)], w_paths = [Moved]\<rparr>"
    unfolding slot_addr_def
    by (rule does_seq, rule st(3), subst if_not_P, simp, rule does_weaken [OF does_ret], rule refl, simp add: add.commute,
        rule after_no_work(1))
  show ?thesis
    unfolding run
    by (rule does_before [OF w], rule does_seq, rule st(2), subst if_not_P, simp, rule 1) (simp add: after_def)
qed

lemma works_all_reduce:
  "works (\<lambda>k. \<lparr>w_in = 1, w_out = 1, w_rx0 = [], w_rx1 = [At (b k), Msg], w_tx1 = [b (Suc k)], w_paths = [Sent, Moved]\<rparr>) n
     = \<lparr>w_in = n, w_out = n, w_rx0 = [], w_rx1 = concat (map (\<lambda>k. [At (b k), Msg]) [0..<n]), w_tx1 = map b [1..<Suc n],
         w_paths = concat (replicate n [Sent, Moved])\<rparr>"
proof (induction n)
  case (Suc n)
  have "concat (replicate n [Sent, Moved]) @ [Sent, Moved] = concat (replicate (Suc n) [Sent, Moved])"
    by (simp only: replicate_append_same [symmetric] concat_append replicate_Suc) simp
  with Suc show ?case by (simp add: after_def)
qed simp

lemma all_reduce_loop_does:
  assumes w: "world_ok world" and n: "2 \<le> unat (size' world)"
  shows "does (ring_of world len)
     (loop (all_reduce_step world len dst (prev_rank world) (next_rank world)) (0, local_rank world)) COLLECTIVE_OP_SUCCESS
     \<lparr>w_in = unat (size' world) - 1, w_out = unat (size' world) - 1, w_rx0 = [],
       w_rx1 = concat (map (\<lambda>k. [At (slot_addr world len dst k), Msg]) [0..<unat (size' world) - 1]),
       w_tx1 = map (slot_addr world len dst) [1..<unat (size' world)], w_paths = concat (replicate (unat (size' world) - 1) [Sent, Moved])\<rparr>"
proof -
  let ?n = "unat (size' world)" and ?step = "all_reduce_step world len dst (prev_rank world) (next_rank world)"
  let ?x = "\<lambda>k. (of_nat k :: u32, slot world k)"
  have "\<not> (of_nat (?n - 1) :: u32) < size' world - 1" using size_minus(2) [OF n, of "?n - 1"] by simp
  then have stop: "does (ring_of world len) (?step (?x (?n - 1))) (Inr COLLECTIVE_OP_SUCCESS) no_work"
    by (simp add: all_reduce_step_def does_ret)
  have "does (ring_of world len) (loop ?step (?x 0)) COLLECTIVE_OP_SUCCESS
     (works (\<lambda>k. \<lparr>w_in = 1, w_out = 1, w_rx0 = [], w_rx1 = [At (slot_addr world len dst k), Msg],
        w_tx1 = [slot_addr world len dst (Suc k)], w_paths = [Sent, Moved]\<rparr>) (?n - 1))"
    by (rule does_loop [where x = ?x and body = ?step, OF all_reduce_does_step [OF w n] stop])
  moreover have "Suc (?n - 1) = ?n" using n by simp
  ultimately show ?thesis by (simp only: works_all_reduce semiring_1_class.of_nat_0 slot_0 [OF w])
qed

subsection \<open>The collectives\<close>

definition chunk_of :: "u32 \<Rightarrow> u32 \<Rightarrow> u32 \<Rightarrow> u32" where
  "chunk_of len n func =
     (let q = len div n; w = arith_number_of_bytes_per func; t = q mod w in q + (- t + (if t = 0 then 0 else w)))"

lemma chunk_len_run: "n \<noteq> 0 \<Longrightarrow> chunk_len len n func s = Some (Ret (chunk_of len n func), s)"
  by (simp add: chunk_len_def chunk_of_def c_div_def c_mod_def Let_def prim_run arith_number_of_bytes_per_def)

lemma in_ring_len: "in_ring (ring_of world len) s \<longleftrightarrow> in_ring (ring_of world len') s"
  by (simp add: in_ring_def)

lemma scatter_reduce_ends:
  assumes c: "comm_at s comm world" and r: "in_ring (ring_of world len) s" and n: "2 \<le> unat (size' world)"
  shows "ends (scatter_reduce comm len func src dst) s
     (\<lambda>r s'. r = COLLECTIVE_OP_SUCCESS \<and> ran (ring_of world len) (scatter_reduce_work world len func src dst) s s')
     (\<lambda>c s'. ring_error c \<and> rx_kept (ring_words (ring_of world len)) s s')"
  unfolding scatter_reduce_def
  by (rule ends_ring [OF c], rule does_run [OF scatter_reduce_does [OF comm_world_ok [OF c] n] r])

lemma chunk_then_ring:
  assumes c: "comm_at s comm world"
    and "ends (f world (chunk_of len (size' world) func) (next_rank world) (prev_rank world)) s Q E"
  shows "ends (bnd (find_comm comm) (\<lambda>world. bnd (chunk_len len (size' world) func) (\<lambda>chunk.
     bnd (next_in_ring world) (\<lambda>nxt. bnd (prev_in_ring world) (f world chunk nxt))))) s Q E"
proof -
  have "size' world \<noteq> 0" using world_okD(3) [OF comm_world_ok [OF c]] .
  with assms(2) show ?thesis by (simp add: ends_def bnd_def comm_run [OF c] chunk_len_run)
qed

text \<open>\<open>slot world\<close> runs through all ranks.\<close>

lemma slots_all:
  assumes "world_ok world"
  shows "bij_betw (slot world) {..<unat (size' world)} {r. r < size' world}"
proof -
  let ?n = "unat (size' world)"
  have inj: "inj_on (slot world) {..<?n}" using slot_inj [OF assms] by (intro inj_onI) auto
  have sub: "slot world ` {..<?n} \<subseteq> {r. r < size' world}"
    using world_okD(1) [OF assms] by (auto simp: word_less_nat_alt unat_slot [OF assms])
  have "inj_on unat {r :: u32. r < size' world}" by (intro inj_onI) (simp add: word_unat_eq_iff)
  moreover have "unat ` {r :: u32. r < size' world} \<subseteq> {..<?n}" by (auto simp: word_less_nat_alt)
  ultimately have up: "card {r :: u32. r < size' world} \<le> ?n" and fin: "finite {r :: u32. r < size' world}"
    using card_inj_on_le [of unat "{r :: u32. r < size' world}" "{..<?n}"] by simp_all
  have "slot world ` {..<?n} = {r. r < size' world}"
    by (rule card_subset_eq [OF fin sub]) (use up card_image [OF inj] card_mono [OF fin sub] in simp)
  with inj show ?thesis by (simp add: bij_betw_def)
qed

lemma slots_from_1:
  assumes "world_ok world"
  shows "bij_betw (slot world) {1..unat (size' world)} {r. r < size' world}"
proof -
  let ?n = "unat (size' world)" and ?f = "\<lambda>i. if i = unat (size' world) then 0 else i"
  have n: "0 < ?n" using world_okD(1) [OF assms] by simp
  have "?f ` {1..?n} = {..<?n}"
  proof
    show "{..<?n} \<subseteq> ?f ` {1..?n}"
    proof
      fix i assume "i \<in> {..<?n}"
      then show "i \<in> ?f ` {1..?n}" using n by (cases "i = 0") (auto intro: image_eqI [of _ _ ?n] image_eqI [of _ _ i])
    qed
  qed (use n in auto)
  moreover have "inj_on ?f {1..?n}" by (auto simp: inj_on_def split: if_splits)
  ultimately have "bij_betw ?f {1..?n} {..<?n}" by (simp add: bij_betw_def)
  from bij_betw_trans [OF this slots_all [OF assms]]
  have "bij_betw (slot world \<circ> ?f) {1..?n} {r. r < size' world}" .
  moreover have "(slot world \<circ> ?f) i = slot world i" for i
    using slot_0 [OF assms] slot_size [OF assms] by simp
  ultimately show ?thesis by (metis (no_types, lifting) bij_betw_cong)
qed

subsection \<open>Properties\<close>

text \<open>For the examples: the communicator of two ranks of \<open>receiver\<close>.\<close>

lemma receiver_comm: "comm_at receiver 0x1100 pair"
  by (simp add: comm_at_def receiver_def three_buffers_def)

lemma receiver_in_ring: "in_ring (ring_of pair len) receiver"
proof -
  have "(0x1120 :: u32) \<notin> isr_words 3" "(0x1128 :: u32) \<notin> isr_words 3" "(0x112C :: u32) \<notin> isr_words 3"
    using three_buffers_area [of "0x1120"] three_buffers_area [of "0x1128"] three_buffers_area [of "0x112C"]
    by (auto simp: isr_words_def)
  then show ?thesis
    using receiver_can_receive
    by (simp add: in_ring_def can_forward_def receiver_nbufs rank_addr_def field_offset_def rank_in_exchmem_iff)
qed

text \<open>C7: \<open>allgather_ring\<close> ends whatever the network and the data movers deliver.  When it returns, it returned success, and it
sent \<open>n - 1\<close> messages to the next rank (one to itself in a communicator of one), its own buffer first and then each one received
but the last; it took \<open>n - 1\<close> messages of the previous rank, with consecutive sequence numbers; and DMA1 was told to write the slot of
every rank exactly once: \<open>slot world\<close> runs through all ranks, backwards from the local one.\<close>

theorem allgather_ring_correct:
  assumes "comm_at s comm world" and "in_ring (ring_of world len) s" and "n = unat (size' world)"
  shows "ends (allgather_ring comm len src dst) s
     (\<lambda>r s'. r = COLLECTIVE_OP_SUCCESS \<and> bij_betw (slot world) {..<n} {k. k < size' world} \<and>
        ran (ring_of world len)
          \<lparr>w_in = n - 1, w_out = 1 + (n - 2), w_rx0 = [],
           w_rx1 = At src # concat (map (\<lambda>k. if k = 0 then [At src]
              else if Suc k < n then [Msg, At (slot_addr world len dst k)] else [Msg]) [0..<n]),
           w_tx1 = map (slot_addr world len dst) [0..<n],
           w_paths = Sent # concat (map (\<lambda>k. if k = 0 then [Moved] else if Suc k < n then [Moved, Sent] else [Moved]) [0..<n])\<rparr> s s')
     (\<lambda>c s'. ring_error c \<and> rx_kept (ring_words (ring_of world len)) s s')"
proof -
  note w = comm_world_ok [OF assms(1)]
  have "ends (allgather_ring comm len src dst) s
     (\<lambda>r s'. r = COLLECTIVE_OP_SUCCESS \<and> ran (ring_of world len) (allgather_work world len src dst) s s')
     (\<lambda>c s'. ring_error c \<and> rx_kept (ring_words (ring_of world len)) s s')"
    unfolding allgather_ring_def by (rule ends_ring [OF assms(1)], rule does_run [OF allgather_does [OF w] assms(2)])
  then show ?thesis
    unfolding assms(3) by (rule ends_weaken) (use slots_all [OF w] in \<open>simp_all add: allgather_work_def Let_def\<close>)
qed

theorem allgather_ring_correct_witness:
  "ends (allgather_ring 0x1100 0x40 0x100000 0x200000) receiver
     (\<lambda>r s'. r = COLLECTIVE_OP_SUCCESS \<and> bij_betw (slot pair) {..<2} {k. k < 2} \<and>
        ran (ring_of pair 0x40) \<lparr>w_in = 1, w_out = 1, w_rx0 = [], w_rx1 = [At 0x100000, At 0x100000, Msg],
          w_tx1 = [0x200000, 0x200040], w_paths = [Sent, Moved, Moved]\<rparr> receiver s')
     (\<lambda>c s'. ring_error c \<and> rx_kept (ring_words (ring_of pair 0x40)) receiver s')"
proof -
  have "[0..<2] = [0, 1 :: nat]" by (simp add: upt_rec)
  then show ?thesis
    using allgather_ring_correct [OF receiver_comm receiver_in_ring, of 2 "0x40" "0x100000" "0x200000"]
    by (simp add: slot_addr_def slot_def)
qed

text \<open>C21: \<open>gather_ring\<close> ends whatever the network and the data movers deliver, and returns success when it returns.  The root took
\<open>n - 1\<close> messages of the previous rank and wrote the slot of every rank exactly once, its own with a copy of its buffer; any other
rank sent its own buffer and then passed on exactly as many messages as there are ranks between the root and it.\<close>

theorem gather_ring_correct:
  assumes "comm_at s comm world" and "in_ring (ring_of world len) s" and "n = unat (size' world)"
    and "m = unat ((size' world + local_rank world - root) mod size' world - 1)"
  shows "ends (gather_ring comm len root src dst) s
     (\<lambda>r s'. r = COLLECTIVE_OP_SUCCESS \<and>
        (if root = local_rank world
         then bij_betw (slot world) {1..n} {k. k < size' world} \<and>
           ran (ring_of world len) \<lparr>w_in = n - 1, w_out = 0, w_rx0 = [], w_rx1 = replicate (n - 1) Msg @ [At src],
             w_tx1 = map (slot_addr world len dst) [1..<Suc n], w_paths = replicate n Moved\<rparr> s s'
         else ran (ring_of world len) \<lparr>w_in = m, w_out = Suc m, w_rx0 = [], w_rx1 = At src # replicate m Msg, w_tx1 = [],
             w_paths = replicate (Suc m) Sent\<rparr> s s'))
     (\<lambda>c s'. ring_error c \<and> rx_kept (ring_words (ring_of world len)) s s')"
  unfolding gather_ring_def
proof (rule ends_ring [OF assms(1)], goal_cases)
  case 1
  note w = comm_world_ok [OF assms(1)]
  show ?case
  proof (cases "root = local_rank world")
    case True
    show ?thesis
      unfolding if_P [OF True]
      by (rule ends_weaken [OF does_run [OF gather_root_does [OF w] assms(2)]])
        (use slots_from_1 [OF w] in \<open>simp_all add: gather_root_work_def Let_def assms(3)\<close>)
  next
    case False
    have "c_mod (size' world + local_rank world - root) (size' world) = ret ((size' world + local_rank world - root) mod size' world)"
      using world_okD(3) [OF w] by (simp add: c_mod_def)
    then show ?thesis
      using does_run [OF gather_relay_does assms(2), of src "(size' world + local_rank world - root) mod size' world - 1"] False
      by (simp add: gather_relay_work_def assms(4) ends_def bnd_run prim_run)
  qed
qed

theorem gather_ring_correct_witness:
  "ends (gather_ring 0x1100 0x40 0 0x100000 0x200000) receiver
     (\<lambda>r s'. r = COLLECTIVE_OP_SUCCESS \<and> bij_betw (slot pair) {1..2} {k. k < 2} \<and>
        ran (ring_of pair 0x40) \<lparr>w_in = 1, w_out = 0, w_rx0 = [], w_rx1 = [Msg, At 0x100000], w_tx1 = [0x200040, 0x200000],
          w_paths = [Moved, Moved]\<rparr> receiver s')
     (\<lambda>c s'. ring_error c \<and> rx_kept (ring_words (ring_of pair 0x40)) receiver s')"
proof -
  have "[1..<Suc 2] = [1, 2]" "replicate 2 Moved = [Moved, Moved]" by (simp_all add: upt_rec numeral_2_eq_2)
  then show ?thesis
    using gather_ring_correct [OF receiver_comm receiver_in_ring _ refl, where n = 2 and root = 0 and len = "0x40"
        and src = "0x100000" and dst = "0x200000"]
    by (simp add: slot_addr_def slot_def)
qed

text \<open>C20: \<open>reduce_ring_streaming\<close> ends whatever the network and the data movers deliver, and returns success when it returns.
The rank after the root only sends its buffer; every other rank but the root takes one message, has the arithmetic unit combine it
with its own buffer and sends the result on; the root takes one message, combines it with its own buffer and stores the result.\<close>

theorem reduce_ring_streaming_correct:
  assumes "comm_at s comm world" and "in_ring (ring_of world len) s"
  shows "ends (reduce_ring_streaming comm len func root src dst) s
     (\<lambda>r s'. r = COLLECTIVE_OP_SUCCESS \<and>
        (if prev_rank world = root
         then ran (ring_of world len) \<lparr>w_in = 0, w_out = 1, w_rx0 = [], w_rx1 = [At src], w_tx1 = [], w_paths = [Sent]\<rparr> s s'
         else reduced len func s s' \<and>
           (if local_rank world \<noteq> root
            then ran (ring_of world len) \<lparr>w_in = 1, w_out = 1, w_rx0 = [src], w_rx1 = [Msg], w_tx1 = [], w_paths = [Combined_sent func]\<rparr> s s'
            else ran (ring_of world len) \<lparr>w_in = 1, w_out = 0, w_rx0 = [src], w_rx1 = [Msg], w_tx1 = [dst], w_paths = [Combined func]\<rparr> s s')))
     (\<lambda>c s'. ring_error c \<and> rx_kept (ring_words (ring_of world len)) s s')"
  unfolding reduce_ring_streaming_def
proof (rule ends_ring [OF assms(1)], goal_cases)
  case 1
  note op = transmit_ran [OF assms(2), of src] reduce_ran [OF assms(2), of func src] accumulate_ran [OF assms(2), of func src dst]
  show ?case
    by (cases "prev_rank world = root"; cases "local_rank world = root") (use op in simp_all)
qed

theorem reduce_ring_streaming_correct_witness:
  "ends (reduce_ring_streaming 0x1100 0x40 ARITH_fp 0 0x100000 0x200000) receiver
     (\<lambda>r s'. r = COLLECTIVE_OP_SUCCESS \<and> reduced 0x40 ARITH_fp receiver s' \<and>
        ran (ring_of pair 0x40) \<lparr>w_in = 1, w_out = 0, w_rx0 = [0x100000], w_rx1 = [Msg], w_tx1 = [0x200000],
          w_paths = [Combined ARITH_fp]\<rparr> receiver s')
     (\<lambda>c s'. ring_error c \<and> rx_kept (ring_words (ring_of pair 0x40)) receiver s')"
  using reduce_ring_streaming_correct [OF receiver_comm receiver_in_ring, of "0x40" ARITH_fp 0 "0x100000" "0x200000"] by simp

text \<open>C8: \<open>all_reduce_share\<close> in a communicator of two or more ranks ends whatever the network and the data movers deliver, and
returns success when it returns.  It then took and sent \<open>2 (n - 1)\<close> messages of one chunk: in the first half it sent the chunk of the
previous rank, combined every other chunk with the one received and sent it on, and stored its own; in the second half it sent the
chunk it had last stored and stored the next one.  DMA1 was told to write every rank's chunk of the destination exactly once.\<close>

theorem all_reduce_share_correct:
  assumes "comm_at s comm world" and "in_ring (ring_of world len) s" and "n = unat (size' world)" and "2 \<le> n"
    and "chunk = chunk_of len (size' world) func" and "a = slot_addr world chunk src" and "b = slot_addr world chunk dst"
  shows "ends (all_reduce_share comm len func src dst) s
     (\<lambda>r s'. r = COLLECTIVE_OP_SUCCESS \<and> bij_betw (slot world) {1..n} {k. k < size' world} \<and>
        ran (ring_of world chunk)
          \<lparr>w_in = 2 * (n - 1), w_out = 2 * (n - 1), w_rx0 = map a [2..<Suc n],
           w_rx1 = At (a 1) # replicate (n - 1) Msg @ concat (map (\<lambda>k. [At (b k), Msg]) [0..<n - 1]),
           w_tx1 = b n # map b [1..<n],
           w_paths = Sent # replicate (n - 2) (Combined_sent func) @ Combined func # concat (replicate (n - 1) [Sent, Moved])\<rparr> s s')
     (\<lambda>c s'. ring_error c \<and> rx_kept (ring_words (ring_of world chunk)) s s')"
  unfolding all_reduce_share_def
proof (rule chunk_then_ring [OF assms(1)], fold assms(5), goal_cases)
  case 1
  note w = comm_world_ok [OF assms(1)]
  have n: "2 \<le> unat (size' world)" using assms(3,4) by simp
  have r: "in_ring (ring_of world chunk) s" using assms(2) in_ring_len by blast
  let ?W = "ring_words (ring_of world chunk)"
  have work: "after (scatter_reduce_work world chunk func src dst)
      \<lparr>w_in = n - 1, w_out = n - 1, w_rx0 = [], w_rx1 = concat (map (\<lambda>k. [At (b k), Msg]) [0..<n - 1]), w_tx1 = map b [1..<n],
        w_paths = concat (replicate (n - 1) [Sent, Moved])\<rparr>
    = \<lparr>w_in = 2 * (n - 1), w_out = 2 * (n - 1), w_rx0 = map a [2..<Suc n],
       w_rx1 = At (a 1) # replicate (n - 1) Msg @ concat (map (\<lambda>k. [At (b k), Msg]) [0..<n - 1]), w_tx1 = b n # map b [1..<n],
       w_paths = Sent # replicate (n - 2) (Combined_sent func) @ Combined func # concat (replicate (n - 1) [Sent, Moved])\<rparr>"
    by (simp add: after_def scatter_reduce_work_def Let_def assms(3,6,7))
  show ?case
  proof (rule ends_bndI [OF scatter_reduce_ends [OF assms(1) r n]])
    fix q t assume t: "q = COLLECTIVE_OP_SUCCESS \<and> ran (ring_of world chunk) (scatter_reduce_work world chunk func src dst) s t"
    then have kt: "rx_kept ?W s t" using ran_kept by blast
    show "ends (loop (all_reduce_step world chunk dst (prev_rank world) (next_rank world)) (0, local_rank world)) t
       (\<lambda>r s'. r = COLLECTIVE_OP_SUCCESS \<and> bij_betw (slot world) {1..n} {k. k < size' world} \<and> ran (ring_of world chunk)
          \<lparr>w_in = 2 * (n - 1), w_out = 2 * (n - 1), w_rx0 = map a [2..<Suc n],
           w_rx1 = At (a 1) # replicate (n - 1) Msg @ concat (map (\<lambda>k. [At (b k), Msg]) [0..<n - 1]),
           w_tx1 = b n # map b [1..<n],
           w_paths = Sent # replicate (n - 2) (Combined_sent func) @ Combined func # concat (replicate (n - 1) [Sent, Moved])\<rparr> s s')
       (\<lambda>c s'. ring_error c \<and> rx_kept ?W s s')"
      unfolding work [symmetric]
      by (rule ends_weaken [OF does_run [OF all_reduce_loop_does [OF w n] ring_kept(1) [OF r kt]]])
        (use t ran_trans [OF r] rx_kept_trans [OF kt] slots_from_1 [OF w] in \<open>auto simp: assms(3,7)\<close>)
  qed
qed

theorem all_reduce_share_correct_witness:
  "ends (all_reduce_share 0x1100 0x40 ARITH_fp 0x100000 0x200000) receiver
     (\<lambda>r s'. r = COLLECTIVE_OP_SUCCESS \<and> bij_betw (slot pair) {1..2} {k. k < 2} \<and>
        ran (ring_of pair 0x20) \<lparr>w_in = 2, w_out = 2, w_rx0 = [0x100000],
          w_rx1 = [At 0x100020, Msg, At 0x200000, Msg], w_tx1 = [0x200000, 0x200020],
          w_paths = [Sent, Combined ARITH_fp, Sent, Moved]\<rparr> receiver s')
     (\<lambda>c s'. ring_error c \<and> rx_kept (ring_words (ring_of pair 0x20)) receiver s')"
proof -
  have "[2..<Suc 2] = [2]" "[1..<2] = [1 :: nat]" by (simp_all add: upt_rec)
  moreover have "chunk_of 0x40 2 ARITH_fp = 0x20" by (simp add: chunk_of_def arith_number_of_bytes_per_def)
  ultimately show ?thesis
    using all_reduce_share_correct [OF receiver_comm receiver_in_ring _ _ _ refl refl, where n = 2 and chunk = "0x20"
        and len = "0x40" and func = ARITH_fp and src = "0x100000" and dst = "0x200000"]
    by (simp add: slot_addr_def slot_def)
qed

end
