(* ===== verification/Drv_Pynq.thy ===== *)
theory Drv_Pynq
  imports Fw_Service Fw_Ring
begin

text \<open>
  How the host sets up what the firmware works on: the parts of \<open>src/driver/pynq/cclo.py\<close> that write the table of
  receive buffers and the communicators into the exchange memory (\<open>setup_rx_buffers\<close>,
  \<open>configure_communicator\<close>), and the proof that they establish what the firmware's operations require. A Python
  exception is a value; the memory access object of the library maps offsets below its range to the memory the firmware
  sees, and raises an \<open>IndexError\<close> beyond it.
\<close>

subsection \<open>The driver\<close>

type_synonym memory = "u32 \<Rightarrow> u32"

datatype python_error = AssertionError | IndexError | Retcode u32

datatype config_call = Config (config_function: u32) (config_len: u32)

abbreviation (input) EXCHANGE_MEM_OFFSET_ADDRESS :: nat where "EXCHANGE_MEM_OFFSET_ADDRESS \<equiv> 0x1000"

abbreviation (input) EXCHANGE_MEM_ADDRESS_RANGE :: nat where "EXCHANGE_MEM_ADDRESS_RANGE \<equiv> 0x1000"

definition exchange_address :: "nat \<Rightarrow> u32" where
  "exchange_address adr = of_nat (EXCHANGE_MEM_OFFSET_ADDRESS + adr)"

definition exchange_mem_write :: "nat \<Rightarrow> u32 \<Rightarrow> memory \<Rightarrow> python_error + memory" where
  "exchange_mem_write adr v m =
     (if adr < EXCHANGE_MEM_ADDRESS_RANGE then Inr (m(exchange_address adr := v)) else Inl IndexError)"

text \<open>\<open>addr += 4; self.exchange_mem.write(addr, v)\<close> for each of the values.\<close>

primrec write_fields :: "nat \<Rightarrow> u32 list \<Rightarrow> memory \<Rightarrow> python_error + nat \<times> memory" where
  "write_fields adr [] m = Inr (adr, m)"
| "write_fields adr (v # vs) m =
     (case exchange_mem_write (adr + 4) v m of Inl e \<Rightarrow> Inl e | Inr m' \<Rightarrow> write_fields (adr + 4) vs m')"

record cclo =
  rx_buffers_adr :: nat
  rx_buffer_size :: u32
  segment_size :: "u32 option"
  rx_buffer_spares :: "u64 list"
  communicators_addr :: nat
  communicators :: "nat list"

text \<open>A buffer at physical address \<open>a\<close>: address, size, and six cleared fields.\<close>

definition buffer_fields :: "u32 \<Rightarrow> u64 \<Rightarrow> u32 list" where
  "buffer_fields bufsize a = [ucast a, ucast (drop_bit 32 a), bufsize] @ replicate 6 0"

text \<open>\<open>physs\<close> are the addresses of the buffers the library allocates.\<close>

definition write_rx_buffers :: "u64 list \<Rightarrow> u32 \<Rightarrow> cclo \<Rightarrow> memory \<Rightarrow> python_error + cclo \<times> memory" where
  "write_rx_buffers physs bufsize self m =
     (case exchange_mem_write (rx_buffers_adr self) (of_nat (length physs)) m of Inl e \<Rightarrow> Inl e
      | Inr m1 \<Rightarrow> (case write_fields (rx_buffers_adr self) (concat (map (buffer_fields bufsize) physs)) m1 of Inl e \<Rightarrow> Inl e
          | Inr (adr, m2) \<Rightarrow> Inr (self\<lparr>rx_buffer_size := bufsize, rx_buffer_spares := rx_buffer_spares self @ physs,
              communicators_addr := adr + 4\<rparr>, m2)))"

text \<open>\<open>device\<close> serves a configuration call: it may change the memory.  The calls that set the transfer sizes
raise an exception when the device has left a code in its return word, called or not.\<close>

definition check_return_value :: "cclo \<times> memory \<Rightarrow> python_error + cclo \<times> memory" where
  "check_return_value = (\<lambda>(self, m).
     let retcode = m (exchange_address 0xFFC) in if retcode \<noteq> 0 then Inl (Retcode retcode) else Inr (self, m))"

definition set_dma_transaction_size ::
    "(config_call \<Rightarrow> memory \<Rightarrow> memory) \<Rightarrow> u32 \<Rightarrow> cclo \<times> memory \<Rightarrow> python_error + cclo \<times> memory" where
  "set_dma_transaction_size device v = (\<lambda>(self, m).
     if v mod 8 = 0 \<and> rx_buffer_size self < v then check_return_value (self, m)
     else check_return_value (self\<lparr>segment_size := Some v\<rparr>, device (Config 12 v) m))"

definition set_max_dma_transaction_flight ::
    "(config_call \<Rightarrow> memory \<Rightarrow> memory) \<Rightarrow> u32 \<Rightarrow> cclo \<times> memory \<Rightarrow> python_error + cclo \<times> memory" where
  "set_max_dma_transaction_flight device v = (\<lambda>(self, m).
     if 20 < v then check_return_value (self, m) else check_return_value (self, device (Config 13 v) m))"

definition setup_rx_buffers ::
    "(config_call \<Rightarrow> memory \<Rightarrow> memory) \<Rightarrow> u64 list \<Rightarrow> u32 \<Rightarrow> cclo \<Rightarrow> memory \<Rightarrow> python_error + cclo \<times> memory" where
  "setup_rx_buffers device physs bufsize self m =
     (case write_rx_buffers physs bufsize self m of Inl e \<Rightarrow> Inl e
      | Inr (self1, m1) \<Rightarrow>
          (case set_dma_transaction_size device bufsize (self1, device (Config 3 1) (device (Config 0 1) m1)) of Inl e \<Rightarrow> Inl e
           | Inr s2 \<Rightarrow> set_max_dma_transaction_flight device 10 s2))"

record rank_entry =
  rank_ip :: u32
  rank_port :: u32

text \<open>The words of rank \<open>i\<close>: address, port (the rank itself on the UDP stack), two sequence numbers and no session.\<close>

definition rank_fields :: "bool \<Rightarrow> nat \<times> rank_entry \<Rightarrow> u32 list" where
  "rank_fields vnx = (\<lambda>(i, r). [rank_ip r, if vnx then of_nat i else rank_port r, 0, 0, 0xFFFFFFFF])"

definition configure_communicator :: "rank_entry list \<Rightarrow> u32 \<Rightarrow> bool \<Rightarrow> cclo \<Rightarrow> memory \<Rightarrow> python_error + cclo \<times> memory" where
  "configure_communicator entries local vnx self m =
     (if rx_buffer_spares self = [] then Inl AssertionError
      else let adr = (if communicators self = [] then communicators_addr self else last (communicators self)) in
        (case exchange_mem_write adr (of_nat (length entries)) m of Inl e \<Rightarrow> Inl e
         | Inr m1 \<Rightarrow> (case write_fields adr (local # concat (map (rank_fields vnx) (enumerate 0 entries))) m1 of Inl e \<Rightarrow> Inl e
             | Inr (_, m2) \<Rightarrow> Inr (self\<lparr>communicators := communicators self @ [EXCHANGE_MEM_OFFSET_ADDRESS + adr]\<rparr>, m2))))"

subsection \<open>What a run of writes leaves behind\<close>

primrec laid :: "nat \<Rightarrow> u32 list \<Rightarrow> memory \<Rightarrow> memory" where
  "laid adr [] m = m"
| "laid adr (v # vs) m = laid (adr + 4) vs (m(exchange_address (adr + 4) := v))"

lemma write_fields_run:
  "adr + 4 * length vs < 0x1000 \<Longrightarrow> write_fields adr vs m = Inr (adr + 4 * length vs, laid adr vs m)"
  by (induction vs arbitrary: adr m) (simp_all add: exchange_mem_write_def)

lemma exchange_address_eq [simp]:
  assumes "a < 0x1000" and "b < 0x1000"
  shows "exchange_address a = exchange_address b \<longleftrightarrow> a = b"
proof
  assume "exchange_address a = exchange_address b"
  then have "unat (of_nat (0x1000 + a) :: u32) = unat (of_nat (0x1000 + b) :: u32)" by (simp only: exchange_address_def)
  moreover have "unat (of_nat (0x1000 + x) :: u32) = 0x1000 + x" if "x < 0x1000" for x
    using that by (intro unat_of_nat_small) simp
  ultimately show "a = b" using assms by (metis add_left_cancel)
qed simp

lemma laid_other: "\<forall>k < length vs. a \<noteq> exchange_address (adr + 4 * Suc k) \<Longrightarrow> laid adr vs m a = m a"
proof (induction vs arbitrary: adr m)
  case (Cons v vs)
  have step: "a \<noteq> exchange_address (adr + 4 * Suc k)" if "k < Suc (length vs)" for k using Cons.prems that by simp
  have "\<forall>k < length vs. a \<noteq> exchange_address (adr + 4 + 4 * Suc k)"
    using step [of "Suc _"] by (simp add: add.assoc)
  from Cons.IH [OF this] step [of 0] show ?case by simp
qed simp

lemma laid_at:
  "k < length vs \<Longrightarrow> adr + 4 * length vs < 0x1000 \<Longrightarrow> laid adr vs m (exchange_address (adr + 4 * Suc k)) = vs ! k"
proof (induction vs arbitrary: adr m k)
  case (Cons v vs)
  show ?case
  proof (cases k)
    case 0
    have "laid (adr + 4) vs m' (exchange_address (adr + 4)) = m' (exchange_address (adr + 4))" for m'
      using Cons.prems(2) by (intro laid_other allI impI) simp
    with 0 show ?thesis by simp
  next
    case (Suc j)
    have "laid (adr + 4) vs m' (exchange_address (adr + 4 + 4 * Suc j)) = vs ! j" for m'
      by (rule Cons.IH) (use Suc Cons.prems in simp_all)
    with Suc show ?thesis by (simp add: add.assoc)
  qed
qed simp

text \<open>Records of equal size laid out one after the other.\<close>

lemma nth_concat_equal:
  assumes "\<forall>x \<in> set xs. length (f x) = n" and "i < length xs" and "j < n"
  shows "concat (map f xs) ! (n * i + j) = f (xs ! i) ! j"
  using assms
proof (induction xs arbitrary: i)
  case (Cons x xs)
  then show ?case by (cases i) (simp_all add: nth_append add.assoc)
qed simp

lemma length_concat_equal: "\<forall>x \<in> set xs. length (f x) = n \<Longrightarrow> length (concat (map f xs)) = n * length xs"
  by (induction xs) simp_all

subsection \<open>The table of buffers\<close>

lemma buf_addr_exchange: "i < 2 ^ 32 \<Longrightarrow> j < 9 \<Longrightarrow> rx_offset f = of_nat (4 * j) \<Longrightarrow>
    buf_addr (of_nat i) f = exchange_address (4 * Suc (9 * i + j))"
  by (simp add: buf_addr_def exchange_address_def)

primrec field_number :: "rx_field \<Rightarrow> nat" where
  "field_number Addrl = 0" | "field_number Addrh = 1" | "field_number Max_len = 2" | "field_number Dma_tag = 3"
| "field_number Status = 4" | "field_number Rx_tag = 5" | "field_number Rx_len = 6" | "field_number Rx_src = 7"
| "field_number Sequence_number = 8"

lemma field_number: "rx_offset f = of_nat (4 * field_number f)" "field_number f < 9"
  by (cases f; simp add: rx_offset_def)+

text \<open>The memory when \<open>setup_rx_buffers\<close> has written the table.\<close>

definition with_buffers :: "u64 list \<Rightarrow> u32 \<Rightarrow> memory \<Rightarrow> memory" where
  "with_buffers physs bufsize m =
     laid 0 (concat (map (buffer_fields bufsize) physs)) (m(exchange_address 0 := of_nat (length physs)))"

lemma write_rx_buffers_run:
  assumes "length physs \<le> 113" and "rx_buffers_adr self = 0"
  shows "write_rx_buffers physs bufsize self m =
     Inr (self\<lparr>rx_buffer_size := bufsize, rx_buffer_spares := rx_buffer_spares self @ physs,
       communicators_addr := 36 * length physs + 4\<rparr>, with_buffers physs bufsize m)"
proof -
  have "length (concat (map (buffer_fields bufsize) physs)) = 9 * length physs"
    by (rule length_concat_equal) (simp add: buffer_fields_def)
  moreover from this have "write_fields 0 (concat (map (buffer_fields bufsize) physs)) m' =
      Inr (36 * length physs, laid 0 (concat (map (buffer_fields bufsize) physs)) m')" for m'
    using assms(1) by (subst write_fields_run) simp_all
  ultimately show ?thesis
    using assms(2) by (simp add: write_rx_buffers_def exchange_mem_write_def with_buffers_def)
qed

lemma with_buffers_count:
  assumes "length physs \<le> 113"
  shows "with_buffers physs bufsize m RX_BUFFER_COUNT_OFFSET = of_nat (length physs)"
proof -
  have len: "length (concat (map (buffer_fields bufsize) physs)) = 9 * length physs"
    by (rule length_concat_equal) (simp add: buffer_fields_def)
  have count: "RX_BUFFER_COUNT_OFFSET = exchange_address 0" by (simp add: exchange_address_def)
  show ?thesis unfolding with_buffers_def count
    using assms len by (subst laid_other) simp_all
qed

lemma with_buffers_field:
  assumes "length physs \<le> 113" and "i < length physs"
  shows "with_buffers physs bufsize m (buf_addr (of_nat i) f) = buffer_fields bufsize (physs ! i) ! field_number f"
proof -
  let ?vs = "concat (map (buffer_fields bufsize) physs)"
  have len: "length ?vs = 9 * length physs"
    by (rule length_concat_equal) (simp add: buffer_fields_def)
  have k: "9 * i + field_number f < 9 * length physs" using assms(2) field_number(2) [of f] by linarith
  have "buf_addr (of_nat i) f = exchange_address (0 + 4 * Suc (9 * i + field_number f))"
    using buf_addr_exchange [OF _ field_number(2) field_number(1), of i f] assms by simp
  moreover have "laid 0 ?vs m' (exchange_address (0 + 4 * Suc (9 * i + field_number f))) = ?vs ! (9 * i + field_number f)" for m'
    using assms(1) len k by (intro laid_at) simp_all
  moreover have "?vs ! (9 * i + field_number f) = buffer_fields bufsize (physs ! i) ! field_number f"
    by (rule nth_concat_equal) (use assms(2) field_number(2) in \<open>simp_all add: buffer_fields_def\<close>)
  ultimately show ?thesis by (simp only: with_buffers_def)
qed

text \<open>On a machine just started the table is consistent: all buffers idle, no tag in use.\<close>

lemma with_buffers_rx_inv:
  assumes "length physs \<le> 113" and "dma_tag_lookup t = replicate 16 (- 1)" and "num_rx_enqueued t = 0"
    and "mem t = with_buffers physs bufsize m"
  shows "nbufs t = length physs" and "rx_inv t"
    and "i < length physs \<Longrightarrow> bufv t (of_nat i) Status = STATUS_IDLE"
proof -
  show n: "nbufs t = length physs"
    using assms(1) by (simp add: nbufs_def assms(4) with_buffers_count unat_of_nat_small)
  show idle: "bufv t (of_nat i) Status = STATUS_IDLE" if "i < length physs" for i
    using with_buffers_field [OF assms(1) that] by (simp add: bufv_def assms(4) buffer_fields_def)
  then have "\<forall>i < nbufs t. buf_ok t i" by (simp add: n buf_ok_def)
  with assms n show "rx_inv t"
    by (simp add: rx_inv_def tag_ok_def used_tags_def Let_def sum_list_replicate)
qed


subsection \<open>Communicators\<close>

primrec rank_number :: "rank_field \<Rightarrow> nat" where
  "rank_number ip = 0" | "rank_number port = 1" | "rank_number inbound_seq = 2" | "rank_number outbound_seq = 3"
| "rank_number session = 4"

lemma rank_number: "field_offset f = of_nat (4 * rank_number f)" "rank_number f < 5"
  by (cases f; simp add: field_offset_def)+

definition with_communicator :: "nat \<Rightarrow> rank_entry list \<Rightarrow> u32 \<Rightarrow> bool \<Rightarrow> memory \<Rightarrow> memory" where
  "with_communicator adr entries local vnx m =
     laid adr (local # concat (map (rank_fields vnx) (enumerate 0 entries))) (m(exchange_address adr := of_nat (length entries)))"

lemma length_rank_fields: "length (concat (map (rank_fields vnx) (enumerate k entries))) = 5 * length entries"
  by (subst length_concat_equal) (auto simp: rank_fields_def)

lemma configure_communicator_run:
  assumes "rx_buffer_spares self \<noteq> []" and "communicators self = []"
    and "communicators_addr self + 20 * length entries + 4 < 0x1000"
  shows "configure_communicator entries local vnx self m =
     Inr (self\<lparr>communicators := [0x1000 + communicators_addr self]\<rparr>,
       with_communicator (communicators_addr self) entries local vnx m)"
  using assms length_rank_fields [of vnx 0 entries]
  by (simp add: configure_communicator_def Let_def exchange_mem_write_def with_communicator_def write_fields_run)

lemma with_communicator_words:
  assumes "adr + 20 * length entries + 4 < 0x1000"
  shows "with_communicator adr entries local vnx m (exchange_address adr) = of_nat (length entries)"
    and "with_communicator adr entries local vnx m (exchange_address (adr + 4)) = local"
    and "i < length entries \<Longrightarrow> j < 5 \<Longrightarrow>
      with_communicator adr entries local vnx m (exchange_address (adr + 8 + 20 * i + 4 * j)) = rank_fields vnx (i, entries ! i) ! j"
    and "a < adr \<Longrightarrow> with_communicator adr entries local vnx m (exchange_address a) = m (exchange_address a)"
proof -
  let ?c = "concat (map (rank_fields vnx) (enumerate 0 entries))"
  let ?vs = "local # ?c" and ?m = "m(exchange_address adr := of_nat (length entries))"
  have len: "length ?vs = Suc (5 * length entries)" by (simp only: length_Cons length_rank_fields)
  have fits: "adr + 4 * length ?vs < 0x1000" unfolding len using assms by simp
  have below: "laid adr ?vs ?m (exchange_address a) = ?m (exchange_address a)" if "a \<le> adr" for a
  proof (rule laid_other, intro allI impI)
    fix k assume "k < length ?vs"
    with fits that show "exchange_address a \<noteq> exchange_address (adr + 4 * Suc k)" by simp
  qed
  from below [of adr] show "with_communicator adr entries local vnx m (exchange_address adr) = of_nat (length entries)"
    by (simp only: with_communicator_def) simp
  show "with_communicator adr entries local vnx m (exchange_address a) = m (exchange_address a)" if "a < adr"
    using below [of a] that assms by (simp only: with_communicator_def) simp
  have "laid adr ?vs ?m (exchange_address (adr + 4 * Suc 0)) = ?vs ! 0" by (rule laid_at [OF _ fits]) simp
  then show "with_communicator adr entries local vnx m (exchange_address (adr + 4)) = local"
    by (simp only: with_communicator_def) simp
  assume i: "i < length entries" and j: "j < 5"
  then have k: "Suc (5 * i + j) < length ?vs" unfolding len by linarith
  have "?c ! (5 * i + j) = rank_fields vnx (enumerate 0 entries ! i) ! j"
    by (rule nth_concat_equal) (use i j in \<open>auto simp: rank_fields_def\<close>)
  then have "?vs ! Suc (5 * i + j) = rank_fields vnx (i, entries ! i) ! j" using i by (simp add: nth_enumerate_eq)
  moreover have "laid adr ?vs ?m (exchange_address (adr + 4 * Suc (Suc (5 * i + j)))) = ?vs ! Suc (5 * i + j)"
    by (rule laid_at [OF k fits])
  moreover have "adr + 4 * Suc (Suc (5 * i + j)) = adr + 8 + 20 * i + 4 * j" by simp
  ultimately show "with_communicator adr entries local vnx m (exchange_address (adr + 8 + 20 * i + 4 * j)) =
      rank_fields vnx (i, entries ! i) ! j"
    by (simp only: with_communicator_def)
qed

text \<open>The communicator as the firmware finds it.\<close>

definition world_at :: "nat \<Rightarrow> nat \<Rightarrow> u32 \<Rightarrow> communicator" where
  "world_at adr n local = \<lparr>size' = of_nat n, local_rank = local, ranks = exchange_address adr + 8\<rparr>"

lemma exchange_address_add: "exchange_address (a + b) = exchange_address a + of_nat b"
  by (simp add: exchange_address_def)

lemma rank_addr_exchange:
  "rank_addr (world_at adr n local) (of_nat i) f = exchange_address (adr + 8 + 20 * i + 4 * rank_number f)"
  by (simp add: rank_addr_def world_at_def exchange_address_add rank_number(1))

lemma exchange_address_less: "a < 0x1000 \<Longrightarrow> b \<le> 0x1000 \<Longrightarrow> exchange_address a < of_nat (0x1000 + b) \<longleftrightarrow> a < b"
proof -
  assume "a < 0x1000" "b \<le> 0x1000"
  then have "unat (of_nat (0x1000 + a) :: u32) = 0x1000 + a" "unat (of_nat (0x1000 + b) :: u32) = 0x1000 + b"
    by (intro unat_of_nat_small; simp)+
  then show ?thesis by (simp only: exchange_address_def word_less_nat_alt) simp
qed


text \<open>The words of a communicator behind the table are the driver's and the collectives' alone.\<close>

lemma behind_table:
  assumes "n \<le> 113" and "36 * n + 4 \<le> b" and "b < 0xFF4"
  shows "exchange_address b \<notin> isr_words n" and "exchange_address b \<noteq> RX_BUFFER_COUNT_OFFSET"
    and "exchange_address b < 0x2000" and "exchange_address b \<noteq> 0"
proof -
  have val: "unat (exchange_address b) = 0x1000 + b"
    unfolding exchange_address_def using assms(3) by (intro unat_of_nat_small) simp
  show "exchange_address b < 0x2000" using val assms(3) by (simp add: word_less_nat_alt)
  show "exchange_address b \<noteq> 0" using val by auto
  have "exchange_address 0 = RX_BUFFER_COUNT_OFFSET" by (simp add: exchange_address_def)
  moreover have "exchange_address b \<noteq> exchange_address 0" using assms by simp
  ultimately show "exchange_address b \<noteq> RX_BUFFER_COUNT_OFFSET" by simp
  show "exchange_address b \<notin> isr_words n"
  proof
    assume "exchange_address b \<in> isr_words n"
    then consider "exchange_address b \<in> rx_area n" | "unat (exchange_address b) = unat (0x1FF4 :: u32)"
      | "unat (IRQCTRL_BASEADDR :: u32) \<le> unat (exchange_address b)"
      by (auto simp: isr_words_def word_le_nat_alt)
    then show False
    proof cases
      case 1
      then obtain i f where i: "unat i < n" and b: "exchange_address b = buf_addr i f" by (auto simp: rx_area_def)
      have "buf_addr (of_nat (unat i)) f = exchange_address (4 * Suc (9 * unat i + field_number f))"
        by (rule buf_addr_exchange [OF _ field_number(2,1)]) (use i assms(1) in simp)
      then have "exchange_address b = exchange_address (4 * Suc (9 * unat i + field_number f))" using b by simp
      moreover have "Suc (9 * unat i + field_number f) \<le> 9 * n" using i field_number(2) [of f] by linarith
      then have "4 * Suc (9 * unat i + field_number f) \<le> 4 * (9 * n)" by (rule mult_le_mono2)
      then have "4 * Suc (9 * unat i + field_number f) < 36 * n + 4" by simp
      ultimately show False using assms by simp
    qed (use val assms(3) in simp_all)
  qed
qed

lemma with_communicator_below:
  "\<lbrakk> adr + 20 * length entries + 4 < 0x1000; a < adr \<rbrakk> \<Longrightarrow>
     with_communicator adr entries local vnx m (exchange_address a) = m (exchange_address a)"
  by (rule with_communicator_words(4))

lemma world_at_ranks:
  assumes "n \<le> 113" and "36 * n + 4 \<le> adr" and "adr + 8 + 20 * k \<le> 0xFF4" and "src < of_nat k" and "k < 2 ^ 31"
  shows "rank_addr (world_at adr k local) src f \<notin> isr_words n \<union> {RX_BUFFER_COUNT_OFFSET}"
    and "rank_addr (world_at adr k local) src f < 0x2000"
    and "dst < of_nat k \<Longrightarrow> f \<noteq> g \<Longrightarrow> rank_addr (world_at adr k local) src f \<noteq> rank_addr (world_at adr k local) dst g"
proof -
  have small: "unat x < k" if "x < (of_nat k :: u32)" for x
  proof -
    have "unat (of_nat k :: u32) = k" using assms(5) by (intro unat_of_nat_small) simp
    with that show ?thesis by (simp only: word_less_nat_alt)
  qed
  have addr: "rank_addr (world_at adr k local) x h = exchange_address (adr + 8 + 20 * unat x + 4 * rank_number h)" for x h
    using rank_addr_exchange [of adr k local "unat x" h] by simp
  have bound: "adr + 8 + 20 * unat x + 4 * rank_number h < 0xFF4" if "x < of_nat k" for x :: u32 and h
    using small [OF that] rank_number(2) [of h] assms(3) by linarith
  note free = behind_table [OF assms(1) _ bound [OF assms(4)]]
  show "rank_addr (world_at adr k local) src f \<notin> isr_words n \<union> {RX_BUFFER_COUNT_OFFSET}"
    and "rank_addr (world_at adr k local) src f < 0x2000"
    unfolding addr using free [of f] assms(2) by simp_all
  assume dst: "dst < of_nat k" "f \<noteq> g"
  have "rank_number f \<noteq> rank_number g" using dst(2) by (cases f; cases g) simp_all
  then have "5 * unat src + rank_number f \<noteq> 5 * unat dst + rank_number g"
    using rank_number(2) [of f] rank_number(2) [of g] by presburger
  then show "rank_addr (world_at adr k local) src f \<noteq> rank_addr (world_at adr k local) dst g"
    unfolding addr using bound [OF assms(4), of f] bound [OF dst(1), of g] by (simp del: add_Suc_right)
qed

lemma world_at_can_forward:
  assumes "n \<le> 113" and "36 * n + 4 \<le> adr" and "adr + 8 + 20 * k \<le> 0xFF4" and "k < 2 ^ 31"
    and "src < of_nat k" and "dst < of_nat k" and "ready s" and "rx_inv s" and "fed s" and "nbufs s = n"
  shows "can_forward s (world_at adr k local) src dst"
proof -
  note src = world_at_ranks [OF assms(1-3) assms(5,4), where local = local]
  note dst = world_at_ranks [OF assms(1-3) assms(6,4), where local = local]
  have other: "rank_addr (world_at adr k local) dst f \<noteq> rank_addr (world_at adr k local) src inbound_seq"
    if "f \<noteq> inbound_seq" for f
    using dst(3) [OF assms(5) that] .
  have "ranks (world_at adr k local) \<noteq> 0"
  proof -
    have "exchange_address adr + 8 = exchange_address (adr + 8)" by (simp add: exchange_address_add)
    moreover have "0 < k" using assms(5) by (cases k) auto
    ultimately show ?thesis using behind_table(4) [OF assms(1), of "adr + 8"] assms(2,3) by (simp add: world_at_def)
  qed
  then have "can_receive s (world_at adr k local) src"
    using src(1,2) [of inbound_seq] assms(7-10) by (simp add: can_receive_def rx_world_def)
  moreover have "rank_in_exchmem (world_at adr k local) dst" using dst(2) by (simp add: rank_in_exchmem_def)
  ultimately show ?thesis using dst(1) other assms(10) by (simp add: can_forward_def)
qed

subsection \<open>Properties\<close>

definition cclo_new :: cclo where
  "cclo_new = \<lparr>rx_buffers_adr = 0, rx_buffer_size = 0, segment_size = None, rx_buffer_spares = [], communicators_addr = 0, communicators = []\<rparr>"

abbreviation (input) retcode :: "memory \<Rightarrow> u32" where "retcode m \<equiv> m (exchange_address 0xFFC)"

lemma buffer_addr_fields:
  assumes "length physs \<le> 113" and "i < length physs" and "mem t = with_buffers physs bufsize m"
  shows "buffer_addr t (of_nat i) = physs ! i" and "bufv t (of_nat i) Max_len = bufsize"
proof -
  note f = with_buffers_field [OF assms(1,2)]
  have "push_bit 32 (ucast (ucast (drop_bit 32 a) :: u32)) OR ucast (ucast a :: u32) = a" for a :: u64
    by (rule bit_eqI) (auto simp: bit_simps)
  then show "buffer_addr t (of_nat i) = physs ! i"
    by (simp add: buffer_addr_def bufv_def assms(3) f buffer_fields_def)
  show "bufv t (of_nat i) Max_len = bufsize" by (simp add: bufv_def assms(3) f buffer_fields_def)
qed

lemma setup_rx_buffers_run:
  assumes "length physs \<le> 113" and "m2 = device (Config 12 bufsize) (device (Config 3 1) (device (Config 0 1) (with_buffers physs bufsize m)))"
  shows "setup_rx_buffers device physs bufsize cclo_new m =
     (if retcode m2 \<noteq> 0 then Inl (Retcode (retcode m2))
      else let m3 = device (Config 13 10) m2 in
        if retcode m3 \<noteq> 0 then Inl (Retcode (retcode m3))
        else Inr (\<lparr>rx_buffers_adr = 0, rx_buffer_size = bufsize, segment_size = Some bufsize, rx_buffer_spares = physs,
          communicators_addr = 36 * length physs + 4, communicators = []\<rparr>, m3))"
  unfolding setup_rx_buffers_def using write_rx_buffers_run [OF assms(1), of cclo_new bufsize m]
  by (simp add: cclo_new_def set_dma_transaction_size_def set_max_dma_transaction_flight_def check_return_value_def
      Let_def assms(2))

text \<open>C28: When a driver fresh from its constructor sets up at most 113 receive buffers on a machine that has just started, every write is
in range and, at the moment the first call is made, the table is what the firmware's invariant of receive buffers requires: it has exactly
the buffers the library allocated, in order, each idle, with its full 64-bit address and the size asked for.  The device is then told to
enable interrupts, to start the packetizers and to use segments of one buffer with ten in flight; the driver fails exactly when one of
the last two calls leaves a return code, and otherwise places communicators right behind the table.\<close>

theorem setup_rx_buffers_consistent:
  assumes "length physs \<le> 113" and "\<not> gpio < 0x2000"
  shows "ends (init gpio) (boot_state m0 g si [])
     (\<lambda>_ t. \<exists>m1. rx_inv (t\<lparr>mem := m1\<rparr>) \<and> nbufs (t\<lparr>mem := m1\<rparr>) = length physs \<and>
        (\<forall>i < length physs. bufv (t\<lparr>mem := m1\<rparr>) (of_nat i) Status = STATUS_IDLE \<and>
           buffer_addr (t\<lparr>mem := m1\<rparr>) (of_nat i) = physs ! i \<and> bufv (t\<lparr>mem := m1\<rparr>) (of_nat i) Max_len = bufsize) \<and>
        setup_rx_buffers device physs bufsize cclo_new (mem t) =
          (let m2 = device (Config 12 bufsize) (device (Config 3 1) (device (Config 0 1) m1)); m3 = device (Config 13 10) m2 in
           if retcode m2 \<noteq> 0 then Inl (Retcode (retcode m2))
           else if retcode m3 \<noteq> 0 then Inl (Retcode (retcode m3))
           else Inr (\<lparr>rx_buffers_adr = 0, rx_buffer_size = bufsize, segment_size = Some bufsize, rx_buffer_spares = physs,
             communicators_addr = 36 * length physs + 4, communicators = []\<rparr>, m3)))
     (\<lambda>_ _. False)"
proof (rule ends_weaken [OF init_ends [OF assms(2)]], goal_cases)
  case (1 r t)
  then have lk: "dma_tag_lookup (t\<lparr>mem := with_buffers physs bufsize (mem t)\<rparr>) = replicate 16 (- 1)"
    and q: "num_rx_enqueued (t\<lparr>mem := with_buffers physs bufsize (mem t)\<rparr>) = 0"
    by (simp_all add: fresh_def)
  have m: "mem (t\<lparr>mem := with_buffers physs bufsize (mem t)\<rparr>) = with_buffers physs bufsize (mem t)" by simp
  note table = with_buffers_rx_inv [OF assms(1) lk q m]
  note fields = buffer_addr_fields [OF assms(1) _ m]
  show ?case
    by (rule exI [of _ "with_buffers physs bufsize (mem t)"])
      (simp add: table fields setup_rx_buffers_run [OF assms(1) refl] Let_def)
qed simp

theorem setup_rx_buffers_consistent_witness:
  "ends (init 0x40000000) (boot_state (\<lambda>_. 7) (\<lambda>_. []) (\<lambda>_. []) [])
     (\<lambda>_ t. \<exists>m1. rx_inv (t\<lparr>mem := m1\<rparr>) \<and> nbufs (t\<lparr>mem := m1\<rparr>) = 2 \<and>
        buffer_addr (t\<lparr>mem := m1\<rparr>) 1 = 0x500000000 \<and> bufv (t\<lparr>mem := m1\<rparr>) 1 Max_len = 0x400)
     (\<lambda>_ _. False)"
proof -
  have two: "length [0x400000000, 0x500000000 :: u64] \<le> 113" by simp
  have gpio: "\<not> (0x40000000 :: u32) < 0x2000" by simp
  show ?thesis
    by (rule ends_weaken [OF setup_rx_buffers_consistent [OF two gpio, of "\<lambda>_. 7" "\<lambda>_. []" "\<lambda>_. []" "0x400" "\<lambda>_ m. m"]])
      (auto simp: less_Suc_eq numeral_2_eq_2)
qed

text \<open>A communicator written behind the table leaves all the firmware keeps in the exchange memory alone.\<close>

lemma configure_kept:
  assumes "n \<le> 113" and "36 * n + 4 = adr" and "adr + 20 * length entries + 4 < 0x1000" and "nbufs s = n"
  shows "nbufs (s\<lparr>mem := with_communicator adr entries local vnx (mem s)\<rparr>) = n"
    and "unat i < n \<Longrightarrow> bufv (s\<lparr>mem := with_communicator adr entries local vnx (mem s)\<rparr>) i f = bufv s i f"
proof -
  have below: "with_communicator adr entries local vnx (mem s) (exchange_address a) = mem s (exchange_address a)" if "a < adr" for a
    by (rule with_communicator_words(4) [OF assms(3) that])
  have "RX_BUFFER_COUNT_OFFSET = exchange_address 0" by (simp add: exchange_address_def)
  then show "nbufs (s\<lparr>mem := with_communicator adr entries local vnx (mem s)\<rparr>) = n"
    using below [of 0] assms(2,4) by (simp add: nbufs_def)
  show "bufv (s\<lparr>mem := with_communicator adr entries local vnx (mem s)\<rparr>) i f = bufv s i f" if "unat i < n"
  proof -
    have "buf_addr (of_nat (unat i)) f = exchange_address (4 * Suc (9 * unat i + field_number f))"
      by (rule buf_addr_exchange [OF _ field_number(2,1)]) (use that assms(1) in simp)
    moreover have "Suc (9 * unat i + field_number f) \<le> 9 * n" using that field_number(2) [of f] by linarith
    then have "4 * Suc (9 * unat i + field_number f) \<le> 4 * (9 * n)" by (rule mult_le_mono2)
    ultimately show ?thesis
      using below [of "4 * Suc (9 * unat i + field_number f)"] assms(2) by (simp add: bufv_def)
  qed
qed

definition new_communicator :: "cclo \<Rightarrow> rank_entry list \<Rightarrow> u32 \<Rightarrow> communicator" where
  "new_communicator c entries local = world_at (communicators_addr c) (length entries) local"

text \<open>C27: Whatever the machine has received since the table was set up, the first communicator that the driver writes behind it is one
the firmware's collectives work on, as long as it ends below the words for time and return code: the firmware finds the size and the
local rank it was given, every rank with its address and port (its number, on the UDP stack), both sequence numbers at zero and no session;
and no word of it is one the interrupt handler changes.\<close>

theorem configure_communicator_in_ring:
  assumes "ready s" and "rx_inv s" and "fed s" and "communicators_addr c = 36 * nbufs s + 4"
    and "rx_buffer_spares c \<noteq> []" and "communicators c = []"
    and "communicators_addr c + 20 * length entries + 8 \<le> 0xFF4" and "local < of_nat (length entries)"
  shows "\<exists>m. configure_communicator entries local vnx c (mem s) =
       Inr (c\<lparr>communicators := [0x1000 + communicators_addr c]\<rparr>, m) \<and>
     (let t = s\<lparr>mem := m\<rparr>; world = new_communicator c entries local in
      rx_inv t \<and> comm_at t (of_nat (0x1000 + communicators_addr c)) world \<and> in_ring (ring_of world len) t \<and>
      (\<forall>i < length entries. \<forall>f. m (rank_addr world (of_nat i) f) =
         (case f of ip \<Rightarrow> rank_ip (entries ! i) | port \<Rightarrow> if vnx then of_nat i else rank_port (entries ! i)
          | inbound_seq \<Rightarrow> 0 | outbound_seq \<Rightarrow> 0 | session \<Rightarrow> 0xFFFFFFFF)))"
proof -
  let ?adr = "communicators_addr c" and ?k = "length entries"
  let ?m = "with_communicator ?adr entries local vnx (mem s)"
  let ?world = "new_communicator c entries local"
  have n: "nbufs s \<le> 113" using assms(2) by (simp add: rx_inv_def)
  have fits: "?adr + 20 * ?k + 4 < 0x1000" and small: "?k < 0x1000" using assms(7) by linarith+
  from small have k: "?k < 2 ^ 31" by simp
  note words = with_communicator_words [OF fits, where local = local and vnx = vnx and m = "mem s"]
  note kept = configure_kept [OF n assms(4) [symmetric] fits refl, where local = local and vnx = vnx]
  have inv: "rx_inv (s\<lparr>mem := ?m\<rparr>)" by (rule rx_inv_same_buffers [OF assms(2)]) (simp_all add: kept)
  have size: "unat (of_nat ?k :: u32) = ?k" using k by (intro unat_of_nat_small) simp
  have adr4: "exchange_address ?adr + 4 = exchange_address (?adr + 4)" "of_nat (0x1000 + ?adr) = exchange_address ?adr"
    by (simp_all add: exchange_address_add) (simp add: exchange_address_def)
  have comm: "comm_at (s\<lparr>mem := ?m\<rparr>) (of_nat (0x1000 + ?adr)) ?world"
  proof -
    have "unat (of_nat (0x1000 + ?adr) :: u32) = 0x1000 + ?adr" using fits by (intro unat_of_nat_small) simp
    then have "(of_nat (0x1000 + ?adr) :: u32) < 0x1FF8" using assms(7) by (simp only: word_less_nat_alt) simp
    moreover have "(of_nat ?k :: u32) \<le> 0x80000000" using size k by (simp only: word_le_nat_alt) simp
    ultimately show ?thesis
      using assms(8) words(1,2) unfolding adr4 comm_at_def by (simp add: adr4 new_communicator_def world_at_def)
  qed
  have pos: "size' ?world > 0" using assms(8) by (auto simp: new_communicator_def world_at_def word_gt_0)
  have ring: "in_ring (ring_of ?world len) (s\<lparr>mem := ?m\<rparr>)"
  proof -
    have rank: "x mod size' ?world < of_nat ?k" for x
      using pos word_mod_less_divisor [of "size' ?world" x] by (simp add: new_communicator_def world_at_def)
    show ?thesis unfolding in_ring_def ring_of_fields
      unfolding new_communicator_def
      by (rule world_at_can_forward [OF n _ _ k])
        (use assms(1,3,4,7) kept(1) inv rank in \<open>simp_all add: new_communicator_def ready_def fed_def rx_dma_def rx_net_def\<close>)
  qed
  have table: "?m (rank_addr ?world (of_nat i) f) =
      (case f of ip \<Rightarrow> rank_ip (entries ! i) | port \<Rightarrow> if vnx then of_nat i else rank_port (entries ! i)
       | inbound_seq \<Rightarrow> 0 | outbound_seq \<Rightarrow> 0 | session \<Rightarrow> 0xFFFFFFFF)" if "i < ?k" for i f
    unfolding new_communicator_def rank_addr_exchange words(3) [OF that rank_number(2)]
    by (cases f) (simp_all add: rank_fields_def)
  show ?thesis
    using configure_communicator_run [OF assms(5,6), of entries local vnx "mem s"] fits inv comm ring table
    by (intro exI [of _ ?m]) (simp add: Let_def)
qed

text \<open>The driver of a machine with three receive buffers, and two ranks.\<close>

definition cclo_three :: cclo where
  "cclo_three = cclo_new\<lparr>rx_buffer_size := 0x400, rx_buffer_spares := [0x10000, 0x100000, 0x20000], communicators_addr := 112\<rparr>"

definition two_ranks :: "rank_entry list" where
  "two_ranks = [\<lparr>rank_ip = 0xC0A80001, rank_port = 5500\<rparr>, \<lparr>rank_ip = 0xC0A80002, rank_port = 5501\<rparr>]"

theorem configure_communicator_in_ring_witness:
  "\<exists>m. configure_communicator two_ranks 1 False cclo_three (mem three_buffers) = Inr (cclo_three\<lparr>communicators := [0x1070]\<rparr>, m) \<and>
     rx_inv (three_buffers\<lparr>mem := m\<rparr>) \<and> m (rank_addr (new_communicator cclo_three two_ranks 1) 1 port) = 5501"
proof -
  have r: "ready three_buffers" by (simp add: three_buffers_def ready_def boot_state_def)
  have f: "1 < (of_nat (length two_ranks) :: u32)" by (simp add: two_ranks_def)
  have 1: "communicators_addr cclo_three = 36 * nbufs three_buffers + 4" "rx_buffer_spares cclo_three \<noteq> []"
    "communicators cclo_three = []" "communicators_addr cclo_three + 20 * length two_ranks + 8 \<le> 0xFF4"
    by (simp_all add: cclo_three_def cclo_new_def three_buffers_nbufs two_ranks_def)
  have a: "0x1000 + communicators_addr cclo_three = 0x1070" by (simp add: cclo_three_def)
  show ?thesis
    using configure_communicator_in_ring [OF r three_buffers_inv three_buffers_fed 1 f, of False 0] unfolding a Let_def
    by (elim exE conjE, intro exI conjI) (assumption+, fastforce simp: two_ranks_def)
qed

end
