(* ===== verification/Fw_Call.thy ===== *)
theory Fw_Call
  imports Fw_Service
begin

text \<open>
  A call on the command stream: the fifteen words it is made of, what the firmware reads back from them, and one turn of the
  service loop that finds them waiting and has no interrupt to take. With it, the two configuration calls a driver makes at its
  start: the interrupts of the receive engine, and the packetizers.
\<close>

subsection \<open>The words of a call\<close>

text \<open>
  The host hands a call over as fifteen words, each 64-bit address low word first (the order in which
  \<open>main\<close> takes them from the command stream).
\<close>

definition call_words :: "call \<Rightarrow> u32 list" where
  "call_words c = [c_scenario c, c_len c, c_comm c, c_root_src_dst c, c_func c, c_msg_tag c,
     c_buf0_type c, c_buf1_type c, c_buf2_type c,
     ucast (c_buf0_addr c), ucast (drop_bit 32 (c_buf0_addr c)),
     ucast (c_buf1_addr c), ucast (drop_bit 32 (c_buf1_addr c)),
     ucast (c_buf2_addr c), ucast (drop_bit 32 (c_buf2_addr c))]"

text \<open>A stream that delivers these words, the first at once, and then the words of \<open>rest\<close>.\<close>

definition offers :: "fw_state \<Rightarrow> call \<Rightarrow> (nat \<times> u32) list \<Rightarrow> bool" where
  "offers s c rest \<longleftrightarrow> (\<exists>ds. length ds = 15 \<and> ds ! 0 = 0 \<and> stream_in s CMD_HOST = zip ds (call_words c) @ rest)"

lemma mk_addr_split [simp]: "mk_addr (ucast (drop_bit 32 a)) (ucast a) = a"
  unfolding mk_addr_def by (rule bit_word_eqI) (auto simp: bit_simps)

lemma getd_step:
  "stream_in s ch = (d, v) # ws \<Longrightarrow>
     bnd (getd ch) f s = f v (s\<lparr>stream_in := (stream_in s)(ch := ws), trace := trace s @ [Got ch v]\<rparr>)"
  by (simp add: bnd_def getd_def)

lemma read_call_offered:
  assumes "offers s c rest"
  shows "read_call s = Some (Ret c, s\<lparr>stream_in := (stream_in s)(CMD_HOST := rest),
     trace := trace s @ map (Got CMD_HOST) (call_words c)\<rparr>)"
proof -
  from assms obtain ds where "length ds = 15" and st: "stream_in s CMD_HOST = zip ds (call_words c) @ rest"
    by (auto simp: offers_def)
  then obtain d0 d1 d2 d3 d4 d5 d6 d7 d8 d9 d10 d11 d12 d13 d14
    where "ds = [d0, d1, d2, d3, d4, d5, d6, d7, d8, d9, d10, d11, d12, d13, d14]"
    by (auto simp: numeral_eq_Suc length_Suc_conv)
  with st have "stream_in s CMD_HOST = (d0, c_scenario c) # (d1, c_len c) # (d2, c_comm c) # (d3, c_root_src_dst c) #
     (d4, c_func c) # (d5, c_msg_tag c) # (d6, c_buf0_type c) # (d7, c_buf1_type c) # (d8, c_buf2_type c) #
     (d9, ucast (c_buf0_addr c)) # (d10, ucast (drop_bit 32 (c_buf0_addr c))) #
     (d11, ucast (c_buf1_addr c)) # (d12, ucast (drop_bit 32 (c_buf1_addr c))) #
     (d13, ucast (c_buf2_addr c)) # (d14, ucast (drop_bit 32 (c_buf2_addr c))) # rest"
    by (simp add: call_words_def)
  then show ?thesis
    by (simp add: read_call_def getd_step prim_run call_words_def)
qed

subsection \<open>A turn of the service loop\<close>

lemma serve_call_ends:
  assumes "ends (turn gpio) s Q E" and "\<And>c t. E c t \<Longrightarrow> c \<noteq> 0"
  shows "ends (serve_call gpio) s
     (\<lambda>_ s'. \<exists>v t. (Q v t \<or> E v t) \<and> silent s t \<and> s' = t\<lparr>mem := (mem t)(RETVAL_OFFSET := v),
        trace := trace t @ [Wr RETVAL_OFFSET v, Put STS_HOST v]\<rparr>)
     (\<lambda>_ _. False)"
proof -
  from assms(1) obtain q t where run: "turn gpio s = Some (q, t)" and q: "sat Q E q t" by (auto simp: ends_def)
  from keptD [OF silent_turn run] have st: "silent s t" by simp
  show ?thesis
  proof (cases q)
    case (Ret v)
    with q run st show ?thesis
      by (auto simp: ends_def serve_call_def setjmp_def main_body_turn bnd_def finalize_call_run)
  next
    case (Longjmp c)
    with q assms(2) have "c \<noteq> 0" "E c t" by auto
    with run st Longjmp show ?thesis
      by (auto simp: ends_def serve_call_def setjmp_def main_body_turn bnd_def finalize_call_run)
  qed (use q in simp)
qed

lemma wait_for_call_offered:
  assumes "offers s c rest" and "irqs s = []"
  shows "wait_for_call s = Some (Ret (), s)"
proof -
  from assms(1) obtain ds where "length ds = 15" "ds ! 0 = 0" and st: "stream_in s CMD_HOST = zip ds (call_words c) @ rest"
    by (auto simp: offers_def)
  then obtain ds' where "ds = 0 # ds'" by (cases ds) auto
  with st obtain ws where "stream_in s CMD_HOST = (0, c_scenario c) # ws" by (simp add: call_words_def)
  with assms(2) show ?thesis
    unfolding wait_for_call_def
    by (subst loop.simps) (simp add: wait_for_call_step_def interrupt_window_def tngetd_def bnd_def prim_run)
qed

lemma turn_offered:
  assumes "offers s c rest" and "irqs s = []"
  shows "turn gpio s = do_call gpio c (s\<lparr>stream_in := (stream_in s)(CMD_HOST := rest),
     trace := trace s @ map (Got CMD_HOST) (call_words c)\<rparr>)"
proof -
  have "read_call s = Some (Ret c, s\<lparr>stream_in := (stream_in s)(CMD_HOST := rest),
     trace := trace s @ map (Got CMD_HOST) (call_words c)\<rparr>)"
    by (rule read_call_offered [OF assms(1)])
  then show ?thesis by (simp add: turn_def bnd_def wait_for_call_offered [OF assms])
qed

lemma words_on_Got: "words_on ch (map (Got c) vs) = []"
  by (induction vs) simp_all


subsection \<open>The configuration calls of a driver's start\<close>

lemma start_packetizer_ends:
  assumes "\<not> b < 0x2000" and "\<not> b + 0x10 < 0x2000"
  shows "ends (start_packetizer b n) s (\<lambda>_ s'. periph_only s s') E"
proof -
  have "ends (set_bits b m) t (\<lambda>_ s'. periph_only s s') E" if "periph_only s t" for t m
    by (rule ends_weaken [OF ends_bits(1) [OF assms(1)]]) (auto intro: periph_only_trans [OF that])
  from this [OF periph_only_write [OF assms(2)]] show ?thesis
    by (simp add: start_packetizer_def Let_def bnd_ret_right)
qed

lemma enable_call_ends:
  assumes "c_scenario c = XCCL_CONFIG" and "c_func c \<in> {HOUSEKEEP_IRQEN, HOUSEKEEP_PKTEN}" and "irqs s = []"
  shows "ends (do_call gpio c) s (\<lambda>r s'. r = COLLECTIVE_OP_SUCCESS \<and> periph_only (s\<lparr>ie := ie s \<or> c_func c = HOUSEKEEP_IRQEN\<rparr>) s') E"
proof (cases "c_func c = HOUSEKEEP_IRQEN")
  case True
  have w: "periph_only (s\<lparr>ie := True\<rparr>)
      (s\<lparr>mem := (mem s)(a := w, b := v), trace := trace s @ [Wr a u, Wr b v, Wr a w], ie := True\<rparr>)"
    if "\<not> a < 0x2000" "\<not> b < 0x2000" for a b u v w
    by (rule periph_onlyI [where m = "(mem s)(a := w, b := v)" and r = "reg_script s" and ws = "[Wr a u, Wr b v, Wr a w]"])
      (use that in \<open>auto simp: is_Wr_def\<close>)
  show ?thesis
    using True assms(1,3)
    by (auto simp: do_call_def do_config_def Let_def setup_irq_def disable_irq_def set_irq_def enable_irq_def
        microblaze_enable_interrupts_def interrupt_window_def ends_def bnd_def prim_run xil_out32_run getf_def modf_def fun_upd_twist
        intro!: w)
next
  case False
  with assms(2) have f: "c_func c = HOUSEKEEP_PKTEN" by simp
  have "ends (do_config gpio c) s (\<lambda>r s'. r = 0 \<and> periph_only s s') E"
  proof -
    have d: "ends (start_depacketizer b) t (\<lambda>_ s'. periph_only s s') E" if "periph_only s t" "\<not> b < 0x2000" for b t
      unfolding start_depacketizer_def by (rule ends_weaken [OF ends_bits(1) [OF that(2)]]) (auto intro: periph_only_trans [OF that(1)])
    have p: "ends (start_packetizer b n) t (\<lambda>_ s'. periph_only s s') E"
      if "periph_only s t" "\<not> b < 0x2000" "\<not> b + 0x10 < 0x2000" for b n t
      by (rule ends_weaken [OF start_packetizer_ends [OF that(2,3)]]) (auto intro: periph_only_trans [OF that(1)])
    have "ends (blk [start_depacketizer UDP_RXPKT_BASEADDR, start_depacketizer TCP_RXPKT_BASEADDR,
        start_packetizer UDP_TXPKT_BASEADDR MAX_PACKETSIZE, start_packetizer TCP_TXPKT_BASEADDR MAX_PACKETSIZE]) s
        (\<lambda>_ s'. periph_only s s') E"
      by (simp only: blk.simps, rule ends_bndI [OF d], simp_all, rule ends_bndI [OF d], simp_all,
          rule ends_bndI [OF p], simp_all, rule ends_bndI [OF p], simp_all)
    then show ?thesis using f by (simp add: do_config_def del: blk.simps) (rule ends_bndI, assumption, simp_all)
  qed
  with assms(1) f show ?thesis by (simp add: do_call_def)
qed

text \<open>Nothing is under way in the command stream and no interrupt is waiting; since \<open>s\<close>, the host has been answered \<open>n\<close> times, each
time with success, and nothing else has changed in the exchange memory.\<close>

definition idle_after :: "nat \<Rightarrow> fw_state \<Rightarrow> fw_state \<Rightarrow> bool" where
  "idle_after n s t \<longleftrightarrow> irqs t = [] \<and> stream_in t CMD_HOST = [] \<and> (\<forall>a < 0x2000. a \<noteq> RETVAL_OFFSET \<longrightarrow> mem t a = mem s a) \<and>
     dma_tag_lookup t = dma_tag_lookup s \<and> num_rx_enqueued t = num_rx_enqueued s \<and>
     (\<exists>es. trace t = trace s @ es \<and> host_responses es = replicate n COLLECTIVE_OP_SUCCESS)"

lemma idle_after_refl: "irqs s = [] \<Longrightarrow> stream_in s CMD_HOST = [] \<Longrightarrow> idle_after 0 s s"
  by (simp add: idle_after_def)

lemma idle_after_trans:
  assumes "idle_after n s t" and "idle_after k t u"
  shows "idle_after (n + k) s u"
  using assms unfolding idle_after_def by (fastforce simp: replicate_add)

lemma enable_call_served:
  assumes "c_scenario c = XCCL_CONFIG" and "c_func c \<in> {HOUSEKEEP_IRQEN, HOUSEKEEP_PKTEN}" and "irqs s = []" and "offers s c []"
  shows "ends (serve_call gpio) s
     (\<lambda>_ t. idle_after 1 (s\<lparr>stream_in := (stream_in s)(CMD_HOST := [])\<rparr>) t) (\<lambda>_ _. False)"
proof -
  let ?s = "s\<lparr>stream_in := (stream_in s)(CMD_HOST := []), trace := trace s @ map (Got CMD_HOST) (call_words c)\<rparr>"
  have "ends (turn gpio) s (\<lambda>r t. r = COLLECTIVE_OP_SUCCESS \<and> periph_only (?s\<lparr>ie := ie s \<or> c_func c = HOUSEKEEP_IRQEN\<rparr>) t) (\<lambda>_ _. False)"
    using enable_call_ends [OF assms(1,2), of ?s gpio] assms(3) by (simp add: ends_def turn_offered [OF assms(4,3)])
  from serve_call_ends [OF this] show ?thesis
  proof (rule ends_weaken, goal_cases)
    case (2 u s')
    then obtain t where t: "periph_only (?s\<lparr>ie := ie s \<or> c_func c = HOUSEKEEP_IRQEN\<rparr>) t" "silent s t"
      "s' = t\<lparr>mem := (mem t)(RETVAL_OFFSET := COLLECTIVE_OP_SUCCESS), trace := trace t @ [Wr RETVAL_OFFSET COLLECTIVE_OP_SUCCESS, Put STS_HOST COLLECTIVE_OP_SUCCESS]\<rparr>"
      by auto
    from t(2) obtain es where "trace t = trace s @ es" "host_responses es = []" by (auto simp: silent_def)
    with t(3) periph_only_fields [OF t(1)] assms(3) show ?case by (auto simp: idle_after_def)
  qed auto
qed

end
