(* ===== verification/Drv_Xrt.thy ===== *)
theory Drv_Xrt
  imports Drv_Pynq Fw_Call "HOL-Library.Signed_Division"
begin

text \<open>
  The host driver for XRT: the codes of \<open>src/driver/xrt/include/xlnx-consts.hpp\<close>, the class \<open>communicator\<close> of
  \<open>xlnx-comm.hpp\<close>, the class \<open>ACCL\<close> of \<open>xlnx-device.hpp\<close> and the timer of \<open>timing.hpp\<close>. What the driver does to the device is
  a list of events: register writes and calls. Address resolution (\<open>inet_addr\<close>) is a parameter.
\<close>

subsection \<open>Codes\<close>

text \<open>An underscore and \<open>op\<close> tell the operations from the firmware's functions.\<close>

datatype accl_fgFunc = enable_irq | disable_irq | reset_periph | enable_pkt | set_timeout | init_connection_fn | open_port_fn
  | open_con_fn | use_tcp_stack | use_udp_stack | start_profiling | end_profiling | set_dma_transaction_size_fn

primrec function_code :: "accl_fgFunc \<Rightarrow> u32" where
  "function_code enable_irq = 0" | "function_code disable_irq = 1" | "function_code reset_periph = 2" | "function_code enable_pkt = 3"
| "function_code set_timeout = 4" | "function_code init_connection_fn = 5" | "function_code open_port_fn = 6"
| "function_code open_con_fn = 7" | "function_code use_tcp_stack = 8" | "function_code use_udp_stack = 9"
| "function_code start_profiling = 10" | "function_code end_profiling = 11" | "function_code set_dma_transaction_size_fn = 12"

datatype accl_operation_t = config | sendop | recvop | bcast_op | scatter_op | gather_op | reduce_op | allgather_op | allreduce_op
  | accumulate_op | copy_op | reduce_ring_op | allreduce_fused_ring_op | gather_ring_op | allgather_ring_op | ext_stream_krnl_op
  | ext_reduce_op | bcast_rr_op | scatter_rr_op | allreduce_share_ring_op | nop

primrec operation_code :: "accl_operation_t \<Rightarrow> u32" where
  "operation_code config = 0" | "operation_code sendop = 1" | "operation_code recvop = 2" | "operation_code bcast_op = 3"
| "operation_code scatter_op = 4" | "operation_code gather_op = 5" | "operation_code reduce_op = 6" | "operation_code allgather_op = 7"
| "operation_code allreduce_op = 8" | "operation_code accumulate_op = 9" | "operation_code copy_op = 10"
| "operation_code reduce_ring_op = 11" | "operation_code allreduce_fused_ring_op = 12" | "operation_code gather_ring_op = 13"
| "operation_code allgather_ring_op = 14" | "operation_code ext_stream_krnl_op = 15" | "operation_code ext_reduce_op = 16"
| "operation_code bcast_rr_op = 17" | "operation_code scatter_rr_op = 18" | "operation_code allreduce_share_ring_op = 19"
| "operation_code nop = 255"

text \<open>Here, small letters tell the codes from the firmware's constants.\<close>

datatype accl_error_code =
  collective_op_success | dma_mismatch_error | dma_internal_error | dma_decode_error | dma_slave_error | dma_not_okay_error
   | dma_not_end_of_packet_error | dma_not_expected_btt_error | dma_timeout_error | config_switch_error
   | dequeue_buffer_timeout_error | receive_timeout_error | dequeue_buffer_spare_buffer_status_error
   | dequeue_buffer_spare_buffer_dmatag_mismatch | dequeue_buffer_spare_buffer_index_error | collective_not_implemented
   | receive_offchip_spare_buff_id_not_valid | open_port_not_succeeded | open_com_not_succeeded | dma_size_error | arith_error
   | pack_timeout_sts_error | pack_seq_number_error

primrec error_code :: "accl_error_code \<Rightarrow> u32" where
  "error_code collective_op_success = 0" | "error_code dma_mismatch_error = 1"
| "error_code dma_internal_error = 2" | "error_code dma_decode_error = 3"
| "error_code dma_slave_error = 4" | "error_code dma_not_okay_error = 5"
| "error_code dma_not_end_of_packet_error = 6" | "error_code dma_not_expected_btt_error = 7"
| "error_code dma_timeout_error = 8" | "error_code config_switch_error = 9"
| "error_code dequeue_buffer_timeout_error = 10" | "error_code receive_timeout_error = 12"
| "error_code dequeue_buffer_spare_buffer_status_error = 11" | "error_code dequeue_buffer_spare_buffer_dmatag_mismatch = 13"
| "error_code dequeue_buffer_spare_buffer_index_error = 14" | "error_code collective_not_implemented = 15"
| "error_code receive_offchip_spare_buff_id_not_valid = 16" | "error_code open_port_not_succeeded = 17"
| "error_code open_com_not_succeeded = 18" | "error_code dma_size_error = 19"
| "error_code arith_error = 20" | "error_code pack_timeout_sts_error = 21"
| "error_code pack_seq_number_error = 22"

text \<open>They are those of the firmware.\<close>

lemma codes_agree:
  "error_code collective_op_success = COLLECTIVE_OP_SUCCESS" "error_code dma_mismatch_error = DMA_MISMATCH_ERROR"
   "error_code dma_internal_error = DMA_INTERNAL_ERROR" "error_code dma_decode_error = DMA_DECODE_ERROR"
   "error_code dma_slave_error = DMA_SLAVE_ERROR" "error_code dma_not_okay_error = DMA_NOT_OKAY_ERROR"
   "error_code dma_not_end_of_packet_error = DMA_NOT_END_OF_PACKET_ERROR"
   "error_code dma_not_expected_btt_error = DMA_NOT_EXPECTED_BTT_ERROR" "error_code dma_timeout_error = DMA_TIMEOUT_ERROR"
   "error_code config_switch_error = CONFIG_SWITCH_ERROR"
   "error_code dequeue_buffer_timeout_error = DEQUEUE_BUFFER_TIMEOUT_ERROR"
   "error_code receive_timeout_error = RECEIVE_TIMEOUT_ERROR"
   "error_code dequeue_buffer_spare_buffer_status_error = DEQUEUE_BUFFER_SPARE_BUFFER_STATUS_ERROR"
   "error_code dequeue_buffer_spare_buffer_dmatag_mismatch = DEQUEUE_BUFFER_SPARE_BUFFER_DMATAG_MISMATCH"
   "error_code dequeue_buffer_spare_buffer_index_error = DEQUEUE_BUFFER_SPARE_BUFFER_INDEX_ERROR"
   "error_code collective_not_implemented = COLLECTIVE_NOT_IMPLEMENTED"
   "error_code receive_offchip_spare_buff_id_not_valid = RECEIVE_OFFCHIP_SPARE_BUFF_ID_NOT_VALID"
   "error_code open_port_not_succeeded = OPEN_PORT_NOT_SUCCEEDED" "error_code open_com_not_succeeded = OPEN_COM_NOT_SUCCEEDED"
   "error_code dma_size_error = DMA_SIZE_ERROR" "error_code arith_error = ARITH_ERROR"
   "error_code pack_timeout_sts_error = PACK_TIMEOUT_STS_ERROR" "error_code pack_seq_number_error = PACK_SEQ_NUMBER_ERROR"
   "operation_code config = XCCL_CONFIG" "operation_code sendop = XCCL_SEND" "operation_code recvop = XCCL_RECV"
   "operation_code bcast_op = XCCL_BCAST" "operation_code scatter_op = XCCL_SCATTER" "operation_code gather_op = XCCL_GATHER"
   "operation_code reduce_op = XCCL_REDUCE" "operation_code allgather_op = XCCL_ALLGATHER"
   "operation_code allreduce_op = XCCL_ALLREDUCE" "operation_code accumulate_op = XCCL_ACC" "operation_code copy_op = XCCL_COPY"
   "operation_code ext_stream_krnl_op = XCCL_EXT_STREAM_KRNL" "operation_code ext_reduce_op = XCCL_EXT_REDUCE"
  by simp_all

datatype accl_reduce_func = fp | dp | i32 | i64

definition compatible_size :: "nat \<Rightarrow> accl_reduce_func \<Rightarrow> bool" where
  "compatible_size nbytes ty = (if ty = fp \<or> ty = i32 then nbytes mod 4 = 0 else nbytes mod 8 = 0)"

subsection \<open>What the driver does to the device\<close>

datatype host_event = Reg u64 u32 | Run accl_operation_t accl_fgFunc

text \<open>\<open>addr += 4; write_reg(addr, v)\<close> for each of the values.\<close>

primrec reg_writes :: "u64 \<Rightarrow> u32 list \<Rightarrow> host_event list" where
  "reg_writes addr [] = []"
| "reg_writes addr (v # vs) = Reg (addr + 4) v # reg_writes (addr + 4) vs"

record accl =
  base_addr :: u64
  comm_addr :: u64
  xrt_rx_buffer_size :: u32

text \<open>\<open>physs\<close> are the addresses of the buffer objects the library allocates.\<close>

primrec prep_rx_loop :: "u32 \<Rightarrow> u64 list \<Rightarrow> u64 \<Rightarrow> host_event list \<times> u64" where
  "prep_rx_loop bufsize [] addr = ([], addr)"
| "prep_rx_loop bufsize (a # as) addr =
     (let (es, addr') = prep_rx_loop bufsize as (addr + 36) in
      (reg_writes addr ([ucast (a AND 0xffffffff), ucast (drop_bit 32 a AND 0xffffffff), bufsize] @ replicate 6 0) @
         [Run config enable_irq, Run config enable_pkt] @ es, addr'))"

definition prep_rx_buffers :: "u64 list \<Rightarrow> accl \<Rightarrow> host_event list \<times> accl" where
  "prep_rx_buffers physs self =
     (let (es, addr) = prep_rx_loop (xrt_rx_buffer_size self) physs (base_addr self) in
      (Reg (base_addr self) (of_nat (length physs)) # es, if physs = [] then self else self\<lparr>comm_addr := addr + 4\<rparr>))"

definition nop_op :: "host_event list" where
  "nop_op = [Run nop enable_irq]"

text \<open>What is printed of a register: an \<open>int8_t\<close> in between.\<close>

definition dumped :: "u32 \<Rightarrow> int" where
  "dumped v = sint (ucast v :: u8)"

definition dump_rx_buffers :: "nat \<Rightarrow> accl \<Rightarrow> (u64 \<Rightarrow> u32) \<Rightarrow> (string \<times> int) list" where
  "dump_rx_buffers n self read_reg = concat (map (\<lambda>i. map (\<lambda>(j, label). (label, dumped (read_reg (base_addr self + of_nat (36 * i + 4 * Suc j)))))
     (enumerate 0 [''ADDRL'', ''ADDRH'', ''MAXSIZE'', ''DMA TAG'', ''ENQUEUED'', ''RX_TAG'', ''RESERVED'', ''RX_LEN'', ''RX_SRC'']))
     [0..<n])"

subsection \<open>Communicators\<close>

definition digit :: "nat \<Rightarrow> char" where
  "digit d = char_of (48 + d)"

fun to_string :: "nat \<Rightarrow> string" where
  "to_string n = (if n < 10 then [digit n] else to_string (n div 10) @ [digit (n mod 10)])"

declare to_string.simps [simp del]

definition base_ipaddr :: string where "base_ipaddr = ''197.11.27.''"
definition start_ip :: nat where "start_ip = 1"

text \<open>\<open>insert\<close> leaves a key that is there alone; \<open>[]\<close> adds a key that is not, with an empty string. The result is the writes, and
whether the loop was left by the exception of \<open>port_from_rank\<close>.\<close>

fun comm_loop :: "(string \<Rightarrow> u32) \<Rightarrow> bool \<Rightarrow> nat \<Rightarrow> nat list \<Rightarrow> u64 \<Rightarrow> (nat \<rightharpoonup> string) \<Rightarrow> host_event list \<times> bool" where
  "comm_loop inet_addr vnx me [] addr rank_to_ip = ([], False)"
| "comm_loop inet_addr vnx me (i # is) addr rank_to_ip =
     (let ip' = base_ipaddr @ to_string (i + start_ip);
          m1 = (if rank_to_ip me = None then rank_to_ip(me \<mapsto> ip') else rank_to_ip);
          m2 = (if m1 i = None then m1(i \<mapsto> []) else m1);
          w = Reg (addr + 4) (inet_addr (the (m2 i)))
      in (if vnx then let (ws, thrown) = comm_loop inet_addr vnx me is (addr + 8) m2 in (w # Reg (addr + 8) (of_nat i) # ws, thrown)
          else ([w], True)))"

definition make_communicator :: "(string \<Rightarrow> u32) \<Rightarrow> nat \<Rightarrow> u64 \<Rightarrow> bool \<Rightarrow> nat \<Rightarrow> u32 \<Rightarrow> host_event list \<times> bool" where
  "make_communicator inet_addr world_size addr vnx me local =
     (let (ws, thrown) = comm_loop inet_addr vnx me [0..<world_size] (addr + 4) Map.empty
      in (Reg addr (of_nat world_size) # Reg (addr + 4) local # ws, thrown))"

subsection \<open>The timer\<close>

record timer =
  tm_start :: int
  tm_end :: int
  tm_started :: bool
  tm_ended :: bool

definition timer_start :: "int \<Rightarrow> timer \<Rightarrow> timer" where
  "timer_start now t = t\<lparr>tm_start := now, tm_started := True\<rparr>"

definition timer_end :: "int \<Rightarrow> timer \<Rightarrow> timer" where
  "timer_end now t = t\<lparr>tm_end := now, tm_ended := True\<rparr>"

text \<open>In microseconds, the clock counts nanoseconds; \<open>unsigned long\<close> has 64 bits.\<close>

definition elapsed :: "timer \<Rightarrow> u64" where
  "elapsed t = (if \<not> tm_started t \<or> \<not> tm_ended t then 0 else word_of_int ((tm_end t - tm_start t) sdiv 1000))"

lemma elapsed_between:
  "a \<le> b \<Longrightarrow> elapsed (timer_end b (timer_start a t)) = word_of_int ((b - a) div 1000)"
  "\<not> tm_started t \<Longrightarrow> elapsed (timer_end b t) = 0"
  by (simp_all add: elapsed_def timer_end_def timer_start_def signed_divide_int_def sgn_if)

subsection \<open>What becomes of it\<close>

text \<open>
  A register from 0x1000 on is a word of the firmware's exchange memory; the others below are the control registers of the kernel that
  hands calls over. A call is served by the firmware. It carries the scalar arguments the driver gives: operation and function, zero for
  the others up to the type of the second buffer; the remaining arguments, which come from buffer objects or are not given at all, are those
  of the parameter \<open>c\<close>.
\<close>

definition run_call :: "call \<Rightarrow> accl_operation_t \<Rightarrow> accl_fgFunc \<Rightarrow> call" where
  "run_call c op f = c\<lparr>c_scenario := operation_code op, c_len := 0, c_comm := 0, c_root_src_dst := 0, c_func := function_code f,
     c_msg_tag := 0, c_buf0_type := 0, c_buf1_type := 0\<rparr>"

fun device_event :: "u32 \<Rightarrow> call \<Rightarrow> host_event \<Rightarrow> unit fw" where
  "device_event gpio c (Reg a v) = modf (\<lambda>s. if 0x1000 \<le> a \<and> a < 0x2000 then s\<lparr>mem := (mem s)(ucast a := v)\<rparr> else s)"
| "device_event gpio c (Run op f) =
     bnd (modf (\<lambda>s. s\<lparr>stream_in := (stream_in s)(CMD_HOST := stream_in s CMD_HOST @ zip (replicate 15 0) (call_words (run_call c op f)))\<rparr>))
       (\<lambda>_. serve_call gpio)"

definition device_events :: "u32 \<Rightarrow> call \<Rightarrow> host_event list \<Rightarrow> unit fw" where
  "device_events gpio c es = blk (map (device_event gpio c) es)"

text \<open>The calls among the events.\<close>

definition runs :: "host_event list \<Rightarrow> (accl_operation_t \<times> accl_fgFunc) list" where
  "runs es = concat (map (\<lambda>e. case e of Reg a v \<Rightarrow> [] | Run op f \<Rightarrow> [(op, f)]) es)"

lemma runs_simps [simp]:
  "runs [] = []" "runs (Reg a v # es) = runs es" "runs (Run op f # es) = (op, f) # runs es" "runs (es @ fs) = runs es @ runs fs"
  by (simp_all add: runs_def)

lemma device_run_ends:
  assumes "f \<in> {enable_irq, enable_pkt}" and "irqs s = []" and "stream_in s CMD_HOST = []"
  shows "ends (device_event gpio c (Run config f)) s (\<lambda>_ t. idle_after 1 s t) (\<lambda>_ _. False)"
proof -
  let ?c = "run_call c config f"
  let ?s = "s\<lparr>stream_in := (stream_in s)(CMD_HOST := zip (replicate 15 0) (call_words ?c))\<rparr>"
  have "offers ?s ?c []" unfolding offers_def by (rule exI [of _ "replicate 15 0"]) simp
  moreover have "c_scenario ?c = XCCL_CONFIG" "c_func ?c \<in> {HOUSEKEEP_IRQEN, HOUSEKEEP_PKTEN}"
    using assms(1) by (auto simp: run_call_def)
  ultimately have "ends (serve_call gpio) ?s (\<lambda>_ t. idle_after 1 (?s\<lparr>stream_in := (stream_in ?s)(CMD_HOST := [])\<rparr>) t) (\<lambda>_ _. False)"
    using assms(2) by (intro enable_call_served) simp_all
  then show ?thesis using assms(3) by (simp add: idle_after_def)
qed

text \<open>Writes outside the exchange memory and the two configuration calls.\<close>

lemma device_events_idle:
  assumes "\<And>a v. Reg a v \<in> set es \<Longrightarrow> a < 0x1000" and "set (runs es) \<subseteq> {(config, enable_irq), (config, enable_pkt)}"
    and "irqs s = []" and "stream_in s CMD_HOST = []"
  shows "ends (device_events gpio c es) s (\<lambda>_ t. idle_after (length (runs es)) s t) (\<lambda>_ _. False)"
  using assms
proof (induction es arbitrary: s)
  case Nil
  then show ?case by (simp add: device_events_def idle_after_refl)
next
  case (Cons e es)
  have rest: "ends (device_events gpio c es) t (\<lambda>_ u. idle_after (n + length (runs es)) s u) (\<lambda>_ _. False)" if "idle_after n s t" for n t
  proof -
    have "ends (device_events gpio c es) t (\<lambda>_ u. idle_after (length (runs es)) t u) (\<lambda>_ _. False)"
      by (rule Cons.IH) (use Cons.prems that in \<open>auto simp: idle_after_def runs_def\<close>)
    then show ?thesis by (rule ends_weaken) (auto intro: idle_after_trans [OF that])
  qed
  show ?case
  proof (cases e)
    case (Reg a v)
    with Cons.prems(1) [of a v] have "\<not> 0x1000 \<le> a" by (simp add: not_le)
    then show ?thesis using rest [OF idle_after_refl [OF Cons.prems(3,4)]] Reg by (simp add: device_events_def)
  next
    case (Run op f)
    with Cons.prems(2) have "op = config" "f \<in> {enable_irq, enable_pkt}" by auto
    then have "ends (bnd (device_event gpio c e) (\<lambda>_. device_events gpio c es)) s
        (\<lambda>_ u. idle_after (1 + length (runs es)) s u) (\<lambda>_ _. False)"
      by (intro ends_bndI [OF device_run_ends [OF _ Cons.prems(3,4)] rest, of f] | simp only: Run)+
    then show ?thesis by (simp add: device_events_def Run)
  qed
qed

lemma reg_writes_at: "Reg a v \<in> set (reg_writes addr vs) \<Longrightarrow> \<exists>k < length vs. a = addr + of_nat (4 * Suc k)"
proof (induction vs arbitrary: addr)
  case (Cons w vs)
  show ?case
  proof (cases "a = addr + 4")
    case False
    with Cons.prems have "Reg a v \<in> set (reg_writes (addr + 4) vs)" by auto
    from Cons.IH [OF this] obtain k where "k < length vs" "a = addr + 4 + of_nat (4 * Suc k)" by blast
    then show ?thesis by (intro exI [of _ "Suc k"]) (simp add: add.assoc)
  qed (auto intro: exI [of _ 0])
qed simp

lemma prep_rx_loop_at: "Reg a v \<in> set (fst (prep_rx_loop bufsize physs addr)) \<Longrightarrow> \<exists>k < 9 * length physs. a = addr + of_nat (4 * Suc k)"
proof (induction physs arbitrary: addr)
  case (Cons p ps)
  then consider "Reg a v \<in> set (reg_writes addr ([ucast (p AND 0xffffffff), ucast (drop_bit 32 p AND 0xffffffff), bufsize] @ replicate 6 0))"
    | "Reg a v \<in> set (fst (prep_rx_loop bufsize ps (addr + 36)))"
    by (auto simp: Let_def split: prod.splits)
  then show ?case
  proof cases
    case 1
    from reg_writes_at [OF this] obtain k where "k < 9" "a = addr + of_nat (4 * Suc k)" by auto
    then show ?thesis by (intro exI [of _ k]) simp
  next
    case 2
    from Cons.IH [OF this] obtain k where "k < 9 * length ps" "a = addr + 36 + of_nat (4 * Suc k)" by blast
    then show ?thesis by (intro exI [of _ "k + 9"]) (simp add: add.assoc)
  qed
qed simp

lemma prep_rx_buffers_low:
  assumes "length physs \<le> 56" and "base_addr self = 0x800" and "Reg a v \<in> set (fst (prep_rx_buffers physs self))"
  shows "a < 0x1000"
proof -
  have "a = 0x800 \<or> Reg a v \<in> set (fst (prep_rx_loop (xrt_rx_buffer_size self) physs 0x800))"
    using assms(2,3) by (auto simp: prep_rx_buffers_def Let_def split: prod.splits)
  then obtain k where k: "k \<le> 2016" "a = of_nat (0x800 + k)"
  proof
    assume "Reg a v \<in> set (fst (prep_rx_loop (xrt_rx_buffer_size self) physs 0x800))"
    from prep_rx_loop_at [OF this] obtain k where "k < 9 * length physs" "a = 0x800 + of_nat (4 * Suc k)" by blast
    then show ?thesis using assms(1) by (intro that [of "4 * Suc k"]) simp_all
  qed (auto intro: that [of 0])
  have "unat (of_nat (0x800 + k) :: u64) = (0x800 + k) mod 2 ^ 64" by (simp only: unat_of_nat) simp
  then have "unat (of_nat (0x800 + k) :: u64) = 0x800 + k" using k(1) by simp
  then have "unat a = 0x800 + k" by (simp only: k(2))
  with k(1) show ?thesis by (simp add: word_less_nat_alt)
qed

lemma reg_writes_runs [simp]: "runs (reg_writes addr vs) = []"
  by (induction vs arbitrary: addr) simp_all

lemma prep_rx_loop_runs:
  "runs (fst (prep_rx_loop bufsize physs addr)) = concat (replicate (length physs) [(config, enable_irq), (config, enable_pkt)])"
  by (induction physs arbitrary: addr) (simp_all add: Let_def split: prod.splits, metis fst_conv)

lemma prep_rx_buffers_runs:
  "runs (fst (prep_rx_buffers physs self)) = concat (replicate (length physs) [(config, enable_irq), (config, enable_pkt)])"
  using prep_rx_loop_runs [of "xrt_rx_buffer_size self" physs "base_addr self"]
  by (auto simp: prep_rx_buffers_def Let_def split: prod.splits)

text \<open>The loop over the ranks, once the own rank has an address.\<close>

definition rank_words :: "(string \<Rightarrow> u32) \<Rightarrow> nat \<Rightarrow> string \<Rightarrow> u64 \<Rightarrow> nat \<Rightarrow> host_event list" where
  "rank_words inet_addr me own addr i =
     [Reg (addr + 4 + 8 * of_nat i) (inet_addr (if i = me then own else [])), Reg (addr + 8 + 8 * of_nat i) (of_nat i)]"

lemma comm_loop_run:
  assumes "j \<le> n" and "m me = Some own" and "\<And>k. k \<noteq> me \<Longrightarrow> m k = None \<or> m k = Some []"
  shows "comm_loop inet_addr True me [j..<n] (addr + 8 * of_nat j) m = (concat (map (rank_words inet_addr me own addr) [j..<n]), False)"
  using assms
proof (induction j arbitrary: m rule: inc_induct)
  case (step j)
  let ?m2 = "if m j = None then m(j \<mapsto> []) else m"
  have "comm_loop inet_addr True me [Suc j..<n] (addr + 8 * of_nat (Suc j)) ?m2 =
      (concat (map (rank_words inet_addr me own addr) [Suc j..<n]), False)"
    by (rule step.IH) (use step.prems in auto)
  moreover have "addr + 8 * of_nat (Suc j) = addr + 8 * of_nat j + 8" by simp
  moreover have "the (?m2 j) = (if j = me then own else [])" using step.prems(1) step.prems(2) [of j] by (cases "m j") auto
  moreover have "[j..<n] = j # [Suc j..<n]" using step.hyps by (simp add: upt_conv_Cons)
  ultimately show ?case using step.prems(1)
    by (simp add: Let_def rank_words_def [of _ _ _ _ j] algebra_simps del: upt_Suc)
qed simp

lemma comm_loop_first:
  "comm_loop inet_addr True me (0 # is) addr Map.empty = comm_loop inet_addr True me (0 # is) addr [me \<mapsto> ''197.11.27.1'']"
proof -
  have "base_ipaddr @ to_string (0 + start_ip) = ''197.11.27.1''" by code_simp
  then show ?thesis by (simp add: Let_def)
qed

subsection \<open>Properties\<close>

text \<open>C32: With at most 56 buffers, nothing the XRT driver writes for the receive buffers reaches the exchange memory: its table starts at the
base of the control registers (0x800) and ends below 0x1000. A machine that has just started, with no call waiting and no interrupt taken
meanwhile, serves the two configuration calls the driver makes for every buffer, answers each with success, and when the driver has set up
its buffers the firmware still has none: of the exchange memory only the word of the return value has changed.\<close>

theorem prep_rx_buffers_unseen:
  assumes "length physs \<le> 56" and "base_addr self = 0x800" and "\<not> gpio < 0x2000" and "si CMD_HOST = []"
  shows "ends (init gpio) (boot_state m g si [])
     (\<lambda>_ t. ends (device_events gpio c (fst (prep_rx_buffers physs self))) t
        (\<lambda>_ u. nbufs u = 0 \<and> rx_inv u \<and> (\<forall>a < 0x2000. a \<noteq> RETVAL_OFFSET \<longrightarrow> mem u a = mem t a) \<and>
           (\<exists>es. trace u = trace t @ es \<and> host_responses es = replicate (2 * length physs) COLLECTIVE_OP_SUCCESS))
        (\<lambda>_ _. False))
     (\<lambda>_ _. False)"
proof (rule ends_weaken [OF init_ends [OF assms(3)]], goal_cases)
  case (1 r t)
  let ?es = "fst (prep_rx_buffers physs self)"
  have "set (runs ?es) \<subseteq> {(config, enable_irq), (config, enable_pkt)}" "length (runs ?es) = 2 * length physs"
    by (auto simp: prep_rx_buffers_runs length_concat sum_list_replicate)
  moreover have "irqs t = []" "stream_in t CMD_HOST = []" using 1 assms(4) by (simp_all add: fresh_def boot_state_def)
  ultimately have "ends (device_events gpio c ?es) t (\<lambda>_ u. idle_after (2 * length physs) t u) (\<lambda>_ _. False)"
    using device_events_idle [of ?es t gpio c] prep_rx_buffers_low [OF assms(1,2)] by metis
  then show ?case
  proof (rule ends_weaken, goal_cases)
    case (1 x u)
    then have "fresh t (u\<lparr>ie := ie t, use_tcp := use_tcp t, timeout := timeout t, dma_transaction_size := dma_transaction_size t,
        max_dma_in_flight := max_dma_in_flight t, stream_in := stream_in t, dma_tag := 0, irqs := irqs t\<rparr>)"
      using \<open>fresh _ t\<close> by (simp add: fresh_def idle_after_def config_same_def)
    from fresh_rx_inv [OF this] have "rx_inv u"
      by (simp add: rx_inv_def nbufs_def tag_ok_def buf_ok_def bufv_def)
    with 1 \<open>fresh _ t\<close> show ?case by (simp add: idle_after_def fresh_def nbufs_def)
  qed simp
qed simp

definition accl_new :: accl where
  "accl_new = \<lparr>base_addr = 0x800, comm_addr = 0, xrt_rx_buffer_size = 0x4000\<rparr>"

theorem prep_rx_buffers_unseen_witness:
  "ends (init 0x40000000) (boot_state (\<lambda>_. 7) (\<lambda>_. []) (\<lambda>_. []) [])
     (\<lambda>_ t. ends (device_events 0x40000000 copy_call (fst (prep_rx_buffers [0x10000, 0x20000] accl_new))) t
        (\<lambda>_ u. nbufs u = 0 \<and> (\<exists>es. trace u = trace t @ es \<and> host_responses es = [0, 0, 0, 0])) (\<lambda>_ _. False))
     (\<lambda>_ _. False)"
proof -
  have "length [0x10000, 0x20000 :: u64] \<le> 56" "base_addr accl_new = 0x800" "\<not> (0x40000000 :: u32) < 0x2000"
    by (simp_all add: accl_new_def)
  from prep_rx_buffers_unseen [OF this, of "\<lambda>_. []" "\<lambda>_. 7" "\<lambda>_. []" copy_call] show ?thesis
    by (simp, elim ends_weaken) (auto elim!: ends_weaken simp: numeral_eq_Suc)
qed

text \<open>The operations that the driver's enumeration names but the firmware does not implement - the ring, fused and round-robin variants -
are answered with success, and nothing is done.\<close>

lemma unknown_operations_succeed:
  assumes "op \<in> {reduce_ring_op, allreduce_fused_ring_op, gather_ring_op, allgather_ring_op, bcast_rr_op, scatter_rr_op, allreduce_share_ring_op}"
    and "c_scenario c = operation_code op"
  shows "do_call gpio c s = Some (Ret COLLECTIVE_OP_SUCCESS, s)"
  using assms by (auto simp: do_call_def prim_run)

text \<open>C31: The communicator that the XRT driver writes for the UDP stack, whatever the local rank and the resolution of addresses:
size and local rank, and then two words for each rank, its number in the second; the address is that of an empty string for all ranks
but the own, and for the own it is that of 197.11.27.1, whatever its number.  No exception is thrown.\<close>

theorem xrt_communicator_written:
  "make_communicator inet_addr n addr True me local =
     (Reg addr (of_nat n) # Reg (addr + 4) local #
      concat (map (\<lambda>i. [Reg (addr + 8 + 8 * of_nat i) (inet_addr (if i = me then ''197.11.27.1'' else [])),
         Reg (addr + 12 + 8 * of_nat i) (of_nat i)]) [0..<n]), False)"
proof -
  have "comm_loop inet_addr True me [0..<n] (addr + 4) Map.empty =
      comm_loop inet_addr True me [0..<n] (addr + 4) [me \<mapsto> ''197.11.27.1'']"
  proof (cases n)
    case (Suc k)
    have "[0..<Suc k] = 0 # [Suc 0..<Suc k]" by (simp add: upt_conv_Cons del: upt_Suc)
    then show ?thesis by (simp only: Suc comm_loop_first)
  qed simp
  also have "\<dots> = comm_loop inet_addr True me [0..<n] (addr + 4 + 8 * of_nat 0) [me \<mapsto> ''197.11.27.1'']" by simp
  also have "\<dots> = (concat (map (rank_words inet_addr me ''197.11.27.1'' (addr + 4)) [0..<n]), False)"
    by (rule comm_loop_run) simp_all
  finally show ?thesis
    by (simp add: make_communicator_def rank_words_def [abs_def] add.assoc)
qed

end
