(* ===== verification/Hls_Host.thy ===== *)
theory Hls_Host
  imports Hls_Stream
begin

text \<open>
  \<open>hostctrl.cpp\<close>, the kernel through which the host calls the firmware: it writes the fifteen words of a
  call to the command stream and waits for one word on the status stream.
\<close>

definition hostctrl_words ::
  "u32 \<Rightarrow> u32 \<Rightarrow> u32 \<Rightarrow> u32 \<Rightarrow> u32 \<Rightarrow> u32 \<Rightarrow> u32 \<Rightarrow> u32 \<Rightarrow> u32 \<Rightarrow> u64 \<Rightarrow> u64 \<Rightarrow> u64 \<Rightarrow> u32 list" where
  "hostctrl_words scenario len comm root_src_dst func msg_tag buf0_type buf1_type buf2_type addra addrb addrc =
     [scenario, len, comm, root_src_dst, func, msg_tag, buf0_type, buf1_type, buf2_type,
      get_range addra 31 0, get_range addra 63 32, get_range addrb 31 0, get_range addrb 63 32,
      get_range addrc 31 0, get_range addrc 63 32]"

text \<open>A run gives the words it has written, and what is left of the status stream once its one word has been taken: \<open>None\<close> as long
as none has come, and the kernel waits in the read behind its fifteen writes.\<close>

definition hostctrl ::
  "u32 \<Rightarrow> u32 \<Rightarrow> u32 \<Rightarrow> u32 \<Rightarrow> u32 \<Rightarrow> u32 \<Rightarrow> u32 \<Rightarrow> u32 \<Rightarrow> u32 \<Rightarrow> u64 \<Rightarrow> u64 \<Rightarrow> u64 \<Rightarrow> u32 list \<Rightarrow>
     u32 list \<times> u32 list option" where
  "hostctrl scenario len comm root_src_dst func msg_tag buf0_type buf1_type buf2_type addra addrb addrc sts =
     (hostctrl_words scenario len comm root_src_dst func msg_tag buf0_type buf1_type buf2_type addra addrb addrc,
      case take_one sts of None \<Rightarrow> None | Some (_, sts') \<Rightarrow> Some sts')"

text \<open>The two halves of an address, as ranges and as the casts of the firmware model.\<close>

lemma address_halves:
  fixes a :: u64
  shows "(get_range a 31 0 :: u32) = ucast a" and "(get_range a 63 32 :: u32) = ucast (drop_bit 32 a)"
  by (rule bit_word_eqI; auto simp: bit_get_range bit_simps)+

end
