(* ===== verification/Hls_Mux.thy ===== *)
theory Hls_Mux
  imports Hls_Stream "HOL-Library.Multiset"
begin

text \<open>
  \<open>pktMultiplexor.cpp\<close>: packets of several TCP sessions arrive on one stream and are given one of eight
  destinations, the same for all packets of a message. \<open>session_dest_lookup\<close> keeps the table of sessions
  and the FIFO of free destinations, \<open>procStream\<close> passes the words on and reports the length of a new
  message, which it takes from the message's header. The two run concurrently.
\<close>

subsection \<open>Types\<close>

function ConstLog2 :: "nat \<Rightarrow> nat" where
  "ConstLog2 val = (if val \<le> 1 then 0 else 1 + ConstLog2 (val div 2))"
  by pat_completeness auto
termination by (relation "measure id") auto

declare ConstLog2.simps [simp del]

definition NUM_MULT_STREAM :: nat where "NUM_MULT_STREAM = 8"
definition MULT_DEST_BITS :: nat where "MULT_DEST_BITS = ConstLog2 NUM_MULT_STREAM"

text \<open>The width of a destination is that of the type below.\<close>

lemma dest_bits: "MULT_DEST_BITS = LENGTH(3)"
  by (simp add: MULT_DEST_BITS_def NUM_MULT_STREAM_def ConstLog2.simps)

type_synonym mdest = "3 word"

record axis_r = axis +
  ar_dest :: mdest

record lookupRespType =
  lookupHit :: bool
  isLastPkt :: bool
  lr_dest :: mdest
  lr_pktLen :: u16
  lr_session :: u16

record lookupUpdType =
  lu_dest :: mdest
  lu_session :: u16
  lu_pktLen :: u16
  lu_msgSize :: u32

datatype lookupFsmStateType = IDLE | REQ | HIT_RESP | MISS_RESP | UPDATE
datatype procFsmStateType = WAIT_STREAM | CONSUME

record mux =
  sessionTableValid :: "bool list"
  sessionTableSession :: "u16 list"
  sessionTableTotalMsgSize :: "u32 list"
  sessionTableRcvdMsgSize :: "u32 list"
  freeDest :: "u8 stream"
  lookupFsmState :: lookupFsmStateType
  lk_mask :: u8
  lk_dest :: mdest
  lk_counter :: u8
  lk_session :: u32
  lk_pktLen :: u32
  lk_msgSize :: u32
  FsmState :: procFsmStateType
  ps_resp :: lookupRespType
  pktStreamIn :: "axis stream"
  pktMetaIn :: "u64 stream"
  pktMultStreamOut :: "axis_r stream"
  lookupResp :: "lookupRespType stream"
  lookupUpd :: "lookupUpdType stream"

subsection \<open>The lookup process\<close>

text \<open>The FIFO of responses is eight deep; a call that would block in a write has not happened yet.\<close>

definition full8 :: "'a stream \<Rightarrow> bool" where
  "full8 f \<longleftrightarrow> 8 \<le> length (waiting f)"

definition clear_entry :: "nat \<Rightarrow> mux \<Rightarrow> mux" where
  "clear_entry i s = s\<lparr>sessionTableSession := (sessionTableSession s)[i := 0],
     sessionTableRcvdMsgSize := (sessionTableRcvdMsgSize s)[i := 0],
     sessionTableTotalMsgSize := (sessionTableTotalMsgSize s)[i := 0],
     sessionTableValid := (sessionTableValid s)[i := False]\<rparr>"

definition lookup_idle :: "mux \<Rightarrow> mux" where
  "lookup_idle s =
     (let s1 = clear_entry (unat (lk_counter s)) (s\<lparr>freeDest := push (lk_counter s) (freeDest s)\<rparr>);
          c = lk_counter s + 1
      in if unat c = NUM_MULT_STREAM then s1\<lparr>lk_counter := 0, lookupFsmState := REQ\<rparr> else s1\<lparr>lk_counter := c\<rparr>)"

text \<open>The comparison of a session with all entries, one bit of the mask each.\<close>

definition entry_hit :: "mux \<Rightarrow> u32 \<Rightarrow> nat \<Rightarrow> bool" where
  "entry_hit s session i \<longleftrightarrow> sessionTableValid s ! i \<and> ucast (sessionTableSession s ! i) = session"

definition hit_mask :: "mux \<Rightarrow> u32 \<Rightarrow> u8" where
  "hit_mask s session =
     foldl (\<lambda>m i. set_range m i i (of_bool (entry_hit s session i) :: u8)) (lk_mask s) [0..<NUM_MULT_STREAM]"

definition lookup_req :: "mux \<Rightarrow> mux" where
  "lookup_req s =
     (if is_empty (pktMetaIn s) then s
      else let req = front (pktMetaIn s); session = get_range req 31 0 :: u32; msk = hit_mask s session in
        s\<lparr>pktMetaIn := pop (pktMetaIn s), lk_session := session, lk_pktLen := get_range req 63 32,
          lk_mask := msk, lookupFsmState := (if msk \<noteq> 0 then HIT_RESP else MISS_RESP)\<rparr>)"

definition mask_dest :: "u8 \<Rightarrow> mdest \<Rightarrow> mdest" where
  "mask_dest m dest =
     (if m = 0b00000001 then 0 else if m = 0b00000010 then 1 else if m = 0b00000100 then 2
      else if m = 0b00001000 then 3 else if m = 0b00010000 then 4 else if m = 0b00100000 then 5
      else if m = 0b01000000 then 6 else if m = 0b10000000 then 7 else dest)"

definition response :: "bool \<Rightarrow> bool \<Rightarrow> mux \<Rightarrow> mdest \<Rightarrow> lookupRespType" where
  "response hit is_last s dest =
     \<lparr>lookupHit = hit, isLastPkt = is_last, lr_dest = dest, lr_pktLen = ucast (lk_pktLen s), lr_session = ucast (lk_session s)\<rparr>"

definition lookup_hit :: "mux \<Rightarrow> mux" where
  "lookup_hit s =
     (if full8 (lookupResp s) then s
      else let dest = mask_dest (lk_mask s) (lk_dest s); i = unat dest in
        (if unat (sessionTableRcvdMsgSize s ! i) + unat (lk_pktLen s) \<ge> unat (sessionTableTotalMsgSize s ! i) then
           (clear_entry i s)\<lparr>lk_dest := dest, freeDest := push (ucast dest) (freeDest s),
             lookupResp := push (response True True s dest) (lookupResp s), lookupFsmState := REQ\<rparr>
         else
           s\<lparr>lk_dest := dest,
             sessionTableRcvdMsgSize := (sessionTableRcvdMsgSize s)[i := sessionTableRcvdMsgSize s ! i + lk_pktLen s],
             lookupResp := push (response True False s dest) (lookupResp s), lookupFsmState := REQ\<rparr>))"

definition lookup_miss :: "mux \<Rightarrow> mux" where
  "lookup_miss s =
     (if is_empty (freeDest s) \<or> full8 (lookupResp s) then s
      else let dest = ucast (front (freeDest s)) in
        s\<lparr>freeDest := pop (freeDest s), lk_dest := dest,
          lookupResp := push (response False False s dest) (lookupResp s), lookupFsmState := UPDATE\<rparr>)"

definition lookup_update :: "mux \<Rightarrow> mux" where
  "lookup_update s0 =
     (if is_empty (lookupUpd s0) then s0
      else let upd = front (lookupUpd s0); i = unat (lu_dest upd);
               s = s0\<lparr>lookupUpd := pop (lookupUpd s0), lk_dest := lu_dest upd, lk_pktLen := ucast (lu_pktLen upd),
                      lk_session := ucast (lu_session upd), lk_msgSize := lu_msgSize upd, lookupFsmState := REQ\<rparr>
        in if lk_pktLen s \<ge> lu_msgSize upd
           then (clear_entry i s)\<lparr>freeDest := push (ucast (lu_dest upd)) (freeDest s)\<rparr>
           else s\<lparr>sessionTableValid := (sessionTableValid s)[i := True],
                  sessionTableSession := (sessionTableSession s)[i := ucast (lk_session s)],
                  sessionTableTotalMsgSize := (sessionTableTotalMsgSize s)[i := lk_msgSize s],
                  sessionTableRcvdMsgSize := (sessionTableRcvdMsgSize s)[i := lk_pktLen s]\<rparr>)"

definition session_dest_lookup :: "mux \<Rightarrow> mux" where
  "session_dest_lookup s =
     (case lookupFsmState s of
        IDLE \<Rightarrow> lookup_idle s
      | REQ \<Rightarrow> lookup_req s
      | HIT_RESP \<Rightarrow> lookup_hit s
      | MISS_RESP \<Rightarrow> lookup_miss s
      | UPDATE \<Rightarrow> lookup_update s)"

subsection \<open>The stream process\<close>

definition route :: "lookupRespType \<Rightarrow> axis \<Rightarrow> axis_r" where
  "route resp w = \<lparr>ax_data = ax_data w, ax_keep = ax_keep w, ax_last = (ax_last w \<and> isLastPkt resp), ar_dest = lr_dest resp\<rparr>"

text \<open>The length of a new message, header and payload, as read from its first word.\<close>

definition header_msgSize :: "512 word \<Rightarrow> u32" where
  "header_msgSize d = get_range d 63 32 + get_range d 191 160"

definition proc_wait_stream :: "mux \<Rightarrow> mux" where
  "proc_wait_stream s =
     (let resp = front (lookupResp s) in
      if is_empty (lookupResp s) \<or> is_empty (pktStreamIn s) \<or> \<not> lookupHit resp \<and> full8 (lookupUpd s) then s
      else let w = front (pktStreamIn s);
               upd = \<lparr>lu_dest = lr_dest resp, lu_session = lr_session resp, lu_pktLen = lr_pktLen resp,
                      lu_msgSize = header_msgSize (ax_data w)\<rparr>
        in s\<lparr>lookupResp := pop (lookupResp s), pktStreamIn := pop (pktStreamIn s), ps_resp := resp,
             lookupUpd := (if \<not> lookupHit resp then push upd (lookupUpd s) else lookupUpd s),
             pktMultStreamOut := push (route resp w) (pktMultStreamOut s),
             FsmState := (if \<not> ax_last w then CONSUME else WAIT_STREAM)\<rparr>)"

definition proc_consume :: "mux \<Rightarrow> mux" where
  "proc_consume s =
     (if is_empty (pktStreamIn s) then s
      else let w = front (pktStreamIn s) in
        s\<lparr>pktStreamIn := pop (pktStreamIn s), pktMultStreamOut := push (route (ps_resp s) w) (pktMultStreamOut s),
          FsmState := (if ax_last w then WAIT_STREAM else CONSUME)\<rparr>)"

definition procStream :: "mux \<Rightarrow> mux" where
  "procStream s = (case FsmState s of WAIT_STREAM \<Rightarrow> proc_wait_stream s | CONSUME \<Rightarrow> proc_consume s)"

definition pktMultiplexor :: "mux \<Rightarrow> mux" where
  "pktMultiplexor s = procStream (session_dest_lookup s)"

text \<open>The arrays and the variables with initialisers are zero at the start.\<close>

definition mux_init :: "mux \<Rightarrow> bool" where
  "mux_init s \<longleftrightarrow> sessionTableValid s = replicate NUM_MULT_STREAM False \<and>
     length (sessionTableSession s) = NUM_MULT_STREAM \<and> length (sessionTableTotalMsgSize s) = NUM_MULT_STREAM \<and>
     length (sessionTableRcvdMsgSize s) = NUM_MULT_STREAM \<and> lookupFsmState s = IDLE \<and> FsmState s = WAIT_STREAM \<and>
     lk_counter s = 0 \<and> freeDest s = no_data \<and> pktStreamIn s = no_data \<and> pktMetaIn s = no_data \<and>
     pktMultStreamOut s = no_data \<and> lookupResp s = no_data \<and> lookupUpd s = no_data"

text \<open>
  Either process runs; packets and their descriptions (session and length) arrive, for sessions of
  sixteen bits, as the table keeps them; words are taken from the output.
\<close>

inductive mux_step :: "mux \<Rightarrow> mux \<Rightarrow> bool" where
  mux_lookup: "mux_step s (session_dest_lookup s)"
| mux_proc: "mux_step s (procStream s)"
| mux_meta: "(get_range m 31 0 :: u32) < 2 ^ 16 \<Longrightarrow> mux_step s (s\<lparr>pktMetaIn := push m (pktMetaIn s)\<rparr>)"
| mux_word: "mux_step s (s\<lparr>pktStreamIn := push w (pktStreamIn s)\<rparr>)"
| mux_taken: "mux_step s (s\<lparr>pktMultStreamOut := pop (pktMultStreamOut s)\<rparr>)"

inductive_cases mux_stepE: "mux_step s s'"

subsection \<open>Destinations are never given out twice\<close>

text \<open>The entries in use, and the destination between having been taken from the FIFO and being entered or returned.\<close>

definition used :: "mux \<Rightarrow> nat set" where
  "used s = {i. i < 8 \<and> sessionTableValid s ! i}"

definition held :: "mux \<Rightarrow> nat multiset" where
  "held s = (if lookupFsmState s = UPDATE then {#unat (lk_dest s)#} else {#})"

text \<open>Free, used and held destinations together are all of them, each once; those not handed out yet at the start apart.\<close>

definition dests_split :: "mux \<Rightarrow> bool" where
  "dests_split s \<longleftrightarrow> mset (map unat (waiting (freeDest s))) + mset_set (used s) + held s =
     mset_set {..<(if lookupFsmState s = IDLE then unat (lk_counter s) else 8)}"

text \<open>No two entries in use have the same session.\<close>

definition sessions_distinct :: "mux \<Rightarrow> bool" where
  "sessions_distinct s \<longleftrightarrow> inj_on ((!) (sessionTableSession s)) (used s)"

definition unseen :: "mux \<Rightarrow> bool" where
  "unseen s \<longleftrightarrow> (\<forall>i \<in> used s. ucast (sessionTableSession s ! i) \<noteq> lk_session s)"

text \<open>
  The conversation of the two processes: the miss being dealt with is either the last response, or its
  update is the only one; all other responses are hits.
\<close>

definition miss_for :: "mux \<Rightarrow> lookupRespType \<Rightarrow> bool" where
  "miss_for s r \<longleftrightarrow> \<not> lookupHit r \<and> lr_dest r = lk_dest s \<and> ucast (lr_session r) = lk_session s"

definition update_for :: "mux \<Rightarrow> lookupUpdType \<Rightarrow> bool" where
  "update_for s u \<longleftrightarrow> lu_dest u = lk_dest s \<and> ucast (lu_session u) = lk_session s"

definition lookup_talk :: "mux \<Rightarrow> bool" where
  "lookup_talk s \<longleftrightarrow> (case lookupFsmState s of
     IDLE \<Rightarrow> used s = {} \<and> unat (lk_counter s) < 8 \<and> list_all lookupHit (waiting (lookupResp s)) \<and> waiting (lookupUpd s) = []
   | REQ \<Rightarrow> list_all lookupHit (waiting (lookupResp s)) \<and> waiting (lookupUpd s) = []
   | HIT_RESP \<Rightarrow> list_all lookupHit (waiting (lookupResp s)) \<and> waiting (lookupUpd s) = [] \<and>
       (\<exists>i \<in> used s. lk_mask s = push_bit i 1)
   | MISS_RESP \<Rightarrow> list_all lookupHit (waiting (lookupResp s)) \<and> waiting (lookupUpd s) = [] \<and>
       unseen s \<and> lk_session s < 2 ^ 16
   | UPDATE \<Rightarrow> unseen s \<and>
       ((\<exists>rs r. waiting (lookupResp s) = rs @ [r] \<and> list_all lookupHit rs \<and> miss_for s r \<and> waiting (lookupUpd s) = []) \<or>
        (\<exists>u. waiting (lookupResp s) = [] \<and> waiting (lookupUpd s) = [u] \<and> update_for s u)))"

definition mux_inv :: "mux \<Rightarrow> bool" where
  "mux_inv s \<longleftrightarrow> length (sessionTableValid s) = 8 \<and> length (sessionTableSession s) = 8 \<and>
     (\<forall>m \<in> set (waiting (pktMetaIn s)). (get_range m 31 0 :: u32) < 2 ^ 16) \<and>
     dests_split s \<and> sessions_distinct s \<and> lookup_talk s"

lemma finite_used [simp]: "finite (used s)"
  by (simp add: used_def)

lemma dest_less [simp]: "unat (d :: mdest) < 8"
proof -
  have "unat d < 2 ^ LENGTH(3)" by (rule unsigned_less)
  then show ?thesis by simp
qed

lemma unat_ucast_dest [simp]: "unat (ucast (d :: mdest) :: u8) = unat d"
  by (simp add: unsigned_ucast_eq take_bit_nat_eq_self less_trans [OF dest_less])

lemma unat_ucast_free: "unat (v :: u8) < 8 \<Longrightarrow> unat (ucast v :: mdest) = unat v"
  by (simp add: unsigned_ucast_eq take_bit_nat_eq_self)

lemma used_clear:
  "length (sessionTableValid s) = 8 \<Longrightarrow> used (clear_entry i s) = used s - {i}"
  by (cases "i < 8") (auto simp: used_def clear_entry_def nth_list_update split: if_splits)

lemma clear_entry_same [simp]:
  "lookupFsmState (clear_entry i s) = lookupFsmState s" "freeDest (clear_entry i s) = freeDest s"
  "lk_dest (clear_entry i s) = lk_dest s" "lk_counter (clear_entry i s) = lk_counter s"
  "lk_session (clear_entry i s) = lk_session s" "lk_pktLen (clear_entry i s) = lk_pktLen s"
  "pktMetaIn (clear_entry i s) = pktMetaIn s" "lookupResp (clear_entry i s) = lookupResp s"
  "lookupUpd (clear_entry i s) = lookupUpd s" "lk_mask (clear_entry i s) = lk_mask s"
  "length (sessionTableValid (clear_entry i s)) = length (sessionTableValid s)"
  "length (sessionTableSession (clear_entry i s)) = length (sessionTableSession s)"
  by (simp_all add: clear_entry_def)

lemma sessions_clear:
  assumes "sessions_distinct s" and "length (sessionTableValid s) = 8"
  shows "inj_on ((!) (sessionTableSession (clear_entry i s))) (used s - {i})"
  using assms by (auto simp: sessions_distinct_def clear_entry_def inj_on_def)

text \<open>The mask has the bits of the entries that hit, and with distinct sessions at most one.\<close>

lemma bit_hit_mask: "bit (hit_mask s session) i \<longleftrightarrow> i < 8 \<and> entry_hit s session i"
proof -
  have "bit (foldl (\<lambda>m i. set_range m i i (of_bool (entry_hit s session i) :: u8)) m0 [0..<n]) i \<longleftrightarrow>
      i < 8 \<and> (if i < n then entry_hit s session i else bit m0 i)" if "n \<le> 8" for n and m0 :: u8
    using that
  proof (induction n)
    case 0
    then show ?case using bit_imp_le_length [of m0 i] by auto
  next
    case (Suc n)
    then show ?case by (auto simp: bit_set_range less_Suc_eq)
  qed
  from this [of 8 "lk_mask s"] show ?thesis by (simp add: hit_mask_def NUM_MULT_STREAM_def)
qed

lemma hit_mask_zero: "hit_mask s session = 0 \<longleftrightarrow> (\<forall>i \<in> used s. ucast (sessionTableSession s ! i) \<noteq> session)"
  by (auto simp: bit_eq_iff bit_hit_mask used_def entry_hit_def)

lemma hit_mask_one:
  assumes "sessions_distinct s" and "hit_mask s session \<noteq> 0"
  shows "\<exists>i \<in> used s. hit_mask s session = push_bit i 1"
proof -
  from assms(2) obtain i where i: "i \<in> used s" "ucast (sessionTableSession s ! i) = session"
    by (auto simp: hit_mask_zero)
  have "j = i" if "j < 8" "entry_hit s session j" for j
  proof -
    have "(ucast (sessionTableSession s ! j) :: u32) = ucast (sessionTableSession s ! i)"
      using that(2) i(2) by (simp add: entry_hit_def)
    then have "sessionTableSession s ! j = sessionTableSession s ! i"
      using unat_ucast_u16 by (metis word_unat_eq_iff)
    with that i(1) assms(1) show ?thesis
      by (auto simp: sessions_distinct_def inj_on_def used_def entry_hit_def)
  qed
  with i have "hit_mask s session = push_bit i 1"
    by (intro bit_word_eqI) (auto simp: bit_hit_mask bit_simps entry_hit_def used_def)
  with i(1) show ?thesis by blast
qed

lemma mask_dest_bit:
  assumes "i < 8"
  shows "unat (mask_dest (push_bit i 1) d) = i"
proof -
  from assms have "i = 0 \<or> i = 1 \<or> i = 2 \<or> i = 3 \<or> i = 4 \<or> i = 5 \<or> i = 6 \<or> i = 7" by arith
  then show ?thesis by (elim disjE) (simp_all add: mask_dest_def)
qed

lemma mux_idle_inv:
  assumes "mux_inv s" and "lookupFsmState s = IDLE"
  shows "mux_inv (lookup_idle s)"
proof -
  let ?c = "lk_counter s"
  from assms have inv: "used s = {}" "unat ?c < 8" by (simp_all add: mux_inv_def lookup_talk_def)
  with assms have free: "mset (map unat (waiting (freeDest s))) = mset_set {..<unat ?c}"
    by (simp add: mux_inv_def dests_split_def held_def)
  from inv(2) have c: "unat (?c + 1) = Suc (unat ?c)" by (simp add: unat_word_ariths)
  have used: "used (lookup_idle s) = {}"
    using inv(1) used_clear [of s "unat ?c"] assms(1)
    by (auto simp: lookup_idle_def Let_def used_def clear_entry_def mux_inv_def)
  have "mset (map unat (waiting (freeDest (lookup_idle s)))) = mset_set {..<Suc (unat ?c)}"
    using free by (simp add: lookup_idle_def Let_def lessThan_Suc)
  moreover have "Suc (unat ?c) = 8 \<or> unat (?c + 1) < 8" using inv(2) c by auto
  ultimately have "dests_split (lookup_idle s)"
    using c used assms(2) by (auto simp: dests_split_def held_def lookup_idle_def Let_def NUM_MULT_STREAM_def)
  moreover have "lookup_talk (lookup_idle s)"
    using assms used c inv(2)
    by (auto simp: mux_inv_def lookup_talk_def lookup_idle_def Let_def NUM_MULT_STREAM_def)
  ultimately show ?thesis
    using assms(1) used by (simp add: mux_inv_def sessions_distinct_def lookup_idle_def Let_def)
qed

lemma mux_req_inv:
  assumes "mux_inv s" and "lookupFsmState s = REQ"
  shows "mux_inv (lookup_req s)"
proof (cases "waiting (pktMetaIn s)")
  case Nil
  then show ?thesis using assms by (simp add: lookup_req_def)
next
  case (Cons m ms)
  let ?msk = "hit_mask s (get_range m 31 0)"
  from assms Cons have len: "(get_range m 31 0 :: u32) < 2 ^ 16" and dist: "sessions_distinct s"
    by (simp_all add: mux_inv_def)
  show ?thesis
  proof (cases "?msk = 0")
    case True
    then have "\<forall>i \<in> used s. ucast (sessionTableSession s ! i) \<noteq> (get_range m 31 0 :: u32)" by (simp only: hit_mask_zero)
    then show ?thesis
      using assms Cons True len
      by (auto simp: mux_inv_def lookup_req_def Let_def dests_split_def held_def used_def sessions_distinct_def
          lookup_talk_def unseen_def)
  next
    case False
    with hit_mask_one [OF dist] have "\<exists>i \<in> used s. ?msk = push_bit i 1" by blast
    then show ?thesis
      using assms Cons False
      by (auto simp: mux_inv_def lookup_req_def Let_def dests_split_def held_def used_def sessions_distinct_def
          lookup_talk_def)
  qed
qed

lemma mux_hit_inv:
  assumes "mux_inv s" and "lookupFsmState s = HIT_RESP"
  shows "mux_inv (lookup_hit s)"
proof (cases "full8 (lookupResp s)")
  case True
  then show ?thesis using assms by (simp add: lookup_hit_def)
next
  case False
  let ?d = "mask_dest (lk_mask s) (lk_dest s)"
  from assms obtain i where i: "i \<in> used s" "lk_mask s = push_bit i 1"
    by (auto simp: mux_inv_def lookup_talk_def)
  then have d: "unat ?d = i" unfolding i(2) by (intro mask_dest_bit) (simp add: used_def)
  from assms have len: "length (sessionTableValid s) = 8"
    and split: "mset (map unat (waiting (freeDest s))) + mset_set (used s) = mset_set {..<8}"
    and dist: "sessions_distinct s"
    and talk: "list_all lookupHit (waiting (lookupResp s))" "waiting (lookupUpd s) = []"
    by (simp_all add: mux_inv_def dests_split_def held_def lookup_talk_def)
  show ?thesis
  proof (cases "unat (sessionTableRcvdMsgSize s ! i) + unat (lk_pktLen s) \<ge> unat (sessionTableTotalMsgSize s ! i)")
    case True
    have run: "lookup_hit s = (clear_entry i s)\<lparr>lk_dest := ?d, freeDest := push (ucast ?d) (freeDest s),
        lookupResp := push (response True True s ?d) (lookupResp s), lookupFsmState := REQ\<rparr>"
      using False True by (simp add: lookup_hit_def d Let_def)
    have used: "used (lookup_hit s) = used s - {i}"
      using used_clear [OF len, of i] by (simp add: run used_def)
    have "mset_set (used s) = add_mset i (mset_set (used s - {i}))" using i(1) by (simp add: mset_set.remove)
    with split have "dests_split (lookup_hit s)"
      by (simp add: dests_split_def used held_def) (simp add: run d)
    moreover have "sessions_distinct (lookup_hit s)"
      using sessions_clear [OF dist len, of i] by (simp add: sessions_distinct_def used) (simp add: run)
    ultimately show ?thesis
      using assms(1) talk by (simp add: mux_inv_def lookup_talk_def) (simp add: run response_def)
  next
    case more: False
    show ?thesis
      using assms False more talk
      by (auto simp: mux_inv_def lookup_hit_def d Let_def dests_split_def held_def used_def sessions_distinct_def
          lookup_talk_def response_def)
  qed
qed

lemma free_dest_less:
  assumes "dests_split s" and "lookupFsmState s \<noteq> IDLE" and "v \<in> set (waiting (freeDest s))"
  shows "unat v < 8"
proof -
  have "unat v \<in># mset (map unat (waiting (freeDest s))) + mset_set (used s) + held s"
    using assms(3) by auto
  with assms(1,2) have "unat v \<in># mset_set {..<8}" by (simp add: dests_split_def)
  then show ?thesis by simp
qed

lemma mux_miss_inv:
  assumes "mux_inv s" and "lookupFsmState s = MISS_RESP"
  shows "mux_inv (lookup_miss s)"
proof (cases "is_empty (freeDest s) \<or> full8 (lookupResp s)")
  case True
  then show ?thesis using assms by (simp add: lookup_miss_def)
next
  case False
  then obtain v vs where free: "waiting (freeDest s) = v # vs" by (auto simp: neq_Nil_conv)
  from assms have split: "dests_split s" and talk: "list_all lookupHit (waiting (lookupResp s))" "waiting (lookupUpd s) = []"
    "unseen s" and len: "lk_session s < 2 ^ 16"
    by (simp_all add: mux_inv_def lookup_talk_def)
  have "unat v < 8" using free_dest_less [OF split] assms(2) free by simp
  then have v: "unat (ucast v :: mdest) = unat v" by (rule unat_ucast_free)
  have sess: "ucast (ucast (lk_session s) :: u16) = lk_session s" by (rule ucast_u16_u32 [OF len])
  have run: "lookup_miss s = s\<lparr>freeDest := pop (freeDest s), lk_dest := ucast v,
      lookupResp := push (response False False s (ucast v)) (lookupResp s), lookupFsmState := UPDATE\<rparr>"
    using False free by (simp add: lookup_miss_def Let_def)
  have "dests_split (lookup_miss s)"
    using split assms(2) free by (simp add: run dests_split_def held_def used_def v)
  moreover have "lookup_talk (lookup_miss s)"
    using talk sess by (simp add: run lookup_talk_def unseen_def used_def miss_for_def response_def)
  ultimately show ?thesis
    using assms(1) by (simp add: mux_inv_def) (simp add: run sessions_distinct_def used_def)
qed

lemma mux_update_inv:
  assumes "mux_inv s" and "lookupFsmState s = UPDATE"
  shows "mux_inv (lookup_update s)"
proof (cases "waiting (lookupUpd s)")
  case Nil
  then show ?thesis using assms by (simp add: lookup_update_def)
next
  case (Cons u us)
  let ?i = "unat (lk_dest s)"
  from assms Cons have us: "us = []" and resp: "waiting (lookupResp s) = []" and u: "update_for s u"
    and unseen: "unseen s" and len: "length (sessionTableValid s) = 8" "length (sessionTableSession s) = 8"
    and split: "dests_split s" and dist: "sessions_distinct s"
    by (auto simp: mux_inv_def lookup_talk_def)
  from u have i: "unat (lu_dest u) = ?i" and sess: "ucast (lu_session u) = lk_session s"
    by (simp_all add: update_for_def)
  from split assms(2) have eq: "mset (map unat (waiting (freeDest s))) + mset_set (used s) + {#?i#} = mset_set {..<8}"
    by (simp add: dests_split_def held_def)
  have notin: "?i \<notin> used s"
  proof
    assume "?i \<in> used s"
    then have "2 \<le> count (mset (map unat (waiting (freeDest s))) + mset_set (used s) + {#?i#}) ?i"
      by (simp del: mset_map)
    then show False by (simp only: eq) simp
  qed
  show ?thesis
  proof (cases "lu_msgSize u \<le> ucast (lu_pktLen u)")
    case True
    let ?t = "s\<lparr>lookupUpd := pop (lookupUpd s), lk_dest := lu_dest u, lk_pktLen := ucast (lu_pktLen u),
       lk_session := ucast (lu_session u), lk_msgSize := lu_msgSize u, lookupFsmState := REQ\<rparr>"
    have run: "lookup_update s = (clear_entry ?i ?t)\<lparr>freeDest := push (ucast (lu_dest u)) (freeDest s)\<rparr>"
      using True Cons by (simp add: lookup_update_def Let_def i)
    have "used ?t = used s" by (simp add: used_def)
    with used_clear [of ?t ?i] notin len(1) have used: "used (lookup_update s) = used s"
      by (simp add: run used_def)
    have "dests_split (lookup_update s)"
      using eq i by (simp add: dests_split_def used held_def) (simp add: run)
    moreover have "sessions_distinct (lookup_update s)"
      using sessions_clear [OF dist len(1), of ?i] notin
      by (simp add: sessions_distinct_def used) (simp add: run clear_entry_def)
    ultimately show ?thesis
      using assms(1) Cons us resp by (simp add: mux_inv_def lookup_talk_def) (simp add: run)
  next
    case False
    have used: "used (lookup_update s) = insert ?i (used s)"
      using False Cons len(1) i by (auto simp: lookup_update_def Let_def used_def nth_list_update)
    have "dests_split (lookup_update s)"
      using eq notin False Cons i by (simp add: dests_split_def used held_def) (simp add: lookup_update_def Let_def)
    moreover have "sessions_distinct (lookup_update s)"
    proof -
      have fresh: "sessionTableSession s ! j \<noteq> lu_session u" if "j \<in> used s" for j
        using unseen that sess by (auto simp: unseen_def)
      have old: "sessionTableSession (lookup_update s) ! j = sessionTableSession s ! j" if "j \<in> used s" for j
      proof -
        have "?i \<noteq> j" using that notin by blast
        then show ?thesis using False Cons i by (simp add: lookup_update_def Let_def)
      qed
      have new: "sessionTableSession (lookup_update s) ! ?i = lu_session u"
        using False Cons i len(2) by (simp add: lookup_update_def Let_def)
      have "inj_on ((!) (sessionTableSession (lookup_update s))) (used s)"
        using dist old by (simp add: sessions_distinct_def inj_on_def)
      moreover have "lu_session u \<notin> (!) (sessionTableSession (lookup_update s)) ` (used s - {?i})"
      proof
        assume "lu_session u \<in> (!) (sessionTableSession (lookup_update s)) ` (used s - {?i})"
        then obtain j where "j \<in> used s" "lu_session u = sessionTableSession (lookup_update s) ! j" by blast
        with fresh [of j] old [of j] show False by simp
      qed
      ultimately show ?thesis by (simp add: sessions_distinct_def used new)
    qed
    ultimately show ?thesis
      using assms(1) Cons us resp False by (simp add: mux_inv_def lookup_talk_def) (simp add: lookup_update_def Let_def)
  qed
qed

text \<open>The stream process only takes responses and hands in the update of a miss.\<close>

lemma mux_proc_inv:
  assumes "mux_inv s"
  shows "mux_inv (procStream s)"
proof -
  have table: "sessionTableValid (procStream s) = sessionTableValid s" "sessionTableSession (procStream s) = sessionTableSession s"
    "pktMetaIn (procStream s) = pktMetaIn s" "freeDest (procStream s) = freeDest s"
    "lookupFsmState (procStream s) = lookupFsmState s" "lk_counter (procStream s) = lk_counter s"
    "lk_dest (procStream s) = lk_dest s" "lk_session (procStream s) = lk_session s" "lk_mask (procStream s) = lk_mask s"
    by (simp_all add: procStream_def proc_wait_stream_def proc_consume_def Let_def split: procFsmStateType.split)
  have used: "used (procStream s) = used s" by (simp add: used_def table)
  have "lookup_talk (procStream s)"
  proof (cases "FsmState s = CONSUME \<or> is_empty (lookupResp s) \<or> is_empty (pktStreamIn s) \<or>
      \<not> lookupHit (front (lookupResp s)) \<and> full8 (lookupUpd s)")
    case True
    then have "lookupResp (procStream s) = lookupResp s" "lookupUpd (procStream s) = lookupUpd s"
      by (auto simp: procStream_def proc_wait_stream_def proc_consume_def Let_def split: procFsmStateType.split)
    then show ?thesis
      using assms by (cases "lookupFsmState s")
        (auto simp: mux_inv_def lookup_talk_def table used unseen_def miss_for_def update_for_def)
  next
    case False
    then obtain r rs where r: "waiting (lookupResp s) = r # rs" and st: "FsmState s = WAIT_STREAM"
      by (cases "waiting (lookupResp s)"; cases "FsmState s") auto
    from False r st have resp: "waiting (lookupResp (procStream s)) = rs"
      and upd: "\<exists>m. waiting (lookupUpd (procStream s)) = (if lookupHit r then waiting (lookupUpd s) else
         waiting (lookupUpd s) @ [\<lparr>lu_dest = lr_dest r, lu_session = lr_session r, lu_pktLen = lr_pktLen r, lu_msgSize = m\<rparr>])"
      by (auto simp: procStream_def proc_wait_stream_def Let_def)
    show ?thesis
    proof (cases "lookupFsmState s = UPDATE")
      case False
      with assms r resp upd show ?thesis
        by (cases "lookupFsmState s") (auto simp: mux_inv_def lookup_talk_def table used unseen_def)
    next
      case True
      with assms r have "unseen s" and talk: "\<exists>rs' r'. r # rs = rs' @ [r'] \<and> list_all lookupHit rs' \<and> miss_for s r' \<and>
          waiting (lookupUpd s) = []"
        by (auto simp: mux_inv_def lookup_talk_def)
      then obtain rs' r' where t: "r # rs = rs' @ [r']" "list_all lookupHit rs'" "miss_for s r'" "waiting (lookupUpd s) = []"
        by blast
      show ?thesis
      proof (cases rs')
        case Nil
        with t r resp upd True \<open>unseen s\<close> show ?thesis
          by (auto simp: lookup_talk_def table used unseen_def miss_for_def update_for_def)
      next
        case (Cons x xs)
        with t r resp upd True \<open>unseen s\<close> show ?thesis
          by (auto simp: lookup_talk_def table used unseen_def miss_for_def)
      qed
    qed
  qed
  with assms show ?thesis
    unfolding mux_inv_def dests_split_def held_def sessions_distinct_def table used by blast
qed

text \<open>Nothing else is in the streams that the invariant speaks of.\<close>

interpretation mux: kernel mux_init mux_step mux_inv
proof
  fix s s' assume inv: "mux_inv s" and "mux_step s s'"
  have lookup: "mux_inv (session_dest_lookup s)"
    using inv by (cases "lookupFsmState s")
      (simp_all add: session_dest_lookup_def mux_idle_inv mux_req_inv mux_hit_inv mux_miss_inv mux_update_inv)
  have same: "mux_inv s'" if "sessionTableValid s' = sessionTableValid s" "sessionTableSession s' = sessionTableSession s"
      "freeDest s' = freeDest s" "lookupFsmState s' = lookupFsmState s" "lk_counter s' = lk_counter s"
      "lk_dest s' = lk_dest s" "lk_session s' = lk_session s" "lk_mask s' = lk_mask s"
      "lookupResp s' = lookupResp s" "lookupUpd s' = lookupUpd s"
      "\<forall>m \<in> set (waiting (pktMetaIn s')). (get_range m 31 0 :: u32) < 2 ^ 16"
    using inv that
    by (cases "lookupFsmState s")
      (simp_all add: mux_inv_def dests_split_def held_def sessions_distinct_def lookup_talk_def used_def unseen_def
        miss_for_def update_for_def)
  from \<open>mux_step s s'\<close> show "mux_inv s'"
  proof (cases rule: mux_step.cases)
    case (mux_meta m)
    with inv show ?thesis by (intro same) (auto simp: mux_inv_def)
  next
    case (mux_word w)
    with inv show ?thesis by (intro same) (auto simp: mux_inv_def)
  next
    case mux_taken
    with inv show ?thesis by (intro same) (auto simp: mux_inv_def)
  qed (use inv lookup mux_proc_inv in simp_all)
next
  fix s assume "mux_init s"
  then have "used s = {}" by (simp add: mux_init_def used_def NUM_MULT_STREAM_def)
  then show "mux_inv s" using \<open>mux_init s\<close>
    by (simp add: mux_init_def mux_inv_def dests_split_def held_def sessions_distinct_def lookup_talk_def NUM_MULT_STREAM_def)
qed

subsection \<open>Every packet follows its response\<close>

text \<open>What the words of a stream become, given the responses to its packets.\<close>

fun routed :: "lookupRespType list \<Rightarrow> axis list \<Rightarrow> axis_r list" where
  "routed rs [] = []"
| "routed [] (w # ws) = []"
| "routed (r # rs) (w # ws) = route r w # (if ax_last w then routed rs ws else routed (r # rs) ws)"

lemma routed_word:
  "passed_on ws = length rs \<Longrightarrow> routed (rs @ [r]) (ws @ [w]) = routed (rs @ [r]) ws @ [route r w]"
proof (induction "rs @ [r]" ws arbitrary: rs rule: routed.induct)
  case (3 r' rs' w' ws)
  show ?case
  proof (cases rs)
    case Nil
    with 3 show ?thesis by (auto simp: passed_on_def)
  next
    case (Cons x xs)
    with 3 show ?thesis by (auto simp: passed_on_def)
  qed
qed (auto simp: passed_on_def)

lemma closed_passed: "ws \<noteq> [] \<Longrightarrow> ax_last (last ws) \<Longrightarrow> filter ax_last ws \<noteq> []"
  by (auto simp: filter_empty_conv intro: last_in_set)

text \<open>A response that comes when all packets before are complete changes nothing yet.\<close>

lemma routed_next:
  "passed_on ws = length rs \<Longrightarrow> ws = [] \<or> ax_last (last ws) \<Longrightarrow> routed (rs @ [r]) ws = routed rs ws"
proof (induction rs ws rule: routed.induct)
  case (2 w ws)
  then show ?case using closed_passed [of ws] by (auto simp: passed_on_def split: if_splits)
next
  case (3 r' rs w ws)
  then show ?case using closed_passed [of ws] by (auto simp: passed_on_def split: if_splits)
qed simp

definition mux_flow :: "mux \<Rightarrow> bool" where
  "mux_flow s \<longleftrightarrow> (let rs = consumed (lookupResp s); ws = consumed (pktStreamIn s) in
     written (pktMultStreamOut s) = routed rs ws \<and>
     (\<forall>r \<in> set (written (lookupResp s)). isLastPkt r \<longrightarrow> lookupHit r) \<and>
     (case FsmState s of
        WAIT_STREAM \<Rightarrow> passed_on ws = length rs \<and> (ws = [] \<or> ax_last (last ws))
      | CONSUME \<Rightarrow> (\<exists>rs'. rs = rs' @ [ps_resp s] \<and> passed_on ws = length rs')))"

lemma mux_flow_proc:
  assumes "mux_flow s"
  shows "mux_flow (procStream s)"
proof (cases "FsmState s")
  case WAIT_STREAM
  show ?thesis
  proof (cases "is_empty (lookupResp s) \<or> is_empty (pktStreamIn s) \<or> \<not> lookupHit (front (lookupResp s)) \<and> full8 (lookupUpd s)")
    case True
    then show ?thesis using WAIT_STREAM assms by (simp add: procStream_def proc_wait_stream_def)
  next
    case False
    then obtain r rs w ws where "waiting (lookupResp s) = r # rs" "waiting (pktStreamIn s) = w # ws"
      by (auto simp: neq_Nil_conv)
    with False WAIT_STREAM assms routed_word [of "consumed (pktStreamIn s)" "consumed (lookupResp s)" r w]
      routed_next [of "consumed (pktStreamIn s)" "consumed (lookupResp s)" r]
    show ?thesis
      by (simp add: mux_flow_def procStream_def proc_wait_stream_def Let_def) (simp add: passed_on_def)
  qed
next
  case CONSUME
  show ?thesis
  proof (cases "waiting (pktStreamIn s)")
    case Nil
    then show ?thesis using CONSUME assms by (simp add: procStream_def proc_consume_def)
  next
    case (Cons w ws)
    from CONSUME assms obtain rs' where rs': "consumed (lookupResp s) = rs' @ [ps_resp s]"
      "passed_on (consumed (pktStreamIn s)) = length rs'"
      by (auto simp: mux_flow_def Let_def)
    with Cons CONSUME assms routed_word [OF rs'(2), of "ps_resp s" w]
    show ?thesis
      by (simp add: mux_flow_def procStream_def proc_consume_def Let_def) (simp add: passed_on_def)
  qed
qed

lemma mux_flow_lookup:
  assumes "mux_flow s"
  shows "mux_flow (session_dest_lookup s)"
proof -
  let ?t = "session_dest_lookup s"
  have same: "pktMultStreamOut ?t = pktMultStreamOut s" "consumed (lookupResp ?t) = consumed (lookupResp s)"
    "pktStreamIn ?t = pktStreamIn s" "FsmState ?t = FsmState s" "ps_resp ?t = ps_resp s"
    by (simp_all add: session_dest_lookup_def lookup_idle_def lookup_req_def lookup_hit_def lookup_miss_def
        lookup_update_def clear_entry_def Let_def split: lookupFsmStateType.split)
  have "written (lookupResp ?t) = written (lookupResp s) \<or>
      (\<exists>r. written (lookupResp ?t) = written (lookupResp s) @ [r] \<and> (isLastPkt r \<longrightarrow> lookupHit r))"
    by (simp add: session_dest_lookup_def lookup_idle_def lookup_req_def lookup_hit_def lookup_miss_def
        lookup_update_def clear_entry_def Let_def response_def split: lookupFsmStateType.split)
  then have "\<forall>r \<in> set (written (lookupResp ?t)). isLastPkt r \<longrightarrow> lookupHit r"
    using assms by (auto simp: mux_flow_def Let_def)
  with assms show ?thesis unfolding mux_flow_def Let_def same by simp
qed

interpretation mux_stream: kernel mux_init mux_step mux_flow
proof
  fix s s' assume flow: "mux_flow s" and "mux_step s s'"
  from this(2) show "mux_flow s'"
    by (rule mux_stepE)
      (use flow in \<open>auto simp: mux_flow_lookup mux_flow_proc\<close>, auto simp: mux_flow_def Let_def split: procFsmStateType.splits)
qed (simp add: mux_init_def mux_flow_def passed_on_def)


subsection \<open>An example\<close>

text \<open>
  The initial state, the state after \<open>k\<close> of the eight calls that fill the FIFO, and the state then. After that a message
  of one packet of two words, 64 bytes of header and 64 of payload, arrives for session 1.
\<close>

definition mux_quiet :: mux where
  "mux_quiet = \<lparr>sessionTableValid = replicate 8 False, sessionTableSession = replicate 8 0,
     sessionTableTotalMsgSize = replicate 8 0, sessionTableRcvdMsgSize = replicate 8 0, freeDest = no_data,
     lookupFsmState = IDLE, lk_mask = 0, lk_dest = 0, lk_counter = 0, lk_session = 0, lk_pktLen = 0, lk_msgSize = 0,
     FsmState = WAIT_STREAM, ps_resp = \<lparr>lookupHit = False, isLastPkt = False, lr_dest = 0, lr_pktLen = 0, lr_session = 0\<rparr>,
     pktStreamIn = no_data, pktMetaIn = no_data, pktMultStreamOut = no_data, lookupResp = no_data, lookupUpd = no_data\<rparr>"

definition mux_filling :: "nat \<Rightarrow> mux" where
  "mux_filling k = mux_quiet\<lparr>freeDest := \<lparr>consumed = [], waiting = map of_nat [0..<k]\<rparr>, lk_counter := of_nat k\<rparr>"

definition mux_ready :: mux where
  "mux_ready = mux_quiet\<lparr>freeDest := \<lparr>consumed = [], waiting = [0, 1, 2, 3, 4, 5, 6, 7]\<rparr>, lookupFsmState := REQ\<rparr>"

lemma mux_fill:
  assumes "k < 8"
  shows "session_dest_lookup (mux_filling k) = (if k = 7 then mux_ready else mux_filling (Suc k))"
proof -
  have same: "(replicate 8 x)[k := x] = replicate 8 x" for x :: 'a
    using assms by (simp add: list_eq_iff_nth_eq nth_list_update)
  have k: "unat (of_nat k :: u8) = k" using assms by (simp add: unat_of_nat take_bit_nat_eq_self)
  then have k1: "unat (of_nat k + 1 :: u8) = Suc k" using assms by (simp add: unat_word_ariths)
  show ?thesis
  proof (cases "k = 7")
    case True
    have "session_dest_lookup (mux_filling 7) = mux_ready" by code_simp
    with True show ?thesis by simp
  next
    case False
    with k k1 assms show ?thesis
      by (simp add: session_dest_lookup_def lookup_idle_def mux_filling_def mux_quiet_def clear_entry_def Let_def
          NUM_MULT_STREAM_def push_def same ac_simps)
  qed
qed

lemma mux_steps_ready: "mux_step\<^sup>*\<^sup>* mux_quiet mux_ready"
proof -
  have fill: "mux_step\<^sup>*\<^sup>* mux_quiet (mux_filling k)" if "k < 8" for k
    using that
  proof (induction k)
    case 0
    have "mux_filling 0 = mux_quiet" by (simp add: mux_filling_def mux_quiet_def no_data_def)
    then show ?case by simp
  next
    case (Suc k)
    then have "mux_step (mux_filling k) (mux_filling (Suc k))"
      using mux_lookup [of "mux_filling k"] by (simp add: mux_fill)
    with Suc show ?case by (simp add: rtranclp.rtrancl_into_rtrancl)
  qed
  have "mux_step (mux_filling 7) mux_ready" using mux_lookup [of "mux_filling 7"] by (simp add: mux_fill)
  with fill [of 7] show ?thesis by (simp add: rtranclp.rtrancl_into_rtrancl)
qed

definition mux_header :: axis where
  "mux_header = \<lparr>ax_data = 0x400000000000000000000000000000004000000000, ax_keep = - 1, ax_last = False\<rparr>"

definition mux_payload :: axis where
  "mux_payload = \<lparr>ax_data = 0x1234, ax_keep = - 1, ax_last = True\<rparr>"

definition mux_offered :: mux where
  "mux_offered = mux_ready\<lparr>pktMetaIn := push 0x8000000001 no_data,
     pktStreamIn := push mux_payload (push mux_header no_data)\<rparr>"

definition mux_done :: mux where
  "mux_done =
     (let r = \<lparr>lookupHit = False, isLastPkt = False, lr_dest = 0, lr_pktLen = 128, lr_session = 1\<rparr> in
      mux_ready\<lparr>pktMetaIn := \<lparr>consumed = [0x8000000001], waiting = []\<rparr>,
        pktStreamIn := \<lparr>consumed = [mux_header, mux_payload], waiting = []\<rparr>,
        pktMultStreamOut := \<lparr>consumed = [], waiting = [route r mux_header, route r mux_payload]\<rparr>,
        lookupResp := \<lparr>consumed = [r], waiting = []\<rparr>,
        lookupUpd := \<lparr>consumed = [\<lparr>lu_dest = 0, lu_session = 1, lu_pktLen = 128, lu_msgSize = 128\<rparr>], waiting = []\<rparr>,
        freeDest := \<lparr>consumed = [0], waiting = [1, 2, 3, 4, 5, 6, 7, 0]\<rparr>,
        lk_session := 1, lk_pktLen := 128, lk_msgSize := 128, ps_resp := r\<rparr>)"

lemma mux_example_run: "(pktMultiplexor ^^ 3) mux_offered = mux_done"
  by code_simp

lemma mux_pushes:
  assumes "mux_step\<^sup>*\<^sup>* s t"
  shows "(get_range m 31 0 :: u32) < 2 ^ 16 \<Longrightarrow> mux_step\<^sup>*\<^sup>* s (t\<lparr>pktMetaIn := push m (pktMetaIn t)\<rparr>)"
    and "mux_step\<^sup>*\<^sup>* s (t\<lparr>pktStreamIn := push w (pktStreamIn t)\<rparr>)"
    and "mux_step\<^sup>*\<^sup>* s ((pktMultiplexor ^^ n) t)"
proof -
  have call: "mux_step\<^sup>*\<^sup>* s (pktMultiplexor t)" if "mux_step\<^sup>*\<^sup>* s t" for t
    unfolding pktMultiplexor_def using that by (intro rtranclp.rtrancl_into_rtrancl [of mux_step, OF _ mux_proc] rtranclp.rtrancl_into_rtrancl [of mux_step, OF _ mux_lookup])
  show "mux_step\<^sup>*\<^sup>* s ((pktMultiplexor ^^ n) t)" using assms by (induction n) (simp_all add: call)
qed (rule rtranclp.rtrancl_into_rtrancl [OF assms], erule mux_meta,
    rule rtranclp.rtrancl_into_rtrancl [OF assms], rule mux_word)

lemma mux_done_reachable: "mux_step\<^sup>*\<^sup>* mux_quiet mux_done"
proof -
  let ?t = "mux_ready\<lparr>pktMetaIn := push 0x8000000001 (pktMetaIn mux_ready)\<rparr>"
  let ?u = "?t\<lparr>pktStreamIn := push mux_header (pktStreamIn ?t)\<rparr>"
  have "(get_range (0x8000000001 :: u64) 31 0 :: u32) < 2 ^ 16" by code_simp
  then have "mux_step\<^sup>*\<^sup>* mux_quiet ?t" by (rule mux_pushes(1) [OF mux_steps_ready])
  then have "mux_step\<^sup>*\<^sup>* mux_quiet (?u\<lparr>pktStreamIn := push mux_payload (pktStreamIn ?u)\<rparr>)"
    by (intro mux_pushes(2))
  moreover have "?u\<lparr>pktStreamIn := push mux_payload (pktStreamIn ?u)\<rparr> = mux_offered"
    by (simp add: mux_offered_def mux_ready_def mux_quiet_def)
  ultimately have "mux_step\<^sup>*\<^sup>* mux_quiet mux_offered" by simp
  from mux_pushes(3) [OF this, of 3] show ?thesis by (simp only: mux_example_run)
qed

lemma mux_quiet_init: "mux_init mux_quiet"
  by (simp add: mux_init_def mux_quiet_def NUM_MULT_STREAM_def)

subsection \<open>Properties\<close>

text \<open>C9: in every interleaving of the two processes of the multiplexor with arriving packets, the free destinations, those of the
valid table entries and the one being given to a new message are all eight destinations, each once (while the FIFO is being filled:
those put in so far); and no two valid entries are for the same session.\<close>

theorem mux_destinations_partitioned:
  assumes "mux_init s" and "mux_step\<^sup>*\<^sup>* s s'"
  shows "mset (map unat (waiting (freeDest s'))) + mset_set (used s') + held s' =
       mset_set {..<(if lookupFsmState s' = IDLE then unat (lk_counter s') else 8)} \<and>
     inj_on ((!) (sessionTableSession s')) (used s')"
  using mux.inv_reachable [OF assms] by (simp only: mux_inv_def dests_split_def sessions_distinct_def)

theorem mux_destinations_partitioned_witness:
  "lookupFsmState mux_done = REQ \<and> mset (map unat (waiting (freeDest mux_done))) + mset_set (used mux_done) + held mux_done =
     mset_set {..<8} \<and> inj_on ((!) (sessionTableSession mux_done)) (used mux_done)"
proof -
  have "lookupFsmState mux_done = REQ" by (simp add: mux_done_def mux_ready_def Let_def)
  with mux_destinations_partitioned [OF mux_quiet_init mux_done_reachable] show ?thesis by simp
qed

text \<open>In every interleaving, the words put out are the words taken in, in order, each carrying the destination of the
response to its packet, and the last flag only at the end of a packet whose response says that it ends its message.\<close>

lemma mux_words_follow_responses:
  assumes "mux_init s" and "mux_step\<^sup>*\<^sup>* s s'"
  shows "written (pktMultStreamOut s') = routed (consumed (lookupResp s')) (consumed (pktStreamIn s'))"
  using mux_stream.inv_reachable [OF assms] by (simp add: mux_flow_def Let_def)

text \<open>The word at position \<open>i\<close> carries the response to its packet, which is the one numbered by the packets that end before it.\<close>

lemma routed_nth:
  "i < length (routed rs ws) \<Longrightarrow> passed_on (take i ws) < length rs \<and>
     routed rs ws ! i = route (rs ! passed_on (take i ws)) (ws ! i)"
proof (induction rs ws arbitrary: i rule: routed.induct)
  case (3 r rs w ws)
  then show ?case by (cases i) (auto simp: passed_on_def split: if_splits)
qed simp_all

text \<open>C40: the first packet of a message is never closed, so a message of a single packet never gets a last flag, whatever other
messages come before, between or behind: a word of a packet whose lookup was a miss is put out without the last flag, also when
it is the last word of the packet and the packet is the whole message.\<close>

theorem mux_single_packets_not_closed:
  assumes "mux_init s" and "mux_step\<^sup>*\<^sup>* s s'" and "i < length (written (pktMultStreamOut s'))"
    and "\<not> lookupHit (consumed (lookupResp s') ! passed_on (take i (consumed (pktStreamIn s'))))"
  shows "\<not> ax_last (written (pktMultStreamOut s') ! i)"
proof -
  have flow: "mux_flow s'" by (rule mux_stream.inv_reachable [OF assms(1,2)])
  then have "\<not> isLastPkt r" if "r \<in> set (consumed (lookupResp s'))" "\<not> lookupHit r" for r
    using that by (auto simp: mux_flow_def written_def Let_def)
  moreover have "written (pktMultStreamOut s') = routed (consumed (lookupResp s')) (consumed (pktStreamIn s'))"
    using flow by (simp add: mux_flow_def Let_def)
  ultimately show ?thesis using routed_nth assms(3,4) by (simp add: route_def)
qed

text \<open>Behind the message of one packet, a message of two packets for session 2, whose second packet is a hit that closes it.\<close>

definition mux_long_header :: axis where
  "mux_long_header = \<lparr>ax_data = 0xC00000000000000000000000000000004000000000, ax_keep = - 1, ax_last = False\<rparr>"

definition mux_longer :: mux where
  "mux_longer = mux_done\<lparr>pktMetaIn := push 0x8000000002 (push 0x8000000002 (pktMetaIn mux_done)),
     pktStreamIn := push mux_payload (push mux_header (push mux_payload (push mux_long_header (pktStreamIn mux_done))))\<rparr>"

definition mux_between :: mux where
  "mux_between =
     (let r = \<lparr>lookupHit = False, isLastPkt = False, lr_dest = 0, lr_pktLen = 128, lr_session = 1\<rparr>;
          r2 = \<lparr>lookupHit = False, isLastPkt = False, lr_dest = 1, lr_pktLen = 128, lr_session = 2\<rparr> in
      mux_done\<lparr>pktMetaIn := \<lparr>consumed = [0x8000000001, 0x8000000002], waiting = [0x8000000002]\<rparr>,
        pktStreamIn := \<lparr>consumed = [mux_header, mux_payload, mux_long_header, mux_payload], waiting = [mux_header, mux_payload]\<rparr>,
        pktMultStreamOut := \<lparr>consumed = [],
          waiting = [route r mux_header, route r mux_payload, route r2 mux_long_header, route r2 mux_payload]\<rparr>,
        lookupResp := \<lparr>consumed = [r, r2], waiting = []\<rparr>,
        lookupUpd := \<lparr>consumed = [\<lparr>lu_dest = 0, lu_session = 1, lu_pktLen = 128, lu_msgSize = 128\<rparr>,
          \<lparr>lu_dest = 1, lu_session = 2, lu_pktLen = 128, lu_msgSize = 256\<rparr>], waiting = []\<rparr>,
        freeDest := \<lparr>consumed = [0, 1], waiting = [2, 3, 4, 5, 6, 7, 0]\<rparr>,
        sessionTableValid := (replicate 8 False)[1 := True], sessionTableSession := (replicate 8 0)[1 := 2],
        sessionTableTotalMsgSize := (replicate 8 0)[1 := 256], sessionTableRcvdMsgSize := (replicate 8 0)[1 := 128],
        lk_dest := 1, lk_session := 2, lk_pktLen := 128, lk_msgSize := 256, ps_resp := r2\<rparr>)"

lemma mux_longer_run: "(pktMultiplexor ^^ 3) mux_longer = mux_between"
  by code_simp

definition mux_mixed :: mux where
  "mux_mixed = (pktMultiplexor ^^ 3) mux_between"

lemma mux_mixed_reachable: "mux_step\<^sup>*\<^sup>* mux_quiet mux_mixed"
proof -
  have fits: "(get_range (0x8000000002 :: u64) 31 0 :: u32) < 2 ^ 16" by code_simp
  note told = mux_pushes(1) [OF mux_pushes(1) [OF mux_done_reachable fits] fits]
  note all = mux_pushes(2) [OF mux_pushes(2) [OF mux_pushes(2) [OF mux_pushes(2) [OF told,
    of mux_long_header], of mux_payload], of mux_header], of mux_payload]
  have "mux_step\<^sup>*\<^sup>* mux_quiet mux_longer" using all by (simp add: mux_longer_def)
  from mux_pushes(3) [OF this, of 3] have "mux_step\<^sup>*\<^sup>* mux_quiet mux_between" by (simp only: mux_longer_run)
  then show ?thesis unfolding mux_mixed_def by (rule mux_pushes(3))
qed

theorem mux_single_packets_not_closed_witness:
  "map ax_last (consumed (pktStreamIn mux_mixed)) = [False, True, False, True, False, True] \<and>
     map ax_last (written (pktMultStreamOut mux_mixed)) = [False, False, False, False, False, True] \<and>
     \<not> ax_last (written (pktMultStreamOut mux_mixed) ! 1)"
proof -
  have "map ax_last (consumed (pktStreamIn mux_mixed)) = [False, True, False, True, False, True]"
    and flags: "map ax_last (written (pktMultStreamOut mux_mixed)) = [False, False, False, False, False, True]" by code_simp+
  moreover have "length (written (pktMultStreamOut mux_mixed)) = 6" using arg_cong [OF flags, of length] by simp
  moreover have "\<not> lookupHit (consumed (lookupResp mux_mixed) ! passed_on (take 1 (consumed (pktStreamIn mux_mixed))))" by code_simp
  ultimately show ?thesis using mux_single_packets_not_closed [OF mux_quiet_init mux_mixed_reachable, of 1] by simp
qed

end
