(* ===== verification/Spec2Isabelle.thy ===== *)
theory Spec2Isabelle
  imports Net_Link Demo_Link Demo_Kernels Demo_Utils Demo_Shift Demo_Packet Drv_Xrt Fw_Call Fw_Ring Hls_Host Hls_Arith Hls_Session Hls_Tx Hls_Rx Hls_Mux
begin

text \<open>
  A verification library for ACCL, the collective communication offload for FPGA accelerators. The
  program has three parts. The firmware (\<open>src/kernel/fw/sw_apps/ccl_offload_control\<close>) runs on a small
  processor: it takes calls from the host, and carries them out by commanding data movers, stream
  switches, an arithmetic unit and packetizers through memory-mapped registers and 32-bit streams. The
  hardware kernels (\<open>src/kernel/hls\<close>) are C++ compiled to hardware: they frame messages, talk to the
  network stacks, add vectors, and hand calls to the firmware. The host drivers (\<open>src/driver\<close>) fill in
  the exchange memory and start calls. A demo design (\<open>src/demo/build/hls\<close>) puts simple kernels around them, in
  particular a stand-in for the TCP stack.

  \<^bold>\<open>Firmware.\<close> The state of the processor and of what it sees is the record \<open>fw_state\<close> of \<open>Fw_Monad\<close>: the
  static variables of \<open>ccl_offload_control.c\<close>, memory by address, and, for the hardware, the words that
  each register or stream is yet to deliver (with the delay in polls) and the trace of all accesses. A
  function is a state transformer with three outcomes (return, \<open>longjmp\<close>, undefined behaviour); a loop is
  \<open>loop\<close>, a partial function whose value \<open>None\<close> is non-termination. All theorems of the form \<open>ends m s Q E\<close>
  say that \<open>m\<close> ends from \<open>s\<close>, without undefined behaviour, with \<open>Q\<close> on return and \<open>E\<close> on a jump: the
  answers of the hardware are arbitrary, so termination is proved against every hardware.
  \<open>Fw_Constants\<close> has the constants of the header; \<open>Fw_Periph\<close> interrupt controller, timer, arithmetic
  unit, switches and packetizers; \<open>Fw_Dma\<close> commands and statuses of the data movers; \<open>Fw_Comm\<close> communicators,
  packetizer messages and TCP connections; \<open>Fw_Pipeline\<close> the three-phase loop by which all long transfers
  are cut into segments, with its abstract specification; \<open>Fw_Movement\<close> the transfers themselves;
  \<open>Fw_Rx_Buffers\<close> the pool of receive buffers and the interrupt handler that fills it; \<open>Fw_Receive\<close> the
  receiving functions; \<open>Fw_Collectives\<close> the primitives and collectives; \<open>Fw_Main\<close> start-up, reset and the
  service loop. \<open>Fw_Effects\<close> shows what each function leaves alone, \<open>Fw_Primitives\<close> what the primitives that
  do not receive do, \<open>Fw_Service\<close> what holds in every reachable state of the service loop.
  \<open>Fw_Receiving\<close> proves the receiving functions correct with the interrupt handler running inside their
  waits: \<open>rx_kept\<close> is what both together may change, and the four transfers are instances of one locale.
  \<open>Fw_Messages\<close> adds the set-up of the switches and the arithmetic unit. \<open>Fw_Ring\<close> has an algebra of what
  sends, receives and copies one after the other have done (\<open>does\<close>, \<open>work\<close>), from which the collectives over
  the ring of ranks follow: which messages are taken and sent, and which buffers are read and written.
  Interrupts are taken at the points where the code enables them and, while it waits for a call, between
  polls; the calls themselves run with interrupts disabled, as the code arranges it.

  \<^bold>\<open>Hardware kernels.\<close> \<open>Hls_Stream\<close> has streams and the locales: \<open>kernel\<close> (a step relation and an invariant
  it keeps, hence an invariant of all reachable states) and \<open>link\<close> (a sender and a receiver of messages,
  hence of any number of them). \<open>Hls_Packetizer\<close> and \<open>Hls_Links\<close> model the packetizers and depacketizers
  of \<open>vnx_intf\<close> and \<open>tcp_intf\<close>, which run once per message: a run is a function from input streams to what
  is written, \<open>None\<close> while it is blocked in a read. Both pairs are interpretations of \<open>link\<close>. \<open>Hls_Session\<close>,
  \<open>Hls_Tx\<close>, \<open>Hls_Rx\<close> and \<open>Hls_Mux\<close> model the kernels that run for ever (port and connection control, transmit
  handler, receive handler, packet multiplexor): one call is one step on the static variables and streams,
  concurrent processes step independently, and the network stack is the environment, free but for what the
  rules of the step relation say. Each is an interpretation of \<open>kernel\<close>. \<open>Hls_Arith\<close> models the elementwise
  sum, \<open>Hls_Host\<close> the kernel that writes a call's words.

  \<^bold>\<open>Demo kernels.\<close> \<open>Demo_Stack\<close> models the stand-in for the TCP stack (\<open>dummy_tcp_stack.cpp\<close>) in the manner of the
  other kernels that run for ever; \<open>Demo_Link\<close> connects it to the transmit and receive handlers of \<open>tcp_intf\<close> by wires
  and shows, with the locale \<open>settling\<close>, that the connected systems come to rest and what has been delivered then, and
  that messages of several packets are not delivered. \<open>Demo_Kernels\<close> has the loopback and the reduction kernel,
  \<open>Demo_Utils\<close> the stream utilities of \<open>axi_utils.hpp\<close>: width converters, mergers and reversal;
  \<open>Demo_Shift\<close> the shifts by octets of the same file, where the lemma \<open>shift_round_trip\<close> says that the two shifts cancel for
  one to seven octets and \<open>rshift_zero_loses_first_word\<close> what happens for none; \<open>Demo_Packet\<close> the class of \<open>packet.hpp\<close>
  that takes a header apart into words, with its round trip for every width.

  \<^bold>\<open>Host drivers.\<close> \<open>Drv_Pynq\<close> models the part of \<open>cclo.py\<close> that writes receive buffers and communicators into the
  exchange memory and shows that it establishes what the firmware's theorems suppose: the invariant \<open>rx_inv\<close> of the
  receive buffers, and \<open>comm_at\<close> and \<open>in_ring\<close> of a communicator. \<open>Drv_Xrt\<close> models the driver of \<open>src/driver/xrt\<close> as the list
  of register writes and calls it issues, and shows that they miss the exchange memory.

  \<^bold>\<open>Across machines.\<close> \<open>Net_Link\<close> follows a message from \<open>send\<close> in one firmware through packetizer and depacketizer
  to the buffer in which the firmware of the other rank finds it. This theory takes a call from the host kernel to the
  firmware and back.

  \<^bold>\<open>Machine integers.\<close> \<open>unsigned int\<close> and \<open>ap_uint<N>\<close> are words of their width; \<open>int\<close> is a 32-bit word compared
  with the signed order; comparisons of wide \<open>ap_int\<close> intermediates are comparisons of naturals. Bits that the
  source leaves uninitialised, shifts beyond the language and floating point addition are parameters.

  \<^bold>\<open>Bounds.\<close> No fuel is used: loops over hardware answers end because every answer of a register or stream
  costs time, and a wait that sees none ends by its own time-out counter, as in the code.

  \<^bold>\<open>Not modelled.\<close> \<open>update_program\<close> overwrites the processor's program memory and \<open>segment\<close> is never called.
  The GPIO base address comes from a generated header and is a parameter. The branch of \<open>tcp_rxHandler.cpp\<close>
  without rate control is not compiled. Of the streams' depth only the limits that decide whether a process
  can go on are kept. In \<open>axi_utils.hpp\<close>, printing is left out. Of the drivers, what is a call into the PYNQ or XRT library
  (loading a bitstream, allocating and synchronising buffers, starting kernels), and the checks and wrappers that only
  start a call, are left out; the device is a parameter where its answer matters. Test benches, build scripts and
  notebooks are not modelled.
\<close>

subsection \<open>From the host kernel to the firmware\<close>

lemma hostctrl_writes_call_words:
  "hostctrl_words (c_scenario c) (c_len c) (c_comm c) (c_root_src_dst c) (c_func c) (c_msg_tag c) (c_buf0_type c)
     (c_buf1_type c) (c_buf2_type c) (c_buf0_addr c) (c_buf1_addr c) (c_buf2_addr c) = call_words c"
  by (simp add: hostctrl_words_def call_words_def address_halves)

text \<open>C11: the words that \<open>hostctrl\<close> writes for its arguments, whether or not its status has come yet, arriving at the firmware with
whatever delays behind the first, are read back as exactly the call with those arguments, and no word beyond them is taken.\<close>

theorem host_call_received:
  assumes "hostctrl (c_scenario c) (c_len c) (c_comm c) (c_root_src_dst c) (c_func c) (c_msg_tag c) (c_buf0_type c)
       (c_buf1_type c) (c_buf2_type c) (c_buf0_addr c) (c_buf1_addr c) (c_buf2_addr c) sts = (ws, left)"
    and "length ds = 15" and "ds ! 0 = 0" and "stream_in s CMD_HOST = zip ds ws @ rest"
  shows "read_call s = Some (Ret c, s\<lparr>stream_in := (stream_in s)(CMD_HOST := rest), trace := trace s @ map (Got CMD_HOST) ws\<rparr>)"
proof -
  from assms(1) have ws: "ws = call_words c" by (simp add: hostctrl_def hostctrl_writes_call_words)
  with assms(2-4) have "offers s c rest" unfolding offers_def by blast
  from read_call_offered [OF this] show ?thesis by (simp only: ws)
qed

theorem host_call_received_witness:
  "\<exists>ws s. hostctrl XCCL_COPY 4096 0 0 0 0 0 0 0 0x10000 0x20000 0 [] = (ws, None) \<and>
     read_call s = Some (Ret copy_call, s\<lparr>stream_in := (stream_in s)(CMD_HOST := []), trace := trace s @ map (Got CMD_HOST) ws\<rparr>)"
proof -
  let ?ws = "hostctrl_words XCCL_COPY 4096 0 0 0 0 0 0 0 0x10000 0x20000 0"
  let ?s = "quiet\<lparr>stream_in := (\<lambda>_. [])(CMD_HOST := zip (replicate 15 0) ?ws)\<rparr>"
  have run: "hostctrl XCCL_COPY 4096 0 0 0 0 0 0 0 0x10000 0x20000 0 [] = (?ws, None)" by (simp add: hostctrl_def)
  have "read_call ?s = Some (Ret copy_call, ?s\<lparr>stream_in := (stream_in ?s)(CMD_HOST := []), trace := trace ?s @ map (Got CMD_HOST) ?ws\<rparr>)"
    by (rule host_call_received [where ds = "replicate 15 0" and sts = "[]" and left = None]) (simp_all add: copy_call_def run)
  with run show ?thesis by blast
qed

subsection \<open>A call from the host to its answer\<close>


text \<open>The example call on its way to quiet hardware.\<close>

definition copy_offered :: fw_state where
  "copy_offered = quiet\<lparr>stream_in := (\<lambda>_. [])(CMD_HOST := zip (replicate 15 0) (call_words copy_call))\<rparr>"

lemma copy_offered_offers: "offers copy_offered copy_call []"
  unfolding offers_def copy_offered_def by (rule exI [of _ "replicate 15 0"]) simp


end
